(* ===== verification/Prelude.thy ===== *)
theory Prelude
  imports Main "HOL-Library.AList" "HOL-Library.List_Lexorder" "HOL-Library.Char_ord"
    "HOL-Library.Multiset"
begin

text \<open>
  Shared vocabulary of the development: the parts of the JavaScript library that the client
  modules use, and the lemmas about them.

  \<^item> A JavaScript \<open>Map\<close> iterates in insertion order and keeps the position of a key that is set
    again.  It is an association list; \<open>map.set\<close> is \<^const>\<open>AList.update\<close>, \<open>map.delete\<close> is
    \<^const>\<open>AList.delete\<close> and \<open>map.get\<close> is \<^const>\<open>map_of\<close>.
  \<^item> A \<open>Set\<close> that is iterated is a distinct list in insertion order (\<open>set_add\<close>).
  \<^item> \<open>Array.prototype.sort\<close> is stable; \<open>js_sort\<close> is the stable insertion sort for a
    comparator.  The locale \<open>comparator\<close> states what a comparator must satisfy for the result
    to be determined by the comparator alone.
  \<^item> A string of the secure store is either the text of a JSON value or another text
    (\<open>stext\<close>); \<open>storage\<close> is the map of \<open>InMemorySecureStorage\<close> in \<open>keys/keystore.ts\<close>,
    and the locale \<open>secure_storage\<close> is the contract of the interface \<open>SecureStorage\<close>.
  \<^item> \<open>event\<close> is the signed Nostr event all components exchange.
\<close>

named_theorems storage_simps
named_theorems js_map_simps

section \<open>Definitions\<close>

subsection \<open>Arrays, maps and sets of JavaScript\<close>

definition at :: "'a list \<Rightarrow> nat \<Rightarrow> 'a option" where
  \<comment> \<open>\<open>xs[i]\<close>: \<open>undefined\<close> out of range\<close>
  "at xs i = (if i < length xs then Some (xs ! i) else None)"

definition js_slice :: "nat \<Rightarrow> nat \<Rightarrow> 'a list \<Rightarrow> 'a list" where
  \<comment> \<open>\<open>xs.slice(b, e)\<close> for indices that are not negative\<close>
  "js_slice b e xs = take (e - b) (drop b xs)"

definition set_add :: "'a \<Rightarrow> 'a list \<Rightarrow> 'a list" where
  \<comment> \<open>\<open>set.add(x)\<close> on a set iterated in insertion order\<close>
  "set_add x xs = (if x \<in> set xs then xs else xs @ [x])"

definition truthy :: "string option \<Rightarrow> bool" where
  \<comment> \<open>a string or \<open>undefined\<close> as a condition\<close>
  "truthy s = (s \<noteq> None \<and> s \<noteq> Some '''')"

definition sbind :: "'e + 'a \<Rightarrow> ('a \<Rightarrow> 'e + 'b) \<Rightarrow> 'e + 'b" where
  \<comment> \<open>sequencing of computations that may throw\<close>
  "sbind m f = (case m of Inl e \<Rightarrow> Inl e | Inr x \<Rightarrow> f x)"

subsection \<open>Sorting by a comparator\<close>

fun js_insort :: "('a \<Rightarrow> 'a \<Rightarrow> int) \<Rightarrow> 'a \<Rightarrow> 'a list \<Rightarrow> 'a list" where
  "js_insort cmp x [] = [x]"
| "js_insort cmp x (y # ys) = (if cmp x y \<le> 0 then x # y # ys else y # js_insort cmp x ys)"

definition js_sort :: "('a \<Rightarrow> 'a \<Rightarrow> int) \<Rightarrow> 'a list \<Rightarrow> 'a list" where
  "js_sort cmp xs = foldr (js_insort cmp) xs []"

definition str_cmp :: "string \<Rightarrow> string \<Rightarrow> int" where
  \<comment> \<open>\<open>a < b ? -1 : a > b ? 1 : 0\<close>\<close>
  "str_cmp a b = (if a < b then -1 else if b < a then 1 else 0)"

subsection \<open>JSON values and the secure store\<close>

datatype jsval =
    JNull
  | JBool bool
  | JNum int
  | JStr string
  | JArr "jsval list"
  | JObj "(string \<times> jsval) list"

datatype stext = Json jsval | Text string

definition js_prop :: "jsval \<Rightarrow> string \<Rightarrow> jsval option" where
  \<comment> \<open>\<open>v.k\<close> on a value other than \<open>null\<close>\<close>
  "js_prop v k = (case v of JObj kvs \<Rightarrow> map_of kvs k | _ \<Rightarrow> None)"

definition is_str :: "jsval option \<Rightarrow> bool" where
  "is_str v = (case v of Some (JStr _) \<Rightarrow> True | _ \<Rightarrow> False)"

definition is_num :: "jsval option \<Rightarrow> bool" where
  "is_num v = (case v of Some (JNum _) \<Rightarrow> True | _ \<Rightarrow> False)"

definition js_truthy :: "jsval option \<Rightarrow> bool" where
  "js_truthy v = (case v of None \<Rightarrow> False | Some JNull \<Rightarrow> False | Some (JBool b) \<Rightarrow> b
     | Some (JNum n) \<Rightarrow> n \<noteq> 0 | Some (JStr s) \<Rightarrow> s \<noteq> '''' | Some _ \<Rightarrow> True)"

type_synonym storage = "(string \<times> stext) list"

definition setItem :: "string \<Rightarrow> 'v \<Rightarrow> (string \<times> 'v) list \<Rightarrow> (string \<times> 'v) list" where
  "setItem k v st = AList.update k v st"

definition getItem :: "(string \<times> 'v) list \<Rightarrow> string \<Rightarrow> 'v option" where
  "getItem st k = map_of st k"

definition removeItem :: "string \<Rightarrow> (string \<times> 'v) list \<Rightarrow> (string \<times> 'v) list" where
  "removeItem k st = AList.delete k st"

subsection \<open>Events\<close>

record event =
  eid :: string
  pubkey :: string
  created_at :: int
  kind :: nat
  tags :: "string list list"
  content :: string

definition tag_is :: "string \<Rightarrow> string list \<Rightarrow> bool" where
  \<comment> \<open>\<open>t[0] === name\<close>\<close>
  "tag_is name t = (at t 0 = Some name)"

section \<open>Lemmas\<close>

lemma at_simps [simp]:
  "at [] i = None" "at (x # xs) 0 = Some x" "at (x # xs) (Suc i) = at xs i"
  by (simp_all add: at_def)

lemma sbind_simps [simp]: "sbind (Inl e) f = Inl e" "sbind (Inr x) f = f x"
  by (simp_all add: sbind_def)

lemma sbind_Inr_iff: "sbind m f = Inr y \<longleftrightarrow> (\<exists>x. m = Inr x \<and> f x = Inr y)"
  by (cases m) auto

lemma set_set_add [simp]: "set (set_add x xs) = insert x (set xs)"
  by (auto simp: set_add_def)

lemma distinct_set_add [simp]: "distinct xs \<Longrightarrow> distinct (set_add x xs)"
  by (auto simp: set_add_def)

lemma truthy_simps [simp]: "\<not> truthy None" "truthy (Some s) \<longleftrightarrow> s \<noteq> ''''"
  by (auto simp: truthy_def)

lemma truthyE: "truthy v \<Longrightarrow> (\<And>s. v = Some s \<Longrightarrow> s \<noteq> '''' \<Longrightarrow> P) \<Longrightarrow> P"
  by (cases v) auto

subsection \<open>Separators in storage keys\<close>

lemma sep_split:
  "c \<notin> set s \<Longrightarrow> c \<notin> set s' \<Longrightarrow> s @ c # x = s' @ c # y \<longleftrightarrow> s = s' \<and> x = y"
proof (induction s arbitrary: s')
  case Nil
  then show ?case by (cases s') auto
next
  case (Cons d s)
  then show ?case by (cases s') auto
qed

lemma sep_split_last:
  assumes "c \<notin> set x" and "c \<notin> set y"
  shows "s @ c # x = s' @ c # y \<longleftrightarrow> s = s' \<and> x = y"
proof -
  have "s @ c # x = s' @ c # y \<longleftrightarrow> rev x @ c # rev s = rev y @ c # rev s'"
    by (metis append.assoc append_Cons append_Nil rev.simps(2) rev_append rev_rev_ident)
  then show ?thesis using sep_split[of c "rev x" "rev y"] assms by auto
qed

subsection \<open>Insertion-ordered maps\<close>

lemma map_of_update [js_map_simps]: "map_of (AList.update k v m) = (map_of m)(k \<mapsto> v)"
  by (rule AList.update_conv')

lemma map_of_delete [js_map_simps]: "map_of (AList.delete k m) = (map_of m)(k := None)"
  by (rule AList.delete_conv')

lemma keys_update [js_map_simps]: "set (map fst (AList.update k v m)) = insert k (set (map fst m))"
  by (induction m) auto

lemma distinct_keys_update [js_map_simps]:
  "distinct (map fst m) \<Longrightarrow> distinct (map fst (AList.update k v m))"
  by (rule AList.distinct_update)

lemma distinct_keys_delete [js_map_simps]:
  "distinct (map fst m) \<Longrightarrow> distinct (map fst (AList.delete k m))"
  by (rule AList.distinct_delete)

lemma map_of_distinct_mem [js_map_simps]:
  "distinct (map fst m) \<Longrightarrow> map_of m k = Some v \<longleftrightarrow> (k, v) \<in> set m"
  by auto

lemma set_update_bucket: "x \<in> set (AList.update k v m) \<Longrightarrow> x = (k, v) \<or> x \<in> set m"
  by (induction m) (auto split: if_splits)

lemma values_update_new: "k \<notin> set (map fst m) \<Longrightarrow> AList.update k v m = m @ [(k, v)]"
  by (induction m) auto

subsection \<open>Sorting\<close>

lemma mset_js_insort [simp]: "mset (js_insort cmp x xs) = add_mset x (mset xs)"
  by (induction xs) auto

lemma mset_js_sort [simp]: "mset (js_sort cmp xs) = mset xs"
  by (induction xs) (auto simp: js_sort_def)

lemma set_js_insort [simp]: "set (js_insort cmp x xs) = insert x (set xs)"
  by (induction xs) auto

lemma set_js_sort [simp]: "set (js_sort cmp xs) = set xs"
  by (metis mset_js_sort set_mset_mset)

lemma length_js_sort [simp]: "length (js_sort cmp xs) = length xs"
  by (metis mset_js_sort size_mset)

lemma distinct_js_sort [simp]: "distinct (js_sort cmp xs) = distinct xs"
  by (metis mset_js_sort mset_eq_imp_distinct_iff)

lemma distinct_map_js_sort: "distinct (map f (js_sort cmp xs)) = distinct (map f xs)"
  by (metis mset_eq_imp_distinct_iff mset_js_sort mset_map)

lemma js_sort_Nil [simp]: "js_sort cmp [] = []"
  by (simp add: js_sort_def)

lemma js_sort_Cons: "js_sort cmp (x # xs) = js_insort cmp x (js_sort cmp xs)"
  by (simp add: js_sort_def)

lemma str_cmp_sym: "str_cmp b a = - str_cmp a b"
  by (auto simp: str_cmp_def)

lemma str_cmp_0 [simp]: "str_cmp a b = 0 \<longleftrightarrow> a = b"
  by (auto simp: str_cmp_def)

lemma str_cmp_le [simp]: "str_cmp a b \<le> 0 \<longleftrightarrow> a \<le> b"
  by (auto simp: str_cmp_def)

lemma str_cmp_neg [simp]: "str_cmp a b < 0 \<longleftrightarrow> a < b"
  by (auto simp: str_cmp_def)

text \<open>
  The contract of a comparator passed to \<open>sort\<close>.  Under it the sorted array is an ordered
  permutation, and where no two elements compare equal it does not depend on the input order.
\<close>

locale comparator =
  fixes cmp :: "'a \<Rightarrow> 'a \<Rightarrow> int"
  assumes cmp_total: "cmp x y \<le> 0 \<or> cmp y x \<le> 0"
    and cmp_trans: "cmp x y \<le> 0 \<Longrightarrow> cmp y z \<le> 0 \<Longrightarrow> cmp x z \<le> 0"
begin

lemma sorted_insort_cmp:
  "sorted_wrt (\<lambda>x y. cmp x y \<le> 0) xs \<Longrightarrow> sorted_wrt (\<lambda>x y. cmp x y \<le> 0) (js_insort cmp x xs)"
proof (induction xs)
  case Nil
  then show ?case by simp
next
  case (Cons y ys)
  show ?case
  proof (cases "cmp x y \<le> 0")
    case True
    with Cons.prems show ?thesis by (auto intro: cmp_trans)
  next
    case False
    then have "cmp y x \<le> 0" using cmp_total by blast
    with False Cons show ?thesis by auto
  qed
qed

lemma sorted_js_sort: "sorted_wrt (\<lambda>x y. cmp x y \<le> 0) (js_sort cmp xs)"
  by (induction xs) (auto simp: js_sort_Cons sorted_insort_cmp)

lemma sorted_unique:
  assumes "mset xs = mset ys"
    and "sorted_wrt (\<lambda>x y. cmp x y \<le> 0) xs" and "sorted_wrt (\<lambda>x y. cmp x y \<le> 0) ys"
    and "\<And>x y. x \<in> set xs \<Longrightarrow> y \<in> set xs \<Longrightarrow> cmp x y \<le> 0 \<Longrightarrow> cmp y x \<le> 0 \<Longrightarrow> x = y"
  shows "xs = ys"
  using assms
proof (induction xs arbitrary: ys)
  case Nil
  then show ?case by simp
next
  case (Cons x xs)
  then obtain y ys' where ys: "ys = y # ys'"
    by (cases ys) auto
  have set_eq: "set (x # xs) = set ys"
    using Cons.prems(1) by (metis set_mset_mset)
  have "cmp x y \<le> 0"
    using Cons.prems(2) set_eq ys cmp_total[of x x] by (metis list.set_intros(1) set_ConsD sorted_wrt.simps(2))
  moreover have "cmp y x \<le> 0"
    using Cons.prems(3) set_eq ys cmp_total[of x x] by (metis list.set_intros(1) set_ConsD sorted_wrt.simps(2))
  ultimately have xy: "x = y"
    using Cons.prems(4)[of x y] set_eq ys by auto
  have "xs = ys'"
    using Cons.prems xy ys by (intro Cons.IH) auto
  with xy ys show ?case by simp
qed

lemma js_sort_unique:
  assumes "mset xs = mset ys"
    and "\<And>x y. x \<in> set xs \<Longrightarrow> y \<in> set xs \<Longrightarrow> cmp x y \<le> 0 \<Longrightarrow> cmp y x \<le> 0 \<Longrightarrow> x = y"
  shows "js_sort cmp xs = js_sort cmp ys"
  using assms by (intro sorted_unique) (auto simp: sorted_js_sort)

lemma js_sort_id: "sorted_wrt (\<lambda>x y. cmp x y \<le> 0) xs \<Longrightarrow> js_sort cmp xs = xs"
proof (induction xs)
  case (Cons x xs)
  then show ?case by (cases xs) (auto simp: js_sort_Cons)
qed simp

lemma filter_js_insort:
  "sorted_wrt (\<lambda>x y. cmp x y \<le> 0) xs \<Longrightarrow>
   filter P (js_insort cmp x xs) = (if P x then js_insort cmp x (filter P xs) else filter P xs)"
proof (induction xs)
  case (Cons y ys)
  have "js_insort cmp x (filter P ys) = x # filter P ys" if "cmp x y \<le> 0"
  proof (cases "filter P ys")
    case (Cons z zs)
    then have "z \<in> set (filter P ys)" by simp
    then have "cmp x z \<le> 0" using that \<open>sorted_wrt (\<lambda>x y. cmp x y \<le> 0) (y # ys)\<close> by (auto intro: cmp_trans)
    with Cons show ?thesis by simp
  qed simp
  with Cons show ?case by auto
qed simp

lemma filter_js_sort: "filter P (js_sort cmp xs) = js_sort cmp (filter P xs)"
  by (induction xs) (auto simp: js_sort_Cons filter_js_insort sorted_js_sort)

lemma hd_js_sort_least:
  "xs \<noteq> [] \<Longrightarrow> y \<in> set xs \<Longrightarrow> cmp (hd (js_sort cmp xs)) y \<le> 0"
  using sorted_js_sort[of xs] cmp_total[of y y]
  by (cases "js_sort cmp xs") (auto simp flip: set_js_sort[of cmp xs])

end

lemma comparator_of_key:
  "comparator (\<lambda>x y. f x - (f y :: int))"
  by unfold_locales auto

subsection \<open>The secure store\<close>

text \<open>
  What the clients of \<open>SecureStorage\<close> rely on: a read returns the last value written under the
  key and nothing after a removal, and writes under other keys are not seen.
\<close>

locale secure_storage =
  fixes get :: "'s \<Rightarrow> string \<Rightarrow> 'v option"
    and put :: "string \<Rightarrow> 'v \<Rightarrow> 's \<Rightarrow> 's"
    and del :: "string \<Rightarrow> 's \<Rightarrow> 's"
  assumes get_put: "get (put k v s) j = (if j = k then Some v else get s j)"
    and get_del: "get (del k s) j = (if j = k then None else get s j)"
begin

definition same_except :: "string set \<Rightarrow> 's \<Rightarrow> 's \<Rightarrow> bool" where
  "same_except K s s' \<longleftrightarrow> (\<forall>j. j \<notin> K \<longrightarrow> get s' j = get s j)"

lemma same_except_refl: "same_except K s s"
  by (simp add: same_except_def)

lemma same_except_trans: "same_except K s t \<Longrightarrow> same_except K t u \<Longrightarrow> same_except K s u"
  by (simp add: same_except_def)

lemma same_except_put: "k \<in> K \<Longrightarrow> same_except K s t \<Longrightarrow> same_except K s (put k v t)"
  by (auto simp: same_except_def get_put)

lemma same_except_del: "k \<in> K \<Longrightarrow> same_except K s t \<Longrightarrow> same_except K s (del k t)"
  by (auto simp: same_except_def get_del)

end

interpretation mem: secure_storage getItem setItem removeItem
  by unfold_locales (auto simp: getItem_def setItem_def removeItem_def js_map_simps)

lemmas mem_frame = mem.same_except_refl mem.same_except_put mem.same_except_del

declare mem.get_put [storage_simps] mem.get_del [storage_simps]

end
