(* ===== verification/Encoding.thy ===== *)
theory Encoding
  imports Prelude "HOL-Library.Word"
begin

text \<open>
  The codecs of \<open>client/src/util\<close>: \<open>base64.ts\<close>, \<open>hex.ts\<close> and \<open>utf8.ts\<close>.

  A byte of a \<open>Uint8Array\<close> is an \<open>8 word\<close>.  The base64 decoder shifts a JavaScript 32-bit integer
  left without masking it, so its accumulator is a \<open>32 word\<close> that overflows.  The UTF-8 codec
  works on UTF-16 code units, which are integers here, because the code subtracts from them and
  shifts the possibly negative result; \<open>String.fromCharCode\<close> and \<open>new Uint8Array\<close> reduce modulo
  \<open>2^16\<close> and \<open>2^8\<close>.  A thrown error is \<open>Inl\<close>.
\<close>

unbundle bit_operations_syntax

type_synonym u8 = "8 word"
type_synonym i32 = "32 word"

section \<open>Definitions\<close>

datatype codec_error = InvalidBase64 | OddHexLength | NonHexCharacter

subsection \<open>base64.ts\<close>

definition ALPHABET :: string where
  "ALPHABET = ''ABCDEFGHIJKLMNOPQRSTUVWXYZabcdefghijklmnopqrstuvwxyz0123456789+/''"

definition REVERSE :: "char \<Rightarrow> nat option" where
  \<comment> \<open>the reverse table; \<open>-1\<close> is \<^const>\<open>None\<close>\<close>
  "REVERSE c = map_of (zip ALPHABET [0..<64]) c"

definition b64_char :: "i32 \<Rightarrow> char" where
  "b64_char w = ALPHABET ! unat w"

definition b64_group :: "u8 \<Rightarrow> u8 option \<Rightarrow> u8 option \<Rightarrow> string" where
  \<comment> \<open>one pass of the loop of \<open>bytesToBase64\<close>: three bytes, the last two possibly missing\<close>
  "b64_group b0 b1 b2 =
     (let triplet = push_bit 16 (ucast b0) OR
            push_bit 8 (case b1 of None \<Rightarrow> 0 | Some b \<Rightarrow> ucast b) OR
            (case b2 of None \<Rightarrow> 0 | Some b \<Rightarrow> ucast b) :: i32
      in [b64_char (drop_bit 18 triplet AND 63),
          b64_char (drop_bit 12 triplet AND 63),
          if b1 = None then CHR ''='' else b64_char (drop_bit 6 triplet AND 63),
          if b2 = None then CHR ''='' else b64_char (triplet AND 63)])"

fun bytesToBase64 :: "u8 list \<Rightarrow> string" where
  "bytesToBase64 [] = []"
| "bytesToBase64 [b0] = b64_group b0 None None"
| "bytesToBase64 [b0, b1] = b64_group b0 (Some b1) None"
| "bytesToBase64 (b0 # b1 # b2 # bs) = b64_group b0 (Some b1) (Some b2) @ bytesToBase64 bs"

fun b64_loop :: "i32 \<Rightarrow> nat \<Rightarrow> string \<Rightarrow> codec_error + u8 list" where
  \<comment> \<open>the loop of \<open>base64ToBytes\<close> over the state \<open>acc\<close>, \<open>bits\<close>\<close>
  "b64_loop acc bits [] = Inr []"
| "b64_loop acc bits (c # cs) =
     (case REVERSE c of
        None \<Rightarrow> Inl InvalidBase64
      | Some idx \<Rightarrow>
          (let acc = push_bit 6 acc OR of_nat idx; bits = bits + 6
           in if 8 \<le> bits
              then map_sum id ((#) (ucast (signed_drop_bit (bits - 8) acc AND 255)))
                     (b64_loop acc (bits - 8) cs)
              else b64_loop acc bits cs))"

definition base64ToBytes :: "string \<Rightarrow> codec_error + u8 list" where
  "base64ToBytes b64 = b64_loop 0 0 (rev (dropWhile (\<lambda>c. c = CHR ''='') (rev b64)))"

subsection \<open>hex.ts\<close>

definition hex_digit :: "nat \<Rightarrow> char" where
  "hex_digit n = ''0123456789abcdef'' ! n"

definition toString16 :: "nat \<Rightarrow> string" where
  \<comment> \<open>\<open>b.toString(16)\<close> for a byte\<close>
  "toString16 n = (if n < 16 then [hex_digit n] else [hex_digit (n div 16), hex_digit (n mod 16)])"

definition padStart :: "nat \<Rightarrow> char \<Rightarrow> string \<Rightarrow> string" where
  "padStart n c s = replicate (n - length s) c @ s"

definition bytesToHex :: "u8 list \<Rightarrow> string" where
  "bytesToHex bytes = concat (map (\<lambda>b. padStart 2 (CHR ''0'') (toString16 (unat b))) bytes)"

definition hex_val :: "char \<Rightarrow> nat option" where
  "hex_val c = map_of (zip ''0123456789abcdefABCDEF'' ([0..<16] @ [10..<16])) c"

definition units :: "string \<Rightarrow> int list" where
  \<comment> \<open>the 16-bit code units of a text below 256\<close>
  "units s = map of_char s"

definition js_space :: "char \<Rightarrow> bool" where
  "js_space c = (of_char c \<in> {9, 10, 11, 12, 13, 32, 160 :: nat})"

definition parseInt16 :: "string \<Rightarrow> int option" where
  \<comment> \<open>\<open>Number.parseInt(s, 16)\<close>: blanks, a sign and a \<open>0x\<close> prefix are skipped, then the longest
      prefix of hexadecimal digits is read; \<open>NaN\<close> (here \<^const>\<open>None\<close>) when there is none\<close>
  "parseInt16 s =
     (let s = dropWhile js_space s;
          neg = (at s 0 = Some (CHR ''-''));
          s = (if at s 0 = Some (CHR ''-'') \<or> at s 0 = Some (CHR ''+'') then drop 1 s else s);
          s = (if at s 0 = Some (CHR ''0'') \<and> (at s 1 = Some (CHR ''x'') \<or> at s 1 = Some (CHR ''X''))
               then drop 2 s else s);
          ds = takeWhile (\<lambda>c. hex_val c \<noteq> None) s;
          n = foldl (\<lambda>a c. 16 * a + int (the (hex_val c))) 0 ds
      in if ds = [] then None else Some (if neg then - n else n))"

fun hex_loop :: "string \<Rightarrow> codec_error + u8 list" where
  "hex_loop (c # d # cs) =
     (case parseInt16 [c, d] of
        None \<Rightarrow> Inl NonHexCharacter
      | Some byte \<Rightarrow> map_sum id ((#) (word_of_int byte)) (hex_loop cs))"
| "hex_loop _ = Inr []"

definition hexToBytes :: "string \<Rightarrow> codec_error + u8 list" where
  "hexToBytes hex = (if odd (length hex) then Inl OddHexLength else hex_loop hex)"

definition js_trim :: "string \<Rightarrow> string" where
  \<comment> \<open>\<open>s.trim()\<close>\<close>
  "js_trim s = rev (dropWhile js_space (rev (dropWhile js_space s)))"

definition lower_char :: "char \<Rightarrow> char" where
  "lower_char c =
     (let n = of_char c :: nat in
      if (65 \<le> n \<and> n \<le> 90) \<or> (192 \<le> n \<and> n \<le> 222 \<and> n \<noteq> 215) then char_of (n + 32) else c)"

definition toLowerCase :: "string \<Rightarrow> string" where
  "toLowerCase s = map lower_char s"

fun indexOf :: "string \<Rightarrow> string \<Rightarrow> int" where
  \<comment> \<open>\<open>s.indexOf(pat)\<close>, arguments in the other order\<close>
  "indexOf pat [] = (if pat = [] then 0 else - 1)"
| "indexOf pat (c # s) =
     (if take (length pat) (c # s) = pat then 0
      else let i = indexOf pat s in if i = - 1 then - 1 else i + 1)"

definition endsWith :: "string \<Rightarrow> string \<Rightarrow> bool" where
  "endsWith s suf \<longleftrightarrow> length suf \<le> length s \<and> drop (length s - length suf) s = suf"

fun js_dec :: "nat \<Rightarrow> string" where
  \<comment> \<open>\<open>String(n)\<close>\<close>
  "js_dec n = (if n < 10 then [hex_digit n] else js_dec (n div 10) @ [hex_digit (n mod 10)])"

declare js_dec.simps [simp del]

subsection \<open>utf8.ts\<close>

function utf8_units :: "int list \<Rightarrow> int list" where
  \<comment> \<open>the loop of \<open>utf8Decode\<close> over the remaining bytes, producing code units\<close>
  "utf8_units bs =
     (case bs of
        [] \<Rightarrow> []
      | b0 # r \<Rightarrow>
          if b0 < 0x80 then b0 # utf8_units r
          else if b0 \<ge> 0xc0 \<and> b0 < 0xe0 \<and> r \<noteq> [] then
            (push_bit 6 (b0 AND 0x1f) OR (r ! 0 AND 0x3f)) # utf8_units (drop 1 r)
          else if b0 \<ge> 0xe0 \<and> b0 < 0xf0 \<and> 1 < length r then
            (push_bit 12 (b0 AND 0x0f) OR push_bit 6 (r ! 0 AND 0x3f) OR (r ! 1 AND 0x3f))
              # utf8_units (drop 2 r)
          else if b0 \<ge> 0xf0 \<and> 2 < length r then
            (let cp = (push_bit 18 (b0 AND 0x07) OR push_bit 12 (r ! 0 AND 0x3f) OR
                       push_bit 6 (r ! 1 AND 0x3f) OR (r ! 2 AND 0x3f)) - 0x10000
             in (0xd800 + drop_bit 10 cp) # (0xdc00 + (cp AND 0x3ff)) # utf8_units (drop 3 r))
          else 0xfffd # utf8_units r)"
  by pat_completeness auto
termination
  by (relation "measure length") auto

definition utf8Decode :: "u8 list \<Rightarrow> int list" where
  \<comment> \<open>\<open>String.fromCharCode\<close> reduces each unit modulo \<open>2^16\<close>\<close>
  "utf8Decode bytes = map (take_bit 16) (utf8_units (map uint bytes))"

definition utf8_seq :: "int \<Rightarrow> int list" where
  \<comment> \<open>the bytes \<open>utf8Encode\<close> pushes for one code point\<close>
  "utf8_seq cp =
     (if cp < 0x80 then [cp]
      else if cp < 0x800 then [0xc0 OR drop_bit 6 cp, 0x80 OR (cp AND 0x3f)]
      else if cp < 0x10000 then
        [0xe0 OR drop_bit 12 cp, 0x80 OR (drop_bit 6 cp AND 0x3f), 0x80 OR (cp AND 0x3f)]
      else [0xf0 OR drop_bit 18 cp, 0x80 OR (drop_bit 12 cp AND 0x3f),
            0x80 OR (drop_bit 6 cp AND 0x3f), 0x80 OR (cp AND 0x3f)])"

fun utf8_bytes :: "int list \<Rightarrow> int list" where
  "utf8_bytes [] = []"
| "utf8_bytes [cp] = utf8_seq cp"
| "utf8_bytes (cp # lo # s) =
     (if cp \<ge> 0xd800 \<and> cp \<le> 0xdbff
      then utf8_seq (0x10000 + push_bit 10 (cp - 0xd800) + (lo - 0xdc00)) @ utf8_bytes s
      else utf8_seq cp @ utf8_bytes (lo # s))"

definition utf8Encode :: "int list \<Rightarrow> u8 list" where
  "utf8Encode text = map word_of_int (utf8_bytes text)"

fun paired :: "int list \<Rightarrow> bool" where
  \<comment> \<open>code units in which every high surrogate that has a successor is followed by a low one\<close>
  "paired [] = True"
| "paired [u] = (0 \<le> u \<and> u < 0x10000)"
| "paired (u # lo # s) =
     (if u \<ge> 0xd800 \<and> u \<le> 0xdbff then 0xdc00 \<le> lo \<and> lo \<le> 0xdfff \<and> paired s
      else 0 \<le> u \<and> u < 0x10000 \<and> paired (lo # s))"

section \<open>base64: the decoder inverts the encoder\<close>

lemma and_63: "(x :: i32) AND 63 = take_bit 6 x"
  by (simp add: take_bit_eq_mask mask_eq_exp_minus_1)

lemma and_255: "(x :: i32) AND 255 = take_bit 8 x"
  by (simp add: take_bit_eq_mask mask_eq_exp_minus_1)

lemma bit_u8_lt: "bit (b :: u8) n \<Longrightarrow> n < 8"
  using bit_imp_le_length by force

text \<open>The triplet of a group and its four six-bit digits, kept folded in the proofs.\<close>

definition triple :: "u8 \<Rightarrow> u8 \<Rightarrow> u8 \<Rightarrow> i32" where
  "triple b0 b1 b2 = push_bit 16 (ucast b0) OR push_bit 8 (ucast b1) OR ucast b2"

definition sextet :: "nat \<Rightarrow> i32 \<Rightarrow> i32" where
  "sextet k t = take_bit 6 (drop_bit k t)"

definition shift_in :: "i32 \<Rightarrow> i32 \<Rightarrow> i32" where
  "shift_in acc s = push_bit 6 acc OR s"

lemma b64_group_sextets:
  "b64_group b0 b1 b2 =
     (let t = triple b0 (case b1 of None \<Rightarrow> 0 | Some b \<Rightarrow> b) (case b2 of None \<Rightarrow> 0 | Some b \<Rightarrow> b)
      in [b64_char (sextet 18 t), b64_char (sextet 12 t),
          if b1 = None then CHR ''='' else b64_char (sextet 6 t),
          if b2 = None then CHR ''='' else b64_char (sextet 0 t)])"
  by (auto simp: b64_group_def triple_def sextet_def Let_def and_63 split: option.splits)

lemma ALPHABET_length [simp]: "length ALPHABET = 64"
  by (simp add: ALPHABET_def)

lemma ALPHABET_distinct: "distinct ALPHABET"
  by (simp add: ALPHABET_def)

lemma ALPHABET_no_pad: "CHR ''='' \<notin> set ALPHABET"
  by (simp add: ALPHABET_def)

lemma REVERSE_ALPHABET: "i < 64 \<Longrightarrow> REVERSE (ALPHABET ! i) = Some i"
  unfolding REVERSE_def
  by (rule map_of_is_SomeI) (auto simp: ALPHABET_distinct in_set_zip)

lemma unat_sextet: "unat (sextet k t) < 64"
  by (simp add: sextet_def unsigned_take_bit_eq take_bit_nat_less_exp[of 6, simplified])

lemma REVERSE_b64_char: "REVERSE (b64_char (sextet k t)) = Some (unat (sextet k t))"
  by (simp add: b64_char_def REVERSE_ALPHABET unat_sextet)

lemma b64_char_not_pad: "b64_char (sextet k t) \<noteq> CHR ''=''"
  using ALPHABET_no_pad unat_sextet[of k t] nth_mem[of _ ALPHABET]
  by (metis ALPHABET_length b64_char_def)

lemma b64_loop_sextet:
  "b64_loop acc bits (b64_char (sextet k t) # cs) =
     (let acc = shift_in acc (sextet k t); bits = bits + 6
      in if 8 \<le> bits
         then map_sum id ((#) (ucast (take_bit 8 (signed_drop_bit (bits - 8) acc))))
                (b64_loop acc (bits - 8) cs)
         else b64_loop acc bits cs)"
  by (simp add: REVERSE_b64_char and_255 shift_in_def Let_def)

lemma Suc_Suc_minus: "\<not> n < 2 \<Longrightarrow> Suc (Suc (n - 2)) = n"
  by simp

lemma triplet_byte0:
  "ucast (take_bit 8 (signed_drop_bit 4
     (shift_in (shift_in acc (sextet 18 (triple b0 b1 b2))) (sextet 12 (triple b0 b1 b2))))) = b0"
  unfolding triple_def sextet_def shift_in_def
  by (rule bit_word_eqI) (auto simp: bit_simps Suc_Suc_minus dest: bit_u8_lt)

lemma triplet_byte1:
  "ucast (take_bit 8 (signed_drop_bit 2
     (shift_in (shift_in acc (sextet 12 (triple b0 b1 b2))) (sextet 6 (triple b0 b1 b2))))) = b1"
  unfolding triple_def sextet_def shift_in_def
  by (rule bit_word_eqI) (auto simp: bit_simps dest: bit_u8_lt)

lemma triplet_byte2:
  "ucast (take_bit 8 (signed_drop_bit 0
     (shift_in (shift_in acc (sextet 6 (triple b0 b1 b2))) (sextet 0 (triple b0 b1 b2))))) = b2"
  unfolding triple_def sextet_def shift_in_def
  by (rule bit_word_eqI) (auto simp: bit_simps dest: bit_u8_lt)

lemmas b64_step = b64_group_sextets Let_def b64_loop_sextet b64_char_not_pad
  triplet_byte0 triplet_byte1 triplet_byte2[simplified]

definition b64_core :: "u8 list \<Rightarrow> string" where
  \<comment> \<open>the encoding without its padding\<close>
  "b64_core bs = filter (\<lambda>c. c \<noteq> CHR ''='') (bytesToBase64 bs)"

lemma b64_core_simps:
  "b64_core [] = []"
  "b64_core [b0] = take 2 (b64_group b0 (Some 0) (Some 0))"
  "b64_core [b0, b1] = take 3 (b64_group b0 (Some b1) (Some 0))"
  "b64_core (b0 # b1 # b2 # bs) = b64_group b0 (Some b1) (Some b2) @ b64_core bs"
  by (simp_all add: b64_core_def b64_step)

lemma b64_loop_group:
  "\<exists>acc'. b64_loop acc 0 (b64_group b0 (Some b1) (Some b2) @ cs) =
     map_sum id (\<lambda>r. b0 # b1 # b2 # r) (b64_loop acc' 0 cs)"
  by (rule exI) (simp add: b64_step sum.map_comp comp_def id_def del: b64_loop.simps)

lemma b64_loop_core: "b64_loop acc 0 (b64_core bs) = Inr bs"
proof (induction bs arbitrary: acc rule: bytesToBase64.induct)
  case (4 b0 b1 b2 bs)
  obtain acc' where "b64_loop acc 0 (b64_group b0 (Some b1) (Some b2) @ b64_core bs) =
      map_sum id (\<lambda>r. b0 # b1 # b2 # r) (b64_loop acc' 0 (b64_core bs))"
    using b64_loop_group by blast
  with 4 show ?case by (simp add: b64_core_simps)
qed (simp_all add: b64_core_simps b64_step del: b64_loop.simps(2))

lemma bytesToBase64_padded: "\<exists>k. bytesToBase64 bs = b64_core bs @ replicate k (CHR ''='')"
proof (induction bs rule: bytesToBase64.induct)
  case 1
  show ?case by (simp add: b64_core_def)
next
  case (2 b0)
  show ?case
    by (rule exI[of _ 2])
      (simp add: b64_core_def b64_step numeral_2_eq_2)
next
  case (3 b0 b1)
  show ?case
    by (rule exI[of _ 1]) (simp add: b64_core_def b64_step)
next
  case (4 b0 b1 b2 bs)
  then show ?case by (auto simp: b64_core_simps)
qed

lemma dropWhile_replicate: "P c \<Longrightarrow> dropWhile P (replicate k c @ xs) = dropWhile P xs"
  by (induction k) auto

lemma strip_padding:
  "CHR ''='' \<notin> set s \<Longrightarrow>
   rev (dropWhile (\<lambda>c. c = CHR ''='') (rev (s @ replicate k (CHR ''='')))) = s"
  by (cases s rule: rev_cases) (auto simp: dropWhile_replicate)

lemma base64ToBytes_inverse [simp]: "base64ToBytes (bytesToBase64 bs) = Inr bs"
proof -
  obtain k where k: "bytesToBase64 bs = b64_core bs @ replicate k (CHR ''='')"
    using bytesToBase64_padded by blast
  have "CHR ''='' \<notin> set (b64_core bs)"
    by (simp add: b64_core_def)
  then show ?thesis
    by (simp add: base64ToBytes_def k strip_padding b64_loop_core del: rev_append)
qed

text \<open>
  Decoding an encoded byte string returns it, for every length: the 32-bit accumulator of the
  decoder overflows, but the overflow never reaches the eight bits it extracts.
\<close>

theorem base64_roundtrip: "base64ToBytes (bytesToBase64 bs) = Inr bs"
  by (rule base64ToBytes_inverse)

lemma bytesToBase64_inject [simp]: "bytesToBase64 a = bytesToBase64 b \<longleftrightarrow> a = b"
  by (metis base64ToBytes_inverse sum.inject(2))

lemma length_bytesToBase64: "length (bytesToBase64 bs) = 4 * ((length bs + 2) div 3)"
  by (induction bs rule: bytesToBase64.induct) (simp_all add: b64_group_def Let_def, presburger)

section \<open>hex\<close>

lemma hex_val_digit: "n < 16 \<Longrightarrow> hex_val (hex_digit n) = Some n"
proof -
  have "\<forall>n \<in> set [0..<16]. hex_val (hex_digit n) = Some n"
    by (simp add: hex_val_def hex_digit_def upt_rec)
  then show "n < 16 \<Longrightarrow> hex_val (hex_digit n) = Some n" by simp
qed

lemma hex_digit_plain:
  assumes "n < 16"
  shows "\<not> js_space (hex_digit n)" "hex_digit n \<noteq> CHR ''-''" "hex_digit n \<noteq> CHR ''+''"
    "hex_digit n \<noteq> CHR ''x''" "hex_digit n \<noteq> CHR ''X''"
proof -
  have "\<forall>n \<in> set [0..<16]. \<not> js_space (hex_digit n) \<and> hex_digit n \<noteq> CHR ''-'' \<and>
      hex_digit n \<noteq> CHR ''+'' \<and> hex_digit n \<noteq> CHR ''x'' \<and> hex_digit n \<noteq> CHR ''X''"
    by (simp add: js_space_def hex_digit_def upt_rec)
  with assms show "\<not> js_space (hex_digit n)" "hex_digit n \<noteq> CHR ''-''" "hex_digit n \<noteq> CHR ''+''"
    "hex_digit n \<noteq> CHR ''x''" "hex_digit n \<noteq> CHR ''X''" by auto
qed

lemma parseInt16_digits:
  "a < 16 \<Longrightarrow> b < 16 \<Longrightarrow> parseInt16 [hex_digit a, hex_digit b] = Some (int (16 * a + b))"
  by (simp add: parseInt16_def hex_digit_plain hex_val_digit at_def Let_def)

lemma padded_hex:
  "n < 256 \<Longrightarrow> padStart 2 (CHR ''0'') (toString16 n) = [hex_digit (n div 16), hex_digit (n mod 16)]"
  by (simp add: padStart_def toString16_def hex_digit_def)

lemma unat_u8_lt: "unat (b :: u8) < 256"
  using unsigned_less[of b, where 'a = nat] by simp

lemma bytesToHex_simps:
  "bytesToHex [] = []"
  "bytesToHex (b # bs) = hex_digit (unat b div 16) # hex_digit (unat b mod 16) # bytesToHex bs"
  by (simp_all add: bytesToHex_def padded_hex unat_u8_lt)

lemma length_bytesToHex [simp]: "length (bytesToHex bs) = 2 * length bs"
  by (induction bs) (auto simp: bytesToHex_simps)

lemma hex_loop_bytesToHex: "hex_loop (bytesToHex bs) = Inr bs"
proof (induction bs)
  case (Cons b bs)
  have "unat b div 16 < 16" using unat_u8_lt[of b] by auto
  moreover have "(word_of_int (int (16 * (unat b div 16) + unat b mod 16)) :: u8) = b"
    by (simp only: mult_div_mod_eq) simp
  ultimately show ?case
    using Cons by (simp add: bytesToHex_simps parseInt16_digits)
qed (simp add: bytesToHex_simps)

text \<open>
  Hex decoding inverts hex encoding.
\<close>

lemma hex_roundtrip [simp]: "hexToBytes (bytesToHex bs) = Inr bs"
  by (simp add: hexToBytes_def hex_loop_bytesToHex)

lemma hex_digit_no_colon: "n < 16 \<Longrightarrow> hex_digit n \<noteq> CHR '':''"
proof -
  have "\<forall>n \<in> set [0..<16]. hex_digit n \<noteq> CHR '':''"
    by (simp add: hex_digit_def upt_rec)
  then show "n < 16 \<Longrightarrow> hex_digit n \<noteq> CHR '':''" by auto
qed

lemma bytesToHex_no_colon: "CHR '':'' \<notin> set (bytesToHex bs)"
proof (induction bs)
  case (Cons b bs)
  have "unat b div 16 < 16" "unat b mod 16 < 16" using unat_u8_lt[of b] by auto
  then show ?case using Cons hex_digit_no_colon by (auto simp: bytesToHex_simps dest: sym)
qed (simp add: bytesToHex_simps)

lemma js_trim_id: "s = [] \<or> (\<not> js_space (hd s) \<and> \<not> js_space (last s)) \<Longrightarrow> js_trim s = s"
proof (cases "s = []")
  case False
  assume "s = [] \<or> (\<not> js_space (hd s) \<and> \<not> js_space (last s))"
  with False have a: "\<not> js_space (hd s)" "\<not> js_space (last s)" by auto
  from a(1) False have "dropWhile js_space s = s" by (cases s) auto
  moreover from a(2) False have "dropWhile js_space (rev s) = rev s"
    by (cases "rev s") (auto simp: hd_rev [symmetric])
  ultimately show ?thesis by (simp add: js_trim_def)
qed (simp add: js_trim_def)

lemma js_dec_digit: "c \<in> set (js_dec n) \<Longrightarrow> \<exists>d < 10. c = hex_digit d"
proof (induction n rule: js_dec.induct)
  case (1 n)
  show ?case
  proof (cases "n < 10")
    case True
    then have "js_dec n = [hex_digit n]" by (subst js_dec.simps) simp
    with 1(2) True show ?thesis by auto
  next
    case False
    then have "js_dec n = js_dec (n div 10) @ [hex_digit (n mod 10)]" by (subst js_dec.simps) simp
    then have "c \<in> set (js_dec (n div 10)) \<or> c = hex_digit (n mod 10)" using 1(2) by auto
    moreover have "n mod 10 < 10" by simp
    ultimately show ?thesis using 1(1)[OF False] by blast
  qed
qed

lemma js_dec_no_colon: "CHR '':'' \<notin> set (js_dec n)"
proof
  assume "CHR '':'' \<in> set (js_dec n)"
  then obtain d where "d < 10" "CHR '':'' = hex_digit d" using js_dec_digit by blast
  then show False using hex_digit_no_colon[of d] by simp
qed

lemma hex_digit_inject: "a < 16 \<Longrightarrow> b < 16 \<Longrightarrow> hex_digit a = hex_digit b \<Longrightarrow> a = b"
  by (metis hex_val_digit option.inject)

lemma js_dec_inject: "js_dec m = js_dec n \<Longrightarrow> m = n"
proof (induction m arbitrary: n rule: js_dec.induct)
  case (1 m)
  have small: "k < 10 \<Longrightarrow> js_dec k = [hex_digit k]" for k by (subst js_dec.simps) simp
  have big: "\<not> k < 10 \<Longrightarrow> js_dec k = js_dec (k div 10) @ [hex_digit (k mod 10)]" for k by (subst js_dec.simps) simp
  have ne: "js_dec k \<noteq> []" for k by (cases "k < 10") (simp_all add: small big)
  have len: "length (js_dec k) = 1 \<longleftrightarrow> k < 10" for k
    using ne[of "k div 10"] by (cases "k < 10") (simp_all add: small big)
  show ?case
  proof (cases "m < 10")
    case True
    then have "n < 10" using 1(2) len by metis
    with True 1(2) show ?thesis by (auto simp: small intro: hex_digit_inject)
  next
    case False
    then have n: "\<not> n < 10" using 1(2) len by metis
    have "js_dec (m div 10) = js_dec (n div 10)" "hex_digit (m mod 10) = hex_digit (n mod 10)"
      using 1(2) big[OF False] big[OF n] by auto
    then have "m div 10 = n div 10" "m mod 10 = n mod 10"
      using 1(1)[OF False] hex_digit_inject[of "m mod 10" "n mod 10"] by auto
    then show ?thesis by (metis div_mult_mod_eq)
  qed
qed

text \<open>
  The decoder does not reject every string with a character that is no hexadecimal digit,
  although its error is named after that: \<open>parseInt\<close> reads the longest prefix of digits, skips a
  blank and accepts a sign, so a bad second character is dropped, a bad first one may be, and
  \<open>-1\<close> becomes the byte 255.
\<close>

theorem hexToBytes_accepts_non_hex:
  "hexToBytes ''1g'' = Inr [1] \<and> hexToBytes '' 7'' = Inr [7] \<and> hexToBytes ''-1'' = Inr [255]
   \<and> hexToBytes ''g1'' = Inl NonHexCharacter"
  by (simp add: hexToBytes_def parseInt16_def hex_val_def js_space_def upt_rec Let_def)

section \<open>UTF-8\<close>

text \<open>The bit operations of the codec as arithmetic.\<close>

lemma mask_arith [simp]:
  fixes x :: int
  shows "x AND 31 = x mod 32" "x AND 63 = x mod 64" "x AND 15 = x mod 16" "x AND 7 = x mod 8"
    "x AND 1023 = x mod 1024"
  using take_bit_eq_mask[of 5 x] take_bit_eq_mask[of 6 x] take_bit_eq_mask[of 4 x]
    take_bit_eq_mask[of 3 x] take_bit_eq_mask[of 10 x]
  by (simp_all add: take_bit_eq_mod mask_eq_exp_minus_1)

lemma or_disjoint_add:
  fixes a b :: int
  assumes "0 \<le> b" "b < 2 ^ n"
  shows "push_bit n a OR b = a * 2 ^ n + b"
proof -
  have b: "take_bit n b = b"
    using assms by (simp add: take_bit_int_eq_self)
  have "push_bit n a OR b = push_bit n a + b"
    by (rule disjunctive_add[symmetric]) (metis b bit_push_bit_iff_int bit_take_bit_iff linorder_not_less)
  then show ?thesis by (simp add: push_bit_eq_mult)
qed

lemma lead_byte:
  fixes x :: int
  shows "0 \<le> x \<Longrightarrow> x < 64 \<Longrightarrow> 192 OR x = 192 + x" "0 \<le> x \<Longrightarrow> x < 32 \<Longrightarrow> 224 OR x = 224 + x"
    "0 \<le> x \<Longrightarrow> x < 16 \<Longrightarrow> 240 OR x = 240 + x" "0 \<le> x \<Longrightarrow> x < 128 \<Longrightarrow> 128 OR x = 128 + x"
  using or_disjoint_add[of x 6 3] or_disjoint_add[of x 5 7] or_disjoint_add[of x 4 15]
    or_disjoint_add[of x 7 1]
  by (simp_all add: push_bit_eq_mult)

lemmas shift_arith = push_bit_eq_mult drop_bit_eq_div take_bit_eq_mod

lemma utf8_seq_arith:
  assumes "0 \<le> cp" "cp < 0x200000"
  shows "utf8_seq cp =
     (if cp < 0x80 then [cp]
      else if cp < 0x800 then [192 + cp div 64, 128 + cp mod 64]
      else if cp < 0x10000 then [224 + cp div 4096, 128 + cp div 64 mod 64, 128 + cp mod 64]
      else [240 + cp div 262144, 128 + cp div 4096 mod 64, 128 + cp div 64 mod 64, 128 + cp mod 64])"
proof -
  have "cp < 0x800 \<Longrightarrow> cp div 64 < 64" "cp < 0x10000 \<Longrightarrow> cp div 4096 < 32" "cp div 262144 < 16"
    using assms(2) by linarith+
  with assms show ?thesis
    by (auto simp: utf8_seq_def lead_byte drop_bit_eq_div)
qed

lemma utf8_seq_bytes:
  "0 \<le> cp \<Longrightarrow> cp < 0x200000 \<Longrightarrow> b \<in> set (utf8_seq cp) \<Longrightarrow> 0 \<le> b \<and> b < 256"
  by (auto simp: utf8_seq_arith split: if_splits)

declare utf8_units.simps [simp del]

lemma or3_add:
  fixes a b c :: int
  assumes "0 \<le> b" "b < 64" "0 \<le> c" "c < 64"
  shows "push_bit 12 a OR push_bit 6 b OR c = a * 4096 + b * 64 + c"
  using assms or_disjoint_add[of c 6 b] or_disjoint_add[of "b * 64 + c" 12 a] by simp

lemma or4_add:
  fixes a b c d :: int
  assumes "0 \<le> b" "b < 64" "0 \<le> c" "c < 64" "0 \<le> d" "d < 64"
  shows "push_bit 18 a OR push_bit 12 b OR push_bit 6 c OR d = a * 262144 + b * 4096 + c * 64 + d"
  using assms or3_add[of c d b] or_disjoint_add[of "b * 4096 + c * 64 + d" 18 a] by simp

lemma div_64:
  fixes x :: int
  shows "x div 4096 = x div 64 div 64" "x div 262144 = x div 64 div 64 div 64"
  using zdiv_zmult2_eq[of 64 x 64] zdiv_zmult2_eq[of 64 x 4096] zdiv_zmult2_eq[of 64 "x div 64" 64]
  by simp_all

lemma digits_64:
  fixes x :: int
  shows "x div 64 div 64 * 4096 + x div 64 mod 64 * 64 + x mod 64 = x"
    "x div 64 div 64 div 64 * 262144 + x div 64 div 64 mod 64 * 4096 + x div 64 mod 64 * 64 + x mod 64 = x"
proof -
  have two: "p * 4096 + b * 64 + a = x" if "64 * p + b = q" "64 * q + a = x" for p q a b :: int
    using that by simp
  have three: "o' * 262144 + c * 4096 + b * 64 + a = x"
    if "64 * o' + c = p" "64 * p + b = q" "64 * q + a = x" for o' p q a b c :: int
    using that by simp
  show "x div 64 div 64 * 4096 + x div 64 mod 64 * 64 + x mod 64 = x"
    using two mult_div_mod_eq[of 64 x] mult_div_mod_eq[of 64 "x div 64"] by blast
  show "x div 64 div 64 div 64 * 262144 + x div 64 div 64 mod 64 * 4096 + x div 64 mod 64 * 64 + x mod 64 = x"
    using three mult_div_mod_eq[of 64 x] mult_div_mod_eq[of 64 "x div 64"]
      mult_div_mod_eq[of 64 "x div 64 div 64"] by blast
qed

lemma lead_mod:
  fixes c :: int
  shows "0 \<le> c \<Longrightarrow> c < 32 \<Longrightarrow> (192 + c) mod 32 = c" "0 \<le> c \<Longrightarrow> c < 16 \<Longrightarrow> (224 + c) mod 16 = c"
    "0 \<le> c \<Longrightarrow> c < 8 \<Longrightarrow> (240 + c) mod 8 = c" "(128 + c) mod 64 = c mod 64"
  using mod_mult_self4[of 32 6 c] mod_mult_self4[of 16 14 c] mod_mult_self4[of 8 30 c]
    mod_mult_self4[of 64 2 c]
  by simp_all

lemma utf8_units_1: "0 \<le> b \<Longrightarrow> b < 0x80 \<Longrightarrow> utf8_units (b # r) = b # utf8_units r"
  by (simp add: utf8_units.simps[of "b # r"])

lemma utf8_units_2:
  assumes "0 \<le> c" "c < 32"
  shows "utf8_units ((192 + c) # (128 + d) # r) = (c * 64 + d mod 64) # utf8_units r"
  using assms or_disjoint_add[of "d mod 64" 6 c] lead_mod(1)[of c] lead_mod(4)[of d]
  by (simp add: utf8_units.simps[of "(192 + c) # (128 + d) # r"])

lemma utf8_units_3:
  assumes "0 \<le> c" "c < 16"
  shows "utf8_units ((224 + c) # (128 + d) # (128 + e) # r) =
    (c * 4096 + d mod 64 * 64 + e mod 64) # utf8_units r"
  using assms or3_add[of "d mod 64" "e mod 64" c] lead_mod(2)[of c] lead_mod(4)
  by (simp add: utf8_units.simps[of "(224 + c) # (128 + d) # (128 + e) # r"])

lemma utf8_units_4:
  assumes "0 \<le> c" "c < 8"
  shows "utf8_units ((240 + c) # (128 + d) # (128 + e) # (128 + f) # r) =
    (let cp = c * 262144 + d mod 64 * 4096 + e mod 64 * 64 + f mod 64 - 0x10000
     in (0xd800 + cp div 1024) # (0xdc00 + cp mod 1024) # utf8_units r)"
  using assms or4_add[of "d mod 64" "e mod 64" "f mod 64" c] lead_mod(3)[of c] lead_mod(4)
  by (simp add: utf8_units.simps[of "(240 + c) # (128 + d) # (128 + e) # (128 + f) # r"] Let_def
      drop_bit_eq_div)

lemma utf8_units_bmp:
  assumes "0 \<le> cp" "cp < 0x10000"
  shows "utf8_units (utf8_seq cp @ r) = cp # utf8_units r"
proof -
  consider "cp < 0x80" | "0x80 \<le> cp" "cp < 0x800" | "0x800 \<le> cp" by linarith
  then show ?thesis
  proof cases
    case 1
    with assms show ?thesis by (simp add: utf8_seq_arith utf8_units_1)
  next
    case 2
    then have "0 \<le> cp div 64" "cp div 64 < 32" by linarith+
    with 2 show ?thesis
      using utf8_units_2[of "cp div 64" "cp mod 64" r] by (simp add: utf8_seq_arith)
  next
    case 3
    with assms have "0 \<le> cp div 4096" "cp div 4096 < 16" by linarith+
    with 3 assms show ?thesis
      using utf8_units_3[of "cp div 4096" "cp div 64 mod 64" "cp mod 64" r] digits_64(1)[of cp]
      by (simp add: utf8_seq_arith div_64)
  qed
qed

lemma utf8_units_astral:
  assumes "0x10000 \<le> cp" "cp < 0x110000"
  shows "utf8_units (utf8_seq cp @ r) =
    (0xd800 + (cp - 0x10000) div 1024) # (0xdc00 + (cp - 0x10000) mod 1024) # utf8_units r"
proof -
  from assms have "0 \<le> cp div 262144" "cp div 262144 < 8" by linarith+
  with assms show ?thesis
    using utf8_units_4[of "cp div 262144" "cp div 4096 mod 64" "cp div 64 mod 64" "cp mod 64" r]
      digits_64(2)[of cp]
    by (simp add: utf8_seq_arith div_64 Let_def)
qed

lemma paired_tl: "paired (u # s) \<Longrightarrow> \<not> (0xd800 \<le> u \<and> u \<le> 0xdbff) \<Longrightarrow> paired s"
  by (cases s) auto

lemma surrogate_pair:
  fixes u lo :: int
  assumes "0xd800 \<le> u" "u \<le> 0xdbff" "0xdc00 \<le> lo" "lo \<le> 0xdfff"
  defines "cp \<equiv> 0x10000 + push_bit 10 (u - 0xd800) + (lo - 0xdc00)"
  shows "0x10000 \<le> cp" "cp < 0x110000"
    "0xd800 + (cp - 0x10000) div 1024 = u" "0xdc00 + (cp - 0x10000) mod 1024 = lo"
proof -
  have cp: "cp = 0x10000 + ((lo - 0xdc00) + (u - 0xd800) * 1024)"
    by (simp add: cp_def push_bit_eq_mult)
  have "(lo - 0xdc00) div 1024 = 0" "(lo - 0xdc00) mod 1024 = lo - 0xdc00"
    using assms(3,4) by simp_all
  then show "0xd800 + (cp - 0x10000) div 1024 = u" "0xdc00 + (cp - 0x10000) mod 1024 = lo"
    by (simp_all only: cp add_diff_cancel_left' div_mult_self1 mod_mult_self1)
  show "0x10000 \<le> cp" "cp < 0x110000"
    using assms(1-4) by (simp_all add: cp)
qed

lemma utf8_units_bytes: "paired s \<Longrightarrow> utf8_units (utf8_bytes s) = s"
proof (induction s rule: utf8_bytes.induct)
  case 1
  show ?case by (simp add: utf8_units.simps)
next
  case (2 cp)
  then show ?case using utf8_units_bmp[of cp "[]"] by (simp add: utf8_units.simps[of "[]"])
next
  case (3 cp lo s)
  then show ?case
    using surrogate_pair[of cp lo]
    by (cases "0xd800 \<le> cp \<and> cp \<le> 0xdbff") (auto simp: utf8_units_astral utf8_units_bmp)
qed

lemma utf8_bytes_bounds: "paired s \<Longrightarrow> b \<in> set (utf8_bytes s) \<Longrightarrow> 0 \<le> b \<and> b < 256"
proof (induction s rule: utf8_bytes.induct)
  case (3 cp lo s)
  then show ?case
    using surrogate_pair[of cp lo] utf8_seq_bytes[of cp b]
      utf8_seq_bytes[of "0x10000 + push_bit 10 (cp - 0xd800) + (lo - 0xdc00)" b]
    by (auto split: if_splits)
qed (auto dest!: utf8_seq_bytes[rotated 2])

lemma paired_units: "paired s \<Longrightarrow> u \<in> set s \<Longrightarrow> 0 \<le> u \<and> u < 0x10000"
  by (induction s rule: paired.induct) (auto split: if_splits)

lemma utf8Decode_inverse: "paired s \<Longrightarrow> utf8Decode (utf8Encode s) = s"
proof -
  assume s: "paired s"
  have "map uint (utf8Encode s) = utf8_bytes s"
    unfolding utf8Encode_def map_map
    by (rule map_idI) (use utf8_bytes_bounds[OF s] in \<open>auto simp: unsigned_of_int take_bit_int_eq_self\<close>)
  then have "utf8Decode (utf8Encode s) = map (take_bit 16) s"
    by (simp add: utf8Decode_def utf8_units_bytes[OF s])
  also have "\<dots> = s"
    by (rule map_idI) (use paired_units[OF s] in \<open>auto simp: take_bit_int_eq_self\<close>)
  finally show ?thesis .
qed

text \<open>
  Decoding the UTF-8 encoding of a string returns the string, whenever no high surrogate is
  followed by a unit that is not a low surrogate.  Lone low surrogates and a high surrogate at the
  end survive the round trip too.
\<close>

theorem utf8_roundtrip: "paired s \<Longrightarrow> utf8Decode (utf8Encode s) = s"
  by (rule utf8Decode_inverse)

theorem utf8_roundtrip_witness:
  "paired [0x41, 0xe9, 0x20ac, 0xd83d, 0xde00]
   \<and> utf8Decode (utf8Encode [0x41, 0xe9, 0x20ac, 0xd83d, 0xde00]) = [0x41, 0xe9, 0x20ac, 0xd83d, 0xde00]"
proof -
  have p: "paired [0x41, 0xe9, 0x20ac, 0xd83d, 0xde00]" by simp
  show ?thesis using p utf8_roundtrip[OF p] by (rule conjI)
qed

text \<open>
  The decoder does not check continuation bytes: the malformed sequence \<open>C3 41\<close> becomes
  the single unit \<open>U+00C1\<close> and the letter \<open>A\<close> is lost, where a replacement character followed
  by \<open>A\<close> is documented.  The encoder likewise merges a high surrogate with whatever follows it.
\<close>

theorem utf8_malformed:
  "utf8Decode [0xc3, 0x41] = [0xc1] \<and> utf8Encode [0xd800, 0x41] = [0xe2, 0x91, 0x81]"
  by (simp add: utf8Decode_def utf8_units.simps utf8Encode_def utf8_seq_arith)

section \<open>\<open>split\<close> and \<open>join\<close>\<close>

fun split_on :: "char \<Rightarrow> string \<Rightarrow> string list" where
  \<comment> \<open>\<open>s.split(d)\<close>\<close>
  "split_on d [] = [[]]"
| "split_on d (c # cs) =
     (if c = d then [] # split_on d cs
      else case split_on d cs of p # ps \<Rightarrow> (c # p) # ps | [] \<Rightarrow> [[c]])"

fun join_on :: "char \<Rightarrow> string list \<Rightarrow> string" where
  \<comment> \<open>\<open>xs.join(d)\<close>\<close>
  "join_on d [] = ''''"
| "join_on d [x] = x"
| "join_on d (x # y # ys) = x @ d # join_on d (y # ys)"

lemma split_on_ne [simp]: "split_on d s \<noteq> []"
  by (cases s) (auto split: list.splits)

lemma split_on_none: "d \<notin> set x \<Longrightarrow> split_on d x = [x]"
  by (induction x) auto

lemma split_on_append: "d \<notin> set x \<Longrightarrow> split_on d (x @ d # s) = x # split_on d s"
  by (induction x) auto

lemma split_join: "xs \<noteq> [] \<Longrightarrow> \<forall>x \<in> set xs. d \<notin> set x \<Longrightarrow> split_on d (join_on d xs) = xs"
  by (induction d xs rule: join_on.induct) (auto simp: split_on_none split_on_append)

lemma set_join_on: "c \<in> set (join_on d xs) \<Longrightarrow> c = d \<or> (\<exists>x \<in> set xs. c \<in> set x)"
  by (induction d xs rule: join_on.induct) auto

lemma join_on_Nil: "join_on d xs = '''' \<longleftrightarrow> xs = [] \<or> xs = ['''']"
  by (induction d xs rule: join_on.induct) auto

lemma last_join_on: "xs \<noteq> [] \<Longrightarrow> last xs \<noteq> '''' \<Longrightarrow> last (join_on d xs) = last (last xs)"
  by (induction d xs rule: join_on.induct) (auto simp: join_on_Nil)

end
