(* ===== verification/Negentropy.thy ===== *)
theory Negentropy
  imports Encoding
begin

text \<open>
  \<open>client/src/nostr/negentropy.ts\<close>: NIP-77 set reconciliation between the client and a relay.

  The bytes of a message are a hexadecimal string.  The reader is the rest of the string still to
  be read, the writer is the string written so far.  The two delta-coded clocks of the class
  (\<open>lastTimestampIn\<close>, \<open>lastTimestampOut\<close>) and the discovered ids (\<open>need\<close>, \<open>have\<close>) are fields of
  the state that the loop of \<open>reconcileAux\<close> threads through its iterations.  A thrown error is
  \<open>Inl\<close>; \<open>Diverges\<close> is the loop of \<open>encodeVarInt\<close> on a negative number, which never ends.

  The functions of \<open>@noble/hashes\<close> are parameters: \<open>hx\<close> is its \<open>hexToBytes\<close> on an id and \<open>fph\<close>
  maps the accumulated bytes to the hexadecimal text of the first sixteen bytes of their SHA-256.
  Numbers are exact, as JavaScript numbers are below \<open>2^53\<close>.
\<close>

section \<open>Definitions\<close>

datatype ng_error = ShortRead | BadHex | UnsupportedVersion | UnexpectedMode | BadLimit | BadBuckets
  | Diverges

record item =
  timestamp :: int
  iid :: string

definition PROTOCOL_VERSION :: int where "PROTOCOL_VERSION = 0x61"
definition FINGERPRINT_SIZE :: nat where "FINGERPRINT_SIZE = 16"
definition MAX_TIMESTAMP :: int where "MAX_TIMESTAMP = 9007199254740991"

definition INFINITE_BOUND :: item where
  "INFINITE_BOUND = \<lparr>timestamp = MAX_TIMESTAMP, iid = ''''\<rparr>"

datatype mode = Skip | Fingerprint | IdList

definition mode_byte :: "mode \<Rightarrow> int" where
  "mode_byte m = (case m of Skip \<Rightarrow> 0 | Fingerprint \<Rightarrow> 1 | IdList \<Rightarrow> 2)"

definition itemCompare :: "item \<Rightarrow> item \<Rightarrow> int" where
  "itemCompare a b =
     (if timestamp a = timestamp b then str_cmp (iid a) (iid b)
      else if timestamp a < timestamp b then -1 else 1)"

subsection \<open>Variable-length integers\<close>

partial_function (option) varint_loop :: "int \<Rightarrow> int list \<Rightarrow> int list option" where
  "varint_loop n out = (if n = 0 then Some out else varint_loop (n div 128) (n mod 128 # out))"

fun set_high_bits :: "int list \<Rightarrow> int list" where
  "set_high_bits [] = []"
| "set_high_bits [b] = [b]"
| "set_high_bits (b # c # bs) = (b OR 0x80) # set_high_bits (c # bs)"

definition encodeVarInt :: "int \<Rightarrow> ng_error + int list" where
  "encodeVarInt n =
     (if n = 0 then Inr [0]
      else case varint_loop n [] of None \<Rightarrow> Inl Diverges | Some out \<Rightarrow> Inr (set_high_bits out))"

subsection \<open>The fingerprint accumulator\<close>

fun le_words :: "u8 list \<Rightarrow> nat list" where
  \<comment> \<open>\<open>getUint32(offset, true)\<close> at the offsets 0, 4, 8, \<dots>\<close>
  "le_words (a # b # c # d # bs) =
     (unat a + 256 * unat b + 65536 * unat c + 16777216 * unat d) # le_words bs"
| "le_words _ = []"

fun add_words :: "nat \<Rightarrow> nat list \<Rightarrow> nat list \<Rightarrow> nat list" where
  "add_words carry (a # as) (b # bs) =
     (let sum = a + carry + b in sum mod 2 ^ 32 # add_words (sum div 2 ^ 32) as bs)"
| "add_words carry _ _ = []"

definition addBytes :: "nat list \<Rightarrow> u8 list \<Rightarrow> nat list" where
  "addBytes buf other = add_words 0 buf (le_words other)"

definition word_bytes :: "nat \<Rightarrow> u8 list" where
  "word_bytes w = [of_nat w, of_nat (w div 256), of_nat (w div 65536), of_nat (w div 16777216)]"

definition getFingerprint :: "(u8 list \<Rightarrow> string) \<Rightarrow> nat list \<Rightarrow> nat \<Rightarrow> ng_error + string" where
  "getFingerprint fph buf cnt =
     sbind (encodeVarInt (int cnt)) (\<lambda>tail.
       Inr (fph (concat (map word_bytes buf) @ map word_of_int tail)))"

subsection \<open>Sorted storage\<close>

fun dedupe_items :: "string list \<Rightarrow> item list \<Rightarrow> item list" where
  "dedupe_items seen [] = []"
| "dedupe_items seen (it # its) =
     (if length (iid it) \<noteq> 64 \<or> iid it \<in> set seen then dedupe_items seen its
      else it # dedupe_items (iid it # seen) its)"

definition fromItems :: "item list \<Rightarrow> item list" where
  "fromItems its = js_sort itemCompare (dedupe_items [] its)"

function lower_loop :: "item list \<Rightarrow> item \<Rightarrow> nat \<Rightarrow> nat \<Rightarrow> nat" where
  "lower_loop its target lo hi =
     (if lo < hi
      then let mid = (lo + hi) div 2
           in if itemCompare (its ! mid) target < 0 then lower_loop its target (mid + 1) hi
              else lower_loop its target lo mid
      else lo)"
  by pat_completeness auto
termination
  by (relation "measure (\<lambda>(its, target, lo, hi). hi - lo)") auto

declare lower_loop.simps [simp del]

definition findLowerBound :: "item list \<Rightarrow> nat \<Rightarrow> nat \<Rightarrow> item \<Rightarrow> nat" where
  "findLowerBound its begn en bound = lower_loop its bound begn en"

definition fingerprint ::
  "(string \<Rightarrow> u8 list) \<Rightarrow> (u8 list \<Rightarrow> string) \<Rightarrow> item list \<Rightarrow> nat \<Rightarrow> nat \<Rightarrow> ng_error + string" where
  "fingerprint hx fph its begn en =
     getFingerprint fph
       (foldl (\<lambda>buf it. addBytes buf (hx (iid it))) (replicate 8 0) (js_slice begn en its))
       (en - begn)"

subsection \<open>Reader and writer\<close>

definition readHexByte :: "string \<Rightarrow> ng_error + int \<times> string" where
  "readHexByte src =
     (if length src < 2 then Inl ShortRead
      else case parseInt16 (take 2 src) of None \<Rightarrow> Inl BadHex | Some b \<Rightarrow> Inr (b, drop 2 src))"

definition readString :: "string \<Rightarrow> nat \<Rightarrow> ng_error + string \<times> string" where
  "readString src n =
     (if length src < n then Inl ShortRead else Inr (take n src, drop n src))"

function varint_read :: "int \<Rightarrow> string \<Rightarrow> ng_error + int \<times> string" where
  "varint_read res src =
     (case readHexByte src of
        Inl e \<Rightarrow> Inl e
      | Inr (b, rest) \<Rightarrow>
          let res = res * 128 + (b AND 127)
          in if b AND 128 = 0 then Inr (res, rest) else varint_read res rest)"
  by pat_completeness auto
termination
  by (relation "measure (\<lambda>(res, src). length src)")
     (auto simp: readHexByte_def split: if_splits option.splits)

declare varint_read.simps [simp del]

definition readVarInt :: "string \<Rightarrow> ng_error + int \<times> string" where
  "readVarInt src = varint_read 0 src"

definition readTimestamp :: "int \<Rightarrow> string \<Rightarrow> ng_error + int \<times> int \<times> string" where
  \<comment> \<open>the timestamp, the new \<open>lastTimestampIn\<close>, the rest\<close>
  "readTimestamp lastIn src =
     sbind (readVarInt src) (\<lambda>(delta, rest).
       if delta = 0 then Inr (MAX_TIMESTAMP, MAX_TIMESTAMP, rest)
       else Inr (lastIn + (delta - 1), lastIn + (delta - 1), rest))"

definition readBound :: "int \<Rightarrow> string \<Rightarrow> ng_error + item \<times> int \<times> string" where
  "readBound lastIn src =
     sbind (readTimestamp lastIn src) (\<lambda>(ts, lastIn, rest).
     sbind (readVarInt rest) (\<lambda>(len, rest).
     sbind (readString rest (nat len * 2)) (\<lambda>(i, rest).
       Inr (\<lparr>timestamp = ts, iid = i\<rparr>, lastIn, rest))))"

definition writeByte :: "int \<Rightarrow> string" where
  "writeByte b = padStart 2 (CHR ''0'') (toString16 (nat (b mod 256)))"

definition writeBytes :: "int list \<Rightarrow> string" where
  "writeBytes bs = concat (map writeByte bs)"

definition writeVarInt :: "int \<Rightarrow> ng_error + string" where
  "writeVarInt n = sbind (encodeVarInt n) (\<lambda>bs. Inr (writeBytes bs))"

definition writeTimestamp :: "int \<Rightarrow> int \<Rightarrow> ng_error + string \<times> int" where
  \<comment> \<open>the text written and the new \<open>lastTimestampOut\<close>\<close>
  "writeTimestamp lastOut ts =
     (if ts = MAX_TIMESTAMP then sbind (writeVarInt 0) (\<lambda>s. Inr (s, MAX_TIMESTAMP))
      else sbind (writeVarInt (ts - lastOut + 1)) (\<lambda>s. Inr (s, ts)))"

definition writeBound :: "int \<Rightarrow> item \<Rightarrow> ng_error + string \<times> int" where
  "writeBound lastOut bound =
     sbind (writeTimestamp lastOut (timestamp bound)) (\<lambda>(s, lastOut).
     sbind (writeVarInt (int (length (iid bound) div 2))) (\<lambda>l.
       Inr (s @ l @ iid bound, lastOut)))"

fun shared_prefix :: "nat \<Rightarrow> string \<Rightarrow> string \<Rightarrow> nat" where
  \<comment> \<open>the loop of \<open>getMinimalBound\<close>: at most \<open>n\<close> leading bytes are compared\<close>
  "shared_prefix 0 c p = 0"
| "shared_prefix (Suc n) c p =
     (if take 2 c \<noteq> take 2 p then 0 else Suc (shared_prefix n (drop 2 c) (drop 2 p)))"

definition getMinimalBound :: "item \<Rightarrow> item \<Rightarrow> item" where
  "getMinimalBound prev cur =
     (if timestamp cur \<noteq> timestamp prev then \<lparr>timestamp = timestamp cur, iid = ''''\<rparr>
      else \<lparr>timestamp = timestamp cur,
            iid = take ((shared_prefix 16 (iid cur) (iid prev) + 1) * 2) (iid cur)\<rparr>)"

subsection \<open>The protocol engine\<close>

record ng =
  ng_items :: "item list"
  ng_limit :: "nat option" \<comment> \<open>\<^const>\<open>None\<close> is \<open>Infinity\<close>\<close>
  ng_buckets :: nat
  ng_client :: bool

definition new_negentropy :: "item list \<Rightarrow> nat \<Rightarrow> nat \<Rightarrow> ng_error + ng" where
  "new_negentropy its limit buckets =
     (if limit \<noteq> 0 \<and> limit < 4096 then Inl BadLimit
      else if buckets < 2 \<or> 256 < buckets then Inl BadBuckets
      else Inr \<lparr>ng_items = its, ng_limit = (if limit = 0 then None else Some limit),
                ng_buckets = buckets, ng_client = False\<rparr>)"

definition frame_full :: "ng \<Rightarrow> nat \<Rightarrow> bool" where
  \<comment> \<open>\<open>frameSizeLimit - 200 < len / 2\<close> for a length in hexadecimal characters\<close>
  "frame_full ng len = (case ng_limit ng of None \<Rightarrow> False | Some l \<Rightarrow> 2 * (int l - 200) < int len)"

fun split_loop ::
  "(string \<Rightarrow> u8 list) \<Rightarrow> (u8 list \<Rightarrow> string) \<Rightarrow> ng \<Rightarrow> nat \<Rightarrow> item \<Rightarrow> nat list \<Rightarrow> nat \<Rightarrow> int \<Rightarrow>
   ng_error + string \<times> int" where
  \<comment> \<open>the bucket loop of \<open>splitRange\<close> over the bucket sizes\<close>
  "split_loop hx fph ng upper upperBound [] cur lastOut = Inr ('''', lastOut)"
| "split_loop hx fph ng upper upperBound (sz # sizes) cur lastOut =
     sbind (fingerprint hx fph (ng_items ng) cur (cur + sz)) (\<lambda>fp.
       let cur = cur + sz;
           nextBound = (if cur = upper then upperBound
                        else getMinimalBound (ng_items ng ! (cur - 1)) (ng_items ng ! cur))
       in sbind (writeBound lastOut nextBound) (\<lambda>(b, lastOut).
          sbind (split_loop hx fph ng upper upperBound sizes cur lastOut) (\<lambda>(rest, lastOut).
            Inr (b @ writeByte (mode_byte Fingerprint) @ fp @ rest, lastOut))))"

definition bucket_sizes :: "nat \<Rightarrow> nat \<Rightarrow> nat list" where
  "bucket_sizes numElems buckets =
     map (\<lambda>i. numElems div buckets + (if i < numElems mod buckets then 1 else 0)) [0..<buckets]"

definition splitRange ::
  "(string \<Rightarrow> u8 list) \<Rightarrow> (u8 list \<Rightarrow> string) \<Rightarrow> ng \<Rightarrow> int \<Rightarrow> nat \<Rightarrow> nat \<Rightarrow> item \<Rightarrow>
   ng_error + string \<times> int" where
  "splitRange hx fph ng lastOut lower upper upperBound =
     (let numElems = upper - lower
      in if numElems < ng_buckets ng * 2
         then sbind (writeBound lastOut upperBound) (\<lambda>(b, lastOut).
              sbind (writeVarInt (int numElems)) (\<lambda>n.
                Inr (b @ writeByte (mode_byte IdList) @ n @
                     concat (map iid (js_slice lower upper (ng_items ng))), lastOut)))
         else split_loop hx fph ng upper upperBound (bucket_sizes numElems (ng_buckets ng)) lower lastOut)"

record rstate =
  r_in :: string
  r_lastIn :: int
  r_lastOut :: int
  r_prevBound :: item
  r_prevIndex :: nat
  r_skipping :: bool
  r_full :: string
  r_need :: "string list"
  r_have :: "string list"

definition finishSkip :: "rstate \<Rightarrow> ng_error + rstate \<times> string" where
  \<comment> \<open>the pending skip bound is written to the partial output\<close>
  "finishSkip st =
     (if r_skipping st
      then sbind (writeBound (r_lastOut st) (r_prevBound st)) (\<lambda>(b, lastOut).
             Inr (st\<lparr>r_skipping := False, r_lastOut := lastOut\<rparr>, b @ writeByte (mode_byte Skip)))
      else Inr (st, ''''))"

fun read_ids :: "nat \<Rightarrow> string list \<Rightarrow> string \<Rightarrow> ng_error + string list \<times> string" where
  "read_ids 0 ids src = Inr (ids, src)"
| "read_ids (Suc n) ids src = sbind (readString src 64) (\<lambda>(i, rest). read_ids n (set_add i ids) rest)"

definition client_diff :: "item list \<Rightarrow> string list \<Rightarrow> string list \<times> string list" where
  \<comment> \<open>ids only the peer has, ids only we have\<close>
  "client_diff rng theirs =
     foldl (\<lambda>(theirs, have) it.
        if iid it \<in> set theirs then (filter (\<lambda>i. i \<noteq> iid it) theirs, have)
        else (theirs, have @ [iid it])) (theirs, []) rng"

fun respond_loop :: "ng \<Rightarrow> nat \<Rightarrow> item list \<Rightarrow> nat \<Rightarrow> string \<Rightarrow> item option \<times> nat \<times> string" where
  \<comment> \<open>the server's id loop: the item that no longer fits, how many were sent, their ids\<close>
  "respond_loop ng full [] n ids = (None, n, ids)"
| "respond_loop ng full (it # its) n ids =
     (if frame_full ng (full + length ids) then (Some it, n, ids)
      else respond_loop ng full its (Suc n) (ids @ iid it))"

definition handle_fingerprint ::
  "(string \<Rightarrow> u8 list) \<Rightarrow> (u8 list \<Rightarrow> string) \<Rightarrow> ng \<Rightarrow> rstate \<Rightarrow> item \<Rightarrow> nat \<Rightarrow> nat \<Rightarrow>
   ng_error + rstate \<times> string" where
  "handle_fingerprint hx fph ng st currBound lower upper =
     sbind (readString (r_in st) (FINGERPRINT_SIZE * 2)) (\<lambda>(theirs, rest).
     let st = st\<lparr>r_in := rest\<rparr>
     in sbind (fingerprint hx fph (ng_items ng) lower upper) (\<lambda>ours.
        if theirs = ours then Inr (st\<lparr>r_skipping := True\<rparr>, '''')
        else sbind (finishSkip st) (\<lambda>(st, p).
             sbind (splitRange hx fph ng (r_lastOut st) lower upper currBound) (\<lambda>(s, lastOut).
               Inr (st\<lparr>r_lastOut := lastOut\<rparr>, p @ s)))))"

definition handle_idlist ::
  "ng \<Rightarrow> rstate \<Rightarrow> item \<Rightarrow> nat \<Rightarrow> nat \<Rightarrow> ng_error + rstate \<times> nat" where
  \<comment> \<open>the state after the range and the (possibly lowered) upper index; the server writes its reply
      to the full output\<close>
  "handle_idlist ng st currBound lower upper =
     sbind (readVarInt (r_in st)) (\<lambda>(numIds, rest).
     sbind (read_ids (nat numIds) [] rest) (\<lambda>(theirs, rest).
     let st = st\<lparr>r_in := rest\<rparr>; rng = js_slice lower upper (ng_items ng);
         (need, have) = client_diff rng theirs
     in if ng_client ng
        then Inr (st\<lparr>r_have := r_have st @ have, r_need := r_need st @ need, r_skipping := True\<rparr>, upper)
        else sbind (finishSkip st) (\<lambda>(st, p).
             let (stopped, n, ids) = respond_loop ng (length (r_full st)) rng 0 '''';
                 endBound = (case stopped of None \<Rightarrow> currBound | Some it \<Rightarrow> it);
                 upper = (case stopped of None \<Rightarrow> upper | Some _ \<Rightarrow> lower + n)
             in sbind (writeBound (r_lastOut st) endBound) (\<lambda>(b, lastOut).
                sbind (writeVarInt (int n)) (\<lambda>c.
                  Inr (st\<lparr>r_lastOut := lastOut,
                          r_full := r_full st @ p @ b @ writeByte (mode_byte IdList) @ c @ ids\<rparr>,
                       upper))))))"

definition recon_step ::
  "(string \<Rightarrow> u8 list) \<Rightarrow> (u8 list \<Rightarrow> string) \<Rightarrow> ng \<Rightarrow> rstate \<Rightarrow> ng_error + rstate \<times> bool" where
  \<comment> \<open>one iteration of the loop of \<open>reconcileAux\<close>; the flag is the \<open>break\<close> on a full frame\<close>
  "recon_step hx fph ng st =
     sbind (readBound (r_lastIn st) (r_in st)) (\<lambda>(currBound, lastIn, rest).
     sbind (readVarInt rest) (\<lambda>(m, rest).
     let st = st\<lparr>r_in := rest, r_lastIn := lastIn\<rparr>;
         lower = r_prevIndex st;
         upper = findLowerBound (ng_items ng) lower (length (ng_items ng)) currBound
     in sbind
          (if m = mode_byte Skip then Inr (st\<lparr>r_skipping := True\<rparr>, '''', upper)
           else if m = mode_byte Fingerprint
           then sbind (handle_fingerprint hx fph ng st currBound lower upper) (\<lambda>(st, p). Inr (st, p, upper))
           else if m = mode_byte IdList
           then sbind (handle_idlist ng st currBound lower upper) (\<lambda>(st, upper). Inr (st, '''', upper))
           else Inl UnexpectedMode) (\<lambda>(st, part, upper).
        if frame_full ng (length (r_full st) + length part)
        then sbind (fingerprint hx fph (ng_items ng) upper (length (ng_items ng))) (\<lambda>fp.
             sbind (writeBound (r_lastOut st) INFINITE_BOUND) (\<lambda>(b, lastOut).
               Inr (st\<lparr>r_lastOut := lastOut,
                       r_full := r_full st @ b @ writeByte (mode_byte Fingerprint) @ fp\<rparr>, True)))
        else Inr (st\<lparr>r_full := r_full st @ part, r_prevIndex := upper, r_prevBound := currBound\<rparr>, False))))"

lemma readHexByte_len: "readHexByte s = Inr (b, r) \<Longrightarrow> length r < length s"
  by (auto simp: readHexByte_def split: if_splits option.splits)

lemma varint_read_len: "varint_read res s = Inr (n, r) \<Longrightarrow> length r < length s"
proof (induction res s rule: varint_read.induct)
  case (1 res s)
  show ?case
  proof (cases "readHexByte s")
    case (Inl e)
    with "1.prems" show ?thesis by (simp add: varint_read.simps[of res s])
  next
    case (Inr p)
    obtain b rest where p: "p = (b, rest)" by (cases p)
    have less: "length rest < length s" using Inr p by (simp add: readHexByte_len)
    show ?thesis
    proof (cases "b AND 128 = 0")
      case True
      with "1.prems" Inr p less show ?thesis by (simp add: varint_read.simps[of res s])
    next
      case False
      with "1.prems" Inr p have "varint_read (res * 128 + (b AND 127)) rest = Inr (n, r)"
        by (simp add: varint_read.simps[of res s])
      with "1.IH"[OF Inr p[symmetric] refl False] less show ?thesis by simp
    qed
  qed
qed

lemma readVarInt_len: "readVarInt s = Inr (n, r) \<Longrightarrow> length r < length s"
  by (simp add: readVarInt_def varint_read_len)

lemma readString_len: "readString s n = Inr (i, r) \<Longrightarrow> length r \<le> length s"
  by (auto simp: readString_def split: if_splits)

lemma readBound_len: "readBound l s = Inr (b, l', r) \<Longrightarrow> length r < length s"
  by (auto simp: readBound_def readTimestamp_def sbind_Inr_iff split: if_splits
      dest!: readVarInt_len readString_len)

lemma read_ids_len: "read_ids n ids s = Inr (ids', r) \<Longrightarrow> length r \<le> length s"
  by (induction n arbitrary: ids s) (fastforce simp: sbind_Inr_iff dest: readString_len)+

lemma finishSkip_in: "finishSkip st = Inr (st', p) \<Longrightarrow> r_in st' = r_in st"
  by (auto simp: finishSkip_def sbind_Inr_iff split: if_splits)

lemma handle_fingerprint_in:
  "handle_fingerprint hx fph ng st cb lower upper = Inr (st', p) \<Longrightarrow> length (r_in st') \<le> length (r_in st)"
  by (auto simp: handle_fingerprint_def sbind_Inr_iff Let_def split: if_splits
      dest!: readString_len finishSkip_in)

lemma handle_idlist_in:
  assumes "handle_idlist ng st cb lower upper = Inr (st', u)"
  shows "length (r_in st') \<le> length (r_in st)"
proof -
  obtain n r ids r2 where a: "readVarInt (r_in st) = Inr (n, r)"
    and b: "read_ids (nat n) [] r = Inr (ids, r2)"
    using assms by (auto simp: handle_idlist_def sbind_Inr_iff)
  have "r_in st' = r2"
    using assms a b
    by (auto simp: handle_idlist_def sbind_Inr_iff Let_def case_prod_unfold split: if_splits
        dest!: finishSkip_in)
  with readVarInt_len[OF a] read_ids_len[OF b] show ?thesis by simp
qed

lemma recon_step_decreases:
  assumes "recon_step hx fph ng st = Inr (st', stop)"
  shows "length (r_in st') < length (r_in st)"
proof -
  obtain b l r m r2 where rb: "readBound (r_lastIn st) (r_in st) = Inr (b, l, r)"
    and rv: "readVarInt r = Inr (m, r2)"
    using assms by (auto simp: recon_step_def sbind_Inr_iff)
  have "length (r_in st') \<le> length r2"
    using assms rb rv
    by (auto simp: recon_step_def sbind_Inr_iff Let_def split: if_splits
        dest!: handle_fingerprint_in handle_idlist_in)
  with readBound_len[OF rb] readVarInt_len[OF rv] show ?thesis by linarith
qed

function recon_loop ::
  "(string \<Rightarrow> u8 list) \<Rightarrow> (u8 list \<Rightarrow> string) \<Rightarrow> ng \<Rightarrow> rstate \<Rightarrow> ng_error + rstate" where
  "recon_loop hx fph ng st =
     (if r_in st = '''' then Inr st
      else case recon_step hx fph ng st of
        Inl e \<Rightarrow> Inl e
      | Inr (st', stop) \<Rightarrow> if stop then Inr st' else recon_loop hx fph ng st')"
  by pat_completeness auto
termination
  by (relation "measure (\<lambda>(hx, fph, ng, st). length (r_in st))") (auto dest: recon_step_decreases)

declare recon_loop.simps [simp del]

definition reconcileAux ::
  "(string \<Rightarrow> u8 list) \<Rightarrow> (u8 list \<Rightarrow> string) \<Rightarrow> ng \<Rightarrow> string \<Rightarrow> ng_error + rstate" where
  "reconcileAux hx fph ng msg =
     sbind (readHexByte msg) (\<lambda>(pv, rest).
       let st = \<lparr>r_in = rest, r_lastIn = 0, r_lastOut = 0,
                 r_prevBound = \<lparr>timestamp = 0, iid = ''''\<rparr>, r_prevIndex = 0, r_skipping = False,
                 r_full = writeByte PROTOCOL_VERSION, r_need = [], r_have = []\<rparr>
       in if pv \<noteq> PROTOCOL_VERSION then (if ng_client ng then Inl UnsupportedVersion else Inr st)
          else recon_loop hx fph ng st)"

record reconcile_result =
  res_output :: "string option"
  res_need :: "string list"
  res_have :: "string list"

definition reconcile ::
  "(string \<Rightarrow> u8 list) \<Rightarrow> (u8 list \<Rightarrow> string) \<Rightarrow> ng \<Rightarrow> string \<Rightarrow> ng_error + reconcile_result" where
  "reconcile hx fph ng msg =
     sbind (reconcileAux hx fph ng msg) (\<lambda>st.
       Inr \<lparr>res_output = (if length (r_full st) = 2 \<and> ng_client ng then None else Some (r_full st)),
            res_need = r_need st, res_have = r_have st\<rparr>)"

definition initiate ::
  "(string \<Rightarrow> u8 list) \<Rightarrow> (u8 list \<Rightarrow> string) \<Rightarrow> ng \<Rightarrow> ng_error + ng \<times> string" where
  "initiate hx fph ng =
     (let ng = ng\<lparr>ng_client := True\<rparr>
      in sbind (splitRange hx fph ng 0 0 (length (ng_items ng)) INFINITE_BOUND) (\<lambda>(s, _).
           Inr (ng, writeByte PROTOCOL_VERSION @ s)))"

section \<open>Variable-length integers\<close>

lemma readHexByte_writeByte:
  assumes "0 \<le> b" "b < 256"
  shows "readHexByte (writeByte b @ s) = Inr (b, s)"
proof -
  have n: "nat b < 256" using assms by linarith
  then have "nat b div 16 < 16" "nat b mod 16 < 16" by auto
  with n assms show ?thesis
    by (simp add: readHexByte_def writeByte_def padded_hex parseInt16_digits)
qed

lemma or_128: "0 \<le> d \<Longrightarrow> d < 128 \<Longrightarrow> (d :: int) OR 128 = d + 128"
  using or_disjoint_add[of d 7 1] by (simp add: or.commute)

lemma and_127: "(d :: int) AND 127 = d mod 128"
  using take_bit_eq_mask[of 7 d] by (simp add: take_bit_eq_mod mask_eq_exp_minus_1)

lemma and_128:
  fixes d :: int
  assumes "0 \<le> d" "d < 128"
  shows "d AND 128 = 0" "(d + 128) AND 128 = 128"
proof -
  have d: "take_bit 7 d = d" using assms by (simp add: take_bit_int_eq_self)
  have nb: "\<not> bit d 7" using bit_take_bit_iff[of 7 d 7] d by simp
  show "d AND 128 = 0"
    using nb and_exp_eq_0_iff_not_bit[of d 7] by simp
  have "(d OR 128) AND 128 = 128"
    by (simp add: bit_eq_iff bit_and_iff bit_or_iff) blast
  then show "(d + 128) AND 128 = 128" using assms by (simp add: or_128)
qed

definition base128 :: "int \<Rightarrow> int list \<Rightarrow> int" where
  "base128 a ds = foldl (\<lambda>a d. a * 128 + d) a ds"

lemma base128_append: "base128 a (xs @ [d]) = base128 a xs * 128 + d"
  by (simp add: base128_def)

lemma varint_loop_digits:
  assumes "0 < n"
  shows "\<exists>ds. varint_loop n out = Some (ds @ out) \<and> ds \<noteq> [] \<and> base128 0 ds = n
    \<and> (\<forall>d \<in> set ds. 0 \<le> d \<and> d < 128)"
  using assms
proof (induction "nat n" arbitrary: n out rule: less_induct)
  case less
  have step: "varint_loop n out = varint_loop (n div 128) (n mod 128 # out)"
    using less.prems by (simp add: varint_loop.simps[of n])
  show ?case
  proof (cases "n div 128 = 0")
    case True
    then have "n mod 128 = n" using mult_div_mod_eq[of 128 n] by simp
    with step True less.prems show ?thesis
      by (intro exI[of _ "[n]"]) (auto simp: varint_loop.simps[of 0] base128_def
          pos_mod_bound[of 128 n, simplified])
  next
    case False
    then have pos: "0 < n div 128" using less.prems pos_imp_zdiv_nonneg_iff[of 128 n] by linarith
    have "n div 128 < n" using less.prems int_div_less_self[of n 128] by simp
    then have "nat (n div 128) < nat n" using less.prems by simp
    from less.hyps[OF this pos, of "n mod 128 # out"] obtain ds where
      ds: "varint_loop (n div 128) (n mod 128 # out) = Some (ds @ n mod 128 # out)"
      "ds \<noteq> []" "base128 0 ds = n div 128" "\<forall>d \<in> set ds. 0 \<le> d \<and> d < 128"
      by blast
    with step show ?thesis
      by (intro exI[of _ "ds @ [n mod 128]"]) (auto simp: base128_append div_mult_mod_eq)
  qed
qed

lemma set_high_bits_Cons:
  "bs \<noteq> [] \<Longrightarrow> set_high_bits (b # bs) = (b OR 128) # set_high_bits bs"
  by (cases bs) auto

lemma varint_read_digits:
  "ds \<noteq> [] \<Longrightarrow> \<forall>d \<in> set ds. 0 \<le> d \<and> d < 128 \<Longrightarrow>
   varint_read a (writeBytes (set_high_bits ds) @ s) = Inr (base128 a ds, s)"
proof (induction ds arbitrary: a)
  case (Cons d ds)
  show ?case
  proof (cases "ds = []")
    case True
    with Cons.prems show ?thesis
      by (simp add: varint_read.simps[of a] writeBytes_def readHexByte_writeByte and_128 and_127 base128_def)
  next
    case False
    have "varint_read a (writeBytes (set_high_bits (d # ds)) @ s) =
        varint_read (a * 128 + d) (writeBytes (set_high_bits ds) @ s)"
      using Cons.prems False
      by (simp add: varint_read.simps[of a] set_high_bits_Cons writeBytes_def readHexByte_writeByte
          or_128 and_128 and_127)
    with Cons False show ?thesis by (simp add: base128_def)
  qed
qed simp

lemma encodeVarInt_total:
  assumes "0 \<le> n"
  obtains bs where "encodeVarInt n = Inr bs"
    "\<And>s. readVarInt (writeBytes bs @ s) = Inr (n, s)" "bs \<noteq> []"
proof (cases "n = 0")
  case True
  show ?thesis
  proof (rule that)
    show "encodeVarInt n = Inr [0]" using True by (simp add: encodeVarInt_def)
    show "readVarInt (writeBytes [0] @ s) = Inr (n, s)" for s
      using True by (simp add: readVarInt_def varint_read.simps[of 0] writeBytes_def readHexByte_writeByte)
  qed simp
next
  case False
  with assms have "0 < n" by simp
  from varint_loop_digits[OF this, of "[]"] obtain ds where
    ds: "varint_loop n [] = Some ds" "ds \<noteq> []" "base128 0 ds = n" "\<forall>d \<in> set ds. 0 \<le> d \<and> d < 128"
    by auto
  show ?thesis
  proof (rule that)
    show "encodeVarInt n = Inr (set_high_bits ds)" using ds False by (simp add: encodeVarInt_def)
    show "readVarInt (writeBytes (set_high_bits ds) @ s) = Inr (n, s)" for s
      using ds by (simp add: readVarInt_def varint_read_digits)
    show "set_high_bits ds \<noteq> []" using ds(2) by (cases ds; cases "tl ds") auto
  qed
qed

lemma writeVarInt_read:
  assumes "0 \<le> n"
  obtains w where "writeVarInt n = Inr w" "\<And>s. readVarInt (w @ s) = Inr (n, s)"
  using encodeVarInt_total[OF assms] by (metis writeVarInt_def sbind_simps(2))

lemma writeVarInt_nat:
  obtains w where "writeVarInt (int n) = Inr w" "\<And>s. readVarInt (w @ s) = Inr (int n, s)"
  using writeVarInt_read[of "int n"] by auto

section \<open>Bounds on the wire\<close>

lemma writeBound_reads:
  assumes "clock \<le> timestamp b" and "even (length (iid b))"
  shows "\<exists>w. writeBound clock b = Inr (w, timestamp b)
    \<and> (\<forall>s. readBound clock (w @ s) = Inr (b, timestamp b, s))"
proof -
  obtain l where l: "writeVarInt (int (length (iid b) div 2)) = Inr l"
    "\<And>s. readVarInt (l @ s) = Inr (int (length (iid b) div 2), s)"
    using writeVarInt_nat by blast
  have tail: "readString (iid b @ s) (nat (int (length (iid b) div 2)) * 2) = Inr (iid b, s)" for s
    using assms(2) by (simp add: readString_def)
  show ?thesis
  proof (cases "timestamp b = MAX_TIMESTAMP")
    case True
    obtain w where w: "writeVarInt 0 = Inr w" "\<And>s. readVarInt (w @ s) = Inr (0, s)"
      using writeVarInt_nat[of 0] by auto
    from True w l tail show ?thesis
      by (intro exI[of _ "w @ l @ iid b"])
         (simp add: writeBound_def writeTimestamp_def readBound_def readTimestamp_def flip: True)
  next
    case False
    obtain w where w: "writeVarInt (timestamp b - clock + 1) = Inr w"
      "\<And>s. readVarInt (w @ s) = Inr (timestamp b - clock + 1, s)"
      using writeVarInt_read[of "timestamp b - clock + 1"] assms(1) by auto
    from False w l tail assms(1) show ?thesis
      by (intro exI[of _ "w @ l @ iid b"])
         (simp add: writeBound_def writeTimestamp_def readBound_def readTimestamp_def)
  qed
qed

text \<open>
  A bound written against a clock that does not lie after it is read back unchanged by a
  reader whose clock agrees, both clocks end at the bound's timestamp, and the reader stops exactly
  where the writer did, for the infinite bound as well.
\<close>

theorem bound_roundtrip:
  assumes "clock \<le> timestamp b" and "even (length (iid b))"
  shows "\<exists>w. writeBound clock b = Inr (w, timestamp b)
    \<and> readBound clock (w @ rest) = Inr (b, timestamp b, rest)"
  using writeBound_reads[OF assms] by blast

theorem bound_roundtrip_witness:
  "\<exists>w. writeBound 1700000000 \<lparr>timestamp = 1700000001, iid = ''a0''\<rparr> = Inr (w, 1700000001)
    \<and> readBound 1700000000 (w @ ''02'') = Inr (\<lparr>timestamp = 1700000001, iid = ''a0''\<rparr>, 1700000001, ''02'')"
  using bound_roundtrip[of 1700000000 "\<lparr>timestamp = 1700000001, iid = ''a0''\<rparr>" "''02''"] by simp

section \<open>The order of items and the sorted storage\<close>

lemma itemCompare_le:
  "itemCompare a b \<le> 0 \<longleftrightarrow> timestamp a < timestamp b \<or> timestamp a = timestamp b \<and> iid a \<le> iid b"
  by (auto simp: itemCompare_def)

lemma itemCompare_less:
  "itemCompare a b < 0 \<longleftrightarrow> timestamp a < timestamp b \<or> timestamp a = timestamp b \<and> iid a < iid b"
  by (auto simp: itemCompare_def)

interpretation items: comparator itemCompare
  by unfold_locales (auto simp: itemCompare_le)

lemma itemCompare_less_le_trans:
  "itemCompare a b < 0 \<Longrightarrow> itemCompare b c \<le> 0 \<Longrightarrow> itemCompare a c < 0"
  "itemCompare a b \<le> 0 \<Longrightarrow> itemCompare b c < 0 \<Longrightarrow> itemCompare a c < 0"
  by (auto simp: itemCompare_le itemCompare_less)

lemma itemCompare_not_less: "\<not> itemCompare a b < 0 \<longleftrightarrow> itemCompare b a \<le> 0"
  by (auto simp: itemCompare_le itemCompare_less)

abbreviation item_sorted :: "item list \<Rightarrow> bool" where
  "item_sorted its \<equiv> sorted_wrt (\<lambda>a b. itemCompare a b \<le> 0) its"

lemma item_sorted_nth:
  "item_sorted its \<Longrightarrow> i \<le> j \<Longrightarrow> j < length its \<Longrightarrow> itemCompare (its ! i) (its ! j) \<le> 0"
  by (cases "i = j") (auto simp: sorted_wrt_iff_nth_less itemCompare_le)

lemma dedupe_items_props:
  "distinct (map iid (dedupe_items seen its))"
  "set (map iid (dedupe_items seen its)) = {i \<in> iid ` set its. length i = 64} - set seen"
  by (induction seen its rule: dedupe_items.induct) auto

lemma fromItems_sorted: "item_sorted (fromItems its)"
  by (simp add: fromItems_def items.sorted_js_sort)

lemma fromItems_distinct: "distinct (map iid (fromItems its))"
  by (simp add: fromItems_def distinct_map_js_sort dedupe_items_props(1))

lemma fromItems_ids: "iid ` set (fromItems its) = {i \<in> iid ` set its. length i = 64}"
  using dedupe_items_props(2)[of "[]" its] by (simp add: fromItems_def)

lemma lower_loop_spec:
  assumes "item_sorted its" "lo \<le> hi" "hi \<le> length its"
    and "\<forall>i < lo. itemCompare (its ! i) t < 0"
    and "\<forall>i. hi \<le> i \<and> i < length its \<longrightarrow> \<not> itemCompare (its ! i) t < 0"
  shows "lower_loop its t lo hi = length (filter (\<lambda>it. itemCompare it t < 0) its)"
  using assms
proof (induction its t lo hi rule: lower_loop.induct)
  case (1 its t lo hi)
  show ?case
  proof (cases "lo < hi")
    case False
    with "1.prems" have eq: "lo = hi" by simp
    have "filter (\<lambda>it. itemCompare it t < 0) (take lo its) = take lo its"
      using "1.prems" by (auto simp: filter_id_conv in_set_conv_nth)
    moreover have "filter (\<lambda>it. itemCompare it t < 0) (drop lo its) = []"
      using "1.prems" eq by (auto simp: filter_empty_conv in_set_conv_nth)
    ultimately have "filter (\<lambda>it. itemCompare it t < 0) its = take lo its"
      by (metis append_Nil2 append_take_drop_id filter_append)
    with "1.prems" eq show ?thesis by (simp add: lower_loop.simps[of its t hi])
  next
    case True
    define mid where "mid = (lo + hi) div 2"
    have mid: "lo \<le> mid" "mid < hi" using True by (auto simp: mid_def)
    show ?thesis
    proof (cases "itemCompare (its ! mid) t < 0")
      case less: True
      have "\<forall>i < mid + 1. itemCompare (its ! i) t < 0"
        using "1.prems" mid less itemCompare_less_le_trans(2)[OF item_sorted_nth less] by simp
      with "1.IH"(1)[OF True mid_def less] "1.prems" mid less True show ?thesis
        by (simp add: lower_loop.simps[of its t lo] flip: mid_def)
    next
      case ge: False
      have "\<forall>i. mid \<le> i \<and> i < length its \<longrightarrow> \<not> itemCompare (its ! i) t < 0"
        using "1.prems" mid ge by (metis itemCompare_less_le_trans(2) item_sorted_nth)
      with "1.IH"(2)[OF True mid_def ge] "1.prems" mid ge True show ?thesis
        by (simp add: lower_loop.simps[of its t lo] flip: mid_def)
    qed
  qed
qed

lemma item_sorted_below:
  assumes "item_sorted its" "i < length its"
  shows "itemCompare (its ! i) b < 0 \<longleftrightarrow> i < length (filter (\<lambda>it. itemCompare it b < 0) its)"
  using assms
proof (induction its arbitrary: i)
  case (Cons it its)
  show ?case
  proof (cases "itemCompare it b < 0")
    case True
    with Cons show ?thesis by (cases i) auto
  next
    case False
    with Cons.prems(1) have "filter (\<lambda>it. itemCompare it b < 0) its = []"
      by (auto simp: filter_empty_conv dest: itemCompare_less_le_trans(2))
    with False Cons show ?thesis by (cases i) auto
  qed
qed simp

lemma findLowerBound_eq:
  assumes "item_sorted its" "begn \<le> length (filter (\<lambda>it. itemCompare it bound < 0) its)"
  shows "findLowerBound its begn (length its) bound = length (filter (\<lambda>it. itemCompare it bound < 0) its)"
proof -
  have "begn \<le> length its" using assms(2) length_filter_le order_trans by blast
  then show ?thesis
    unfolding findLowerBound_def using assms item_sorted_below[OF assms(1), of _ bound]
    by (intro lower_loop_spec) auto
qed

text \<open>
  The binary search of the storage returns the number of items below the bound, from any start
  index at or before it: the items before the index are below the bound and the others are not.
\<close>

theorem findLowerBound_counts:
  assumes "begn \<le> length (filter (\<lambda>it. itemCompare it bound < 0) (fromItems its))"
  defines "r \<equiv> findLowerBound (fromItems its) begn (length (fromItems its)) bound"
  shows "r = length (filter (\<lambda>it. itemCompare it bound < 0) (fromItems its))
    \<and> (\<forall>i < length (fromItems its). itemCompare (fromItems its ! i) bound < 0 \<longleftrightarrow> i < r)"
  using findLowerBound_eq[OF fromItems_sorted assms(1)] item_sorted_below[OF fromItems_sorted, of _ its bound]
  by (simp add: r_def)

theorem findLowerBound_counts_witness:
  "findLowerBound (fromItems [\<lparr>timestamp = 5, iid = replicate 64 (CHR ''b'')\<rparr>,
       \<lparr>timestamp = 3, iid = replicate 64 (CHR ''a'')\<rparr>]) 0
     (length (fromItems [\<lparr>timestamp = 5, iid = replicate 64 (CHR ''b'')\<rparr>,
       \<lparr>timestamp = 3, iid = replicate 64 (CHR ''a'')\<rparr>])) \<lparr>timestamp = 4, iid = ''''\<rparr> = 1"
  using findLowerBound_counts[of 0 "\<lparr>timestamp = 4, iid = ''''\<rparr>"
      "[\<lparr>timestamp = 5, iid = replicate 64 (CHR ''b'')\<rparr>, \<lparr>timestamp = 3, iid = replicate 64 (CHR ''a'')\<rparr>]"]
  by (simp add: fromItems_def js_sort_def itemCompare_def)

section \<open>Minimal bounds\<close>

lemma less_take:
  "xs < ys \<Longrightarrow> take k xs \<noteq> take k ys \<Longrightarrow> (xs :: string) < take k ys"
proof (induction k arbitrary: xs ys)
  case (Suc k)
  then show ?case by (cases xs; cases ys) auto
qed simp

lemma take_le: "take k xs \<le> (xs :: string)"
proof (induction k arbitrary: xs)
  case (Suc k)
  then show ?case by (cases xs) auto
qed simp

lemma shared_prefix_separates:
  "take (2 * (n + 1)) c \<noteq> take (2 * (n + 1)) p \<Longrightarrow>
   take ((shared_prefix n c p + 1) * 2) c \<noteq> take ((shared_prefix n c p + 1) * 2) p"
proof (induction n c p rule: shared_prefix.induct)
  case (2 n c p)
  have split: "take (Suc (Suc m)) s = take 2 s @ take m (drop 2 s)" for m and s :: string
    using take_add[of 2 m s] by simp
  from 2 show ?case
    by (cases "take 2 c = take 2 p") (simp_all add: split)
qed simp

lemma minimal_bound_between:
  assumes "itemCompare prev cur < 0"
    and "timestamp prev \<noteq> timestamp cur \<or> take 34 (iid prev) \<noteq> take 34 (iid cur)"
  shows "itemCompare prev (getMinimalBound prev cur) < 0 \<and> itemCompare (getMinimalBound prev cur) cur \<le> 0"
proof (cases "timestamp cur = timestamp prev")
  case True
  define k where "k = (shared_prefix 16 (iid cur) (iid prev) + 1) * 2"
  have "take k (iid prev) \<noteq> take k (iid cur)"
    using shared_prefix_separates[of 16 "iid cur" "iid prev"] assms(2) True by (auto simp: k_def)
  then have "iid prev < take k (iid cur)"
    using less_take assms(1) True by (auto simp: itemCompare_less)
  with True show ?thesis
    by (auto simp: getMinimalBound_def itemCompare_less itemCompare_le take_le k_def)
next
  case False
  with assms(1) show ?thesis
    by (auto simp: getMinimalBound_def itemCompare_less itemCompare_le)
qed

text \<open>
  Where two adjacent items differ in their timestamps or in the first seventeen bytes of their
  ids, the minimal bound between them separates them: the first lies below it and the second does
  not.
\<close>

theorem getMinimalBound_separates:
  assumes "itemCompare prev cur < 0"
    and "timestamp prev \<noteq> timestamp cur \<or> take 34 (iid prev) \<noteq> take 34 (iid cur)"
  shows "itemCompare prev (getMinimalBound prev cur) < 0 \<and> itemCompare (getMinimalBound prev cur) cur \<le> 0"
  using assms by (rule minimal_bound_between)

theorem getMinimalBound_separates_witness:
  "getMinimalBound \<lparr>timestamp = 7, iid = ''aabb''\<rparr> \<lparr>timestamp = 7, iid = ''aacc''\<rparr>
     = \<lparr>timestamp = 7, iid = ''aacc''\<rparr>
   \<and> itemCompare \<lparr>timestamp = 7, iid = ''aabb''\<rparr>
       (getMinimalBound \<lparr>timestamp = 7, iid = ''aabb''\<rparr> \<lparr>timestamp = 7, iid = ''aacc''\<rparr>) < 0"
  using getMinimalBound_separates[of "\<lparr>timestamp = 7, iid = ''aabb''\<rparr>" "\<lparr>timestamp = 7, iid = ''aacc''\<rparr>"]
  by (simp add: itemCompare_def str_cmp_def getMinimalBound_def eval_nat_numeral)

section \<open>Buckets\<close>

lemma sum_list_ones: "sum_list (map (\<lambda>i. q + (if i < r then 1 else 0)) [0..<n]) = n * q + min r (n :: nat)"
  by (induction n) auto

lemma bucket_sizes_partition:
  assumes "0 < buckets"
  shows "sum_list (bucket_sizes n buckets) = n \<and> length (bucket_sizes n buckets) = buckets
    \<and> (\<forall>sz \<in> set (bucket_sizes n buckets). n div buckets \<le> sz \<and> sz \<le> n div buckets + 1)"
  using assms
  by (auto simp: bucket_sizes_def sum_list_ones less_imp_le mult.commute div_mult_mod_eq)

end
