(* ===== verification/Reconciliation.thy ===== *)
theory Reconciliation
  imports Negentropy
begin

text \<open>
  What a run of the engine of \<open>client/src/nostr/negentropy.ts\<close> achieves, over the definitions of
  theory \<open>Negentropy\<close>: the accumulator is addition modulo \<open>2^256\<close>, so a fingerprint depends only
  on the ids of a range; two peers with the same items agree on every bucket; a reconciliation by
  id lists returns the two set differences and ends.
\<close>

section \<open>The fingerprint of a range\<close>

primrec words_val :: "nat list \<Rightarrow> nat" where
  "words_val [] = 0"
| "words_val (w # ws) = w + 2 ^ 32 * words_val ws"

primrec words_of :: "nat \<Rightarrow> nat \<Rightarrow> nat list" where
  "words_of 0 v = []"
| "words_of (Suc n) v = v mod 2 ^ 32 # words_of n (v div 2 ^ 32)"

lemma words_of_val: "\<forall>w \<in> set ws. w < 2 ^ 32 \<Longrightarrow> words_of (length ws) (words_val ws) = ws"
  by (induction ws) auto

lemma length_add_words [simp]: "length as = length bs \<Longrightarrow> length (add_words c as bs) = length as"
  by (induction c as bs rule: add_words.induct) (auto simp: Let_def)

lemma add_words_bound: "w \<in> set (add_words c as bs) \<Longrightarrow> w < 2 ^ 32"
  by (induction c as bs rule: add_words.induct) (auto simp: Let_def)

lemma add_words_val:
  "length as = length bs \<Longrightarrow>
   words_val (add_words c as bs) = (words_val as + words_val bs + (if as = [] then 0 else c)) mod 2 ^ (32 * length as)"
proof (induction c as bs rule: add_words.induct)
  case (1 c a as b bs)
  define W :: nat where "W = 2 ^ 32"
  define s where "s = a + c + b"
  define v where "v = words_val as + words_val bs"
  have W: "0 < W" by (simp add: W_def)
  have pow: "2 ^ (32 * length (a # as)) = W * 2 ^ (32 * length as)"
    by (simp add: W_def power_add)
  have IH: "words_val (add_words (s div W) as bs) = (v + s div W) mod 2 ^ (32 * length as)"
  proof (cases "as = []")
    case True
    with 1 show ?thesis by (simp add: v_def)
  next
    case False
    with 1 show ?thesis unfolding s_def v_def W_def by simp
  qed
  have "words_val (add_words c (a # as) (b # bs)) = s mod W + W * ((v + s div W) mod 2 ^ (32 * length as))"
    using IH by (simp add: Let_def W_def s_def)
  also have "\<dots> = (s + W * v) mod (W * 2 ^ (32 * length as))"
    using W by (simp add: mod_mult2_eq)
  also have "s + W * v = words_val (a # as) + words_val (b # bs) + c"
    by (simp add: s_def v_def W_def algebra_simps)
  finally show ?case unfolding pow by simp
qed auto

lemma length_le_words: "length (le_words bs) = length bs div 4"
  by (induction bs rule: le_words.induct) auto

lemma words_val_0: "words_val (replicate n 0) = 0"
  by (induction n) auto

lemma length_words_of [simp]: "length (words_of n v) = n"
  by (induction n arbitrary: v) auto

lemma length_word_bytes: "length (concat (map word_bytes ws)) = 4 * length ws"
  by (induction ws) (auto simp: word_bytes_def)

definition id_value :: "(string \<Rightarrow> u8 list) \<Rightarrow> string \<Rightarrow> nat" where
  \<comment> \<open>an id as a 256-bit little-endian number\<close>
  "id_value hx i = words_val (le_words (hx i))"

lemma accumulate:
  assumes "\<forall>it \<in> set its. length (hx (iid it)) = 32"
    and "length buf = 8" "\<forall>w \<in> set buf. w < 2 ^ 32" "words_val buf = v mod 2 ^ 256"
  shows "foldl (\<lambda>buf it. addBytes buf (hx (iid it))) buf its =
    words_of 8 ((v + sum_list (map (\<lambda>it. id_value hx (iid it)) its)) mod 2 ^ 256)"
  using assms
proof (induction its arbitrary: buf v)
  case Nil
  then show ?case using words_of_val[of buf] by simp
next
  case (Cons it its)
  define buf' where "buf' = addBytes buf (hx (iid it))"
  have len: "length (le_words (hx (iid it))) = length buf"
    using Cons.prems by (simp add: length_le_words)
  have "words_val buf' = (words_val buf + id_value hx (iid it)) mod 2 ^ 256"
    using len Cons.prems(2) by (simp add: buf'_def addBytes_def add_words_val id_value_def)
  then have val: "words_val buf' = (v + id_value hx (iid it)) mod 2 ^ 256"
    using Cons.prems(4) by (simp add: mod_add_left_eq)
  have "foldl (\<lambda>buf it. addBytes buf (hx (iid it))) buf' its =
      words_of 8 (((v + id_value hx (iid it)) + sum_list (map (\<lambda>it. id_value hx (iid it)) its)) mod 2 ^ 256)"
    using Cons.prems len val
    by (intro Cons.IH) (auto simp: buf'_def addBytes_def dest: add_words_bound)
  then show ?case by (simp add: buf'_def add.assoc)
qed

text \<open>
  The fingerprint of a range hashes the sum of its ids modulo \<open>2^256\<close>, as eight little-endian
  words, with their number; it does not depend on the order of the items or on their timestamps.
\<close>

theorem fingerprint_sum:
  assumes "\<forall>it \<in> set (js_slice b e its). length (hx (iid it)) = 32"
  shows "fingerprint hx fph its b e =
    getFingerprint fph
      (words_of 8 (sum_list (map (id_value hx) (map iid (js_slice b e its))) mod 2 ^ 256)) (e - b)"
  using accumulate[of "js_slice b e its" hx "replicate 8 0" 0] assms
  by (simp add: fingerprint_def words_val_0 comp_def)

theorem fingerprint_sum_witness:
  "fingerprint (\<lambda>i. replicate 32 (if i = ''x'' then 255 else 1)) (\<lambda>bs. replicate (length bs) (CHR ''f''))
     [\<lparr>timestamp = 1, iid = ''x''\<rparr>, \<lparr>timestamp = 2, iid = ''y''\<rparr>] 0 2 = Inr (replicate 33 (CHR ''f''))"
  using fingerprint_sum[of 0 2 "[\<lparr>timestamp = 1, iid = ''x''\<rparr>, \<lparr>timestamp = 2, iid = ''y''\<rparr>]"
      "\<lambda>i. replicate 32 (if i = ''x'' then 255 else 1)" "\<lambda>bs. replicate (length bs) (CHR ''f'')"]
  by (simp add: js_slice_def getFingerprint_def encodeVarInt_def varint_loop.simps length_word_bytes)

lemma fingerprint_total:
  "\<exists>i. fingerprint hx fph its b e = Inr (fph i)"
proof -
  obtain bs where "encodeVarInt (int (e - b)) = Inr bs"
    using encodeVarInt_total[of "int (e - b)"] by auto
  then show ?thesis by (auto simp: fingerprint_def getFingerprint_def)
qed

section \<open>A reconciliation by id lists\<close>

lemma readVarInt_mode: "readVarInt (writeByte (mode_byte m) @ s) = Inr (mode_byte m, s)"
proof -
  have b: "0 \<le> mode_byte m" "mode_byte m < 128" by (cases m; simp add: mode_byte_def)+
  then show ?thesis
    by (simp add: readVarInt_def varint_read.simps[of 0] readHexByte_writeByte and_128 and_127)
qed

lemma mode_byte_eq [simp]: "mode_byte m = mode_byte m' \<longleftrightarrow> m = m'"
  by (cases m; cases m') (auto simp: mode_byte_def)

lemma foldl_set_add_new:
  "distinct ids \<Longrightarrow> set ids \<inter> set acc = {} \<Longrightarrow> foldl (\<lambda>a i. set_add i a) acc ids = acc @ ids"
  by (induction ids arbitrary: acc) (auto simp: set_add_def)

lemma read_ids_concat:
  "\<forall>i \<in> set ids. length i = 64 \<Longrightarrow>
   read_ids (length ids) acc (concat ids @ s) = Inr (foldl (\<lambda>a i. set_add i a) acc ids, s)"
  by (induction ids arbitrary: acc) (auto simp: readString_def)

lemma client_diff_spec:
  assumes "distinct (map iid rng)"
  shows "client_diff rng theirs =
    (filter (\<lambda>i. i \<notin> iid ` set rng) theirs, filter (\<lambda>i. i \<notin> set theirs) (map iid rng))"
proof -
  have "foldl (\<lambda>(theirs, have) it.
        if iid it \<in> set theirs then (filter (\<lambda>i. i \<noteq> iid it) theirs, have)
        else (theirs, have @ [iid it])) (theirs, have) rng =
      (filter (\<lambda>i. i \<notin> iid ` set rng) theirs, have @ filter (\<lambda>i. i \<notin> set theirs) (map iid rng))"
    for "have"
    using assms
  proof (induction rng arbitrary: theirs "have")
    case (Cons it rng)
    have "filter (\<lambda>i. i \<notin> set (filter (\<lambda>i. i \<noteq> iid it) theirs)) (map iid rng) =
        filter (\<lambda>i. i \<notin> set theirs) (map iid rng)"
      using Cons.prems by (intro filter_cong) (auto, metis imageI)
    moreover have "filter (\<lambda>i. i \<notin> iid ` set rng) theirs = filter (\<lambda>i. i \<notin> iid ` set (it # rng)) theirs"
      if "iid it \<notin> set theirs"
      using that by (intro filter_cong) auto
    ultimately show ?case
      using Cons by (auto simp: conj_commute cong: filter_cong)
  qed simp
  from this[of "[]"] show ?thesis by (simp add: client_diff_def)
qed

lemma respond_loop_unlimited:
  "ng_limit ng = None \<Longrightarrow>
   respond_loop ng full its n ids = (None, n + length its, ids @ concat (map iid its))"
  by (induction ng full its n ids rule: respond_loop.induct) (auto simp: frame_full_def)

definition before_end :: "item list \<Rightarrow> bool" where
  \<comment> \<open>every timestamp lies below the sentinel of the open bound\<close>
  "before_end its \<longleftrightarrow> (\<forall>it \<in> set its. timestamp it < MAX_TIMESTAMP)"

lemma find_infinite:
  assumes "item_sorted its" "before_end its" "begn \<le> length its"
  shows "findLowerBound its begn (length its) INFINITE_BOUND = length its"
proof -
  have all: "\<forall>it \<in> set its. itemCompare it INFINITE_BOUND < 0"
    using assms(2) by (auto simp: before_end_def INFINITE_BOUND_def itemCompare_less)
  then have "length (filter (\<lambda>it. itemCompare it INFINITE_BOUND < 0) its) = length its"
    by (simp add: filter_id_conv)
  moreover have "findLowerBound its begn (length its) INFINITE_BOUND =
      length (filter (\<lambda>it. itemCompare it INFINITE_BOUND < 0) its)"
    unfolding findLowerBound_def using assms all by (intro lower_loop_spec) auto
  ultimately show ?thesis by simp
qed

text \<open>The message that lists all the ids of one side.\<close>

definition idlist_msg :: "item list \<Rightarrow> string \<Rightarrow> bool" where
  "idlist_msg its msg \<longleftrightarrow> (\<exists>b c. msg = writeByte PROTOCOL_VERSION @ b @ writeByte (mode_byte IdList) @ c
       @ concat (map iid its)
     \<and> writeBound 0 INFINITE_BOUND = Inr (b, MAX_TIMESTAMP)
     \<and> writeVarInt (int (length its)) = Inr c)"

lemma infinite_bound_wire:
  obtains b where "writeBound 0 INFINITE_BOUND = Inr (b, MAX_TIMESTAMP)"
    "\<And>s. readBound 0 (b @ s) = Inr (INFINITE_BOUND, MAX_TIMESTAMP, s)"
proof -
  obtain b where "writeBound 0 INFINITE_BOUND = Inr (b, MAX_TIMESTAMP)"
    using writeBound_reads[of 0 INFINITE_BOUND] by (auto simp: INFINITE_BOUND_def MAX_TIMESTAMP_def)
  moreover have "readBound 0 (b @ s) = Inr (INFINITE_BOUND, MAX_TIMESTAMP, s)" for s
    using writeBound_reads[of 0 INFINITE_BOUND] calculation
    by (auto simp: INFINITE_BOUND_def MAX_TIMESTAMP_def)
  ultimately show ?thesis by (rule that)
qed

definition storage_ok :: "item list \<Rightarrow> bool" where
  "storage_ok its \<longleftrightarrow> item_sorted its \<and> distinct (map iid its)
     \<and> (\<forall>it \<in> set its. length (iid it) = 64) \<and> before_end its"

lemma initiate_idlist:
  assumes "length (ng_items ng) < 2 * ng_buckets ng"
  shows "\<exists>msg. initiate hx fph ng = Inr (ng\<lparr>ng_client := True\<rparr>, msg) \<and> idlist_msg (ng_items ng) msg"
proof -
  obtain b where b: "writeBound 0 INFINITE_BOUND = Inr (b, MAX_TIMESTAMP)"
    using infinite_bound_wire by blast
  obtain c where c: "writeVarInt (int (length (ng_items ng))) = Inr c"
    using writeVarInt_nat by blast
  from assms b c show ?thesis
    by (auto simp: initiate_def splitRange_def idlist_msg_def js_slice_def)
qed

lemma dedupe_items_subset: "set (dedupe_items seen its) \<subseteq> set its"
  by (induction seen its rule: dedupe_items.induct) auto

lemma storage_ok_fromItems:
  assumes "before_end its"
  shows "storage_ok (fromItems its)"
proof -
  have "set (fromItems its) \<subseteq> set its" by (simp add: fromItems_def dedupe_items_subset)
  moreover have "\<forall>it \<in> set (fromItems its). length (iid it) = 64" using fromItems_ids[of its] by blast
  ultimately show ?thesis
    using assms by (auto simp: storage_ok_def fromItems_sorted fromItems_distinct before_end_def)
qed

lemma idlist_msg_exists: "\<exists>msg. idlist_msg its msg"
  using infinite_bound_wire writeVarInt_nat[of "length its"] unfolding idlist_msg_def by metis

lemma idlist_step:
  assumes ok: "storage_ok (ng_items ng)" and lim: "ng_limit ng = None"
    and b: "writeBound 0 INFINITE_BOUND = Inr (b, MAX_TIMESTAMP)"
    and c: "writeVarInt (int (length its)) = Inr c"
    and ids: "distinct (map iid its)" "\<forall>it \<in> set its. length (iid it) = 64"
    and st: "r_in st = b @ writeByte (mode_byte IdList) @ c @ concat (map iid its)"
      "r_lastIn st = 0" "r_lastOut st = 0" "r_prevIndex st = 0" "\<not> r_skipping st"
  shows "\<exists>st'. recon_step hx fph ng st = Inr (st', False) \<and> r_in st' = [] \<and>
    (if ng_client ng
     then r_full st' = r_full st
       \<and> r_need st' = r_need st @ filter (\<lambda>i. i \<notin> iid ` set (ng_items ng)) (map iid its)
       \<and> r_have st' = r_have st @ filter (\<lambda>i. i \<notin> iid ` set its) (map iid (ng_items ng))
     else (\<exists>c'. writeVarInt (int (length (ng_items ng))) = Inr c' \<and>
         r_full st' = r_full st @ b @ writeByte (mode_byte IdList) @ c' @ concat (map iid (ng_items ng)))
       \<and> r_need st' = r_need st \<and> r_have st' = r_have st)"
proof -
  obtain b' where b': "writeBound 0 INFINITE_BOUND = Inr (b', MAX_TIMESTAMP)"
    "\<And>s. readBound 0 (b' @ s) = Inr (INFINITE_BOUND, MAX_TIMESTAMP, s)"
    by (rule infinite_bound_wire) blast
  then have rb: "readBound 0 (b @ s) = Inr (INFINITE_BOUND, MAX_TIMESTAMP, s)" for s using b by simp
  have rc: "readVarInt (c @ s) = Inr (int (length its), s)" for s
    using writeVarInt_nat[of "length its"] c by (metis sum.inject(2))
  obtain c' where c': "writeVarInt (int (length (ng_items ng))) = Inr c'"
    using writeVarInt_nat by blast
  have ri: "read_ids (length its) [] (concat (map iid its)) = Inr (map iid its, [])"
    using read_ids_concat[of "map iid its" "[]" "[]"] ids foldl_set_add_new[of "map iid its" "[]"] by simp
  have up: "findLowerBound (ng_items ng) 0 (length (ng_items ng)) INFINITE_BOUND = length (ng_items ng)"
    using ok by (intro find_infinite) (auto simp: storage_ok_def)
  have sl: "js_slice 0 (length (ng_items ng)) (ng_items ng) = ng_items ng" by (simp add: js_slice_def)
  have diff: "client_diff (ng_items ng) (map iid its) =
      (filter (\<lambda>i. i \<notin> iid ` set (ng_items ng)) (map iid its),
       filter (\<lambda>i. i \<notin> iid ` set its) (map iid (ng_items ng)))"
    using ok client_diff_spec[of "ng_items ng" "map iid its"] by (simp add: storage_ok_def)
  show ?thesis
    using st lim
    by (simp add: recon_step_def handle_idlist_def finishSkip_def rb rc ri up sl readVarInt_mode b c' diff
        respond_loop_unlimited frame_full_def Let_def)
qed

lemma reconcile_idlist:
  assumes ok: "storage_ok (ng_items ng)" and lim: "ng_limit ng = None"
    and msg: "idlist_msg its msg"
    and ids: "distinct (map iid its)" "\<forall>it \<in> set its. length (iid it) = 64"
  shows "if ng_client ng
    then reconcile hx fph ng msg = Inr \<lparr>res_output = None,
        res_need = filter (\<lambda>i. i \<notin> iid ` set (ng_items ng)) (map iid its),
        res_have = filter (\<lambda>i. i \<notin> iid ` set its) (map iid (ng_items ng))\<rparr>
    else \<exists>m. reconcile hx fph ng msg = Inr \<lparr>res_output = Some m, res_need = [], res_have = []\<rparr>
      \<and> idlist_msg (ng_items ng) m"
proof -
  obtain b c where b: "writeBound 0 INFINITE_BOUND = Inr (b, MAX_TIMESTAMP)"
    and c: "writeVarInt (int (length its)) = Inr c"
    and m: "msg = writeByte PROTOCOL_VERSION @ b @ writeByte (mode_byte IdList) @ c @ concat (map iid its)"
    using msg by (auto simp: idlist_msg_def)
  define st where "st = \<lparr>r_in = b @ writeByte (mode_byte IdList) @ c @ concat (map iid its),
      r_lastIn = 0, r_lastOut = 0,
      r_prevBound = \<lparr>timestamp = 0, iid = ''''\<rparr>, r_prevIndex = 0, r_skipping = False,
      r_full = writeByte PROTOCOL_VERSION, r_need = [], r_have = []\<rparr>"
  have aux: "reconcileAux hx fph ng msg = recon_loop hx fph ng st"
    by (simp add: reconcileAux_def m st_def readHexByte_writeByte PROTOCOL_VERSION_def)
  have st0: "r_full st = writeByte PROTOCOL_VERSION" "r_need st = []" "r_have st = []"
    by (simp_all add: st_def)
  have ne: "r_in st \<noteq> []" by (simp add: st_def writeByte_def padStart_def toString16_def)
  from idlist_step[OF ok lim b c ids, of st hx fph] obtain st' where
    step: "recon_step hx fph ng st = Inr (st', False)" "r_in st' = []" and
    post: "if ng_client ng
     then r_full st' = r_full st
       \<and> r_need st' = r_need st @ filter (\<lambda>i. i \<notin> iid ` set (ng_items ng)) (map iid its)
       \<and> r_have st' = r_have st @ filter (\<lambda>i. i \<notin> iid ` set its) (map iid (ng_items ng))
     else (\<exists>c'. writeVarInt (int (length (ng_items ng))) = Inr c' \<and>
         r_full st' = r_full st @ b @ writeByte (mode_byte IdList) @ c' @ concat (map iid (ng_items ng)))
       \<and> r_need st' = r_need st \<and> r_have st' = r_have st"
    by (auto simp: st_def)
  have loop: "recon_loop hx fph ng st = Inr st'"
    using step ne by (simp add: recon_loop.simps[of hx fph ng st] recon_loop.simps[of hx fph ng st'])
  have two: "length (writeByte PROTOCOL_VERSION) = 2"
    by (simp add: writeByte_def PROTOCOL_VERSION_def padStart_def toString16_def)
  show ?thesis
    using post b two st0 by (auto simp: reconcile_def aux loop idlist_msg_def)
qed

text \<open>
  C27. When the client holds fewer items than twice its fan-out and frames are not limited, one
  exchange reconciles completely: the client learns exactly the ids only the relay has and the ids
  only it has, in storage order, and knows that it is done.
\<close>

theorem reconcile_one_round:
  assumes "before_end cs" "before_end ss"
    and "new_negentropy (fromItems cs) 0 buckets = Inr client" "length (fromItems cs) < 2 * buckets"
    and "new_negentropy (fromItems ss) 0 buckets' = Inr relay"
  shows "sbind (initiate hx fph client) (\<lambda>(client, msg).
      sbind (reconcile hx fph relay msg) (\<lambda>reply. reconcile hx fph client (the (res_output reply)))) =
    Inr \<lparr>res_output = None,
         res_need = [i \<leftarrow> map iid (fromItems ss). i \<notin> iid ` set (fromItems cs)],
         res_have = [i \<leftarrow> map iid (fromItems cs). i \<notin> iid ` set (fromItems ss)]\<rparr>"
proof -
  have ok: "storage_ok (fromItems cs)" "storage_ok (fromItems ss)"
    using assms(1,2) by (auto intro: storage_ok_fromItems)
  have cl: "ng_items client = fromItems cs" "ng_limit client = None" "ng_buckets client = buckets"
    and rl: "ng_items relay = fromItems ss" "ng_limit relay = None" "\<not> ng_client relay"
    using assms(3,5) by (auto simp: new_negentropy_def split: if_splits)
  obtain msg where msg: "initiate hx fph client = Inr (client\<lparr>ng_client := True\<rparr>, msg)"
    "idlist_msg (fromItems cs) msg"
    using initiate_idlist[of client] cl assms(4) by auto
  from reconcile_idlist[OF _ rl(2) msg(2), of hx fph] ok rl obtain m where
    "reconcile hx fph relay msg = Inr \<lparr>res_output = Some m, res_need = [], res_have = []\<rparr>"
    "idlist_msg (fromItems ss) m"
    by (auto simp: storage_ok_def)
  moreover from reconcile_idlist[OF _ _ this(2), of "client\<lparr>ng_client := True\<rparr>" hx fph] ok cl
  have "reconcile hx fph (client\<lparr>ng_client := True\<rparr>) m = Inr \<lparr>res_output = None,
         res_need = [i \<leftarrow> map iid (fromItems ss). i \<notin> iid ` set (fromItems cs)],
         res_have = [i \<leftarrow> map iid (fromItems cs). i \<notin> iid ` set (fromItems ss)]\<rparr>"
    by (auto simp: storage_ok_def)
  ultimately show ?thesis using msg by simp
qed

theorem reconcile_one_round_witness:
  "sbind (initiate (\<lambda>_. []) (\<lambda>_. []) \<lparr>ng_items = fromItems [\<lparr>timestamp = 5, iid = replicate 64 (CHR ''a'')\<rparr>],
       ng_limit = None, ng_buckets = 16, ng_client = False\<rparr>) (\<lambda>(client, msg).
     sbind (reconcile (\<lambda>_. []) (\<lambda>_. []) \<lparr>ng_items = fromItems [\<lparr>timestamp = 5, iid = replicate 64 (CHR ''b'')\<rparr>],
       ng_limit = None, ng_buckets = 16, ng_client = False\<rparr> msg)
       (\<lambda>reply. reconcile (\<lambda>_. []) (\<lambda>_. []) client (the (res_output reply)))) =
   Inr \<lparr>res_output = None, res_need = [replicate 64 (CHR ''b'')], res_have = [replicate 64 (CHR ''a'')]\<rparr>"
  by (subst reconcile_one_round[of "[\<lparr>timestamp = 5, iid = replicate 64 (CHR ''a'')\<rparr>]"
        "[\<lparr>timestamp = 5, iid = replicate 64 (CHR ''b'')\<rparr>]" 16 _ 16])
     (simp_all add: before_end_def MAX_TIMESTAMP_def new_negentropy_def fromItems_def js_sort_def)

section \<open>Peers in sync\<close>

definition separated :: "item list \<Rightarrow> bool" where
  \<comment> \<open>items with the same timestamp differ within the first seventeen bytes of their ids\<close>
  "separated its \<longleftrightarrow> (\<forall>i j. i < j \<longrightarrow> j < length its \<longrightarrow> timestamp (its ! i) = timestamp (its ! j)
     \<longrightarrow> take 34 (iid (its ! i)) \<noteq> take 34 (iid (its ! j)))"

definition bucket_bound :: "item list \<Rightarrow> nat \<Rightarrow> item" where
  "bucket_bound its k = (if k = length its then INFINITE_BOUND else getMinimalBound (its ! (k - 1)) (its ! k))"

lemma storage_ok_strict:
  assumes "storage_ok its" "i < j" "j < length its"
  shows "itemCompare (its ! i) (its ! j) < 0"
proof -
  have "itemCompare (its ! i) (its ! j) \<le> 0"
    using assms by (auto simp: storage_ok_def intro: item_sorted_nth)
  moreover have "iid (its ! i) \<noteq> iid (its ! j)"
    using assms by (auto simp: storage_ok_def distinct_conv_nth)
  ultimately show ?thesis by (auto simp: itemCompare_le itemCompare_less)
qed

lemma bucket_bound_found:
  assumes ok: "storage_ok its" and sep: "separated its" and k: "0 < k" "k \<le> length its" "begn \<le> k"
  shows "findLowerBound its begn (length its) (bucket_bound its k) = k"
proof (cases "k = length its")
  case True
  with ok k show ?thesis
    by (auto simp: bucket_bound_def storage_ok_def intro!: find_infinite)
next
  case False
  define n where "n = length (filter (\<lambda>it. itemCompare it (bucket_bound its k) < 0) its)"
  have lt: "k - 1 < k" "k < length its" using False k by auto
  have srt: "item_sorted its" using ok by (simp add: storage_ok_def)
  have between: "itemCompare (its ! (k - 1)) (bucket_bound its k) < 0"
      "itemCompare (bucket_bound its k) (its ! k) \<le> 0"
    using minimal_bound_between[of "its ! (k - 1)" "its ! k"] storage_ok_strict[OF ok lt] sep lt False
    by (auto simp: bucket_bound_def separated_def)
  have "k - 1 < n"
    using item_sorted_below[OF srt, of "k - 1" "bucket_bound its k"] between(1) lt by (simp add: n_def)
  moreover have "\<not> k < n"
    using item_sorted_below[OF srt, of k "bucket_bound its k"] between(2) lt
    by (metis itemCompare_not_less n_def)
  ultimately have "n = k" by simp
  with k(3) findLowerBound_eq[OF srt, of begn "bucket_bound its k"] show ?thesis by (simp add: n_def)
qed

lemma bucket_bound_wire:
  assumes ok: "storage_ok its" and k: "0 < k" "k \<le> length its"
    and clock: "clock \<le> MAX_TIMESTAMP" "\<forall>i < length its. cur \<le> i \<longrightarrow> clock \<le> timestamp (its ! i)" "cur \<le> k"
  shows "clock \<le> timestamp (bucket_bound its k)" "even (length (iid (bucket_bound its k)))"
    "timestamp (bucket_bound its k) \<le> MAX_TIMESTAMP"
    "\<forall>i < length its. k \<le> i \<longrightarrow> timestamp (bucket_bound its k) \<le> timestamp (its ! i)"
proof -
  have ts: "timestamp (bucket_bound its k) = (if k = length its then MAX_TIMESTAMP else timestamp (its ! k))"
    by (simp add: bucket_bound_def INFINITE_BOUND_def getMinimalBound_def)
  then show "clock \<le> timestamp (bucket_bound its k)" using clock k by auto
  show "even (length (iid (bucket_bound its k)))"
    using ok k by (auto simp: bucket_bound_def INFINITE_BOUND_def getMinimalBound_def storage_ok_def min_def)
  show "timestamp (bucket_bound its k) \<le> MAX_TIMESTAMP"
    using ts ok k by (auto simp: storage_ok_def before_end_def intro: less_imp_le)
  show "\<forall>i < length its. k \<le> i \<longrightarrow> timestamp (bucket_bound its k) \<le> timestamp (its ! i)"
    using ts ok k item_sorted_nth[of its k] by (fastforce simp: storage_ok_def itemCompare_le)
qed

lemma matching_range_skipped:
  assumes b: "readBound (r_lastIn st) (r_in st) = Inr (bd, ts, writeByte (mode_byte Fingerprint) @ fp @ rest)"
    and fp: "length fp = 32" and lim: "ng_limit ng = None"
    and up: "findLowerBound (ng_items ng) (r_prevIndex st) (length (ng_items ng)) bd = u"
    and ours: "fingerprint hx fph (ng_items ng) (r_prevIndex st) u = Inr fp"
  shows "recon_step hx fph ng st =
    Inr (st\<lparr>r_in := rest, r_lastIn := ts, r_skipping := True, r_prevIndex := u, r_prevBound := bd\<rparr>, False)"
  using assms
  by (simp add: recon_step_def handle_fingerprint_def readVarInt_mode readString_def FINGERPRINT_SIZE_def
      frame_full_def Let_def)

lemma split_loop_skipped:
  assumes ok: "storage_ok its" and sep: "separated its" and hash: "\<forall>x. length (fph x) = 32"
    and ng: "ng_items ng = its" and ng': "ng_items ng' = its" "ng_limit ng' = None"
    and sizes: "\<forall>sz \<in> set sizes. 0 < sz" "cur + sum_list sizes = length its"
    and clock: "clock \<le> MAX_TIMESTAMP" "\<forall>i < length its. cur \<le> i \<longrightarrow> clock \<le> timestamp (its ! i)"
  shows "\<exists>w l. split_loop hx fph ng (length its) INFINITE_BOUND sizes cur clock = Inr (w, l) \<and>
    (\<forall>st. r_in st = w \<longrightarrow> r_lastIn st = clock \<longrightarrow> r_prevIndex st = cur \<longrightarrow>
      (\<exists>st'. recon_loop hx fph ng' st = Inr st' \<and> r_full st' = r_full st
        \<and> r_need st' = r_need st \<and> r_have st' = r_have st))"
  using sizes clock
proof (induction sizes arbitrary: cur clock)
  case Nil
  show ?case by (auto simp: recon_loop.simps)
next
  case (Cons sz sizes)
  define k where "k = cur + sz"
  define bd where "bd = bucket_bound its k"
  have k: "0 < k" "k \<le> length its" "cur \<le> k" using Cons.prems(1,2) by (auto simp: k_def)
  have len: "k + sum_list sizes = length its" using Cons.prems(2) by (simp add: k_def)
  note wire = bucket_bound_wire[OF ok k(1,2) Cons.prems(3,4) k(3), folded bd_def]
  obtain w1 where w1: "writeBound clock bd = Inr (w1, timestamp bd)"
    "\<And>s. readBound clock (w1 @ s) = Inr (bd, timestamp bd, s)"
    using writeBound_reads[OF wire(1,2)] by blast
  obtain x where fp: "fingerprint hx fph its cur k = Inr (fph x)" using fingerprint_total by blast
  obtain w2 l where w2: "split_loop hx fph ng (length its) INFINITE_BOUND sizes k (timestamp bd) = Inr (w2, l)"
    and skip: "\<And>st. r_in st = w2 \<Longrightarrow> r_lastIn st = timestamp bd \<Longrightarrow> r_prevIndex st = k \<Longrightarrow>
      (\<exists>st'. recon_loop hx fph ng' st = Inr st' \<and> r_full st' = r_full st
        \<and> r_need st' = r_need st \<and> r_have st' = r_have st)"
    using Cons.IH[OF _ len wire(3,4)] Cons.prems(1) by auto
  define w where "w = w1 @ writeByte (mode_byte Fingerprint) @ fph x @ w2"
  have "split_loop hx fph ng (length its) INFINITE_BOUND (sz # sizes) cur clock = Inr (w, l)"
    using w1(1) w2 fp
    by (cases "k = length its") (simp_all add: ng Let_def w_def bd_def bucket_bound_def flip: k_def)
  moreover have "\<exists>st'. recon_loop hx fph ng' st = Inr st' \<and> r_full st' = r_full st
      \<and> r_need st' = r_need st \<and> r_have st' = r_have st"
    if st: "r_in st = w" "r_lastIn st = clock" "r_prevIndex st = cur" for st
  proof -
    have "recon_step hx fph ng' st =
      Inr (st\<lparr>r_in := w2, r_lastIn := timestamp bd, r_skipping := True, r_prevIndex := k, r_prevBound := bd\<rparr>, False)"
      using st w1(2) hash ng' fp bucket_bound_found[OF ok sep k]
      by (intro matching_range_skipped[where fp = "fph x"]) (auto simp: w_def bd_def)
    moreover have "r_in st \<noteq> []" using st by (simp add: w_def writeByte_def padStart_def toString16_def)
    ultimately show ?thesis
      using skip[of "st\<lparr>r_in := w2, r_lastIn := timestamp bd, r_skipping := True, r_prevIndex := k, r_prevBound := bd\<rparr>"]
      by (simp add: recon_loop.simps[of hx fph ng' st])
  qed
  ultimately show ?case by blast
qed

text \<open>
  Peers that hold the same items, at least twice as many as the client's fan-out, find out in
  one exchange: the relay recognises every bucket of the client's opening message and answers with
  the protocol version alone, which tells the client that nothing is missing on either side.
\<close>

theorem reconcile_in_sync:
  assumes "before_end its" "separated (fromItems its)" "\<forall>it \<in> set its. 0 \<le> timestamp it"
    and "\<forall>x. length (fph x) = 32"
    and "new_negentropy (fromItems its) 0 buckets = Inr client" "2 * buckets \<le> length (fromItems its)"
    and "new_negentropy (fromItems its) 0 buckets' = Inr relay"
  shows "\<exists>client' msg. initiate hx fph client = Inr (client', msg)
    \<and> reconcile hx fph relay msg = Inr \<lparr>res_output = Some ''61'', res_need = [], res_have = []\<rparr>
    \<and> reconcile hx fph client' ''61'' = Inr \<lparr>res_output = None, res_need = [], res_have = []\<rparr>"
proof -
  let ?its = "fromItems its"
  have ok: "storage_ok ?its" using assms(1) by (rule storage_ok_fromItems)
  have cl: "ng_items client = ?its" "ng_limit client = None" "ng_buckets client = buckets" "2 \<le> buckets"
    and rl: "ng_items relay = ?its" "ng_limit relay = None" "\<not> ng_client relay"
    using assms(5,7) by (auto simp: new_negentropy_def split: if_splits)
  have pv: "writeByte PROTOCOL_VERSION = ''61''"
    by (simp add: writeByte_def PROTOCOL_VERSION_def padStart_def toString16_def hex_digit_def)
  have head: "readHexByte (''61'' @ s) = Inr (PROTOCOL_VERSION, s)" for s
    using readHexByte_writeByte[of PROTOCOL_VERSION s, unfolded pv] by (simp add: PROTOCOL_VERSION_def)
  have sizes: "\<forall>sz \<in> set (bucket_sizes (length ?its) buckets). 0 < sz"
    "0 + sum_list (bucket_sizes (length ?its) buckets) = length ?its"
  proof -
    have "2 \<le> length ?its div buckets"
      using div_le_mono[OF assms(6), of buckets] cl(4) by simp
    then show "\<forall>sz \<in> set (bucket_sizes (length ?its) buckets). 0 < sz"
      "0 + sum_list (bucket_sizes (length ?its) buckets) = length ?its"
      using bucket_sizes_partition[of buckets "length ?its"] cl(4) by auto
  qed
  have "\<forall>i < length ?its. 0 \<le> i \<longrightarrow> 0 \<le> timestamp (?its ! i)"
    using assms(3) dedupe_items_subset[of "[]" its] nth_mem[of _ ?its] by (force simp: fromItems_def)
  from split_loop_skipped[where hx = hx and ng = "client\<lparr>ng_client := True\<rparr>" and ng' = relay,
      OF ok assms(2,4) _ rl(1,2) sizes _ this]
  obtain w l where w: "split_loop hx fph (client\<lparr>ng_client := True\<rparr>) (length ?its) INFINITE_BOUND
        (bucket_sizes (length ?its) buckets) 0 0 = Inr (w, l)"
    and skip: "\<And>st. r_in st = w \<Longrightarrow> r_lastIn st = 0 \<Longrightarrow> r_prevIndex st = 0 \<Longrightarrow>
      (\<exists>st'. recon_loop hx fph relay st = Inr st' \<and> r_full st' = r_full st
        \<and> r_need st' = r_need st \<and> r_have st' = r_have st)"
    using cl(1) by (auto simp: MAX_TIMESTAMP_def)
  have "initiate hx fph client = Inr (client\<lparr>ng_client := True\<rparr>, ''61'' @ w)"
    using w cl assms(6) by (simp add: initiate_def splitRange_def pv)
  moreover have "reconcile hx fph relay (''61'' @ w) = Inr \<lparr>res_output = Some ''61'', res_need = [], res_have = []\<rparr>"
    using skip[of "\<lparr>r_in = w, r_lastIn = 0, r_lastOut = 0, r_prevBound = \<lparr>timestamp = 0, iid = ''''\<rparr>,
        r_prevIndex = 0, r_skipping = False, r_full = ''61'', r_need = [], r_have = []\<rparr>"] rl(3)
    by (auto simp: reconcile_def reconcileAux_def head pv simp del: append.simps)
  moreover have "reconcile hx fph (client\<lparr>ng_client := True\<rparr>) (''61'' @ []) = Inr \<lparr>res_output = None, res_need = [], res_have = []\<rparr>"
    by (simp add: reconcile_def reconcileAux_def head[of "[]", simplified] pv recon_loop.simps)
  ultimately show ?thesis by auto
qed


theorem reconcile_in_sync_witness:
  "\<exists>client' msg. initiate (\<lambda>_. replicate 32 0) (\<lambda>_. replicate 32 (CHR ''0''))
       \<lparr>ng_items = fromItems (map (\<lambda>t. \<lparr>timestamp = t, iid = replicate 64 (hex_digit (nat t))\<rparr>) [4, 3, 2, 1]),
        ng_limit = None, ng_buckets = 2, ng_client = False\<rparr> = Inr (client', msg)"
proof -
  let ?its = "map (\<lambda>t. \<lparr>timestamp = t, iid = replicate 64 (hex_digit (nat t))\<rparr>) [4, 3, 2, 1 :: int]"
  have srt: "fromItems ?its = rev ?its"
    by (simp add: fromItems_def js_sort_def itemCompare_def hex_digit_def)
  have "before_end ?its" by (simp add: before_end_def MAX_TIMESTAMP_def)
  moreover have "separated (fromItems ?its)"
    unfolding srt separated_def by (auto simp: less_Suc_eq nth_Cons' numeral_eq_Suc)
  moreover have "new_negentropy (fromItems ?its) 0 2 =
      Inr \<lparr>ng_items = fromItems ?its, ng_limit = None, ng_buckets = 2, ng_client = False\<rparr>"
    by (simp add: new_negentropy_def)
  moreover have "length (fromItems ?its) = 4" unfolding srt by simp
  ultimately show ?thesis
    using reconcile_in_sync[of ?its "\<lambda>_. replicate 32 (CHR ''0'')" 2 _ 2 _ "\<lambda>_. replicate 32 0"] by auto
qed

end
