(* ===== verification/Outbox.thy ===== *)
theory Outbox
  imports Prelude
begin

text \<open>
  \<open>client/src/nostr/outbox.ts\<close>: delivery tracking of optimistic writes.

  The object is the record \<open>outbox\<close>: the insertion-ordered queue, the storage key, the mutation
  counter and the three version-keyed snapshots.  The secure store holds under a key the JSON text
  of a queue or a text that does not parse as one.  An absent \<open>offline\<close> flag is \<^const>\<open>None\<close>.
\<close>

section \<open>Definitions\<close>

datatype send_status = Sending | Accepted | Confirmed | Failed | Rejected

record entry =
  e_event :: event
  e_status :: send_status
  e_reason :: "string option"
  e_offline :: "bool option"
  e_dependsOn :: "string list"

datatype queue_text = Queue "entry list" | NoQueue

type_synonym queue_storage = "(string \<times> queue_text) list"

record outbox =
  entries :: "(string \<times> entry) list"
  ob_key :: string
  durable :: bool \<comment> \<open>a secure store was passed to the constructor\<close>
  mutationVersion :: nat
  statusesCache :: "(nat \<times> (string \<times> send_status) list) option"
  reasonsCache :: "(nat \<times> (string \<times> string) list) option"
  queuedOfflineCache :: "(nat \<times> string list) option"

definition ob_key_for :: "string option \<Rightarrow> string" where
  "ob_key_for slot = (if truthy slot then ''stiq.outbox.slot.'' @ the slot else ''stiq.outbox'')"

definition new_outbox :: "bool \<Rightarrow> string option \<Rightarrow> outbox" where
  "new_outbox d slot = \<lparr>entries = [], ob_key = ob_key_for slot, durable = d, mutationVersion = 0,
     statusesCache = None, reasonsCache = None, queuedOfflineCache = None\<rparr>"

definition bump :: "outbox \<Rightarrow> outbox" where
  "bump ob = ob\<lparr>mutationVersion := mutationVersion ob + 1\<rparr>"

definition ob_load :: "outbox \<times> queue_storage \<Rightarrow> outbox \<times> queue_storage" where
  "ob_load = (\<lambda>(ob, st).
     if \<not> durable ob then (ob, st)
     else case getItem st (ob_key ob) of
       Some (Queue es) \<Rightarrow>
         (bump (ob\<lparr>entries := foldl (\<lambda>m en. AList.update (eid (e_event en)) en m) [] es\<rparr>), st)
     | _ \<Rightarrow> (ob, st))"

definition ob_reload :: "string option \<Rightarrow> outbox \<times> queue_storage \<Rightarrow> outbox \<times> queue_storage" where
  "ob_reload slot = (\<lambda>(ob, st). ob_load ((bump (ob\<lparr>entries := []\<rparr>))\<lparr>ob_key := ob_key_for slot\<rparr>, st))"

definition ob_persist :: "outbox \<times> queue_storage \<Rightarrow> outbox \<times> queue_storage" where
  "ob_persist = (\<lambda>(ob, st).
     (ob, if durable ob then setItem (ob_key ob) (Queue (map snd (entries ob))) st else st))"

definition mutate :: "string \<Rightarrow> entry \<Rightarrow> outbox \<times> queue_storage \<Rightarrow> outbox \<times> queue_storage" where
  \<comment> \<open>an entry is set, the counter rises, the queue is written\<close>
  "mutate i en = (\<lambda>(ob, st). ob_persist (bump (ob\<lparr>entries := AList.update i en (entries ob)\<rparr>), st))"

definition ob_add :: "event \<Rightarrow> string list \<Rightarrow> outbox \<times> queue_storage \<Rightarrow> outbox \<times> queue_storage" where
  "ob_add e deps = mutate (eid e) \<lparr>e_event = e, e_status = Sending, e_reason = None, e_offline = None,
     e_dependsOn = deps\<rparr>"

definition dependenciesOf :: "outbox \<Rightarrow> string \<Rightarrow> string list" where
  "dependenciesOf ob i = (case map_of (entries ob) i of None \<Rightarrow> [] | Some en \<Rightarrow> e_dependsOn en)"

definition dependentsOf :: "outbox \<Rightarrow> string \<Rightarrow> event list" where
  "dependentsOf ob i = map e_event (filter (\<lambda>en. i \<in> set (e_dependsOn en)) (map snd (entries ob)))"

definition setStatus :: "string \<Rightarrow> send_status \<Rightarrow> outbox \<times> queue_storage \<Rightarrow> outbox \<times> queue_storage" where
  "setStatus i s = (\<lambda>(ob, st).
     case map_of (entries ob) i of
       Some en \<Rightarrow> if e_status en \<noteq> s then mutate i (en\<lparr>e_status := s\<rparr>) (ob, st) else (ob, st)
     | None \<Rightarrow> (ob, st))"

definition markSending :: "string \<Rightarrow> bool \<Rightarrow> outbox \<times> queue_storage \<Rightarrow> outbox \<times> queue_storage" where
  "markSending i off = (\<lambda>(ob, st).
     case map_of (entries ob) i of
       Some en \<Rightarrow> if e_status en \<noteq> Sending \<or> e_offline en \<noteq> Some off
         then mutate i (en\<lparr>e_status := Sending, e_offline := Some off\<rparr>) (ob, st) else (ob, st)
     | None \<Rightarrow> (ob, st))"

definition markAccepted :: "string \<Rightarrow> outbox \<times> queue_storage \<Rightarrow> outbox \<times> queue_storage" where
  "markAccepted i = setStatus i Accepted"

definition markConfirmed :: "string \<Rightarrow> outbox \<times> queue_storage \<Rightarrow> outbox \<times> queue_storage" where
  "markConfirmed i = setStatus i Confirmed"

definition markFailed :: "string \<Rightarrow> outbox \<times> queue_storage \<Rightarrow> outbox \<times> queue_storage" where
  "markFailed i = setStatus i Failed"

definition markRejected :: "string \<Rightarrow> string option \<Rightarrow> outbox \<times> queue_storage \<Rightarrow> outbox \<times> queue_storage" where
  "markRejected i r = (\<lambda>(ob, st).
     case map_of (entries ob) i of
       Some en \<Rightarrow> if e_status en \<noteq> Rejected \<or> e_reason en \<noteq> r
         then mutate i (en\<lparr>e_status := Rejected, e_reason := r\<rparr>) (ob, st) else (ob, st)
     | None \<Rightarrow> (ob, st))"

definition ob_remove :: "string \<Rightarrow> outbox \<times> queue_storage \<Rightarrow> outbox \<times> queue_storage" where
  "ob_remove i = (\<lambda>(ob, st).
     if map_of (entries ob) i \<noteq> None
     then ob_persist (bump (ob\<lparr>entries := AList.delete i (entries ob)\<rparr>), st) else (ob, st))"

definition unsent :: "outbox \<Rightarrow> event list" where
  "unsent ob = map e_event
     (filter (\<lambda>en. e_status en \<noteq> Confirmed \<and> e_status en \<noteq> Rejected) (map snd (entries ob)))"

definition eventFor :: "outbox \<Rightarrow> string \<Rightarrow> event option" where
  "eventFor ob i = map_option e_event (map_of (entries ob) i)"

definition status_view :: "outbox \<Rightarrow> (string \<times> send_status) list" where
  "status_view ob = map (\<lambda>(i, en). (i, e_status en)) (entries ob)"

definition reason_view :: "outbox \<Rightarrow> (string \<times> string) list" where
  "reason_view ob = map (\<lambda>(i, en). (i, the (e_reason en))) (filter (\<lambda>(i, en). e_reason en \<noteq> None) (entries ob))"

definition offline_view :: "outbox \<Rightarrow> string list" where
  "offline_view ob = map fst (filter (\<lambda>(i, en). e_status en = Sending \<and> e_offline en = Some True) (entries ob))"

definition statuses :: "outbox \<Rightarrow> outbox \<times> (string \<times> send_status) list" where
  "statuses ob =
     (case statusesCache ob of
        Some (v, m) \<Rightarrow> if v = mutationVersion ob then (ob, m)
          else (ob\<lparr>statusesCache := Some (mutationVersion ob, status_view ob)\<rparr>, status_view ob)
      | None \<Rightarrow> (ob\<lparr>statusesCache := Some (mutationVersion ob, status_view ob)\<rparr>, status_view ob))"

definition reasons :: "outbox \<Rightarrow> outbox \<times> (string \<times> string) list" where
  "reasons ob =
     (case reasonsCache ob of
        Some (v, m) \<Rightarrow> if v = mutationVersion ob then (ob, m)
          else (ob\<lparr>reasonsCache := Some (mutationVersion ob, reason_view ob)\<rparr>, reason_view ob)
      | None \<Rightarrow> (ob\<lparr>reasonsCache := Some (mutationVersion ob, reason_view ob)\<rparr>, reason_view ob))"

definition queuedOfflineIds :: "outbox \<Rightarrow> outbox \<times> string list" where
  "queuedOfflineIds ob =
     (case queuedOfflineCache ob of
        Some (v, m) \<Rightarrow> if v = mutationVersion ob then (ob, m)
          else (ob\<lparr>queuedOfflineCache := Some (mutationVersion ob, offline_view ob)\<rparr>, offline_view ob)
      | None \<Rightarrow> (ob\<lparr>queuedOfflineCache := Some (mutationVersion ob, offline_view ob)\<rparr>, offline_view ob))"

definition ob_has :: "outbox \<Rightarrow> string \<Rightarrow> bool" where
  "ob_has ob i = (map_of (entries ob) i \<noteq> None)"

section \<open>Runs\<close>

datatype ob_op = OAdd event "string list" | OSending string bool | OAccepted string | OConfirmed string
  | OFailed string | ORejected string "string option" | ORemove string | OLoad | OReload "string option"
  | OStatuses | OReasons | OQueued

fun ob_exec :: "outbox \<times> queue_storage \<Rightarrow> ob_op \<Rightarrow> outbox \<times> queue_storage" where
  "ob_exec s (OAdd e deps) = ob_add e deps s"
| "ob_exec s (OSending i off) = markSending i off s"
| "ob_exec s (OAccepted i) = markAccepted i s"
| "ob_exec s (OConfirmed i) = markConfirmed i s"
| "ob_exec s (OFailed i) = markFailed i s"
| "ob_exec s (ORejected i r) = markRejected i r s"
| "ob_exec s (ORemove i) = ob_remove i s"
| "ob_exec s OLoad = ob_load s"
| "ob_exec s (OReload slot) = ob_reload slot s"
| "ob_exec s OStatuses = (fst (statuses (fst s)), snd s)"
| "ob_exec s OReasons = (fst (reasons (fst s)), snd s)"
| "ob_exec s OQueued = (fst (queuedOfflineIds (fst s)), snd s)"

definition ob_run :: "string option \<Rightarrow> ob_op list \<Rightarrow> outbox \<times> queue_storage" where
  "ob_run slot ops = foldl ob_exec (new_outbox True slot, []) ops"

section \<open>Snapshots\<close>

definition fresh :: "nat \<Rightarrow> (nat \<times> 'a) option \<Rightarrow> 'a \<Rightarrow> bool" where
  "fresh n c x \<longleftrightarrow> (\<forall>v y. c = Some (v, y) \<longrightarrow> v \<le> n \<and> (v = n \<longrightarrow> y = x))"

definition coherent :: "outbox \<Rightarrow> bool" where
  \<comment> \<open>a snapshot of the current version is the current view\<close>
  "coherent ob \<longleftrightarrow> fresh (mutationVersion ob) (statusesCache ob) (status_view ob)
     \<and> fresh (mutationVersion ob) (reasonsCache ob) (reason_view ob)
     \<and> fresh (mutationVersion ob) (queuedOfflineCache ob) (offline_view ob)"

lemma views_frame [simp]:
  "status_view (ob\<lparr>statusesCache := c\<rparr>) = status_view ob" "reason_view (ob\<lparr>statusesCache := c\<rparr>) = reason_view ob"
  "offline_view (ob\<lparr>statusesCache := c\<rparr>) = offline_view ob" "status_view (ob\<lparr>reasonsCache := d\<rparr>) = status_view ob"
  "reason_view (ob\<lparr>reasonsCache := d\<rparr>) = reason_view ob" "offline_view (ob\<lparr>reasonsCache := d\<rparr>) = offline_view ob"
  "status_view (ob\<lparr>queuedOfflineCache := q\<rparr>) = status_view ob" "reason_view (ob\<lparr>queuedOfflineCache := q\<rparr>) = reason_view ob"
  "offline_view (ob\<lparr>queuedOfflineCache := q\<rparr>) = offline_view ob" "status_view (ob\<lparr>ob_key := k\<rparr>) = status_view ob"
  "reason_view (ob\<lparr>ob_key := k\<rparr>) = reason_view ob" "offline_view (ob\<lparr>ob_key := k\<rparr>) = offline_view ob"
  by (simp_all add: status_view_def reason_view_def offline_view_def)

lemma coherent_bump: "coherent ob \<Longrightarrow> coherent (bump (ob\<lparr>entries := m\<rparr>))"
  by (fastforce simp: coherent_def fresh_def bump_def)

lemma fst_ob_persist [simp]: "fst (ob_persist s) = fst s"
  by (cases s) (simp add: ob_persist_def)

lemma coherent_mutate: "coherent (fst s) \<Longrightarrow> coherent (fst (mutate i en s))"
  by (cases s) (simp add: mutate_def coherent_bump)

lemma coherent_load: "coherent (fst s) \<Longrightarrow> coherent (fst (ob_load s))"
  by (cases s) (auto simp: ob_load_def coherent_bump split: option.splits queue_text.splits)

lemma coherent_key: "coherent ob \<Longrightarrow> coherent (ob\<lparr>ob_key := k\<rparr>)"
  by (simp add: coherent_def)

lemma coherent_exec: "coherent (fst s) \<Longrightarrow> coherent (fst (ob_exec s op))"
proof (cases op)
  case OStatuses
  assume "coherent (fst s)"
  with OStatuses show ?thesis by (auto simp: statuses_def coherent_def fresh_def split: option.splits)
next
  case OReasons
  assume "coherent (fst s)"
  with OReasons show ?thesis by (auto simp: reasons_def coherent_def fresh_def split: option.splits)
next
  case OQueued
  assume "coherent (fst s)"
  with OQueued show ?thesis by (auto simp: queuedOfflineIds_def coherent_def fresh_def split: option.splits)
next
  case (OReload slot)
  assume "coherent (fst s)"
  with OReload show ?thesis
    by (cases s) (auto simp: ob_reload_def intro!: coherent_load coherent_key coherent_bump)
qed (cases s; auto simp: ob_add_def markSending_def markAccepted_def markConfirmed_def markFailed_def
    markRejected_def setStatus_def ob_remove_def coherent_mutate coherent_load coherent_bump split: option.splits)+

lemma coherent_run: "coherent (fst s) \<Longrightarrow> coherent (fst (foldl ob_exec s ops))"
  by (induction ops arbitrary: s) (auto simp: coherent_exec)

text \<open>
  The cached snapshots never lie: after any sequence of calls, what \<open>statuses\<close>, \<open>reasons\<close> and
  \<open>queuedOfflineIds\<close> return is the view of the current queue, whether it comes from a cache or not.
\<close>

theorem snapshots_current:
  "let ob = fst (ob_run slot ops)
   in snd (statuses ob) = status_view ob \<and> snd (reasons ob) = reason_view ob
      \<and> snd (queuedOfflineIds ob) = offline_view ob"
proof -
  have "coherent (fst (ob_run slot ops))"
    unfolding ob_run_def by (rule coherent_run) (simp add: coherent_def fresh_def new_outbox_def)
  then show ?thesis
    by (auto simp: Let_def statuses_def reasons_def queuedOfflineIds_def coherent_def fresh_def split: option.splits)
qed

section \<open>Persistence\<close>

definition queue_ok :: "outbox \<times> queue_storage \<Rightarrow> bool" where
  "queue_ok = (\<lambda>(ob, st). distinct (map fst (entries ob)) \<and> (\<forall>(i, en) \<in> set (entries ob). eid (e_event en) = i)
     \<and> durable ob \<and> (getItem st (ob_key ob) = Some (Queue (map snd (entries ob)))
       \<or> getItem st (ob_key ob) = None \<and> entries ob = [])
     \<and> (\<forall>k. getItem st k \<noteq> Some NoQueue)
     \<and> (\<forall>k es. getItem st k = Some (Queue es) \<longrightarrow> distinct (map (\<lambda>en. eid (e_event en)) es)))"

lemma queue_keys:
  "\<forall>(i, en) \<in> set m. eid (e_event en) = i \<Longrightarrow> map (\<lambda>x. eid (e_event (snd x))) m = map fst m"
  by (induction m) auto

lemma queue_distinct:
  "\<forall>(i, en) \<in> set m. eid (e_event en) = i \<Longrightarrow> distinct (map (\<lambda>x. eid (e_event (snd x))) m) = distinct (map fst m)"
  by (simp only: queue_keys)

lemma load_distinct:
  assumes "distinct (map (\<lambda>en. eid (e_event en)) es)"
  shows "foldl (\<lambda>m en. AList.update (eid (e_event en)) en m) [] es = map (\<lambda>en. (eid (e_event en), en)) es"
proof -
  have "foldl (\<lambda>m en. AList.update (eid (e_event en)) en m) m es = m @ map (\<lambda>en. (eid (e_event en), en)) es"
    if "distinct (map fst m @ map (\<lambda>en. eid (e_event en)) es)" for m
    using that by (induction es arbitrary: m) (auto simp: values_update_new)
  from this[of "[]"] assms show ?thesis by simp
qed

lemma queue_ok_persist:
  assumes "queue_ok (ob, st)" "distinct (map fst m)" "\<forall>(i, en) \<in> set m. eid (e_event en) = i"
  shows "queue_ok (ob_persist (bump (ob\<lparr>entries := m\<rparr>), st))"
  using assms queue_distinct[OF assms(3)]
  by (auto simp: queue_ok_def ob_persist_def bump_def storage_simps comp_def)

lemma queue_ok_mutate:
  assumes "queue_ok s" "eid (e_event en) = i"
  shows "queue_ok (mutate i en s)"
proof -
  obtain ob st where s: "s = (ob, st)" by (cases s)
  have "\<forall>(j, x) \<in> set (AList.update i en (entries ob)). eid (e_event x) = j"
    using assms s set_update_bucket[of _ i en "entries ob"] by (fastforce simp: queue_ok_def)
  moreover have "distinct (map fst (AList.update i en (entries ob)))"
    using assms(1) s by (intro distinct_keys_update) (simp add: queue_ok_def)
  ultimately show ?thesis
    using assms(1) queue_ok_persist[of ob st "AList.update i en (entries ob)"] by (simp add: s mutate_def)
qed

lemma queue_ok_load:
  assumes "queue_ok (ob, st)"
  shows "queue_ok (ob_load (ob, st))" "entries (fst (ob_load (ob, st))) = entries ob"
proof -
  have "queue_ok (ob_load (ob, st)) \<and> entries (fst (ob_load (ob, st))) = entries ob"
  proof (cases "getItem st (ob_key ob)")
    case None
    with assms show ?thesis by (simp add: ob_load_def queue_ok_def)
  next
    case (Some t)
    with assms have t: "t = Queue (map snd (entries ob))" by (auto simp: queue_ok_def)
    have keys: "distinct (map (\<lambda>x. eid (e_event (snd x))) (entries ob))"
      using assms queue_distinct[of "entries ob"] by (simp add: queue_ok_def)
    have "map (\<lambda>x. (eid (e_event (snd x)), snd x)) (entries ob) = entries ob"
      using assms by (auto simp: queue_ok_def intro!: map_idI)
    then have "foldl (\<lambda>m en. AList.update (eid (e_event en)) en m) [] (map snd (entries ob)) = entries ob"
      using assms keys load_distinct[of "map snd (entries ob)"] by (simp add: queue_ok_def comp_def)
    with assms Some t show ?thesis by (simp add: ob_load_def queue_ok_def bump_def)
  qed
  then show "queue_ok (ob_load (ob, st))" "entries (fst (ob_load (ob, st))) = entries ob" by auto
qed

lemma queue_ok_reload:
  assumes "queue_ok (ob, st)"
  shows "queue_ok (ob_reload slot (ob, st))"
proof -
  let ?ob = "(bump (ob\<lparr>entries := []\<rparr>))\<lparr>ob_key := ob_key_for slot\<rparr>"
  show ?thesis
  proof (cases "getItem st (ob_key_for slot)")
    case None
    with assms have "queue_ok (?ob, st)" by (simp add: queue_ok_def bump_def)
    with None show ?thesis by (simp add: ob_reload_def queue_ok_load)
  next
    case (Some t)
    with assms obtain es where t: "t = Queue es" "distinct (map (\<lambda>en. eid (e_event en)) es)"
      by (cases t) (auto simp: queue_ok_def)
    with assms Some show ?thesis
      by (auto simp: ob_reload_def ob_load_def queue_ok_def bump_def load_distinct comp_def)
  qed
qed

lemma queue_ok_entry: "queue_ok (ob, st) \<Longrightarrow> map_of (entries ob) i = Some en \<Longrightarrow> eid (e_event en) = i"
  by (auto simp: queue_ok_def dest: map_of_SomeD)

lemma queue_ok_remove:
  assumes "queue_ok (ob, st)"
  shows "queue_ok (ob_remove i (ob, st))"
proof -
  have "distinct (map fst (AList.delete i (entries ob)))"
    using assms by (intro distinct_keys_delete) (simp add: queue_ok_def)
  moreover have "\<forall>(j, en) \<in> set (AList.delete i (entries ob)). eid (e_event en) = j"
    using assms by (auto simp: queue_ok_def AList.delete_eq)
  ultimately show ?thesis
    using assms queue_ok_persist[of ob st "AList.delete i (entries ob)"] by (simp add: ob_remove_def)
qed

lemma queue_ok_view:
  "queue_ok (ob, st) \<Longrightarrow> queue_ok (fst (statuses ob), st)"
  "queue_ok (ob, st) \<Longrightarrow> queue_ok (fst (reasons ob), st)"
  "queue_ok (ob, st) \<Longrightarrow> queue_ok (fst (queuedOfflineIds ob), st)"
  by (auto simp: queue_ok_def statuses_def reasons_def queuedOfflineIds_def split: option.splits)

lemma queue_ok_exec: "queue_ok s \<Longrightarrow> queue_ok (ob_exec s op)"
  by (cases s; cases op)
     (auto simp: ob_add_def markSending_def markAccepted_def markConfirmed_def markFailed_def markRejected_def
       setStatus_def queue_ok_view queue_ok_remove queue_ok_load queue_ok_reload queue_ok_entry
       intro!: queue_ok_mutate split: option.splits)

lemma queue_ok_run: "queue_ok (ob_run slot ops)"
proof -
  have "queue_ok s \<Longrightarrow> queue_ok (foldl ob_exec s ops)" for s
    by (induction ops arbitrary: s) (auto simp: queue_ok_exec)
  then show ?thesis by (simp add: ob_run_def queue_ok_def new_outbox_def getItem_def)
qed

text \<open>
  C38. A crash loses nothing: after any sequence of calls, account switches included, a new
  object that loads the store under the current key has the same queue, with the same statuses and
  dependencies, hence the same events to send again; delivered and rejected events are not among
  them.
\<close>

theorem outbox_survives_restart:
  "let (ob, st) = ob_run slot ops; ob' = fst (ob_load ((new_outbox True None)\<lparr>ob_key := ob_key ob\<rparr>, st))
   in entries ob' = entries ob \<and> unsent ob' = unsent ob \<and> dependenciesOf ob' = dependenciesOf ob
      \<and> (\<forall>e \<in> set (unsent ob'). \<exists>s. (eid e, s) \<in> set (status_view ob) \<and> s \<noteq> Confirmed \<and> s \<noteq> Rejected)"
proof -
  obtain ob st where run: "ob_run slot ops = (ob, st)" by fastforce
  then have ok: "queue_ok (ob, st)" using queue_ok_run[of slot ops] by simp
  let ?new = "(new_outbox True None)\<lparr>ob_key := ob_key ob\<rparr>"
  have same: "entries (fst (ob_load (?new, st))) = entries ob"
  proof (cases "getItem st (ob_key ob)")
    case None
    with ok show ?thesis by (simp add: ob_load_def queue_ok_def new_outbox_def)
  next
    case (Some t)
    with ok show ?thesis
      using queue_ok_load(2)[OF ok] by (auto simp: ob_load_def queue_ok_def new_outbox_def bump_def)
  qed
  have "\<exists>s. (eid e, s) \<in> set (status_view ob) \<and> s \<noteq> Confirmed \<and> s \<noteq> Rejected" if e: "e \<in> set (unsent ob)" for e
  proof -
    obtain i en where en: "(i, en) \<in> set (entries ob)" "e = e_event en" "e_status en \<noteq> Confirmed" "e_status en \<noteq> Rejected"
      using e by (auto simp: unsent_def)
    then have "eid e = i" using ok by (auto simp: queue_ok_def)
    then have "(eid e, e_status en) \<in> set (status_view ob)" using en(1) by (force simp: status_view_def)
    with en(3,4) show ?thesis by blast
  qed
  with same run show ?thesis by (simp add: unsent_def dependenciesOf_def fun_eq_iff)
qed

definition ex_event :: event where
  "ex_event = \<lparr>eid = ''x'', pubkey = ''p'', created_at = 1, kind = 1, tags = [], content = ''''\<rparr>"

definition ex_calls :: "ob_op list" where
  "ex_calls = [OReload (Some ''acct''), OAdd ex_event [''q''], OSending ''x'' True, OStatuses]"

theorem outbox_survives_restart_witness:
  "let (ob, st) = ob_run None ex_calls; ob' = fst (ob_load ((new_outbox True None)\<lparr>ob_key := ob_key ob\<rparr>, st))
   in entries ob' = entries ob \<and> unsent ob' = [ex_event] \<and> dependenciesOf ob' ''x'' = [''q'']"
proof -
  obtain ob st where r: "ob_run None ex_calls = (ob, st)" by fastforce
  have "unsent (fst (ob_run None ex_calls)) = [ex_event] \<and> dependenciesOf (fst (ob_run None ex_calls)) ''x'' = [''q'']"
    by code_simp
  with r show ?thesis using outbox_survives_restart[of None ex_calls] by (simp add: Let_def)
qed

text \<open>
  The rejection reason outlives the rejection: after a rejected event is sent again and
  accepted, \<open>reasons\<close> still reports the old reason for it.
\<close>

theorem reason_outlives_rejection:
  "let e = \<lparr>eid = ''x'', pubkey = ''p'', created_at = 1, kind = 1, tags = [], content = ''''\<rparr>;
       ob = fst (ob_run None [OAdd e [], ORejected ''x'' (Some ''spam''), OSending ''x'' False, OAccepted ''x''])
   in snd (statuses ob) = [(''x'', Accepted)] \<and> snd (reasons ob) = [(''x'', ''spam'')]"
  by code_simp

end
