(* ===== verification/Lock.thy ===== *)
theory Lock
  imports Encoding
begin

text \<open>
  \<open>client/src/lock/\<close>: the brute-force throttle (\<open>attemptLimiter.ts\<close>), the dual-PIN vault
  (\<open>pin.ts\<close>) and the duress wipe (\<open>duress.ts\<close>).

  \<open>device\<close> holds the secure store, the \<open>PinVault\<close> object and its \<open>PinAttemptLimiter\<close>.  The store
  is kept in two maps, because the two PIN slots hold texts of the form \<open>scheme:salt:digest\<close> and
  the counter is the text of a JSON object.  Every call to the store may be rejected: \<open>faults\<close>
  lists the outcome of the coming calls (\<^const>\<open>False\<close> rejects), and after the list every call
  succeeds.  An operation is a function from the device to a result or an error and the device it
  leaves, since a rejected call keeps what was written before it.

  The key-derivation functions and the random salts are not part of the repository: they are the
  fields of the parameter \<open>kdf\<close>.  A rejected native derivation is \<^const>\<open>None\<close>.
\<close>

section \<open>Definitions\<close>

subsection \<open>The store and failures\<close>

datatype lock_error = StorageError | PinsMustDiffer | KdfError | BadBlob

record attempts =
  fails :: int
  lockedUntil :: int

record device =
  blobs :: "(string \<times> string) list"
  texts :: storage
  faults :: "bool list"
  storedCache :: "(string \<times> string option) list"
  limited :: bool \<comment> \<open>the vault has a limiter\<close>
  mirror :: "attempts option"
  drawn :: nat \<comment> \<open>random salts drawn so far\<close>

type_synonym 'a act = "device \<Rightarrow> (lock_error + 'a) \<times> device"

definition ret :: "'a \<Rightarrow> 'a act" where
  "ret x d = (Inr x, d)"

definition throw :: "lock_error \<Rightarrow> 'a act" where
  "throw e d = (Inl e, d)"

definition andThen :: "'a act \<Rightarrow> ('a \<Rightarrow> 'b act) \<Rightarrow> 'b act" where
  "andThen m f d = (case m d of (Inl e, d') \<Rightarrow> (Inl e, d') | (Inr x, d') \<Rightarrow> f x d')"

definition best_effort :: "'a act \<Rightarrow> device \<Rightarrow> device" where
  \<comment> \<open>\<open>try { ... } catch { }\<close>\<close>
  "best_effort m d = snd (m d)"

definition store_call :: "(device \<Rightarrow> 'a) \<Rightarrow> (device \<Rightarrow> device) \<Rightarrow> 'a act" where
  "store_call get upd d =
     (case faults d of
        False # fs \<Rightarrow> (Inl StorageError, d\<lparr>faults := fs\<rparr>)
      | True # fs \<Rightarrow> (Inr (get d), upd (d\<lparr>faults := fs\<rparr>))
      | [] \<Rightarrow> (Inr (get d), upd d))"

definition getBlob :: "string \<Rightarrow> string option act" where
  "getBlob k = store_call (\<lambda>d. getItem (blobs d) k) (\<lambda>d. d)"

definition setBlob :: "string \<Rightarrow> string \<Rightarrow> unit act" where
  "setBlob k v = store_call (\<lambda>d. ()) (\<lambda>d. d\<lparr>blobs := setItem k v (blobs d)\<rparr>)"

definition removeBlob :: "string \<Rightarrow> unit act" where
  "removeBlob k = store_call (\<lambda>d. ()) (\<lambda>d. d\<lparr>blobs := removeItem k (blobs d)\<rparr>)"

definition getText :: "string \<Rightarrow> stext option act" where
  "getText k = store_call (\<lambda>d. getItem (texts d) k) (\<lambda>d. d)"

definition setText :: "string \<Rightarrow> stext \<Rightarrow> unit act" where
  "setText k v = store_call (\<lambda>d. ()) (\<lambda>d. d\<lparr>texts := setItem k v (texts d)\<rparr>)"

definition removeText :: "string \<Rightarrow> unit act" where
  "removeText k = store_call (\<lambda>d. ()) (\<lambda>d. d\<lparr>texts := removeItem k (texts d)\<rparr>)"

subsection \<open>attemptLimiter.ts\<close>

definition ATTEMPTS_ITEM :: string where "ATTEMPTS_ITEM = ''stiq.pin.attempts''"
definition FREE_ATTEMPTS :: int where "FREE_ATTEMPTS = 5"
definition BASE_BACKOFF_MS :: int where "BASE_BACKOFF_MS = 30000"
definition MAX_BACKOFF_MS :: int where "MAX_BACKOFF_MS = 30 * 60000"

definition backoffForRound :: "int \<Rightarrow> int" where
  "backoffForRound over = min (BASE_BACKOFF_MS * 2 ^ nat (over - 1)) MAX_BACKOFF_MS"

definition no_attempts :: attempts where
  "no_attempts = \<lparr>fails = 0, lockedUntil = 0\<rparr>"

definition num_or_0 :: "jsval option \<Rightarrow> int" where
  \<comment> \<open>\<open>typeof v === 'number' ? v : 0\<close>\<close>
  "num_or_0 v = (case v of Some (JNum n) \<Rightarrow> n | _ \<Rightarrow> 0)"

definition parse_attempts :: "stext option \<Rightarrow> attempts" where
  \<comment> \<open>an absent or empty text is \<open>null\<close>; a text that is no JSON makes \<open>JSON.parse\<close> throw; in all
      these cases the counter is zero\<close>
  "parse_attempts raw = (case raw of
       Some (Json v) \<Rightarrow> \<lparr>fails = num_or_0 (js_prop v ''fails''), lockedUntil = num_or_0 (js_prop v ''lockedUntil'')\<rparr>
     | _ \<Rightarrow> no_attempts)"

definition print_attempts :: "attempts \<Rightarrow> stext" where
  "print_attempts s = Json (JObj [(''fails'', JNum (fails s)), (''lockedUntil'', JNum (lockedUntil s))])"

definition load :: "device \<Rightarrow> attempts \<times> device" where
  "load d = (case mirror d of
       Some s \<Rightarrow> (s, d)
     | None \<Rightarrow> (case getText ATTEMPTS_ITEM d of
         (Inr raw, d') \<Rightarrow> (parse_attempts raw, d'\<lparr>mirror := Some (parse_attempts raw)\<rparr>)
       | (Inl _, d') \<Rightarrow> (no_attempts, d'\<lparr>mirror := Some no_attempts\<rparr>)))"

definition persist :: "device \<Rightarrow> device" where
  "persist d = (case mirror d of None \<Rightarrow> d
     | Some s \<Rightarrow> best_effort (setText ATTEMPTS_ITEM (print_attempts s)) d)"

definition lockoutRemainingMs :: "int \<Rightarrow> device \<Rightarrow> int \<times> device" where
  "lockoutRemainingMs now d = (let (s, d') = load d in (max 0 (lockedUntil s - now), d'))"

definition isLockedOut :: "int \<Rightarrow> device \<Rightarrow> bool \<times> device" where
  "isLockedOut now d = (let (ms, d') = lockoutRemainingMs now d in (ms > 0, d'))"

definition count_failure :: "int \<Rightarrow> attempts \<Rightarrow> attempts" where
  "count_failure now s =
     (let n = fails s + 1; over = n - FREE_ATTEMPTS in
      \<lparr>fails = n, lockedUntil = (if over > 0 then now + backoffForRound over else lockedUntil s)\<rparr>)"

definition recordFailure :: "int \<Rightarrow> device \<Rightarrow> device" where
  "recordFailure now d = (let (s, d') = load d in persist (d'\<lparr>mirror := Some (count_failure now s)\<rparr>))"

definition recordSuccess :: "device \<Rightarrow> device" where
  "recordSuccess d = persist (d\<lparr>mirror := Some no_attempts\<rparr>)"

definition limiter_reset :: "device \<Rightarrow> device" where
  "limiter_reset d = best_effort (removeText ATTEMPTS_ITEM) (d\<lparr>mirror := Some no_attempts\<rparr>)"

definition limiter :: "(device \<Rightarrow> device) \<Rightarrow> unit act" where
  \<comment> \<open>\<open>await this.limiter?.f()\<close>\<close>
  "limiter f d = (Inr (), if limited d then f d else d)"

subsection \<open>pin.ts\<close>

datatype PinVerifyResult = Standard | Duress | Invalid

datatype KdfScheme = Pbk1 | Scrypt1 | Sha256

record kdf =
  k_hash :: "u8 list \<Rightarrow> u8 list option" \<comment> \<open>the injected hash, native PBKDF2 by default\<close>
  k_sha256 :: "u8 list \<Rightarrow> u8 list"
  k_scrypt :: "u8 list \<Rightarrow> u8 list"
  k_salt :: "nat \<Rightarrow> u8 list" \<comment> \<open>the n-th result of \<open>randomBytes(SALT_BYTES)\<close>\<close>

record ParsedBlob =
  pb_salt :: "u8 list"
  pb_digest :: "u8 list"
  pb_scheme :: KdfScheme

definition STANDARD_ITEM :: string where "STANDARD_ITEM = ''stiq.pin.standard''"
definition DURESS_ITEM :: string where "DURESS_ITEM = ''stiq.pin.duress''"

definition parseBlob :: "string \<Rightarrow> codec_error + ParsedBlob option" where
  \<comment> \<open>the salt and the digest are decoded in this order, and \<open>hexToBytes\<close> may throw\<close>
  "parseBlob stored = (let decode = (\<lambda>sch s g.
       sbind (hexToBytes s) (\<lambda>salt. sbind (hexToBytes g) (\<lambda>digest.
         Inr (Some \<lparr>pb_salt = salt, pb_digest = digest, pb_scheme = sch\<rparr>))))
     in case split_on (CHR '':'') stored of
       [a, b, c] \<Rightarrow> if a = ''pbk1'' then decode Pbk1 b c else if a = ''scrypt1'' then decode Scrypt1 b c
                    else Inr None
     | [a, b] \<Rightarrow> decode Sha256 a b
     | _ \<Rightarrow> Inr None)"

definition utf8 :: "string \<Rightarrow> u8 list" where
  \<comment> \<open>\<open>TextEncoder.encode\<close>; a character of the model is a code point below 256\<close>
  "utf8 s = utf8Encode (map of_char s)"

definition timingSafeEqual :: "u8 list \<Rightarrow> u8 list \<Rightarrow> bool" where
  "timingSafeEqual a b =
     (if length a \<noteq> length b then False
      else foldl (\<lambda>diff (x, y). or diff (xor x y)) 0 (zip a b) = 0)"

definition seal :: "kdf \<Rightarrow> string \<Rightarrow> string act" where
  "seal K pin d = (let salt = k_salt K (drawn d); d' = d\<lparr>drawn := drawn d + 1\<rparr> in
     case k_hash K (salt @ utf8 pin) of
       None \<Rightarrow> (Inl KdfError, d')
     | Some digest \<Rightarrow> (Inr (''pbk1:'' @ bytesToHex salt @ '':'' @ bytesToHex digest), d'))"

definition verifierFor :: "kdf \<Rightarrow> KdfScheme \<Rightarrow> u8 list \<Rightarrow> u8 list option" where
  "verifierFor K sch x = (case sch of
       Sha256 \<Rightarrow> Some (k_sha256 K x) | Scrypt1 \<Rightarrow> Some (k_scrypt K x) | Pbk1 \<Rightarrow> k_hash K x)"

definition cache_set :: "string \<Rightarrow> string option \<Rightarrow> device \<Rightarrow> device" where
  "cache_set item v d = d\<lparr>storedCache := AList.update item v (storedCache d)\<rparr>"

definition forgetCached :: "device \<Rightarrow> device" where
  "forgetCached d = d\<lparr>storedCache := []\<rparr>"

definition readStored :: "string \<Rightarrow> string option act" where
  "readStored item d = (case map_of (storedCache d) item of
       Some cached \<Rightarrow> (Inr cached, d)
     | None \<Rightarrow> andThen (getBlob item) (\<lambda>stored d'. (Inr stored, cache_set item stored d')) d)"

definition upgrade :: "kdf \<Rightarrow> string \<Rightarrow> string \<Rightarrow> unit act" where
  \<comment> \<open>the body of the migration's \<open>try\<close>\<close>
  "upgrade K item pin = andThen (seal K pin) (\<lambda>upgraded.
     andThen (setBlob item upgraded) (\<lambda>_ d. (Inr (), cache_set item (Some upgraded) d)))"

definition matchesAndUpgrade :: "kdf \<Rightarrow> string \<Rightarrow> string \<Rightarrow> bool act" where
  "matchesAndUpgrade K item pin = andThen (readStored item) (\<lambda>stored.
     if \<not> truthy stored then ret False
     else case parseBlob (the stored) of
       Inl _ \<Rightarrow> throw BadBlob
     | Inr None \<Rightarrow> ret False
     | Inr (Some parsed) \<Rightarrow>
        (case verifierFor K (pb_scheme parsed) (pb_salt parsed @ utf8 pin) of
           None \<Rightarrow> throw KdfError
         | Some actual \<Rightarrow>
             if \<not> timingSafeEqual actual (pb_digest parsed) then ret False
             else (\<lambda>d. (Inr True, if pb_scheme parsed \<noteq> Pbk1 then best_effort (upgrade K item pin) d else d))))"

definition setPins :: "kdf \<Rightarrow> string \<Rightarrow> string option \<Rightarrow> unit act" where
  "setPins K standardPin duressPin =
     (if truthy duressPin \<and> standardPin = the duressPin then throw PinsMustDiffer
      else andThen (seal K standardPin) (\<lambda>s.
           andThen (setBlob STANDARD_ITEM s) (\<lambda>_.
           andThen (if truthy duressPin
                    then andThen (seal K (the duressPin)) (setBlob DURESS_ITEM)
                    else removeBlob DURESS_ITEM) (\<lambda>_ d.
           limiter limiter_reset (forgetCached d)))))"

definition isConfigured :: "bool act" where
  "isConfigured = andThen (readStored STANDARD_ITEM) (\<lambda>v. ret (v \<noteq> None))"

definition verify :: "kdf \<Rightarrow> int \<Rightarrow> int \<Rightarrow> string \<Rightarrow> PinVerifyResult act" where
  \<comment> \<open>\<open>t\<close> and \<open>t'\<close> are what the clock reads at the gate and when a failure is recorded\<close>
  "verify K t t' pin d =
     (let (lockedOut, d1) = (if limited d then isLockedOut t d else (False, d)) in
      if lockedOut then
        andThen (matchesAndUpgrade K DURESS_ITEM pin) (\<lambda>m. ret (if m then Duress else Invalid)) d1
      else
        andThen (matchesAndUpgrade K STANDARD_ITEM pin) (\<lambda>m.
          if m then andThen (limiter recordSuccess) (\<lambda>_. ret Standard)
          else andThen (matchesAndUpgrade K DURESS_ITEM pin) (\<lambda>m'.
            if m' then andThen (limiter recordSuccess) (\<lambda>_. ret Duress)
            else andThen (limiter (recordFailure t')) (\<lambda>_. ret Invalid))) d1)"

definition vault_clear :: "unit act" where
  "vault_clear = andThen (removeBlob STANDARD_ITEM) (\<lambda>_. andThen (removeBlob DURESS_ITEM) (\<lambda>_.
     andThen (limiter limiter_reset) (\<lambda>_ d. (Inr (), forgetCached d))))"

definition restart :: "device \<Rightarrow> device" where
  \<comment> \<open>the app is killed and started again: new objects over the same store\<close>
  "restart d = d\<lparr>storedCache := [], mirror := None\<rparr>"

subsection \<open>duress.ts\<close>

type_synonym 'o wipe_step = "'o \<Rightarrow> bool \<times> 'o" \<comment> \<open>whether it threw, and what it left\<close>

record 'o DuressTargets =
  dt_identity :: "'o wipe_step"
  dt_cache :: "'o wipe_step"
  dt_cacheFile :: "'o wipe_step option"
  dt_session :: "'o wipe_step option"
  dt_extra :: "'o wipe_step option"

definition try_step :: "'o wipe_step option \<Rightarrow> device \<times> 'o \<Rightarrow> device \<times> 'o" where
  "try_step f = (\<lambda>(d, s). case f of None \<Rightarrow> (d, s) | Some g \<Rightarrow> (d, snd (g s)))"

definition performDuressWipe :: "'o DuressTargets \<Rightarrow> device \<times> 'o \<Rightarrow> device \<times> 'o" where
  \<comment> \<open>the target \<open>pins\<close> is the vault of the device; the others act on the rest of the state\<close>
  "performDuressWipe T w =
     (let w1 = try_step (dt_session T) w;
          w2 = try_step (Some (dt_identity T)) w1;
          w3 = (best_effort vault_clear (fst w2), snd w2);
          w4 = try_step (Some (dt_cache T)) w3;
          w5 = try_step (dt_cacheFile T) w4
      in try_step (dt_extra T) w5)"

subsection \<open>Traces and the abstract vault\<close>

datatype vault_op =
    SetPins string "string option"
  | Verify int int string
  | IsConfigured
  | Clear
  | Forget
  | Restart

datatype vault_out = Done | Threw lock_error | Answer PinVerifyResult | Configured bool

definition reply :: "('a \<Rightarrow> vault_out) \<Rightarrow> (lock_error + 'a) \<times> device \<Rightarrow> vault_out \<times> device" where
  "reply f r = (case r of (Inl e, d) \<Rightarrow> (Threw e, d) | (Inr x, d) \<Rightarrow> (f x, d))"

fun vault_step :: "kdf \<Rightarrow> vault_op \<Rightarrow> device \<Rightarrow> vault_out \<times> device" where
  "vault_step K (SetPins s u) d = reply (\<lambda>_. Done) (setPins K s u d)"
| "vault_step K (Verify t t' p) d = reply Answer (verify K t t' p d)"
| "vault_step K IsConfigured d = reply Configured (isConfigured d)"
| "vault_step K Clear d = reply (\<lambda>_. Done) (vault_clear d)"
| "vault_step K Forget d = (Done, forgetCached d)"
| "vault_step K Restart d = (Done, restart d)"

fun vault_run :: "kdf \<Rightarrow> vault_op list \<Rightarrow> device \<Rightarrow> vault_out list \<times> device" where
  "vault_run K [] d = ([], d)"
| "vault_run K (x # xs) d =
     (let (r, d') = vault_step K x d; (rs, d'') = vault_run K xs d' in (r # rs, d''))"

definition new_device :: device where
  "new_device = \<lparr>blobs = [], texts = [], faults = [], storedCache = [], limited = True, mirror = None, drawn = 0\<rparr>"

text \<open>
  What the vault promises: it knows the two PINs themselves, has no cache and no store, and a
  restart does nothing to it.
\<close>

record vault_spec =
  sp_pins :: "(string \<times> string option) option"
  sp_att :: attempts

fun spec_step :: "vault_op \<Rightarrow> vault_spec \<Rightarrow> vault_out \<times> vault_spec" where
  "spec_step (SetPins s u) S =
     (if u = Some s \<and> s \<noteq> '''' then (Threw PinsMustDiffer, S)
      else (Done, \<lparr>sp_pins = Some (s, if u = Some '''' then None else u), sp_att = no_attempts\<rparr>))"
| "spec_step (Verify t t' p) S =
     (let locked = t < lockedUntil (sp_att S);
          is_std = (map_option fst (sp_pins S) = Some p);
          is_dur = (Option.bind (sp_pins S) snd = Some p)
      in if locked then (Answer (if is_dur then Duress else Invalid), S)
         else if is_std then (Answer Standard, S\<lparr>sp_att := no_attempts\<rparr>)
         else if is_dur then (Answer Duress, S\<lparr>sp_att := no_attempts\<rparr>)
         else (Answer Invalid, S\<lparr>sp_att := count_failure t' (sp_att S)\<rparr>))"
| "spec_step IsConfigured S = (Configured (sp_pins S \<noteq> None), S)"
| "spec_step Clear S = (Done, \<lparr>sp_pins = None, sp_att = no_attempts\<rparr>)"
| "spec_step Forget S = (Done, S)"
| "spec_step Restart S = (Done, S)"

fun spec_run :: "vault_op list \<Rightarrow> vault_spec \<Rightarrow> vault_out list \<times> vault_spec" where
  "spec_run [] S = ([], S)"
| "spec_run (x # xs) S = (let (r, S') = spec_step x S; (rs, S'') = spec_run xs S' in (r # rs, S''))"

definition new_spec :: vault_spec where
  "new_spec = \<lparr>sp_pins = None, sp_att = no_attempts\<rparr>"

fun op_pins :: "vault_op \<Rightarrow> string set" where
  "op_pins (SetPins s u) = insert s (set_option u)"
| "op_pins (Verify t t' p) = {p}"
| "op_pins _ = {}"

definition kdf_separates :: "kdf \<Rightarrow> string set \<Rightarrow> bool" where
  \<comment> \<open>the derivation succeeds and tells these PINs apart under each salt\<close>
  "kdf_separates K P \<longleftrightarrow> (\<forall>n. \<forall>p \<in> P. k_hash K (k_salt K n @ utf8 p) \<noteq> None) \<and>
     (\<forall>n. \<forall>p \<in> P. \<forall>q \<in> P. k_hash K (k_salt K n @ utf8 p) = k_hash K (k_salt K n @ utf8 q) \<longrightarrow> p = q)"

definition att :: "device \<Rightarrow> attempts" where
  "att d = parse_attempts (getItem (texts d) ATTEMPTS_ITEM)"

definition limiter_ok :: "device \<Rightarrow> bool" where
  "limiter_ok d \<longleftrightarrow> faults d = [] \<and> limited d \<and> mirror d \<in> {None, Some (att d)}"

definition coherent :: "device \<Rightarrow> bool" where
  "coherent d \<longleftrightarrow> (\<forall>item v. map_of (storedCache d) item = Some v \<longrightarrow> v = getItem (blobs d) item)"

definition sealed :: "kdf \<Rightarrow> string option \<Rightarrow> string option \<Rightarrow> bool" where
  "sealed K pin blob \<longleftrightarrow> (case pin of None \<Rightarrow> blob = None
     | Some p \<Rightarrow> \<exists>n g. k_hash K (k_salt K n @ utf8 p) = Some g \<and>
         blob = Some (''pbk1:'' @ bytesToHex (k_salt K n) @ '':'' @ bytesToHex g))"

definition implements :: "kdf \<Rightarrow> device \<Rightarrow> vault_spec \<Rightarrow> bool" where
  "implements K d S \<longleftrightarrow> limiter_ok d \<and> att d = sp_att S \<and> coherent d \<and>
     sealed K (map_option fst (sp_pins S)) (getItem (blobs d) STANDARD_ITEM) \<and>
     sealed K (Option.bind (sp_pins S) snd) (getItem (blobs d) DURESS_ITEM)"

section \<open>The store and the limiter\<close>

named_theorems lock_simps

lemmas [lock_simps] = ret_def throw_def andThen_def best_effort_def store_call_def
  getBlob_def setBlob_def removeBlob_def getText_def setText_def removeText_def limiter_def

lemma items_distinct [simp]:
  "STANDARD_ITEM \<noteq> DURESS_ITEM" "DURESS_ITEM \<noteq> STANDARD_ITEM"
  by (simp_all add: STANDARD_ITEM_def DURESS_ITEM_def)

lemma parse_print_attempts [simp]: "parse_attempts (Some (print_attempts s)) = s"
  by (simp add: parse_attempts_def print_attempts_def js_prop_def num_or_0_def)

lemma parse_attempts_None [simp]: "parse_attempts None = no_attempts"
  by (simp add: parse_attempts_def)

lemma load_ok: "limiter_ok d \<Longrightarrow> load d = (att d, d\<lparr>mirror := Some (att d)\<rparr>)"
  by (auto simp: limiter_ok_def load_def lock_simps att_def)

lemma isLockedOut_ok: "limiter_ok d \<Longrightarrow> isLockedOut t d = (t < lockedUntil (att d), d\<lparr>mirror := Some (att d)\<rparr>)"
  by (auto simp: isLockedOut_def lockoutRemainingMs_def load_ok)

lemma limiter_ok_loaded [simp]: "limiter_ok d \<Longrightarrow> limiter_ok (d\<lparr>mirror := Some (att d)\<rparr>)"
  by (simp add: limiter_ok_def att_def)

lemma att_upd [simp]: "att (d\<lparr>mirror := m\<rparr>) = att d" "att (d\<lparr>storedCache := c\<rparr>) = att d"
  "att (d\<lparr>blobs := b\<rparr>) = att d" "att (d\<lparr>drawn := n\<rparr>) = att d" "att (d\<lparr>faults := f\<rparr>) = att d"
  by (simp_all add: att_def)

definition put_attempts :: "attempts \<Rightarrow> device \<Rightarrow> device" where
  "put_attempts s d = d\<lparr>mirror := Some s, texts := setItem ATTEMPTS_ITEM (print_attempts s) (texts d)\<rparr>"

lemma put_attempts_ok [simp]:
  "faults d = [] \<Longrightarrow> limited d \<Longrightarrow> limiter_ok (put_attempts s d)" "att (put_attempts s d) = s"
  "blobs (put_attempts s d) = blobs d" "storedCache (put_attempts s d) = storedCache d"
  by (auto simp: put_attempts_def limiter_ok_def att_def storage_simps)

lemma recordFailure_ok: "limiter_ok d \<Longrightarrow> recordFailure t d = put_attempts (count_failure t (att d)) d"
  by (simp add: recordFailure_def load_ok persist_def lock_simps put_attempts_def)
    (auto simp: limiter_ok_def)

lemma recordSuccess_ok: "limiter_ok d \<Longrightarrow> recordSuccess d = put_attempts no_attempts d"
  by (auto simp: recordSuccess_def persist_def lock_simps put_attempts_def limiter_ok_def)

lemma limiter_reset_ok:
  "faults d = [] \<Longrightarrow> limited d \<Longrightarrow>
   limiter_ok (limiter_reset d) \<and> att (limiter_reset d) = no_attempts \<and>
   blobs (limiter_reset d) = blobs d \<and> storedCache (limiter_reset d) = storedCache d"
  by (simp add: limiter_reset_def lock_simps limiter_ok_def att_def storage_simps)

section \<open>The vault refines the abstract vault\<close>

lemma parseBlob_seal:
  "parseBlob (''pbk1:'' @ bytesToHex salt @ '':'' @ bytesToHex g)
   = Inr (Some \<lparr>pb_salt = salt, pb_digest = g, pb_scheme = Pbk1\<rparr>)"
proof -
  have "split_on (CHR '':'') (''pbk1:'' @ bytesToHex salt @ '':'' @ bytesToHex g)
      = [''pbk1'', bytesToHex salt, bytesToHex g]"
    using split_on_append[of "CHR '':''" "''pbk1''" "bytesToHex salt @ CHR '':'' # bytesToHex g"]
      split_on_append[OF bytesToHex_no_colon[of salt], of "bytesToHex g"]
      split_on_none[OF bytesToHex_no_colon[of g]] by simp
  then show ?thesis by (simp add: parseBlob_def)
qed

lemma foldl_or_xor:
  "length a = length b \<Longrightarrow>
   (foldl (\<lambda>diff (x, y). or diff (xor x y)) z (zip a b) = (0 :: u8)) \<longleftrightarrow> z = 0 \<and> a = b"
proof (induction a b arbitrary: z rule: list_induct2)
  case (Cons x xs y ys)
  have "or z (xor x y) = 0 \<longleftrightarrow> z = 0 \<and> x = y"
    by (metis or_eq_0_iff xor_self_eq xor.left_neutral xor.assoc)
  with Cons show ?case by auto
qed simp

lemma timingSafeEqual_eq [simp]: "timingSafeEqual a b \<longleftrightarrow> a = b"
  by (auto simp: timingSafeEqual_def foldl_or_xor)

definition same_vault :: "device \<Rightarrow> device \<Rightarrow> bool" where
  \<comment> \<open>only the session cache was filled\<close>
  "same_vault d d' \<longleftrightarrow> coherent d' \<and> (\<exists>c. d' = d\<lparr>storedCache := c\<rparr>)"

lemma same_vaultD:
  assumes "same_vault d d'"
  shows "coherent d'" "blobs d' = blobs d" "faults d' = faults d" "limited d' = limited d"
    "mirror d' = mirror d" "texts d' = texts d" "att d' = att d" "limiter_ok d' = limiter_ok d"
  using assms by (auto simp: same_vault_def limiter_ok_def)

lemma same_vault_trans: "same_vault d d' \<Longrightarrow> same_vault d' d'' \<Longrightarrow> same_vault d d''"
  by (auto simp: same_vault_def)

lemma readStored_ok:
  assumes "faults d = []" and "coherent d"
  shows "\<exists>d'. readStored item d = (Inr (getItem (blobs d) item), d') \<and> same_vault d d'"
proof (cases "map_of (storedCache d) item")
  case None
  have "coherent (cache_set item (getItem (blobs d) item) d)"
    using assms(2) by (auto simp: coherent_def cache_set_def js_map_simps)
  then have "same_vault d (cache_set item (getItem (blobs d) item) d)"
    by (auto simp: same_vault_def cache_set_def)
  with None assms(1) show ?thesis by (auto simp: readStored_def lock_simps)
next
  case (Some v)
  moreover have "same_vault d d"
    using assms(2) by (auto simp: same_vault_def intro: exI[of _ "storedCache d"])
  ultimately show ?thesis using assms(2) by (auto simp: readStored_def coherent_def)
qed

lemma matches_ok:
  assumes "faults d = []" and "coherent d" and "sealed K q (getItem (blobs d) item)"
    and "kdf_separates K P" and "pin \<in> P" and "set_option q \<subseteq> P"
  shows "\<exists>d'. matchesAndUpgrade K item pin d = (Inr (q = Some pin), d') \<and> same_vault d d'"
proof -
  obtain d' where d': "readStored item d = (Inr (getItem (blobs d) item), d')" "same_vault d d'"
    using readStored_ok[OF assms(1,2)] by blast
  show ?thesis
  proof (cases q)
    case None
    with assms(3) d' show ?thesis by (auto simp: matchesAndUpgrade_def sealed_def lock_simps)
  next
    case (Some p)
    then obtain n g where g: "k_hash K (k_salt K n @ utf8 p) = Some g"
      and b: "getItem (blobs d) item = Some (''pbk1:'' @ bytesToHex (k_salt K n) @ '':'' @ bytesToHex g)"
      using assms(3) by (auto simp: sealed_def)
    obtain h where h: "k_hash K (k_salt K n @ utf8 pin) = Some h"
      using assms(4,5) by (metis kdf_separates_def option.exhaust)
    have "h = g \<longleftrightarrow> p = pin"
      using g h assms(4-6) Some by (metis kdf_separates_def option.inject option.set_intros subsetD)
    with d' b h Some show ?thesis
      using parseBlob_seal[of "k_salt K n" g]
      by (auto simp: matchesAndUpgrade_def lock_simps verifierFor_def)
  qed
qed

lemma implements_same_vault: "implements K d S \<Longrightarrow> same_vault d d' \<Longrightarrow> implements K d' S"
  by (simp add: implements_def same_vaultD)

lemma implements_loaded: "implements K d S \<Longrightarrow> implements K (d\<lparr>mirror := Some (att d)\<rparr>) S"
  by (auto simp: implements_def coherent_def limiter_ok_def)

lemma implements_put:
  "implements K d S \<Longrightarrow> implements K (put_attempts s d) (S\<lparr>sp_att := s\<rparr>)"
proof -
  assume i: "implements K d S"
  then have "faults d = []" "limited d" by (auto simp: implements_def limiter_ok_def)
  with i show ?thesis by (simp add: implements_def coherent_def)
qed

lemma implements_matches:
  assumes "implements K d S" and "kdf_separates K P" and "pin \<in> P"
    and "\<forall>s u. sp_pins S = Some (s, u) \<longrightarrow> insert s (set_option u) \<subseteq> P"
  shows "\<exists>d'. matchesAndUpgrade K STANDARD_ITEM pin d = (Inr (map_option fst (sp_pins S) = Some pin), d') \<and> implements K d' S"
    "\<exists>d'. matchesAndUpgrade K DURESS_ITEM pin d = (Inr (Option.bind (sp_pins S) snd = Some pin), d') \<and> implements K d' S"
proof -
  have d: "faults d = []" "coherent d"
    using assms(1) by (auto simp: implements_def limiter_ok_def)
  have "set_option (map_option fst (sp_pins S)) \<subseteq> P" "set_option (Option.bind (sp_pins S) snd) \<subseteq> P"
    using assms(4) by (cases "sp_pins S"; auto)+
  then show
    "\<exists>d'. matchesAndUpgrade K STANDARD_ITEM pin d = (Inr (map_option fst (sp_pins S) = Some pin), d') \<and> implements K d' S"
    "\<exists>d'. matchesAndUpgrade K DURESS_ITEM pin d = (Inr (Option.bind (sp_pins S) snd = Some pin), d') \<and> implements K d' S"
    using matches_ok[OF d _ assms(2,3)] assms(1) implements_same_vault[OF assms(1)]
    unfolding implements_def by (metis (no_types, lifting))+
qed

lemma verify_ok:
  assumes "implements K d S" and "kdf_separates K P" and "pin \<in> P"
    and "\<forall>s u. sp_pins S = Some (s, u) \<longrightarrow> insert s (set_option u) \<subseteq> P"
  shows "\<exists>r d'. verify K t t' pin d = (Inr r, d') \<and> fst (spec_step (Verify t t' pin) S) = Answer r
           \<and> implements K d' (snd (spec_step (Verify t t' pin) S))"
proof -
  let ?d = "d\<lparr>mirror := Some (att d)\<rparr>"
  have lim: "limiter_ok d" "limited d" "att d = sp_att S"
    using assms(1) by (auto simp: implements_def limiter_ok_def)
  note gate = isLockedOut_ok[OF lim(1), of t]
  note impl = implements_loaded[OF assms(1)]
  show ?thesis
  proof (cases "t < lockedUntil (sp_att S)")
    case True
    obtain d' where "matchesAndUpgrade K DURESS_ITEM pin ?d = (Inr (Option.bind (sp_pins S) snd = Some pin), d')"
      "implements K d' S"
      using implements_matches(2)[OF impl assms(2-4)] by blast
    with True lim gate show ?thesis by (auto simp: verify_def lock_simps)
  next
    case False
    obtain d' where d': "matchesAndUpgrade K STANDARD_ITEM pin ?d = (Inr (map_option fst (sp_pins S) = Some pin), d')"
      "implements K d' S"
      using implements_matches(1)[OF impl assms(2-4)] by blast
    obtain d'' where d'': "matchesAndUpgrade K DURESS_ITEM pin d' = (Inr (Option.bind (sp_pins S) snd = Some pin), d'')"
      "implements K d'' S"
      using implements_matches(2)[OF d'(2) assms(2-4)] by blast
    have l: "limiter_ok d'" "limited d'" "limiter_ok d''" "limited d''" "att d'' = sp_att S"
      using d'(2) d''(2) by (auto simp: implements_def limiter_ok_def)
    show ?thesis
      using False lim gate d' d'' l
      by (auto simp: verify_def lock_simps recordSuccess_ok recordFailure_ok implements_put)
  qed
qed

lemma seal_ok:
  assumes "kdf_separates K P" and "pin \<in> P"
  shows "\<exists>blob. seal K pin d = (Inr blob, d\<lparr>drawn := drawn d + 1\<rparr>) \<and> sealed K (Some pin) (Some blob)"
proof -
  obtain g where "k_hash K (k_salt K (drawn d) @ utf8 pin) = Some g"
    using assms by (metis kdf_separates_def option.exhaust)
  then show ?thesis by (auto simp: seal_def sealed_def Let_def)
qed

lemma setPins_ok:
  assumes "implements K d S" and "kdf_separates K P" and "op_pins (SetPins s u) \<subseteq> P"
  shows "\<exists>d'. vault_step K (SetPins s u) d = (fst (spec_step (SetPins s u) S), d')
           \<and> implements K d' (snd (spec_step (SetPins s u) S))"
proof (cases "u = Some s \<and> s \<noteq> ''''")
  case True
  with assms(1) show ?thesis by (auto simp: setPins_def lock_simps reply_def)
next
  case False
  have d: "faults d = []" "limited d"
    using assms(1) by (auto simp: implements_def limiter_ok_def)

  obtain b1 where b1: "seal K s d = (Inr b1, d\<lparr>drawn := drawn d + 1\<rparr>)" "sealed K (Some s) (Some b1)"
    using seal_ok[OF assms(2), of s d] assms(3) by auto
  show ?thesis
  proof (cases "truthy u")
    case True
    then obtain p where u: "u = Some p" "p \<noteq> ''''" by (elim truthyE)
    define d1 where "d1 = d\<lparr>drawn := drawn d + 1, blobs := setItem STANDARD_ITEM b1 (blobs d)\<rparr>"
    obtain b2 where b2: "seal K p d1 = (Inr b2, d1\<lparr>drawn := drawn d1 + 1\<rparr>)" "sealed K (Some p) (Some b2)"
      using seal_ok[OF assms(2), of p d1] assms(3) u by auto
    define d2 where "d2 = forgetCached (d1\<lparr>drawn := drawn d1 + 1, blobs := setItem DURESS_ITEM b2 (blobs d1)\<rparr>)"
    have d2: "faults d2 = []" "limited d2" "storedCache d2 = []"
      "blobs d2 = setItem DURESS_ITEM b2 (setItem STANDARD_ITEM b1 (blobs d))"
      using d by (simp_all add: d2_def d1_def forgetCached_def)
    have "setPins K s u d = (Inr (), limiter_reset d2)"
      using False u b1(1) b2(1) d d2(2) by (auto simp: setPins_def lock_simps d1_def d2_def forgetCached_def)
    then show ?thesis
      using limiter_reset_ok[OF d2(1,2)] False u b1 b2 d2
      by (auto simp: reply_def implements_def coherent_def storage_simps)
  next
    case noduress: False
    then have u: "u = None \<or> u = Some ''''" by (cases u) auto
    define d2 where "d2 = forgetCached (d\<lparr>drawn := drawn d + 1,
      blobs := removeItem DURESS_ITEM (setItem STANDARD_ITEM b1 (blobs d))\<rparr>)"
    have d2: "faults d2 = []" "limited d2" "storedCache d2 = []"
      "blobs d2 = removeItem DURESS_ITEM (setItem STANDARD_ITEM b1 (blobs d))"
      using d by (simp_all add: d2_def forgetCached_def)
    have "setPins K s u d = (Inr (), limiter_reset d2)"
      using noduress b1(1) d d2(2) by (auto simp: setPins_def lock_simps d2_def)
    then show ?thesis
      using limiter_reset_ok[OF d2(1,2)] False u b1 d2
      by (auto simp: reply_def implements_def coherent_def storage_simps sealed_def)
  qed
qed

lemma vault_clear_ok:
  assumes "faults d = []" and "limited d"
  shows "\<exists>d'. vault_clear d = (Inr (), d') \<and> implements K d' new_spec \<and> storedCache d' = []
           \<and> getItem (blobs d') STANDARD_ITEM = None \<and> getItem (blobs d') DURESS_ITEM = None
           \<and> getItem (texts d') ATTEMPTS_ITEM = None"
  using assms
  by (auto simp: vault_clear_def lock_simps implements_def coherent_def limiter_ok_def att_def
      limiter_reset_def forgetCached_def storage_simps sealed_def new_spec_def)

lemma vault_step_ok:
  assumes "implements K d S" and "kdf_separates K P" and "op_pins x \<subseteq> P"
    and "\<forall>s u. sp_pins S = Some (s, u) \<longrightarrow> insert s (set_option u) \<subseteq> P"
  shows "\<exists>d'. vault_step K x d = (fst (spec_step x S), d') \<and> implements K d' (snd (spec_step x S))"
proof (cases x)
  case (SetPins s u)
  then show ?thesis using setPins_ok[OF assms(1,2)] assms(3) by simp
next
  case (Verify t t' p)
  then show ?thesis using verify_ok[OF assms(1,2) _ assms(4), of p t t'] assms(3) by (auto simp: reply_def)
next
  case IsConfigured
  obtain d' where d': "readStored STANDARD_ITEM d = (Inr (getItem (blobs d) STANDARD_ITEM), d')" "same_vault d d'"
    using readStored_ok[of d STANDARD_ITEM] assms(1) by (auto simp: implements_def limiter_ok_def)
  have "getItem (blobs d) STANDARD_ITEM \<noteq> None \<longleftrightarrow> sp_pins S \<noteq> None"
    using assms(1) by (cases "sp_pins S") (auto simp: implements_def sealed_def)
  with d' IsConfigured show ?thesis
    using implements_same_vault[OF assms(1) d'(2)] by (auto simp: isConfigured_def lock_simps reply_def)
next
  case Clear
  then show ?thesis
    using vault_clear_ok[of d K] assms(1) by (auto simp: implements_def limiter_ok_def reply_def new_spec_def)
next
  case Forget
  then show ?thesis using assms(1) by (auto simp: implements_def forgetCached_def coherent_def limiter_ok_def)
next
  case Restart
  then show ?thesis using assms(1) by (auto simp: implements_def restart_def coherent_def limiter_ok_def)
qed

lemma spec_step_pins:
  assumes "\<forall>s u. sp_pins S = Some (s, u) \<longrightarrow> insert s (set_option u) \<subseteq> P" and "op_pins x \<subseteq> P"
  shows "\<forall>s u. sp_pins (snd (spec_step x S)) = Some (s, u) \<longrightarrow> insert s (set_option u) \<subseteq> P"
  using assms by (cases x) (auto simp: Let_def split: if_splits)

lemma vault_run_ok:
  assumes "implements K d S" and "kdf_separates K P" and "(\<Union>x \<in> set xs. op_pins x) \<subseteq> P"
    and "\<forall>s u. sp_pins S = Some (s, u) \<longrightarrow> insert s (set_option u) \<subseteq> P"
  shows "fst (vault_run K xs d) = fst (spec_run xs S) \<and> implements K (snd (vault_run K xs d)) (snd (spec_run xs S))"
  using assms
proof (induction xs arbitrary: d S)
  case (Cons x xs)
  have xP: "op_pins x \<subseteq> P" using Cons.prems(3) by auto
  obtain d' where d': "vault_step K x d = (fst (spec_step x S), d')" "implements K d' (snd (spec_step x S))"
    using vault_step_ok[OF Cons.prems(1,2) xP Cons.prems(4)] by blast
  show ?case
    using Cons.IH[OF d'(2) Cons.prems(2) _ spec_step_pins[OF Cons.prems(4) xP]] Cons.prems(3) d'(1)
    by (auto simp: Let_def split: prod.splits)
qed simp

lemma new_device_implements: "implements K new_device new_spec"
  by (simp add: implements_def new_device_def new_spec_def limiter_ok_def att_def coherent_def sealed_def
      getItem_def)

text \<open>
  C3. Refinement of the PIN vault.  Over every sequence of operations on a fresh device whose
  store accepts its calls (PIN changes, attempts at any clock readings, wipes, dropped caches and
  restarts of the app in any order), the sealed slots, the session cache and the persisted counter
  give exactly the answers of the abstract vault that knows the two PINs: in particular a duress PIN
  is recognised during a lockout, a standard PIN is not accepted then, and no replaced or cleared
  PIN is ever accepted.  The derivation function must succeed on the PINs used and tell them apart.
\<close>

theorem vault_refines_spec:
  assumes "kdf_separates K (\<Union>x \<in> set ops. op_pins x)"
  shows "fst (vault_run K ops new_device) = fst (spec_run ops new_spec)"
  using vault_run_ok[OF new_device_implements assms] by (simp add: new_spec_def)

definition ex_kdf :: kdf where
  "ex_kdf = \<lparr>k_hash = (\<lambda>x. Some (rev x)), k_sha256 = (\<lambda>x. 1 # x), k_scrypt = (\<lambda>x. 2 # x),
     k_salt = (\<lambda>n. [of_nat n])\<rparr>"

definition ex_ops :: "vault_op list" where
  "ex_ops = [SetPins ''1234'' (Some ''9999''), Verify 1 2 ''0000'', Restart, Verify 3 4 ''0001'',
     Verify 5 6 ''0002'', Verify 7 8 ''0003'', Verify 9 10 ''0004'', Verify 11 12 ''0005'',
     Restart, Verify 100 101 ''1234'', Verify 102 103 ''9999'', Verify 30012 30013 ''1234'',
     SetPins ''7777'' None, Verify 40000 40001 ''1234'', Verify 40002 40003 ''7777'']"

lemma utf8_inject: "utf8 p = utf8 q \<Longrightarrow> p = q"
proof -
  have small: "paired (map (of_char :: char \<Rightarrow> int) s)" for s
  proof (induction s)
    case (Cons c s)
    have "0 \<le> (of_char c :: int)" "of_char c < (256 :: int)"
      by (auto simp: of_char_def)
    with Cons show ?case by (cases s) auto
  qed simp
  assume "utf8 p = utf8 q"
  then have "map (of_char :: char \<Rightarrow> int) p = map of_char q"
    using utf8Decode_inverse[OF small[of p]] utf8Decode_inverse[OF small[of q]] by (metis utf8_def)
  moreover have "inj (of_char :: char \<Rightarrow> int)" by (auto simp: inj_def)
  ultimately show "p = q" by simp
qed

lemma ex_kdf_separates: "kdf_separates ex_kdf P"
  by (auto simp: kdf_separates_def ex_kdf_def dest: utf8_inject)

theorem vault_refines_spec_witness:
  "kdf_separates ex_kdf (\<Union>x \<in> set ex_ops. op_pins x) \<and>
   fst (vault_run ex_kdf ex_ops new_device) = fst (spec_run ex_ops new_spec) \<and>
   fst (spec_run ex_ops new_spec) =
     [Done, Answer Invalid, Done, Answer Invalid, Answer Invalid, Answer Invalid, Answer Invalid,
      Answer Invalid, Done, Answer Invalid, Answer Duress, Answer Standard, Done, Answer Invalid,
      Answer Standard]"
proof (intro conjI)
  show "fst (vault_run ex_kdf ex_ops new_device) = fst (spec_run ex_ops new_spec)"
    by (rule vault_refines_spec[OF ex_kdf_separates])
  show "fst (spec_run ex_ops new_spec) =
     [Done, Answer Invalid, Done, Answer Invalid, Answer Invalid, Answer Invalid, Answer Invalid,
      Answer Invalid, Done, Answer Invalid, Answer Duress, Answer Standard, Done, Answer Invalid,
      Answer Standard]"
    by code_simp
qed (rule ex_kdf_separates)

section \<open>The throttle\<close>

fun past_gate :: "kdf \<Rightarrow> vault_op list \<Rightarrow> device \<Rightarrow> nat" where
  \<comment> \<open>the attempts of a run made while no lockout is in force\<close>
  "past_gate K [] d = 0"
| "past_gate K (x # xs) d =
     (case x of Verify t t' p \<Rightarrow> if fst (isLockedOut t d) then 0 else 1 | _ \<Rightarrow> 0)
     + past_gate K xs (snd (vault_step K x d))"

fun attackable :: "kdf \<Rightarrow> string \<Rightarrow> vault_op list \<Rightarrow> device \<Rightarrow> nat" where
  \<comment> \<open>the attempts of a run at which \<open>verify\<close> would have unlocked, had the PIN \<open>s\<close> been entered\<close>
  "attackable K s [] d = 0"
| "attackable K s (x # xs) d =
     (case x of Verify t t' p \<Rightarrow> if fst (verify K t t' s d) = Inr Standard then 1 else 0 | _ \<Rightarrow> 0)
     + attackable K s xs (snd (vault_step K x d))"

fun clocked :: "int \<Rightarrow> vault_op list \<Rightarrow> int \<Rightarrow> bool" where
  \<comment> \<open>the clock readings of a run do not decrease from \<open>a\<close> to \<open>b\<close>\<close>
  "clocked a [] b = (a \<le> b)"
| "clocked a (x # xs) b =
     (case x of Verify t t' p \<Rightarrow> a \<le> t \<and> t \<le> t' \<and> clocked t' xs b | _ \<Rightarrow> clocked a xs b)"

definition guess_op :: "vault_op \<Rightarrow> bool" where
  "guess_op x = (case x of SetPins _ _ \<Rightarrow> False | Clear \<Rightarrow> False | _ \<Rightarrow> True)"

definition no_hit :: "vault_out \<Rightarrow> bool" where
  "no_hit r = (r \<in> {Done, Answer Invalid, Configured True, Configured False})"

definition lock_total :: "nat \<Rightarrow> int" where
  \<comment> \<open>the first \<open>m\<close> lockout windows together\<close>
  "lock_total m = sum_list (map (\<lambda>i. backoffForRound (int i)) [1..<Suc m])"

lemma lock_total_Suc: "lock_total (Suc m) = lock_total m + backoffForRound (int (Suc m))"
  by (simp add: lock_total_def)

lemma lock_total_0 [simp]: "lock_total 0 = 0"
  by (simp add: lock_total_def)

lemma backoff_bounds: "30000 \<le> backoffForRound n \<and> backoffForRound n \<le> 1800000"
proof -
  have "(1 :: int) \<le> 2 ^ nat (n - 1)" by simp
  then show ?thesis by (simp add: backoffForRound_def BASE_BACKOFF_MS_def MAX_BACKOFF_MS_def)
qed

lemma backoff_late: "7 \<le> n \<Longrightarrow> backoffForRound n = 1800000"
proof -
  assume "7 \<le> n"
  then have "(2 :: int) ^ 6 \<le> 2 ^ nat (n - 1)" by (intro power_increasing) auto
  then show ?thesis by (simp add: backoffForRound_def BASE_BACKOFF_MS_def MAX_BACKOFF_MS_def)
qed

lemma lock_total_closed: "6 \<le> m \<Longrightarrow> lock_total m = 1890000 + 1800000 * int (m - 6)"
proof (induction m rule: dec_induct)
  case base
  show ?case by code_simp
next
  case (step m)
  then show ?case by (simp add: lock_total_Suc backoff_late of_nat_diff)
qed

definition keeps_limiter :: "device \<Rightarrow> device \<Rightarrow> bool" where
  "keeps_limiter d d' \<longleftrightarrow> faults d' = [] \<and> limited d' = limited d \<and> mirror d' = mirror d \<and> texts d' = texts d"

lemma keeps_limiter_ok:
  "limiter_ok d \<Longrightarrow> keeps_limiter d d' \<Longrightarrow> limiter_ok d' \<and> att d' = att d"
  by (auto simp: keeps_limiter_def limiter_ok_def att_def)

lemma keeps_limiter_trans: "keeps_limiter d d' \<Longrightarrow> keeps_limiter d' d'' \<Longrightarrow> keeps_limiter d d''"
  by (simp add: keeps_limiter_def)

lemma readStored_keeps: "faults d = [] \<Longrightarrow> keeps_limiter d (snd (readStored item d))"
  by (auto simp: readStored_def lock_simps keeps_limiter_def cache_set_def split: option.splits)

lemma upgrade_keeps: "faults d = [] \<Longrightarrow> keeps_limiter d (snd (upgrade K item pin d))"
  by (auto simp: upgrade_def seal_def lock_simps keeps_limiter_def cache_set_def Let_def split: option.splits)

lemma matches_keeps:
  assumes "faults d = []"
  shows "keeps_limiter d (snd (matchesAndUpgrade K item pin d))"
proof -
  obtain v d' where r: "readStored item d = (v, d')" "keeps_limiter d d'"
    using readStored_keeps[OF assms] by (metis surj_pair snd_conv)
  then have f: "faults d' = []" by (simp add: keeps_limiter_def)
  have "keeps_limiter d (snd (upgrade K item pin d'))"
    using keeps_limiter_trans[OF r(2) upgrade_keeps[OF f]] .
  with r show ?thesis
    by (auto simp: matchesAndUpgrade_def lock_simps split: sum.splits option.splits)
qed

lemma verify_invalid:
  assumes "limiter_ok d" and "verify K t t' pin d = (Inr Invalid, d')"
  shows "limiter_ok d' \<and> att d' = (if t < lockedUntil (att d) then att d else count_failure t' (att d))"
proof -
  let ?d = "d\<lparr>mirror := Some (att d)\<rparr>"
  have d: "faults ?d = []" "limited d" "limiter_ok ?d" "att ?d = att d"
    using assms(1) by (auto simp: limiter_ok_def)
  obtain a d1 where a: "matchesAndUpgrade K DURESS_ITEM pin ?d = (a, d1)" by fastforce
  obtain b d2 where b: "matchesAndUpgrade K STANDARD_ITEM pin ?d = (b, d2)" by fastforce
  obtain c d3 where c: "matchesAndUpgrade K DURESS_ITEM pin d2 = (c, d3)" by fastforce
  have k1: "keeps_limiter ?d d1" using matches_keeps[OF d(1), of K DURESS_ITEM pin] a by simp
  have k2: "keeps_limiter ?d d2" using matches_keeps[OF d(1), of K STANDARD_ITEM pin] b by simp
  then have "faults d2 = []" by (simp add: keeps_limiter_def)
  then have k3: "keeps_limiter ?d d3"
    using matches_keeps[of d2 K DURESS_ITEM pin] c keeps_limiter_trans[OF k2] by simp
  note ok = keeps_limiter_ok[OF d(3) k1] keeps_limiter_ok[OF d(3) k3]
  have "limited d3" using ok by (simp add: limiter_ok_def)
  moreover have "faults d3 = []" using ok by (simp add: limiter_ok_def)
  ultimately show ?thesis
    using assms(2) ok d a b c isLockedOut_ok[OF assms(1), of t]
    by (auto simp: verify_def lock_simps recordFailure_ok split: if_splits sum.splits)
qed

definition counts :: "int \<Rightarrow> int \<Rightarrow> nat \<Rightarrow> device \<Rightarrow> bool" where
  \<comment> \<open>\<open>n\<close> failures were counted since \<open>t0\<close> and it is now \<open>a\<close>\<close>
  "counts t0 a n d \<longleftrightarrow> limiter_ok d \<and> fails (att d) = int n \<and> t0 + lock_total (n - 6) \<le> a \<and>
     (5 < n \<longrightarrow> t0 + lock_total (n - 5) \<le> lockedUntil (att d))"

lemma guess_step:
  assumes "counts t0 a n d" and "guess_op x" and "no_hit (fst (vault_step K x d))"
    and "clocked a (x # xs) b"
  shows "\<exists>a'. clocked a' xs b \<and>
    counts t0 a' (n + (case x of Verify t t' p \<Rightarrow> if fst (isLockedOut t d) then 0 else 1 | _ \<Rightarrow> 0))
      (snd (vault_step K x d))"
proof (cases x)
  case (Verify t t' p)
  have ok: "limiter_ok d" using assms(1) by (simp add: counts_def)
  obtain d' where v: "verify K t t' p d = (Inr Invalid, d')"
    using assms(3) Verify by (auto simp: reply_def no_hit_def split: prod.splits sum.splits)
  note d' = verify_invalid[OF ok v]
  have t: "a \<le> t" "t \<le> t'" "clocked t' xs b" using assms(4) Verify by auto
  show ?thesis
  proof (cases "t < lockedUntil (att d)")
    case True
    with assms(1) t d' v Verify ok show ?thesis
      by (intro exI[of _ t']) (auto simp: counts_def reply_def isLockedOut_ok)
  next
    case False
    have "t0 + lock_total (Suc n - 6) \<le> t'"
      using assms(1) t False by (cases "5 < n") (auto simp: counts_def)
    moreover have "t0 + lock_total (Suc n - 5) \<le> t' + backoffForRound (int (Suc n - 5))" if "5 < Suc n"
    proof -
      have "lock_total (Suc n - 5) = lock_total (Suc n - 6) + backoffForRound (int (Suc n - 5))"
      proof -
        have "Suc n - 5 = Suc (Suc n - 6)" using that by simp
        then show ?thesis by (metis lock_total_Suc)
      qed
      with calculation show ?thesis by simp
    qed
    ultimately have "counts t0 t' (Suc n) d'"
      using assms(1) d' False
      by (auto simp: counts_def count_failure_def FREE_ATTEMPTS_def Let_def of_nat_diff add.commute)
    with t v Verify ok False show ?thesis
      by (intro exI[of _ t']) (auto simp: reply_def isLockedOut_ok)
  qed
next
  case IsConfigured
  have "faults d = []" using assms(1) by (simp add: counts_def limiter_ok_def)
  then have "keeps_limiter d (snd (vault_step K x d))"
    using readStored_keeps[of d STANDARD_ITEM] IsConfigured
    by (auto simp: isConfigured_def lock_simps reply_def split: prod.splits sum.splits)
  then show ?thesis
    using assms(1,4) IsConfigured keeps_limiter_ok by (auto simp: counts_def intro!: exI[of _ a])
qed (use assms in \<open>auto simp: guess_op_def counts_def forgetCached_def restart_def limiter_ok_def intro!: exI[of _ a]\<close>)

lemma guess_run:
  assumes "counts t0 a n d" and "\<forall>x \<in> set xs. guess_op x" and "\<forall>r \<in> set (fst (vault_run K xs d)). no_hit r"
    and "clocked a xs b"
  shows "t0 + lock_total (n + past_gate K xs d - 6) \<le> b"
  using assms
proof (induction xs arbitrary: a n d)
  case Nil
  then show ?case by (auto simp: counts_def)
next
  case (Cons x xs)
  have "no_hit (fst (vault_step K x d))"
    using Cons.prems(3) by (auto simp: Let_def split: prod.splits)
  moreover have "guess_op x" using Cons.prems(2) by simp
  ultimately obtain a' where a': "clocked a' xs b"
    "counts t0 a' (n + (case x of Verify t t' p \<Rightarrow> if fst (isLockedOut t d) then 0 else 1 | _ \<Rightarrow> 0))
      (snd (vault_step K x d))"
    using guess_step[OF Cons.prems(1) _ _ Cons.prems(4)] by blast
  show ?case
    using Cons.IH[OF a'(2) _ _ a'(1)] Cons.prems(2,3)
    by (auto simp: Let_def add.assoc split: prod.splits)
qed

lemma lock_total_mono: "m \<le> n \<Longrightarrow> lock_total m \<le> lock_total n"
proof (induction n rule: dec_induct)
  case (step n)
  then show ?case using backoff_bounds[of "int (Suc n)"] by (simp add: lock_total_Suc)
qed simp

lemma standard_past_gate:
  assumes "limiter_ok d" and "fst (verify K t t' s d) = Inr Standard"
  shows "\<not> fst (isLockedOut t d)"
proof
  assume "fst (isLockedOut t d)"
  moreover have "limited d" using assms(1) by (simp add: limiter_ok_def)
  ultimately show False using assms(2)
    by (auto simp: verify_def lock_simps Let_def case_prod_unfold split: sum.splits if_splits)
qed

lemma attackable_le:
  assumes "counts t0 a n d" and "\<forall>x \<in> set xs. guess_op x" and "\<forall>r \<in> set (fst (vault_run K xs d)). no_hit r"
    and "clocked a xs b"
  shows "attackable K s xs d \<le> past_gate K xs d"
  using assms
proof (induction xs arbitrary: a n d)
  case (Cons x xs)
  have "no_hit (fst (vault_step K x d))"
    using Cons.prems(3) by (auto simp: Let_def split: prod.splits)
  moreover have "guess_op x" using Cons.prems(2) by simp
  ultimately obtain a' n' where a': "clocked a' xs b" "counts t0 a' n' (snd (vault_step K x d))"
    using guess_step[OF Cons.prems(1) _ _ Cons.prems(4)] by blast
  have "attackable K s xs (snd (vault_step K x d)) \<le> past_gate K xs (snd (vault_step K x d))"
    using Cons.IH[OF a'(2) _ _ a'(1)] Cons.prems(2,3) by (auto simp: Let_def split: prod.splits)
  moreover have "limiter_ok d" using Cons.prems(1) by (simp add: counts_def)
  ultimately show ?case using standard_past_gate[of d K _ _ s] by (auto split: vault_op.splits)
qed simp

text \<open>
  C34. The throttle bounds the rate of guesses.  From a device with no counted failures, take any
  run of wrong attempts, dropped caches and restarts of the app in which the clock goes from \<open>a\<close> to
  \<open>b\<close> without ever running backwards, and any PIN \<open>s\<close>.  If \<open>n\<close> of the attempts were chances, moments
  at which \<open>verify\<close> would have answered that \<open>s\<close> opens the vault, the run took at least the first
  \<open>n - 6\<close> lockout windows; those are 30 s, 1, 2, 4, 8 and 16 minutes and then half an hour each.
\<close>

theorem throttle_bounds_guessing:
  assumes "limiter_ok d" and "att d = no_attempts" and "clocked a ops b"
    and "\<forall>x \<in> set ops. guess_op x" and "\<forall>r \<in> set (fst (vault_run K ops d)). no_hit r"
  shows "lock_total (attackable K s ops d - 6) \<le> b - a
    \<and> (12 \<le> attackable K s ops d \<longrightarrow> 1890000 + 1800000 * (int (attackable K s ops d) - 12) \<le> b - a)"
proof -
  have c: "counts a a 0 d" using assms(1,2) by (simp add: counts_def no_attempts_def)
  have "lock_total (attackable K s ops d - 6) \<le> lock_total (past_gate K ops d - 6)"
    using attackable_le[OF c assms(4,5,3), of s] by (intro lock_total_mono) simp
  also have "\<dots> \<le> b - a" using guess_run[OF c assms(4,5,3)] by simp
  finally have "lock_total (attackable K s ops d - 6) \<le> b - a" .
  then show ?thesis using lock_total_closed[of "attackable K s ops d - 6"] by (auto simp: of_nat_diff)
qed

definition ex_device :: device where
  "ex_device = snd (vault_step ex_kdf (SetPins ''1234'' (Some ''9999'')) new_device)"

definition ex_guesses :: "vault_op list" where
  "ex_guesses = [Verify 1 2 ''0000'', Restart, Verify 3 4 ''0001'', Verify 5 6 ''0002'', Verify 7 8 ''0003'',
     Verify 9 10 ''0004'', Verify 11 12 ''0005'', Restart, Verify 13 14 ''1234'', Verify 30012 30013 ''0006'']"

theorem throttle_bounds_guessing_witness:
  "limiter_ok ex_device \<and> att ex_device = no_attempts \<and> attackable ex_kdf ''1234'' ex_guesses ex_device = 7
   \<and> lock_total (7 - 6) \<le> 30013 - 1"
proof -
  have t: "attackable ex_kdf ''1234'' ex_guesses ex_device = 7" by code_simp
  have 1: "limiter_ok ex_device" by code_simp
  have 2: "att ex_device = no_attempts" by code_simp
  have 3: "clocked 1 ex_guesses 30013" by code_simp
  have 4: "\<forall>x \<in> set ex_guesses. guess_op x" by code_simp
  have 5: "\<forall>r \<in> set (fst (vault_run ex_kdf ex_guesses ex_device)). no_hit r" by code_simp
  show ?thesis using 1 2 t throttle_bounds_guessing[OF 1 2 3 4 5, of "''1234''"] by simp
qed

fun patient :: "int \<Rightarrow> nat \<Rightarrow> string list \<Rightarrow> vault_op list" where
  \<comment> \<open>guesses made as soon as the lockout lifts, after \<open>k\<close> failures\<close>
  "patient t0 k [] = []"
| "patient t0 k (g # gs) =
     Verify (t0 + lock_total (k - 5)) (t0 + lock_total (k - 5)) g # patient t0 (k + 1) gs"

lemma lock_total_step: "5 \<le> k \<Longrightarrow> lock_total (Suc k - 5) = lock_total (k - 5) + backoffForRound (int k - 4)"
proof -
  assume "5 \<le> k"
  then have "Suc k - 5 = Suc (k - 5)" "int (Suc (k - 5)) = int k - 4" by auto
  then show ?thesis by (metis lock_total_Suc)
qed

lemma patient_clocked:
  "clocked (t0 + lock_total (k - 6)) (patient t0 k gs) (t0 + lock_total (k + length gs - 6))"
proof (induction gs arbitrary: k)
  case (Cons g gs)
  have "clocked (t0 + lock_total (k - 5)) (patient t0 (Suc k) gs) (t0 + lock_total (k + length (g # gs) - 6))"
    using Cons[of "Suc k"] by simp
  then show ?case by (simp add: lock_total_mono)
qed (simp add: lock_total_mono)

lemma patient_run:
  assumes "limiter_ok d" and "0 \<le> t0" and "fails (att d) = int k"
    and "lockedUntil (att d) = (if k \<le> 5 then 0 else t0 + lock_total (k - 5))"
    and "\<forall>r \<in> set (fst (vault_run K (patient t0 k gs) d)). no_hit r"
  shows "past_gate K (patient t0 k gs) d = length gs"
  using assms
proof (induction gs arbitrary: k d)
  case (Cons g gs)
  let ?t = "t0 + lock_total (k - 5)"
  have t0: "0 \<le> ?t" using Cons.prems(2) lock_total_mono[of 0 "k - 5"] by simp
  obtain d' where v: "verify K ?t ?t g d = (Inr Invalid, d')"
    using Cons.prems(5) by (auto simp: reply_def no_hit_def Let_def split: prod.splits sum.splits)
  have open_gate: "\<not> ?t < lockedUntil (att d)" using Cons.prems(4) t0 by (auto split: if_splits)
  have d': "limiter_ok d'" "att d' = count_failure ?t (att d)"
    using verify_invalid[OF Cons.prems(1) v] open_gate by auto
  have "lockedUntil (att d') = (if Suc k \<le> 5 then 0 else t0 + lock_total (Suc k - 5))"
    using Cons.prems(3,4) d'(2) lock_total_step[of k]
    by (auto simp: count_failure_def FREE_ATTEMPTS_def Let_def)
  moreover have "fails (att d') = int (Suc k)"
    using Cons.prems(3) d'(2) by (simp add: count_failure_def Let_def)
  moreover have "\<forall>r \<in> set (fst (vault_run K (patient t0 (Suc k) gs) d')). no_hit r"
    using Cons.prems(5) v by (auto simp: reply_def Let_def split: prod.splits)
  ultimately have "past_gate K (patient t0 (Suc k) gs) d' = length gs"
    using Cons.IH[OF d'(1) Cons.prems(2)] by blast
  with v open_gate Cons.prems(1) show ?case by (simp add: reply_def isLockedOut_ok)
qed simp

text \<open>
  The bound is attained, and a four-digit space is searched in 209 days.  Guessing as soon as
  each lockout lifts meets no lockout at all, and ten thousand guesses take 209 days at most, where
  the comment on \<open>backoffForRound\<close> promises a search of several years.
\<close>

theorem four_digits_in_209_days:
  assumes "limiter_ok d" and "att d = no_attempts" and "0 \<le> t0" and "length gs \<le> 10 ^ 4"
    and "\<forall>r \<in> set (fst (vault_run K (patient t0 0 gs) d)). no_hit r"
  shows "past_gate K (patient t0 0 gs) d = length gs
    \<and> clocked t0 (patient t0 0 gs) (t0 + lock_total (length gs - 6))
    \<and> lock_total (length gs - 6) < 209 * (24 * 60 * 60 * 1000)"
proof (intro conjI)
  show "past_gate K (patient t0 0 gs) d = length gs"
    using patient_run[OF assms(1,3), of 0 K gs] assms(2,5) by (simp add: no_attempts_def)
  show "clocked t0 (patient t0 0 gs) (t0 + lock_total (length gs - 6))"
    using patient_clocked[of t0 0 gs] by simp
  have "lock_total (length gs - 6) \<le> lock_total 9994"
    using assms(4) by (intro lock_total_mono) simp
  also have "\<dots> < 209 * (24 * 60 * 60 * 1000)"
    by (subst lock_total_closed) simp_all
  finally show "lock_total (length gs - 6) < 209 * (24 * 60 * 60 * 1000)" .
qed

theorem four_digits_in_209_days_witness:
  "limiter_ok ex_device \<and>
   past_gate ex_kdf (patient 5 0 [''0000'', ''0001'', ''0002'', ''0003'', ''0004'', ''0005'', ''0006'', ''0007'']) ex_device = 8"
proof -
  let ?gs = "[''0000'', ''0001'', ''0002'', ''0003'', ''0004'', ''0005'', ''0006'', ''0007'']"
  have 1: "limiter_ok ex_device" by code_simp
  have 2: "att ex_device = no_attempts" by code_simp
  have 3: "\<forall>r \<in> set (fst (vault_run ex_kdf (patient 5 0 ?gs) ex_device)). no_hit r" by code_simp
  show ?thesis using four_digits_in_209_days[OF 1 2 _ _ 3] 1 by simp
qed

section \<open>A rejected write leaves a stale cache\<close>

text \<open>
  When the store rejects the second write of \<open>setPins\<close>, the exception skips the invalidation
  of the session cache: the store already holds the new standard PIN, but the vault keeps accepting
  the replaced one and refuses the new one, until the cache is dropped.
\<close>

theorem rotated_pin_verifies_from_stale_cache:
  "let d1 = snd (vault_run ex_kdf [SetPins ''1111'' None, Verify 1 2 ''1111''] new_device);
       r = vault_step ex_kdf (SetPins ''2222'' (Some ''9999'')) (d1\<lparr>faults := [True, False]\<rparr>)
   in fst r = Threw StorageError
    \<and> fst (vault_run ex_kdf [Verify 3 4 ''2222'', Verify 5 6 ''1111'', Forget, Verify 7 8 ''2222'', Verify 9 10 ''1111''] (snd r))
      = [Answer Invalid, Answer Standard, Done, Answer Standard, Answer Invalid]"
  by code_simp

section \<open>Migration of older blobs\<close>

definition legacy_blob :: "kdf \<Rightarrow> KdfScheme \<Rightarrow> u8 list \<Rightarrow> string \<Rightarrow> string" where
  \<comment> \<open>what earlier versions stored: \<open>salt:digest\<close> and \<open>scrypt1:salt:digest\<close>\<close>
  "legacy_blob K sch salt pin =
     (if sch = Scrypt1 then ''scrypt1:'' @ bytesToHex salt @ '':'' @ bytesToHex (k_scrypt K (salt @ utf8 pin))
      else bytesToHex salt @ '':'' @ bytesToHex (k_sha256 K (salt @ utf8 pin)))"

lemma parseBlob_legacy:
  "parseBlob (legacy_blob K Scrypt1 salt pin)
   = Inr (Some \<lparr>pb_salt = salt, pb_digest = k_scrypt K (salt @ utf8 pin), pb_scheme = Scrypt1\<rparr>)"
  "parseBlob (legacy_blob K Sha256 salt pin)
   = Inr (Some \<lparr>pb_salt = salt, pb_digest = k_sha256 K (salt @ utf8 pin), pb_scheme = Sha256\<rparr>)"
proof -
  have s: "split_on (CHR '':'') (bytesToHex salt @ CHR '':'' # bytesToHex g) = [bytesToHex salt, bytesToHex g]" for g
    by (simp add: split_on_append split_on_none bytesToHex_no_colon)
  have t: "split_on (CHR '':'') (''scrypt1'' @ CHR '':'' # x) = ''scrypt1'' # split_on (CHR '':'') x" for x
    by (rule split_on_append) simp
  show "parseBlob (legacy_blob K Scrypt1 salt pin)
   = Inr (Some \<lparr>pb_salt = salt, pb_digest = k_scrypt K (salt @ utf8 pin), pb_scheme = Scrypt1\<rparr>)"
    using t[of "bytesToHex salt @ CHR '':'' # bytesToHex (k_scrypt K (salt @ utf8 pin))"] s
    by (simp add: parseBlob_def legacy_blob_def)
  show "parseBlob (legacy_blob K Sha256 salt pin)
   = Inr (Some \<lparr>pb_salt = salt, pb_digest = k_sha256 K (salt @ utf8 pin), pb_scheme = Sha256\<rparr>)"
    using s by (simp add: parseBlob_def legacy_blob_def)
qed

lemma legacy_blob_nonempty: "legacy_blob K sch salt pin \<noteq> ''''"
  by (simp add: legacy_blob_def)

lemma legacy_match:
  assumes "sch = Scrypt1 \<or> sch = Sha256" and "getItem (blobs d) item = Some (legacy_blob K sch salt pin)"
    and "storedCache d = []" and "faults d = True # fs"
  shows "matchesAndUpgrade K item pin d =
    (Inr True, best_effort (upgrade K item pin) (cache_set item (Some (legacy_blob K sch salt pin)) (d\<lparr>faults := fs\<rparr>)))"
  using assms parseBlob_legacy[of K salt pin] legacy_blob_nonempty[of K sch salt pin]
  by (auto simp: matchesAndUpgrade_def readStored_def lock_simps verifierFor_def)

text \<open>
  A PIN sealed by an earlier version keeps unlocking.  With the right PIN a slot in either
  older format is accepted whatever becomes of the migration (a rejected derivation or write
  included), and when the derivation and the write succeed the slot holds a seal of the same PIN in
  the current format afterwards.
\<close>

theorem legacy_pin_migrates:
  assumes "sch = Scrypt1 \<or> sch = Sha256"
    and "getItem (blobs d) STANDARD_ITEM = Some (legacy_blob K sch salt pin)"
    and "storedCache d = []" and "faults d = True # fs"
    and "limited d" and "mirror d = Some s" and "lockedUntil s \<le> t"
  shows "fst (verify K t t' pin d) = Inr Standard
    \<and> (fs = [] \<and> k_hash K (k_salt K (drawn d) @ utf8 pin) \<noteq> None \<longrightarrow>
         sealed K (Some pin) (getItem (blobs (snd (verify K t t' pin d))) STANDARD_ITEM))"
proof -
  have gate: "isLockedOut t d = (False, d)"
    using assms(6,7) by (simp add: isLockedOut_def lockoutRemainingMs_def load_def)
  define d' where "d' = best_effort (upgrade K STANDARD_ITEM pin)
    (cache_set STANDARD_ITEM (Some (legacy_blob K sch salt pin)) (d\<lparr>faults := fs\<rparr>))"
  have m: "matchesAndUpgrade K STANDARD_ITEM pin d = (Inr True, d')"
    unfolding d'_def using legacy_match[OF assms(1-4)] .
  have blobs_lim: "blobs (recordSuccess x) = blobs x" for x
    by (auto simp: recordSuccess_def persist_def lock_simps split: list.splits bool.splits)
  have "fst (verify K t t' pin d) = Inr Standard \<and> blobs (snd (verify K t t' pin d)) = blobs d'"
    using gate m blobs_lim assms(5) by (simp add: verify_def lock_simps)
  moreover have "sealed K (Some pin) (getItem (blobs d') STANDARD_ITEM)"
    if "fs = []" "k_hash K (k_salt K (drawn d) @ utf8 pin) \<noteq> None"
    using that by (auto simp: d'_def upgrade_def seal_def lock_simps cache_set_def Let_def storage_simps sealed_def
        intro!: exI[of _ "drawn d"])
  ultimately show ?thesis by simp
qed

definition ex_legacy :: device where
  "ex_legacy = new_device\<lparr>blobs := [(STANDARD_ITEM, legacy_blob ex_kdf Sha256 [7] ''1234'')],
     faults := [True, False], mirror := Some no_attempts\<rparr>"

theorem legacy_pin_migrates_witness:
  "fst (verify ex_kdf 10 11 ''1234'' ex_legacy) = Inr Standard"
proof -
  have 1: "getItem (blobs ex_legacy) STANDARD_ITEM = Some (legacy_blob ex_kdf Sha256 [7] ''1234'')"
    by (simp add: ex_legacy_def getItem_def)
  have 2: "storedCache ex_legacy = []" "faults ex_legacy = True # [False]" "limited ex_legacy"
    "mirror ex_legacy = Some no_attempts" "lockedUntil no_attempts \<le> 10"
    by (simp_all add: ex_legacy_def new_device_def no_attempts_def)
  show ?thesis using legacy_pin_migrates[OF _ 1 2, of 11] by simp
qed

section \<open>The wipe\<close>

definition after_step :: "'o wipe_step option \<Rightarrow> 'o \<Rightarrow> 'o" where
  "after_step f s = (case f of None \<Rightarrow> s | Some g \<Rightarrow> snd (g s))"

lemma try_step_eq: "try_step f w = (fst w, after_step f (snd w))"
  by (auto simp: try_step_def after_step_def split: prod.splits option.splits)

text \<open>
  C39. The duress wipe leaves no trace of the PINs.  Whatever the other targets do, throw or not,
  each of them has run, and the vault behaves from then on like one that was never configured: both
  slots, the counter and the session cache are gone, and every later sequence of operations gets the
  answers of a fresh vault.  The store has to accept the removals.
\<close>

theorem wipe_leaves_fresh_vault:
  assumes "faults d = []" and "limited d" and "kdf_separates K (\<Union>x \<in> set ops. op_pins x)"
  shows "let (d', s') = performDuressWipe T (d, s) in
      getItem (blobs d') STANDARD_ITEM = None \<and> getItem (blobs d') DURESS_ITEM = None
    \<and> getItem (texts d') ATTEMPTS_ITEM = None \<and> storedCache d' = []
    \<and> fst (vault_run K ops d') = fst (spec_run ops new_spec)
    \<and> s' = after_step (dt_extra T) (after_step (dt_cacheFile T) (snd (dt_cache T
            (snd (dt_identity T (after_step (dt_session T) s))))))"
proof -
  obtain d' where d': "vault_clear d = (Inr (), d')" "implements K d' new_spec" "storedCache d' = []"
    "getItem (blobs d') STANDARD_ITEM = None" "getItem (blobs d') DURESS_ITEM = None"
    "getItem (texts d') ATTEMPTS_ITEM = None"
    using vault_clear_ok[OF assms(1,2)] by blast
  have w: "performDuressWipe T (d, s) = (d', after_step (dt_extra T) (after_step (dt_cacheFile T)
      (snd (dt_cache T (snd (dt_identity T (after_step (dt_session T) s)))))))"
    using d'(1) by (simp add: performDuressWipe_def try_step_eq best_effort_def Let_def after_step_def[of "Some _"])
  have "fst (vault_run K ops d') = fst (spec_run ops new_spec)"
    using vault_run_ok[OF d'(2) assms(3)] by (simp add: new_spec_def)
  with d' w show ?thesis by simp
qed

definition ex_targets :: "string list DuressTargets" where
  "ex_targets = \<lparr>dt_identity = (\<lambda>s. (True, ''identity'' # s)), dt_cache = (\<lambda>s. (True, ''cache'' # s)),
     dt_cacheFile = None, dt_session = Some (\<lambda>s. (True, ''session'' # s)), dt_extra = Some (\<lambda>s. (False, ''extra'' # s))\<rparr>"

theorem wipe_leaves_fresh_vault_witness:
  "snd (performDuressWipe ex_targets (ex_device, [])) = [''extra'', ''cache'', ''identity'', ''session'']
   \<and> fst (vault_run ex_kdf [Verify 1 2 ''1234'', IsConfigured] (fst (performDuressWipe ex_targets (ex_device, []))))
     = [Answer Invalid, Configured False]"
proof -
  have 1: "faults ex_device = []" by code_simp
  have 2: "limited ex_device" by code_simp
  have 3: "fst (spec_run [Verify 1 2 ''1234'', IsConfigured] new_spec) = [Answer Invalid, Configured False]" by code_simp
  show ?thesis
    using wipe_leaves_fresh_vault[OF 1 2 ex_kdf_separates, of ex_targets "[]" "[Verify 1 2 ''1234'', IsConfigured]"]
    unfolding 3 by (auto simp: ex_targets_def after_step_def split: prod.splits)
qed

end
