(* ===== verification/AutoLock.thy ===== *)
theory AutoLock
  imports Prelude
begin

text \<open>
  \<open>client/src/lock/autolock.ts\<close>: the inactivity timer and the lock state.

  The record \<open>autolock\<close> is the object together with the timers the event loop holds for it
  (\<open>pending\<close>: identifier and due time) and the calls its listeners have received.  A timeout that is
  not finite is \<^const>\<open>None\<close>.  The relation \<open>al_reach\<close> composes the operations with the passing of
  time and with the event loop, which may run a timer at any moment after it is due; it carries the
  time of the last activity and whether an idle timeout is armed.
\<close>

section \<open>Definitions\<close>

datatype LockState = Locked | Unlocked

record autolock =
  al_state :: LockState
  timer :: "nat option"
  listeners :: "nat list"
  timeoutMs :: "nat option"
  pending :: "(nat \<times> nat) list"
  next_timer :: nat
  calls :: "(nat \<times> LockState) list"

definition new_autolock :: "nat option \<Rightarrow> autolock" where
  "new_autolock tmo = \<lparr>al_state = Locked, timer = None, listeners = [], timeoutMs = tmo,
     pending = [], next_timer = 0, calls = []\<rparr>"

definition onChange :: "nat \<Rightarrow> autolock \<Rightarrow> autolock" where
  "onChange l a = a\<lparr>listeners := set_add l (listeners a)\<rparr>"

definition unsubscribe :: "nat \<Rightarrow> autolock \<Rightarrow> autolock" where
  \<comment> \<open>the function \<open>onChange\<close> returns\<close>
  "unsubscribe l a = a\<lparr>listeners := removeAll l (listeners a)\<rparr>"

definition setState :: "LockState \<Rightarrow> autolock \<Rightarrow> autolock" where
  "setState s a = (if s = al_state a then a
     else a\<lparr>al_state := s, calls := calls a @ map (\<lambda>l. (l, s)) (listeners a)\<rparr>)"

definition disarm :: "autolock \<Rightarrow> autolock" where
  "disarm a = (case timer a of None \<Rightarrow> a
     | Some i \<Rightarrow> a\<lparr>pending := filter (\<lambda>(j, _). j \<noteq> i) (pending a), timer := None\<rparr>)"

definition arm :: "nat \<Rightarrow> autolock \<Rightarrow> autolock" where
  "arm now a = (let b = disarm a in
     case timeoutMs b of
       None \<Rightarrow> b
     | Some tmo \<Rightarrow> b\<lparr>timer := Some (next_timer b), pending := pending b @ [(next_timer b, now + tmo)],
                    next_timer := next_timer b + 1\<rparr>)"

definition unlock :: "nat \<Rightarrow> autolock \<Rightarrow> autolock" where
  "unlock now a = arm now (setState Unlocked a)"

definition lock :: "autolock \<Rightarrow> autolock" where
  "lock a = setState Locked (disarm a)"

definition touch :: "nat \<Rightarrow> autolock \<Rightarrow> autolock" where
  "touch now a = (if al_state a = Unlocked then arm now a else a)"

definition dispose :: "autolock \<Rightarrow> autolock" where
  "dispose a = disarm a"

definition fire :: "nat \<Rightarrow> autolock \<Rightarrow> autolock" where
  \<comment> \<open>the event loop takes a timer out and runs its callback\<close>
  "fire i a = lock (a\<lparr>pending := filter (\<lambda>(j, _). j \<noteq> i) (pending a)\<rparr>)"

inductive al_reach :: "nat option \<Rightarrow> autolock \<Rightarrow> nat \<Rightarrow> nat \<Rightarrow> bool \<Rightarrow> bool" for tmo where
  init: "al_reach tmo (new_autolock tmo) now now False"
| unlock: "al_reach tmo a now l r \<Longrightarrow> al_reach tmo (unlock now a) now now True"
| lock: "al_reach tmo a now l r \<Longrightarrow> al_reach tmo (lock a) now l False"
| touch: "al_reach tmo a now l r \<Longrightarrow> al_reach tmo (touch now a) now
    (if al_state a = Unlocked then now else l) (al_state a = Unlocked)"
| dispose: "al_reach tmo a now l r \<Longrightarrow> al_reach tmo (dispose a) now l False"
| subscribe: "al_reach tmo a now l r \<Longrightarrow> al_reach tmo (onChange x a) now l r"
| unsubscribe: "al_reach tmo a now l r \<Longrightarrow> al_reach tmo (unsubscribe x a) now l r"
| tick: "al_reach tmo a now l r \<Longrightarrow> now \<le> now' \<Longrightarrow> al_reach tmo a now' l r"
| fire: "al_reach tmo a now l r \<Longrightarrow> (i, due) \<in> set (pending a) \<Longrightarrow> due \<le> now \<Longrightarrow> al_reach tmo (fire i a) now l False"

definition al_inv :: "nat option \<Rightarrow> autolock \<Rightarrow> nat \<Rightarrow> nat \<Rightarrow> bool \<Rightarrow> bool" where
  "al_inv tmo a now l r \<longleftrightarrow> timeoutMs a = tmo \<and> l \<le> now \<and> (r \<longrightarrow> al_state a = Unlocked) \<and>
     (case tmo of None \<Rightarrow> timer a = None \<and> pending a = []
      | Some ms \<Rightarrow> if r then \<exists>i. timer a = Some i \<and> pending a = [(i, l + ms)]
                   else timer a = None \<and> pending a = [])"

definition last_call :: "nat \<Rightarrow> (nat \<times> LockState) list \<Rightarrow> LockState option" where
  "last_call x cs = map_of (rev cs) x"

section \<open>Invariant\<close>

lemmas al_defs = new_autolock_def onChange_def unsubscribe_def setState_def disarm_def arm_def unlock_def
  lock_def touch_def dispose_def fire_def

lemma al_invariant: "al_reach tmo a now l r \<Longrightarrow> al_inv tmo a now l r"
proof (induction rule: al_reach.induct)
  case (fire a now l r i due)
  then show ?case by (auto simp: al_inv_def al_defs split: option.splits if_splits)
qed (auto simp: al_inv_def al_defs Let_def split: option.splits if_splits)

text \<open>
  The auto-lock machine.  In every reachable state there is at most one timer in the event
  loop.  An armed machine with a finite timeout is unlocked and its timer is due exactly one timeout
  after the last activity, so a timer that runs has seen no activity for the whole timeout; running
  it locks the app and leaves no timer behind.  With the timeout disabled there is never a timer, so
  only an explicit call can lock.
\<close>

theorem autolock_idle_exact:
  assumes "al_reach tmo a now l r"
  shows "length (pending a) \<le> 1
    \<and> (\<forall>ms. tmo = Some ms \<and> r \<longrightarrow> al_state a = Unlocked \<and> map snd (pending a) = [l + ms])
    \<and> (\<forall>i due. (i, due) \<in> set (pending a) \<and> due \<le> now \<longrightarrow>
         (\<exists>ms. tmo = Some ms \<and> l + ms \<le> now) \<and> al_state (fire i a) = Locked \<and> pending (fire i a) = [])
    \<and> (tmo = None \<longrightarrow> pending a = [])"
  using al_invariant[OF assms]
  by (auto simp: al_inv_def al_defs split: option.splits if_splits)

theorem autolock_idle_exact_witness:
  "\<exists>a. al_reach (Some 300) a 420 120 True \<and> map snd (pending a) = [420] \<and>
     (\<exists>i. (i, 420) \<in> set (pending a) \<and> al_state (fire i a) = Locked)"
proof -
  let ?a = "touch 120 (unlock 20 (new_autolock (Some 300)))"
  have u: "al_reach (Some 300) (unlock 20 (new_autolock (Some 300))) 120 20 True"
    using al_reach.tick[OF al_reach.unlock[OF al_reach.init[of "Some 300" 20]], of 120] by simp
  have "al_reach (Some 300) ?a 120 120 True"
    using al_reach.touch[OF u] by (simp add: al_defs)
  then have r: "al_reach (Some 300) ?a 420 120 True"
    by (rule al_reach.tick) simp
  have p: "(1, 420) \<in> set (pending ?a)" by (simp add: al_defs)
  show ?thesis
    using r p autolock_idle_exact[OF r] by (intro exI[of _ ?a]) auto
qed

text \<open>
  A listener that stays subscribed is told of every change: after any operation the last state it
  was called with is the current one, once it was called at all.
\<close>

lemma setState_informs:
  "x \<in> set (listeners a) \<Longrightarrow> al_state a \<noteq> s \<Longrightarrow> last_call x (calls (setState s a)) = Some s"
  by (auto simp: last_call_def setState_def map_add_def map_of_eq_None_iff image_image dest: map_of_SomeD
      split: option.splits)

end
