(* ===== verification/Wallet.thy ===== *)
theory Wallet
  imports Encoding
begin

text \<open>
  \<open>client/src/blind/wallet.ts\<close>, \<open>client/src/blind/tokenPool.ts\<close> and
  \<open>client/src/blind/drawStaging.ts\<close>: the stash of blind anti-spam tokens.

  An operation takes the wallet object and the contents of the secure store and returns both.  The
  write chain of the class serialises its storage tasks, and an operation is one transition: two calls
  that overlap at an \<open>await\<close> are not interleaved.  A text
  of the store is JSON or not (\<open>stext\<close>); the epoch is the text of a number, the fingerprint is
  kept as it is.  The records of held tokens have the four fields the class writes.
\<close>

section \<open>Definitions\<close>

subsection \<open>wallet.ts\<close>

record token =
  tok :: "u8 list"
  sig :: "u8 list"
  secret :: "u8 list"

record stored_token =
  st_t :: string
  st_s :: string
  st_e :: int
  st_k :: string

record item_base =
  ib_tokens :: string
  ib_epoch :: string
  ib_keyfp :: string

definition POST_WALLET_ITEMS :: item_base where
  "POST_WALLET_ITEMS = \<lparr>ib_tokens = ''stiq.wallet.tokens'', ib_epoch = ''stiq.wallet.epoch'',
     ib_keyfp = ''stiq.wallet.keyfp''\<rparr>"

definition walletKeyFingerprint :: "(u8 list \<Rightarrow> string) \<Rightarrow> (string \<Rightarrow> u8 list) \<Rightarrow> string \<Rightarrow> string" where
  \<comment> \<open>over the SHA-256 of \<open>util/hash\<close> and the text encoder of \<open>@noble/hashes\<close>\<close>
  "walletKeyFingerprint sha256Hex utf8ToBytes key = take 16 (sha256Hex (utf8ToBytes key))"

definition ns_suffix :: "string \<Rightarrow> string" where
  "ns_suffix ns = (if ns = '''' then '''' else ''.'' @ ns)"

definition walletStorageKeys :: "string \<Rightarrow> item_base \<Rightarrow> item_base" where
  "walletStorageKeys ns base = \<lparr>ib_tokens = ib_tokens base @ ns_suffix ns,
     ib_epoch = ib_epoch base @ ns_suffix ns, ib_keyfp = ib_keyfp base @ ns_suffix ns\<rparr>"

record wallet =
  walletKey :: string
  epochKey :: string
  fpKey :: string
  keyFp :: "string option"
  held :: "stored_token list"
  epoch :: int
  hydrated :: bool

definition new_wallet :: "string \<Rightarrow> string option \<Rightarrow> item_base \<Rightarrow> wallet" where
  "new_wallet ns fp base = \<lparr>walletKey = ib_tokens base @ ns_suffix ns,
     epochKey = ib_epoch base @ ns_suffix ns, fpKey = ib_keyfp base @ ns_suffix ns, keyFp = fp,
     held = [], epoch = -1, hydrated = False\<rparr>"

definition token_json :: "stored_token \<Rightarrow> jsval" where
  "token_json t = JObj [(''t'', JStr (st_t t)), (''s'', JStr (st_s t)), (''e'', JNum (st_e t)),
     (''k'', JStr (st_k t))]"

definition isStoredToken :: "jsval \<Rightarrow> bool" where
  "isStoredToken v = (is_str (js_prop v ''t'') \<and> is_str (js_prop v ''s'') \<and> is_num (js_prop v ''e'')
     \<and> is_str (js_prop v ''k''))"

definition str_prop :: "jsval \<Rightarrow> string \<Rightarrow> string" where
  "str_prop v k = (case js_prop v k of Some (JStr s) \<Rightarrow> s | _ \<Rightarrow> '''')"

definition num_prop :: "jsval \<Rightarrow> string \<Rightarrow> int" where
  "num_prop v k = (case js_prop v k of Some (JNum n) \<Rightarrow> n | _ \<Rightarrow> 0)"

definition token_of_json :: "jsval \<Rightarrow> stored_token" where
  "token_of_json v = \<lparr>st_t = str_prop v ''t'', st_s = str_prop v ''s'', st_e = num_prop v ''e'',
     st_k = str_prop v ''k''\<rparr>"

definition parsed_tokens :: "jsval \<Rightarrow> stored_token list" where
  \<comment> \<open>\<open>Array.isArray(parsed) ? parsed.filter(isStoredToken) : []\<close>\<close>
  "parsed_tokens v = (case v of JArr vs \<Rightarrow> map token_of_json (filter isStoredToken vs) | _ \<Rightarrow> [])"

definition epoch_of_text :: "stext \<Rightarrow> int" where
  \<comment> \<open>\<open>Number(rawEpoch)\<close> where it is an integer, otherwise -1\<close>
  "epoch_of_text t = (case t of Json (JNum n) \<Rightarrow> n | Json _ \<Rightarrow> -1 | Text s \<Rightarrow> if s = '''' then 0 else -1)"

definition reconcileKey :: "wallet \<Rightarrow> storage \<Rightarrow> stored_token list \<times> storage" where
  "reconcileKey w st =
     (if \<not> truthy (keyFp w) then (held w, st)
      else if getItem st (fpKey w) = Some (Text (the (keyFp w))) then (held w, st)
      else let st = (if held w \<noteq> [] then removeItem (epochKey w) (removeItem (walletKey w) st) else st)
           in ([], setItem (fpKey w) (Text (the (keyFp w))) st))"

definition reconciled :: "wallet \<times> storage \<Rightarrow> wallet \<times> storage" where
  \<comment> \<open>the held batch after \<open>reconcileKey\<close>, with the epoch reset where it was dropped\<close>
  "reconciled = (\<lambda>(w, st).
     let hadTokens = held w \<noteq> []; (h, st) = reconcileKey w st
     in (w\<lparr>held := h, epoch := (if hadTokens \<and> h = [] then -1 else epoch w)\<rparr>, st))"

definition hydrate :: "wallet \<times> storage \<Rightarrow> wallet \<times> storage" where
  "hydrate = (\<lambda>(w, st).
     if hydrated w then (w, st)
     else
       let load = (case getItem st (walletKey w) of
             None \<Rightarrow> Some (held w)
           | Some (Text s) \<Rightarrow> if s = '''' then Some (held w) else None \<comment> \<open>\<open>JSON.parse\<close> throws\<close>
           | Some (Json v) \<Rightarrow> Some (parsed_tokens v))
       in case load of
            None \<Rightarrow> (w\<lparr>hydrated := True\<rparr>, st)
          | Some h \<Rightarrow>
              let w = w\<lparr>held := h\<rparr>;
                  w = (case getItem st (epochKey w) of
                        None \<Rightarrow> w
                      | Some t \<Rightarrow> w\<lparr>epoch := epoch_of_text t\<rparr>);
                  (w, st) = reconciled (w, st)
              in (w\<lparr>hydrated := True\<rparr>, st))"

definition persist :: "bool \<Rightarrow> wallet \<times> storage \<Rightarrow> wallet \<times> storage" where
  "persist includeEpoch = (\<lambda>(w, st).
     let st = setItem (walletKey w) (Json (JArr (map token_json (held w)))) st
     in (w, if includeEpoch then setItem (epochKey w) (Json (JNum (epoch w))) st else st))"

definition resyncFromStorage :: "wallet \<times> storage \<Rightarrow> wallet \<times> storage" where
  "resyncFromStorage = (\<lambda>(w, st).
     (case getItem st (walletKey w) of
        None \<Rightarrow> w\<lparr>held := []\<rparr>
      | Some (Text s) \<Rightarrow> if s = '''' then w\<lparr>held := []\<rparr> else w
      | Some (Json v) \<Rightarrow> w\<lparr>held := parsed_tokens v\<rparr>, st))"

definition setKeyFingerprint :: "string option \<Rightarrow> wallet \<times> storage \<Rightarrow> wallet \<times> storage" where
  "setKeyFingerprint fp = (\<lambda>(w, st).
     let changed = (keyFp w \<noteq> fp); w = w\<lparr>keyFp := fp\<rparr>
     in if changed \<and> hydrated w \<and> fp \<noteq> None then reconciled (w, st) else (w, st))"

definition wcount :: "wallet \<times> storage \<Rightarrow> (wallet \<times> storage) \<times> nat" where
  "wcount ws = (let (w, st) = resyncFromStorage (hydrate ws) in ((w, st), length (held w)))"

definition lastEpoch :: "wallet \<times> storage \<Rightarrow> (wallet \<times> storage) \<times> int" where
  "lastEpoch ws = (let (w, st) = hydrate ws in ((w, st), epoch w))"

definition stored_of :: "int \<Rightarrow> token \<Rightarrow> stored_token" where
  "stored_of ep t = \<lparr>st_t = bytesToBase64 (tok t), st_s = bytesToBase64 (sig t), st_e = ep,
     st_k = bytesToBase64 (secret t)\<rparr>"

fun mint_loop :: "int \<Rightarrow> nat \<Rightarrow> token option list \<Rightarrow> stored_token list \<Rightarrow> stored_token list \<times> bool" where
  \<comment> \<open>the tokens held after the loop of \<open>draw\<close> and whether a \<open>mint\<close> threw\<close>
  "mint_loop ep 0 mints h = (h, False)"
| "mint_loop ep (Suc n) (Some t # mints) h = mint_loop ep n mints (h @ [stored_of ep t])"
| "mint_loop ep (Suc n) _ h = (h, True)"

definition draw :: "int \<Rightarrow> nat \<Rightarrow> token option list \<Rightarrow> wallet \<times> storage \<Rightarrow> (wallet \<times> storage) \<times> nat option" where
  "draw ep n mints ws =
     (let (w, st) = hydrate ws; (h, failed) = mint_loop ep n mints (held w);
          (w, st) = persist True (w\<lparr>held := h, epoch := ep\<rparr>, st)
      in ((w, st), if failed then None else Some (length (held w))))"

fun add_loop :: "int \<Rightarrow> token list \<Rightarrow> string list \<Rightarrow> stored_token list \<Rightarrow> stored_token list" where
  "add_loop ep [] existing h = h"
| "add_loop ep (t # ts) existing h =
     (let tb64 = bytesToBase64 (tok t)
      in if tb64 \<in> set existing then add_loop ep ts existing h
         else add_loop ep ts (existing @ [tb64]) (h @ [stored_of ep t]))"

definition add :: "int \<Rightarrow> token list \<Rightarrow> wallet \<times> storage \<Rightarrow> (wallet \<times> storage) \<times> nat" where
  "add ep ts ws =
     (let (w, st) = hydrate ws;
          (w, st) = persist True (w\<lparr>held := add_loop ep ts (map st_t (held w)) (held w), epoch := ep\<rparr>, st)
      in ((w, st), length (held w)))"

definition unstore :: "stored_token \<Rightarrow> codec_error + token" where
  "unstore t =
     sbind (base64ToBytes (st_t t)) (\<lambda>a. sbind (base64ToBytes (st_s t)) (\<lambda>b.
       sbind (base64ToBytes (st_k t)) (\<lambda>c. Inr \<lparr>tok = a, sig = b, secret = c\<rparr>)))"

fun unstore_all :: "stored_token list \<Rightarrow> codec_error + token list" where
  "unstore_all [] = Inr []"
| "unstore_all (t # ts) = sbind (unstore t) (\<lambda>x. sbind (unstore_all ts) (\<lambda>xs. Inr (x # xs)))"

definition spend :: "wallet \<times> storage \<Rightarrow> (wallet \<times> storage) \<times> (codec_error + token option)" where
  "spend ws =
     (let (w, st) = hydrate ws; (w, st) = (if held w = [] then resyncFromStorage (w, st) else (w, st))
      in case held w of
           [] \<Rightarrow> ((w, st), Inr None)
         | t # h \<Rightarrow> (persist False (w\<lparr>held := h\<rparr>, st), sbind (unstore t) (\<lambda>x. Inr (Some x))))"

definition spendMany ::
  "nat \<Rightarrow> wallet \<times> storage \<Rightarrow> (wallet \<times> storage) \<times> (codec_error + token list option)" where
  "spendMany n ws =
     (if n = 0 then (ws, Inr (Some []))
      else
        let (w, st) = hydrate ws;
            (w, st) = (if length (held w) < n then resyncFromStorage (w, st) else (w, st))
        in if length (held w) < n then ((w, st), Inr None)
           else (persist False (w\<lparr>held := drop n (held w)\<rparr>, st),
                 sbind (unstore_all (take n (held w))) (\<lambda>ts. Inr (Some ts))))"

definition wclear :: "wallet \<times> storage \<Rightarrow> wallet \<times> storage" where
  "wclear ws =
     (let (w, st) = hydrate ws
      in (w\<lparr>held := [], epoch := -1, hydrated := False\<rparr>,
          removeItem (fpKey w) (removeItem (epochKey w) (removeItem (walletKey w) st))))"

subsection \<open>tokenPool.ts\<close>

datatype pool_purpose = Read | PictureWrite | PictureRead | AudioWrite | AudioRead | SpaceWrite

definition MEDIA_PURPOSES :: "pool_purpose list" where
  "MEDIA_PURPOSES = [PictureWrite, PictureRead, AudioWrite, AudioRead]"

definition POOL_PURPOSES :: "pool_purpose list" where
  "POOL_PURPOSES = [Read] @ MEDIA_PURPOSES @ [SpaceWrite]"

fun MEDIA_WALLET_ITEMS :: "pool_purpose \<Rightarrow> item_base option" where
  "MEDIA_WALLET_ITEMS PictureWrite = Some \<lparr>ib_tokens = ''stiq.picwritewallet.tokens'',
     ib_epoch = ''stiq.picwritewallet.epoch'', ib_keyfp = ''stiq.picwritewallet.keyfp''\<rparr>"
| "MEDIA_WALLET_ITEMS PictureRead = Some \<lparr>ib_tokens = ''stiq.picreadwallet.tokens'',
     ib_epoch = ''stiq.picreadwallet.epoch'', ib_keyfp = ''stiq.picreadwallet.keyfp''\<rparr>"
| "MEDIA_WALLET_ITEMS AudioWrite = Some \<lparr>ib_tokens = ''stiq.audwritewallet.tokens'',
     ib_epoch = ''stiq.audwritewallet.epoch'', ib_keyfp = ''stiq.audwritewallet.keyfp''\<rparr>"
| "MEDIA_WALLET_ITEMS AudioRead = Some \<lparr>ib_tokens = ''stiq.audreadwallet.tokens'',
     ib_epoch = ''stiq.audreadwallet.epoch'', ib_keyfp = ''stiq.audreadwallet.keyfp''\<rparr>"
| "MEDIA_WALLET_ITEMS _ = None"

definition POOL_WALLET_ITEMS :: "pool_purpose \<Rightarrow> item_base" where
  "POOL_WALLET_ITEMS p =
     (case MEDIA_WALLET_ITEMS p of
        Some b \<Rightarrow> b
      | None \<Rightarrow> if p = Read then \<lparr>ib_tokens = ''stiq.readwallet.tokens'', ib_epoch = ''stiq.readwallet.epoch'',
            ib_keyfp = ''stiq.readwallet.keyfp''\<rparr>
          else \<lparr>ib_tokens = ''stiq.spacewallet.tokens'', ib_epoch = ''stiq.spacewallet.epoch'',
            ib_keyfp = ''stiq.spacewallet.keyfp''\<rparr>)"

definition makePoolWallet :: "pool_purpose \<Rightarrow> string \<Rightarrow> string option \<Rightarrow> wallet" where
  "makePoolWallet p ns fp = new_wallet ns fp (POOL_WALLET_ITEMS p)"

type_synonym token_pool = "(pool_purpose \<times> wallet) list"

definition new_TokenPool :: "string \<Rightarrow> token_pool" where
  "new_TokenPool ns = map (\<lambda>p. (p, makePoolWallet p ns None)) POOL_PURPOSES"

definition pool_get :: "token_pool \<Rightarrow> pool_purpose \<Rightarrow> wallet option" where
  \<comment> \<open>\<^const>\<open>None\<close> is the error of a purpose without a wallet\<close>
  "pool_get pool p = map_of pool p"

definition pool_setKeyFingerprint ::
  "pool_purpose \<Rightarrow> string option \<Rightarrow> token_pool \<times> storage \<Rightarrow> (token_pool \<times> storage) option" where
  "pool_setKeyFingerprint p fp = (\<lambda>(pool, st).
     case pool_get pool p of
       None \<Rightarrow> None
     | Some w \<Rightarrow> (let (w, st) = setKeyFingerprint fp (w, st) in Some (AList.update p w pool, st)))"

fun clearAll :: "token_pool \<times> storage \<Rightarrow> token_pool \<times> storage" where
  "clearAll ([], st) = ([], st)"
| "clearAll ((p, w) # pool, st) =
     (let (w, st) = wclear (w, st); (pool, st) = clearAll (pool, st) in ((p, w) # pool, st))"

definition tokenPoolStorageKeys :: "string \<Rightarrow> item_base list" where
  "tokenPoolStorageKeys ns = map (\<lambda>p. walletStorageKeys ns (POOL_WALLET_ITEMS p)) POOL_PURPOSES"

subsection \<open>drawStaging.ts\<close>

definition STALE_DRAW_MARKER_MS :: int where "STALE_DRAW_MARKER_MS = 3 * 24 * 60 * 60 * 1000"

definition markerKey :: "string \<Rightarrow> string \<Rightarrow> string" where
  "markerKey ns purpose = ''stiq.wallet.drawMarker.'' @ purpose @ ns_suffix ns"

definition isDrawMarker :: "jsval \<Rightarrow> bool" where
  "isDrawMarker m = (js_truthy (Some m) \<and> is_str (js_prop m ''credId'') \<and> is_num (js_prop m ''epoch'')
     \<and> is_str (js_prop m ''purpose'') \<and> is_str (js_prop m ''reqHash'')
     \<and> is_str (js_prop m ''issuerPublicKey'') \<and> is_str (js_prop m ''organizerPubkey'')
     \<and> js_truthy (js_prop m ''requestEvent'') \<and> is_str (js_prop m ''replyPubkey'')
     \<and> is_str (js_prop m ''respConvKey'')
     \<and> (case js_prop m ''items'' of Some (JArr _) \<Rightarrow> True | _ \<Rightarrow> False))"

definition saveDrawMarker :: "string \<Rightarrow> string \<Rightarrow> jsval \<Rightarrow> storage \<Rightarrow> storage" where
  "saveDrawMarker ns purpose marker st = setItem (markerKey ns purpose) (Json marker) st"

definition clearDrawMarker :: "string \<Rightarrow> string \<Rightarrow> storage \<Rightarrow> storage" where
  "clearDrawMarker ns purpose st = removeItem (markerKey ns purpose) st"

definition marker_stale :: "int \<Rightarrow> jsval \<Rightarrow> bool" where
  \<comment> \<open>a marker without a number in \<open>savedAt\<close> compares with \<open>NaN\<close>\<close>
  "marker_stale now m = (case js_prop m ''savedAt'' of Some (JNum t) \<Rightarrow> now - t > STALE_DRAW_MARKER_MS | _ \<Rightarrow> False)"

definition loadDrawMarker :: "int \<Rightarrow> string \<Rightarrow> string \<Rightarrow> storage \<Rightarrow> storage \<times> jsval option" where
  "loadDrawMarker now ns purpose st =
     (case getItem st (markerKey ns purpose) of
        None \<Rightarrow> (st, None)
      | Some (Text _) \<Rightarrow> (st, None)
      | Some (Json m) \<Rightarrow>
          if \<not> isDrawMarker m then (st, None)
          else if marker_stale now m then (clearDrawMarker ns purpose st, None)
          else (st, Some m))"

section \<open>Contents of a wallet\<close>

lemma token_json_inverse [simp]: "token_of_json (token_json t) = t" "isStoredToken (token_json t)"
  by (simp_all add: token_of_json_def token_json_def isStoredToken_def str_prop_def num_prop_def
      js_prop_def is_str_def is_num_def)

lemma parsed_tokens_json [simp]: "parsed_tokens (JArr (map token_json h)) = h"
  by (simp add: parsed_tokens_def filter_map comp_def)

lemma unstore_stored_of [simp]: "unstore (stored_of ep t) = Inr t"
  by (simp add: unstore_def stored_of_def)

lemma unstore_all_append:
  "unstore_all (xs @ ys) = sbind (unstore_all xs) (\<lambda>a. sbind (unstore_all ys) (\<lambda>b. Inr (a @ b)))"
  by (induction xs) (auto simp: sbind_def split: sum.splits)

lemma unstore_all_stored_of [simp]: "unstore_all (map (stored_of ep) ts) = Inr ts"
  by (induction ts) auto

lemma unstore_all_take_drop:
  assumes "unstore_all h = Inr ts"
  shows "unstore_all (take n h) = Inr (take n ts)" "unstore_all (drop n h) = Inr (drop n ts)"
    "length h = length ts"
  using assms
  by (induction h arbitrary: ts n; case_tac n; auto simp: sbind_Inr_iff)+

definition stored :: "storage \<Rightarrow> wallet \<Rightarrow> stored_token list" where
  "stored st w = (case getItem st (walletKey w) of Some (Json v) \<Rightarrow> parsed_tokens v | _ \<Rightarrow> [])"

definition good :: "wallet \<times> storage \<Rightarrow> stored_token list \<Rightarrow> bool" where
  \<comment> \<open>the wallet holds \<open>h\<close>: in memory once hydrated, in the store always, under the bound key\<close>
  "good = (\<lambda>(w, st) h.
     distinct [walletKey w, epochKey w, fpKey w]
     \<and> stored st w = h \<and> (\<forall>s. getItem st (walletKey w) \<noteq> Some (Text s))
     \<and> held w = (if hydrated w then h else [])
     \<and> (truthy (keyFp w) \<longrightarrow> getItem st (fpKey w) = Some (Text (the (keyFp w))) \<or> (h = [] \<and> \<not> hydrated w)))"

lemma stored_frame [simp]:
  "stored st (w\<lparr>held := h\<rparr>) = stored st w" "stored st (w\<lparr>epoch := e\<rparr>) = stored st w"
  "stored st (w\<lparr>hydrated := b\<rparr>) = stored st w"
  by (simp_all add: stored_def)

lemma good_hydrate:
  assumes "good ws h"
  obtains w st where "hydrate ws = (w, st)" "good (w, st) h" "hydrated w" "held w = h"
    "walletKey w = walletKey (fst ws)" "keyFp w = keyFp (fst ws)"
proof -
  obtain w st where ws: "ws = (w, st)" by (cases ws)
  show ?thesis
  proof (cases "hydrated w")
    case True
    with assms ws show ?thesis by (intro that[of w st]) (simp_all add: hydrate_def good_def)
  next
    case False
    define w1 where "w1 = (case getItem st (epochKey w) of None \<Rightarrow> w\<lparr>held := h\<rparr>
        | Some t \<Rightarrow> w\<lparr>held := h, epoch := epoch_of_text t\<rparr>)"
    have w1: "held w1 = h" "walletKey w1 = walletKey w" "epochKey w1 = epochKey w" "fpKey w1 = fpKey w"
      "keyFp w1 = keyFp w"
      by (auto simp: w1_def split: option.splits)
    have hyd: "hydrate ws = (let (w, st) = reconciled (w1, st) in (w\<lparr>hydrated := True\<rparr>, st))"
    proof (cases "getItem st (walletKey w)")
      case None
      with assms ws False have "h = []" "held w = []" by (auto simp: good_def stored_def)
      with None False show ?thesis
        by (cases "getItem st (epochKey w)") (simp_all add: ws hydrate_def w1_def Let_def)
    next
      case (Some t)
      with assms ws obtain v where "t = Json v" "parsed_tokens v = h"
        by (cases t) (auto simp: good_def stored_def)
      with Some False show ?thesis
        by (cases "getItem st (epochKey w)") (simp_all add: ws hydrate_def w1_def Let_def)
    qed
    show ?thesis
    proof (cases "truthy (keyFp w) \<and> getItem st (fpKey w) \<noteq> Some (Text (the (keyFp w)))")
      case True
      with assms ws False have "h = []" by (auto simp: good_def)
      have "reconciled (w1, st) = (w1, setItem (fpKey w) (Text (the (keyFp w))) st)"
        using True w1 \<open>h = []\<close> by (simp add: reconciled_def reconcileKey_def)
      with hyd assms ws w1 \<open>h = []\<close> show ?thesis
        by (intro that[of "w1\<lparr>hydrated := True\<rparr>" "setItem (fpKey w) (Text (the (keyFp w))) st"])
           (auto simp: good_def stored_def storage_simps)
    next
      case nostamp: False
      have "reconciled (w1, st) = (w1, st)"
        using nostamp w1 by (auto simp: reconciled_def reconcileKey_def)
      with hyd assms ws w1 nostamp show ?thesis
        by (intro that[of "w1\<lparr>hydrated := True\<rparr>" st]) (auto simp: good_def stored_def)
    qed
  qed
qed

lemma good_persist:
  "good (w, st) h \<Longrightarrow> hydrated w \<Longrightarrow> good (persist b (w\<lparr>held := h'\<rparr>, st)) h'"
  "good (w, st) h \<Longrightarrow> hydrated w \<Longrightarrow> good (persist b (w\<lparr>held := h', epoch := e\<rparr>, st)) h'"
  by (auto simp: good_def persist_def stored_def storage_simps Let_def)

lemma fst_persist [simp]: "fst (persist b (w, st)) = w"
  by (simp add: persist_def Let_def)

lemma good_resync:
  "good (w, st) h \<Longrightarrow> hydrated w \<Longrightarrow> resyncFromStorage (w, st) = (w, st)"
  by (auto simp: good_def resyncFromStorage_def stored_def split: option.splits stext.splits)

lemma good_add:
  assumes "good ws h"
  shows "good (fst (add ep ts ws)) (add_loop ep ts (map st_t h) h)"
proof -
  obtain w st where "hydrate ws = (w, st)" "good (w, st) h" "hydrated w" "held w = h"
    using good_hydrate[OF assms] by blast
  then show ?thesis
    using good_persist(2)[where b = True and h' = "add_loop ep ts (map st_t h) h" and e = ep]
    by (simp add: add_def case_prod_unfold Let_def)
qed

lemma good_draw:
  assumes "good ws h"
  shows "good (fst (draw ep n mints ws)) (fst (mint_loop ep n mints h))"
proof -
  obtain w st where "hydrate ws = (w, st)" "good (w, st) h" "hydrated w" "held w = h"
    using good_hydrate[OF assms] by blast
  then show ?thesis
    using good_persist(2)[where b = True and h' = "fst (mint_loop ep n mints h)" and e = ep]
    by (simp add: draw_def case_prod_unfold Let_def)
qed

lemma good_spend:
  assumes "good ws h"
  shows "good (fst (spend ws)) (tl h)"
    "snd (spend ws) = (case h of [] \<Rightarrow> Inr None | t # _ \<Rightarrow> sbind (unstore t) (\<lambda>x. Inr (Some x)))"
proof -
  obtain w st where w: "hydrate ws = (w, st)" "good (w, st) h" "hydrated w" "held w = h"
    using good_hydrate[OF assms] by blast
  note r = good_resync[OF w(2,3)]
  show "good (fst (spend ws)) (tl h)"
    using w r good_persist(1)[OF w(2,3), of False "tl h"]
    by (cases h) (simp_all add: spend_def)
  show "snd (spend ws) = (case h of [] \<Rightarrow> Inr None | t # _ \<Rightarrow> sbind (unstore t) (\<lambda>x. Inr (Some x)))"
    using w r by (cases h) (simp_all add: spend_def)
qed

lemma good_spendMany:
  assumes "good ws h"
  shows "good (fst (spendMany n ws)) (if n \<le> length h then drop n h else h)"
    "snd (spendMany n ws) =
      (if n \<le> length h then sbind (unstore_all (take n h)) (\<lambda>ts. Inr (Some ts)) else Inr None)"
proof -
  obtain w st where w: "hydrate ws = (w, st)" "good (w, st) h" "hydrated w" "held w = h"
    using good_hydrate[OF assms] by blast
  note r = good_resync[OF w(2,3)]
  show "good (fst (spendMany n ws)) (if n \<le> length h then drop n h else h)"
    using assms w r good_persist(1)[OF w(2,3), of False "drop n h"]
    by (auto simp: spendMany_def Let_def)
  show "snd (spendMany n ws) =
      (if n \<le> length h then sbind (unstore_all (take n h)) (\<lambda>ts. Inr (Some ts)) else Inr None)"
    using w r by (auto simp: spendMany_def Let_def)
qed

lemma good_count:
  assumes "good ws h"
  shows "good (fst (wcount ws)) h" "snd (wcount ws) = length h"
proof -
  obtain w st where w: "hydrate ws = (w, st)" "good (w, st) h" "hydrated w" "held w = h"
    using good_hydrate[OF assms] by blast
  then show "good (fst (wcount ws)) h" "snd (wcount ws) = length h"
    by (simp_all add: wcount_def good_resync)
qed

lemma good_clear:
  assumes "good ws h"
  shows "good (wclear ws) []"
proof -
  obtain w st where w: "hydrate ws = (w, st)" "good (w, st) h" "hydrated w" "held w = h"
    using good_hydrate[OF assms] by blast
  then show ?thesis
    by (auto simp: wclear_def good_def stored_def storage_simps)
qed

lemma good_restart:
  "good (w, st) h \<Longrightarrow> good (w\<lparr>held := [], epoch := -1, hydrated := False\<rparr>, st) h"
  by (auto simp: good_def stored_def)

lemma good_new:
  "distinct [ib_tokens base, ib_epoch base, ib_keyfp base] \<Longrightarrow>
   getItem st (ib_tokens base @ ns_suffix ns) = None \<Longrightarrow> good (new_wallet ns fp base, st) []"
  by (simp add: good_def new_wallet_def stored_def)

section \<open>Tokens are spent once, in the order of their deposit\<close>

datatype w_op = WAdd int "token list" | WDraw int nat "token option list" | WSpend | WSpendMany nat
  | WCount | WRestart

fun w_exec :: "(wallet \<times> storage) \<times> token list \<Rightarrow> w_op \<Rightarrow> (wallet \<times> storage) \<times> token list" where
  \<comment> \<open>one call, with the tokens handed out so far; a restart is a new object over the same store\<close>
  "w_exec (ws, spent) (WAdd ep ts) = (fst (add ep ts ws), spent)"
| "w_exec (ws, spent) (WDraw ep n mints) = (fst (draw ep n mints ws), spent)"
| "w_exec (ws, spent) WSpend =
     (fst (spend ws), spent @ (case snd (spend ws) of Inr (Some t) \<Rightarrow> [t] | _ \<Rightarrow> []))"
| "w_exec (ws, spent) (WSpendMany n) =
     (fst (spendMany n ws), spent @ (case snd (spendMany n ws) of Inr (Some ts) \<Rightarrow> ts | _ \<Rightarrow> []))"
| "w_exec (ws, spent) WCount = (fst (wcount ws), spent)"
| "w_exec ((w, st), spent) WRestart = ((w\<lparr>held := [], epoch := -1, hydrated := False\<rparr>, st), spent)"

fun deposit :: "w_op \<Rightarrow> token list" where
  "deposit (WAdd ep ts) = ts"
| "deposit (WDraw ep n mints) = map the (takeWhile (\<lambda>m. m \<noteq> None) (take n mints))"
| "deposit _ = []"

definition w_run :: "string \<Rightarrow> string option \<Rightarrow> w_op list \<Rightarrow> (wallet \<times> storage) \<times> token list" where
  "w_run ns fp ops = foldl w_exec ((new_wallet ns fp POST_WALLET_ITEMS, []), []) ops"

definition holds :: "stored_token list \<Rightarrow> token list \<Rightarrow> bool" where
  "holds h ts \<longleftrightarrow> map st_t h = map (\<lambda>t. bytesToBase64 (tok t)) ts \<and> unstore_all h = Inr ts"

lemma holds_append: "holds h ts \<Longrightarrow> holds (h @ map (stored_of ep) us) (ts @ us)"
  by (simp add: holds_def unstore_all_append) (simp add: stored_of_def)

lemma holds_drop: "holds h ts \<Longrightarrow> holds (drop n h) (drop n ts)"
  by (simp add: holds_def unstore_all_take_drop(2)) (simp flip: drop_map)

lemma holds_length: "holds h ts \<Longrightarrow> length h = length ts"
  by (simp add: holds_def unstore_all_take_drop(3))

lemma mint_loop_deposit:
  "fst (mint_loop ep n mints h) =
   h @ map (stored_of ep) (map the (takeWhile (\<lambda>m. m \<noteq> None) (take n mints)))"
  by (induction ep n mints h rule: mint_loop.induct) auto

lemma good_new_post: "good (new_wallet ns fp POST_WALLET_ITEMS, []) []"
  by (rule good_new) (simp_all add: POST_WALLET_ITEMS_def getItem_def)

text \<open>
  What a wallet promises: a queue of tokens.  A deposit appends the tokens that are not held at that
  moment, a draw appends what was minted before the first failure, a spend takes the oldest.
\<close>

fun credit :: "token list \<Rightarrow> token list \<Rightarrow> token list" where
  "credit q [] = q"
| "credit q (t # ts) = credit (if tok t \<in> tok ` set q then q else q @ [t]) ts"

fun q_exec :: "token list \<times> token list \<Rightarrow> w_op \<Rightarrow> token list \<times> token list" where
  "q_exec (q, out) (WAdd ep ts) = (credit q ts, out)"
| "q_exec (q, out) (WDraw ep n mints) = (q @ deposit (WDraw ep n mints), out)"
| "q_exec (q, out) WSpend = (drop 1 q, out @ take 1 q)"
| "q_exec (q, out) (WSpendMany n) = (if n \<le> length q then (drop n q, out @ take n q) else (q, out))"
| "q_exec (q, out) WCount = (q, out)"
| "q_exec (q, out) WRestart = (q, out)"

definition q_run :: "w_op list \<Rightarrow> token list \<times> token list" where
  "q_run ops = foldl q_exec ([], []) ops"

lemma add_loop_credit:
  assumes "holds h q" and "set existing = set (map st_t h)"
  shows "holds (add_loop ep ts existing h) (credit q ts)"
  using assms
proof (induction ts arbitrary: existing h q)
  case (Cons t ts)
  have known: "bytesToBase64 (tok t) \<in> set existing \<longleftrightarrow> tok t \<in> tok ` set q"
    using Cons.prems unfolding holds_def by (auto simp: image_iff)
  show ?case
  proof (cases "tok t \<in> tok ` set q")
    case True
    with Cons known show ?thesis by simp
  next
    case False
    have "holds (h @ [stored_of ep t]) (q @ [t])" using holds_append[OF Cons.prems(1), of ep "[t]"] by simp
    moreover have "set (existing @ [bytesToBase64 (tok t)]) = set (map st_t (h @ [stored_of ep t]))"
      using Cons.prems(2) by (simp add: stored_of_def)
    ultimately show ?thesis using Cons.IH False known by (simp add: Let_def)
  qed
qed simp

lemma w_exec_refines:
  assumes g: "good ws h" and hd: "holds h q"
  shows "\<exists>h'. good (fst (w_exec (ws, out) op)) h' \<and> holds h' (fst (q_exec (q, out) op))
    \<and> snd (w_exec (ws, out) op) = snd (q_exec (q, out) op)"
proof (cases op)
  case (WAdd ep ts)
  have "holds (add_loop ep ts (map st_t h) h) (credit q ts)" by (rule add_loop_credit[OF hd]) simp
  with WAdd good_add[OF g, of ep ts] show ?thesis by auto
next
  case (WDraw ep n mints)
  have "good (fst (draw ep n mints ws)) (h @ map (stored_of ep) (deposit op))"
    using WDraw good_draw[OF g, of ep n mints] by (simp add: mint_loop_deposit)
  with WDraw holds_append[OF hd, of ep "deposit op"] show ?thesis by auto
next
  case WSpend
  show ?thesis
  proof (cases h)
    case Nil
    with hd have "q = []" by (simp add: holds_def)
    with Nil WSpend good_spend[OF g] hd show ?thesis by auto
  next
    case (Cons t h1)
    with hd obtain x ts where x: "q = x # ts" "unstore t = Inr x"
      by (auto simp: holds_def sbind_Inr_iff)
    with WSpend good_spend[OF g] holds_drop[OF hd, of 1] Cons show ?thesis by auto
  qed
next
  case (WSpendMany n)
  have len: "length h = length q" using hd by (rule holds_length)
  show ?thesis
  proof (cases "n \<le> length h")
    case True
    then have "snd (spendMany n ws) = Inr (Some (take n q))"
      using good_spendMany(2)[OF g, of n] hd by (simp add: holds_def unstore_all_take_drop(1))
    with True WSpendMany good_spendMany(1)[OF g, of n] holds_drop[OF hd, of n] len show ?thesis by auto
  next
    case False
    with WSpendMany good_spendMany[OF g, of n] hd len show ?thesis by auto
  qed
next
  case WCount
  with good_count[OF g] hd show ?thesis by auto
next
  case WRestart
  with g hd good_restart[of "fst ws" "snd ws" h] show ?thesis by (cases ws) auto
qed

lemma w_run_refines:
  "\<exists>h. good (fst (w_run ns fp ops)) h \<and> holds h (fst (q_run ops)) \<and> snd (w_run ns fp ops) = snd (q_run ops)"
proof -
  have "\<exists>h'. good (fst (foldl w_exec (ws, out) ops)) h' \<and> holds h' (fst (foldl q_exec (q, out) ops))
      \<and> snd (foldl w_exec (ws, out) ops) = snd (foldl q_exec (q, out) ops)" if "good ws h" "holds h q" for ws h q out
    using that
  proof (induction ops arbitrary: ws h q out)
    case (Cons op ops)
    obtain h' where h': "good (fst (w_exec (ws, out) op)) h'" "holds h' (fst (q_exec (q, out) op))"
      "snd (w_exec (ws, out) op) = snd (q_exec (q, out) op)"
      using w_exec_refines[OF Cons.prems] by blast
    show ?case using Cons.IH[OF h'(1,2), of "snd (q_exec (q, out) op)"] h'(3)
      by (metis foldl_Cons prod.collapse)
  qed auto
  from this[OF good_new_post, of "[]"] show ?thesis by (simp add: w_run_def q_run_def holds_def)
qed

lemma credit_sub: "\<exists>fresh. credit q ts = q @ fresh \<and> mset fresh \<subseteq># mset ts"
proof (induction ts arbitrary: q)
  case (Cons t ts)
  obtain fresh where f: "credit (if tok t \<in> tok ` set q then q else q @ [t]) ts = (if tok t \<in> tok ` set q then q else q @ [t]) @ fresh"
    "mset fresh \<subseteq># mset ts"
    using Cons by blast
  show ?case
  proof (cases "tok t \<in> tok ` set q")
    case True
    with f show ?thesis by (auto intro!: exI[of _ fresh] simp: subset_mset.le_imp_less_or_eq subset_mset.add_increasing2 mset_subset_eq_add_right
        intro: subset_mset.order_trans)
  next
    case False
    with f show ?thesis by (auto intro!: exI[of _ "t # fresh"])
  qed
qed simp

lemma q_run_conserves:
  "\<exists>credited. snd (q_run ops) @ fst (q_run ops) = credited \<and> mset credited \<subseteq># mset (concat (map deposit ops))"
proof (induction ops rule: rev_induct)
  case (snoc op ops)
  obtain q out where qo: "q_run ops = (q, out)" by fastforce
  with snoc have IH: "mset out + mset q \<subseteq># mset (concat (map deposit ops))" by simp
  have run: "q_run (ops @ [op]) = q_exec (q, out) op" using qo by (simp add: q_run_def)
  show ?case
  proof (cases op)
    case (WAdd ep ts)
    obtain fresh where f: "credit q ts = q @ fresh" "mset fresh \<subseteq># mset ts" using credit_sub by blast
    have "mset out + mset q + mset fresh \<subseteq># mset (concat (map deposit ops)) + mset ts"
      by (rule subset_mset.add_mono[OF IH f(2)])
    with f(1) show ?thesis using run by (simp add: WAdd add.assoc)
  next
    case (WDraw ep n mints)
    show ?thesis using run IH by (simp add: WDraw flip: add.assoc)
  next
    case WSpend
    show ?thesis using run IH by (cases q) (simp_all add: WSpend)
  next
    case (WSpendMany n)
    have "mset (take n q) + mset (drop n q) = mset q" by (metis append_take_drop_id mset_append)
    with IH show ?thesis using run by (simp add: WSpendMany add.assoc)
  qed (use IH run in simp_all)
qed (simp add: q_run_def)

lemma credit_fresh: "distinct (map tok (q @ ts)) \<Longrightarrow> credit q ts = q @ ts"
proof (induction ts arbitrary: q)
  case (Cons t ts)
  from Cons.prems have "tok t \<notin> tok ` set q" by auto
  with Cons.IH[of "q @ [t]"] Cons.prems show ?case by simp
qed simp

text \<open>When no token is ever deposited again, nothing is lost: what was handed out and what is held
  are the deposits in their order.\<close>

lemma q_run_distinct:
  "distinct (map tok (concat (map deposit ops))) \<Longrightarrow> snd (q_run ops) @ fst (q_run ops) = concat (map deposit ops)"
proof (induction ops rule: rev_induct)
  case (snoc op ops)
  obtain q out where qo: "q_run ops = (q, out)" by fastforce
  with snoc have IH: "out @ q = concat (map deposit ops)" by simp
  have run: "q_run (ops @ [op]) = q_exec (q, out) op" using qo by (simp add: q_run_def)
  have "distinct (map tok ((out @ q) @ deposit op))" using snoc.prems by (simp add: IH)
  then have "distinct (map tok (q @ deposit op))" by auto
  then have add: "credit q (deposit op) = q @ deposit op" by (rule credit_fresh)
  have all: "concat (map deposit (ops @ [op])) = out @ q @ deposit op" using IH[symmetric] by simp
  show ?case unfolding all run using add by (cases op) auto
qed (simp add: q_run_def)

text \<open>
  C4. The wallet is a queue.  Over any sequence of deposits (also of tokens deposited before), draws
  with failing mints, spends, balance reads and restarts, the wallet with its memory, its store and
  its key stamp hands out exactly the tokens of the abstract queue, holds what the queue holds, and
  reports its length as the balance.  A token is handed out and held no more often than it was
  deposited; a token that was spent and is deposited again is credited again.
\<close>

theorem wallet_refines_queue:
  "let (ws, out) = w_run ns fp ops; (q, out') = q_run ops
   in out = out' \<and> unstore_all (held (fst (hydrate ws))) = Inr q \<and> snd (wcount ws) = length q
      \<and> mset out + mset q \<subseteq># mset (concat (map deposit ops))"
proof -
  obtain h where h: "good (fst (w_run ns fp ops)) h" "holds h (fst (q_run ops))" "snd (w_run ns fp ops) = snd (q_run ops)"
    using w_run_refines by blast
  have "held (fst (hydrate (fst (w_run ns fp ops)))) = h" using good_hydrate[OF h(1)] by (metis fst_conv)
  moreover have "mset (snd (q_run ops)) + mset (fst (q_run ops)) \<subseteq># mset (concat (map deposit ops))"
    using q_run_conserves[of ops] by auto
  ultimately show ?thesis
    using h good_count(2)[OF h(1)] holds_length[OF h(2)] by (simp add: holds_def case_prod_unfold Let_def)
qed


text \<open>
  A weight-priced spend takes its full price or nothing: with enough tokens it returns
  exactly the oldest \<open>n\<close> and leaves the others; with fewer it returns none and keeps them all.
\<close>

theorem spendMany_all_or_nothing:
  "let ws = fst (w_run ns fp ops); balance = snd (wcount ws); (ws', r) = spendMany n ws
    in if n \<le> balance then (\<exists>ts. r = Inr (Some ts) \<and> length ts = n) \<and> snd (wcount ws') = balance - n
       else r = Inr None \<and> held (fst (hydrate ws')) = held (fst (hydrate ws))"
proof -
  let ?ws = "fst (w_run ns fp ops)"
  obtain h rest where h: "good ?ws h" "holds h rest" using w_run_refines[of ns fp ops] by blast
  note s = good_spendMany[OF h(1), of n]
  have held: "held (fst (hydrate ws)) = g" if "good ws g" for ws g
    using good_hydrate[OF that] by (metis fst_conv)
  show ?thesis
  proof (cases "n \<le> length h")
    case True
    then have "snd (spendMany n ?ws) = Inr (Some (take n rest))" "length (take n rest) = n"
      using s(2) h(2) by (auto simp: holds_def unstore_all_take_drop)
    moreover have "snd (wcount (fst (spendMany n ?ws))) = length h - n"
      using s(1) True by (simp add: good_count(2))
    ultimately show ?thesis using True h(1) by (auto simp: good_count(2) case_prod_unfold)
  next
    case False
    then have "held (fst (hydrate (fst (spendMany n ?ws)))) = h" using s(1) held by simp
    with False s(2) h(1) held show ?thesis by (simp add: good_count(2) case_prod_unfold)
  qed
qed

section \<open>Deposits and the issuer key\<close>

lemma add_loop_known:
  "\<forall>t \<in> set ts. bytesToBase64 (tok t) \<in> set existing \<Longrightarrow> add_loop ep ts existing h = h"
  by (induction ts) (auto simp: Let_def)

lemma add_loop_covers:
  "set existing = set (map st_t h) \<Longrightarrow>
   set (map st_t (add_loop ep ts existing h)) = set existing \<union> (\<lambda>t. bytesToBase64 (tok t)) ` set ts"
  by (induction ts arbitrary: existing h) (auto simp: Let_def stored_of_def insert_absorb)

lemma wallet_one_token_count:
  "snd (wcount (fst (w_run '''' (Some ''old'') [WAdd 7 [\<lparr>tok = [1], sig = [2], secret = [3]\<rparr>]]))) = 1"
  by code_simp

text \<open>
  Depositing a batch that is still held changes nothing: the second deposit of the recovery
  path leaves the held tokens, in memory and in the store, as the first one did.
\<close>

theorem add_idempotent:
  "let ws = fst (add ep ts ws0)
   in held (fst (fst (add ep ts ws))) = held (fst ws) \<and> snd (add ep ts ws) = snd (add ep ts ws0)"
proof -
  obtain w st where h: "hydrate ws0 = (w, st)" by fastforce
  have hyd: "hydrated w" using h
    by (auto simp: hydrate_def reconciled_def Let_def split: prod.splits if_splits option.splits)
  let ?h = "add_loop ep ts (map st_t (held w)) (held w)"
  have "add_loop ep ts (map st_t ?h) ?h = ?h"
    using add_loop_covers[of "map st_t (held w)" "held w" ep ts] by (intro add_loop_known) auto
  moreover obtain st' where "fst (add ep ts ws0) = (w\<lparr>held := ?h, epoch := ep\<rparr>, st')"
    "snd (add ep ts ws0) = length ?h"
    using h by (simp add: add_def persist_def Let_def)
  moreover from this(1) hyd have "hydrate (fst (add ep ts ws0)) = fst (add ep ts ws0)"
    by (simp add: hydrate_def)
  ultimately show ?thesis by (simp add: add_def persist_def Let_def case_prod_unfold)
qed

text \<open>
  The deposit recognises only tokens that are still held: a batch deposited again after one of
  its tokens was spent credits the spent token a second time.
\<close>

theorem add_recredits_spent_token:
  "let t = \<lparr>tok = [1], sig = [2], secret = [3]\<rparr>; r = w_run '''' None [WAdd 7 [t], WSpend, WAdd 7 [t], WSpend]
   in snd r = [t, t]"
  by code_simp

lemma keyFp_reconciled [simp]: "keyFp (fst (reconciled (w, st))) = keyFp w"
  by (simp add: reconciled_def case_prod_unfold Let_def)

lemma keyFp_hydrate [simp]: "keyFp (fst (hydrate ws)) = keyFp (fst ws)"
  by (cases ws) (auto simp: hydrate_def case_prod_unfold Let_def split: option.splits stext.splits)

lemma keyFp_resync [simp]: "keyFp (fst (resyncFromStorage ws)) = keyFp (fst ws)"
  by (cases ws) (auto simp: resyncFromStorage_def split: option.splits stext.splits)

lemma keyFp_exec: "keyFp (fst (fst (w_exec (ws, spent) op))) = keyFp (fst ws)"
proof (cases op)
  case WSpend
  then show ?thesis
    by (auto simp: spend_def case_prod_unfold Let_def split: list.splits)
qed (cases ws; auto simp: add_def draw_def spendMany_def wcount_def case_prod_unfold Let_def)+

lemma keyFp_run: "keyFp (fst (fst (w_run ns fp ops))) = fp"
proof -
  have "keyFp (fst (fst (foldl w_exec s ops))) = keyFp (fst (fst s))" for s
  proof (induction ops arbitrary: s)
    case (Cons op ops)
    then show ?case using keyFp_exec[of "fst s" "snd s" op] by simp
  qed simp
  then show ?thesis by (simp add: w_run_def new_wallet_def)
qed

lemma rekey_good:
  assumes "good (w, st) h" "hydrated w" "h \<noteq> []" "keyFp w = Some f" "f \<noteq> ''''" "f' \<noteq> ''''" "f' \<noteq> f"
  shows "good (setKeyFingerprint (Some f') (w, st)) []"
    "epoch (fst (setKeyFingerprint (Some f') (w, st))) = -1"
  using assms
  by (auto simp: good_def setKeyFingerprint_def reconciled_def reconcileKey_def stored_def storage_simps Let_def)

text \<open>
  Binding another issuer key drops the tokens drawn under the old one, in memory and in the
  store, and resets the epoch so that the top-up draws again; a batch deposited afterwards is
  kept over a restart under the new key.
\<close>

theorem rekey_discards_batch:
  assumes "f \<noteq> ''''" and "f' \<noteq> ''''" and "f' \<noteq> f"
    and "snd (wcount (fst (w_run ns (Some f) ops))) \<noteq> 0"
  shows "let ws = setKeyFingerprint (Some f') (hydrate (fst (w_run ns (Some f) ops)));
      restart = (\<lambda>(w, st). (w\<lparr>held := [], epoch := -1, hydrated := False\<rparr>, st))
    in held (fst ws) = [] \<and> epoch (fst ws) = -1 \<and> snd (wcount (restart ws)) = 0
      \<and> snd (wcount (restart (fst (add ep ts ws)))) = snd (add ep ts ws)"
proof -
  obtain h where g: "good (fst (w_run ns (Some f) ops)) h" using w_run_refines by blast
  obtain w st where h: "hydrate (fst (w_run ns (Some f) ops)) = (w, st)" "good (w, st) h" "hydrated w"
    "held w = h" "keyFp w = Some f"
    using good_hydrate[OF g] by (metis keyFp_run)
  have "h \<noteq> []" using assms(4) good_count(2)[OF g] by auto
  note r = rekey_good[OF h(2,3) this h(5) assms(1-3)]
  obtain w1 st1 where ws: "setKeyFingerprint (Some f') (w, st) = (w1, st1)" by fastforce
  have restart: "good (case x of (w, st) \<Rightarrow> (w\<lparr>held := [], epoch := -1, hydrated := False\<rparr>, st)) g"
    if "good x g" for x g
    using that good_restart by (cases x) auto
  have held: "held w1 = []" using r(1) by (auto simp: ws good_def)
  have "snd (add ep ts (w1, st1)) = length (add_loop ep ts [] [])"
  proof -
    obtain w2 st2 where "hydrate (w1, st1) = (w2, st2)" "held w2 = []"
      using good_hydrate[OF r(1)] ws by metis
    then show ?thesis by (simp add: add_def persist_def Let_def)
  qed
  moreover have "good (fst (add ep ts (w1, st1))) (add_loop ep ts [] [])"
    using good_add[OF r(1), of ep ts] by (simp add: ws)
  ultimately show ?thesis
    using r held good_count(2)[OF restart] good_count(2)[OF restart[OF r(1)]] by (simp add: h(1) ws Let_def)
qed

theorem rekey_discards_batch_witness:
  "let t = \<lparr>tok = [1], sig = [2], secret = [3]\<rparr>;
       ws = setKeyFingerprint (Some ''new'') (hydrate (fst (w_run '''' (Some ''old'') [WAdd 7 [t]])))
   in held (fst ws) = []"
  using rekey_discards_batch[where ops = "[WAdd 7 [\<lparr>tok = [1], sig = [2], secret = [3]\<rparr>]]" and f = "''old''"
      and f' = "''new''" and ns = "''''"] wallet_one_token_count
  by (auto simp: Let_def)

section \<open>Budgets do not mix\<close>

definition own_keys :: "wallet \<Rightarrow> string set" where
  "own_keys w = {walletKey w, epochKey w, fpKey w}"

definition confined :: "string set \<Rightarrow> storage \<Rightarrow> wallet \<times> storage \<Rightarrow> bool" where
  \<comment> \<open>the wallet owns the keys, and the store differs from \<open>st0\<close> under these only\<close>
  "confined K st0 = (\<lambda>(w, st). own_keys w = K \<and> mem.same_except K st0 st)"

lemma own_keys_frame [simp]:
  "own_keys (w\<lparr>held := h\<rparr>) = own_keys w" "own_keys (w\<lparr>epoch := e\<rparr>) = own_keys w"
  "own_keys (w\<lparr>hydrated := b\<rparr>) = own_keys w"
  by (simp_all add: own_keys_def)

lemma confined_reconciled: "confined K st0 (w, st) \<Longrightarrow> confined K st0 (reconciled (w, st))"
  by (auto simp: confined_def own_keys_def reconciled_def reconcileKey_def Let_def intro!: mem_frame)

lemma confined_held: "confined K st0 (w, st) \<Longrightarrow> confined K st0 (w\<lparr>held := h\<rparr>, st)"
  "confined K st0 (w, st) \<Longrightarrow> confined K st0 (w\<lparr>held := h, epoch := e\<rparr>, st)"
  "confined K st0 (w, st) \<Longrightarrow> confined K st0 (w\<lparr>epoch := e\<rparr>, st)"
  "confined K st0 (w, st) \<Longrightarrow> confined K st0 (w\<lparr>hydrated := b\<rparr>, st)"
  by (simp_all add: confined_def)

lemma confined_hydrate:
  assumes "confined K st0 ws"
  shows "confined K st0 (hydrate ws)"
proof -
  obtain w st where ws: "ws = (w, st)" by (cases ws)
  have step: "confined K st0 (let (w, st) = reconciled (w', st) in (w\<lparr>hydrated := True\<rparr>, st))"
    if "confined K st0 (w', st)" for w'
    using confined_reconciled[OF that] confined_held(4) by (auto simp: case_prod_unfold Let_def)
  show ?thesis
    using assms step by (auto simp: ws hydrate_def Let_def confined_held split: option.splits stext.splits)
qed

lemma confined_persist: "confined K st0 ws \<Longrightarrow> confined K st0 (persist b ws)"
  by (cases ws) (auto simp: confined_def persist_def own_keys_def Let_def intro!: mem_frame)

lemma confined_resync: "confined K st0 ws \<Longrightarrow> confined K st0 (resyncFromStorage ws)"
  by (cases ws) (auto simp: resyncFromStorage_def confined_held split: option.splits stext.splits)

lemmas confined_intros = confined_persist confined_held confined_resync confined_hydrate

lemma confined_exec: "confined K st0 ws \<Longrightarrow> confined K st0 (fst (w_exec (ws, spent) op))"
proof (cases op)
  case WSpend
  assume c: "confined K st0 ws"
  have "confined K st0 (case ws1 of (w, st) \<Rightarrow> case held w of [] \<Rightarrow> (w, st)
      | t # h \<Rightarrow> persist False (w\<lparr>held := h\<rparr>, st))" if "confined K st0 ws1" for ws1
    using that by (cases ws1) (auto intro: confined_intros split: list.splits)
  from this[of "if held (fst (hydrate ws)) = [] then resyncFromStorage (hydrate ws) else hydrate ws"]
  show ?thesis using WSpend c
    by (auto simp: spend_def case_prod_unfold Let_def confined_resync confined_hydrate
        split: list.splits if_splits)
qed (cases ws; auto simp: add_def draw_def spendMany_def wcount_def case_prod_unfold Let_def
      intro!: confined_intros confined_persist; simp add: confined_def confined_hydrate)+

definition WALLET_BASES :: "item_base list" where
  "WALLET_BASES = POST_WALLET_ITEMS # map POOL_WALLET_ITEMS POOL_PURPOSES"

lemma ns_suffix_inject [simp]: "ns_suffix a = ns_suffix b \<longleftrightarrow> a = b"
  by (auto simp: ns_suffix_def)

definition base_named :: "string \<Rightarrow> item_base" where
  "base_named s = \<lparr>ib_tokens = ''stiq.'' @ s @ ''.tokens'', ib_epoch = ''stiq.'' @ s @ ''.epoch'',
     ib_keyfp = ''stiq.'' @ s @ ''.keyfp''\<rparr>"

lemma WALLET_BASES_named:
  assumes "b \<in> set WALLET_BASES"
  obtains s where "b = base_named s" "CHR ''.'' \<notin> set s"
proof -
  let ?names = "[''wallet'', ''readwallet'', ''picwritewallet'', ''picreadwallet'', ''audwritewallet'',
      ''audreadwallet'', ''spacewallet'']"
  have "WALLET_BASES = map base_named ?names"
    by (simp add: WALLET_BASES_def POST_WALLET_ITEMS_def POOL_PURPOSES_def MEDIA_PURPOSES_def
        POOL_WALLET_ITEMS_def base_named_def)
  with assms have "b \<in> base_named ` set ?names" by (metis set_map)
  then obtain s where "b = base_named s" "s \<in> set ?names" by blast
  moreover have "\<forall>s \<in> set ?names. CHR ''.'' \<notin> set s" by simp
  ultimately show ?thesis using that by blast
qed

lemma wallet_keys_disjoint:
  assumes "b \<in> set WALLET_BASES" "b' \<in> set WALLET_BASES" "(b, ns) \<noteq> (b', ns')"
  shows "own_keys (new_wallet ns fp b) \<inter> own_keys (new_wallet ns' fp' b') = {}"
proof -
  obtain s s' where b: "b = base_named s" "CHR ''.'' \<notin> set s" "b' = base_named s'" "CHR ''.'' \<notin> set s'"
    using assms(1,2) WALLET_BASES_named by metis
  have "k \<noteq> k'" if k: "k \<in> own_keys (new_wallet ns fp b)" "k' \<in> own_keys (new_wallet ns' fp' b')" for k k'
  proof -
    obtain f f' where f: "f \<in> {''tokens'', ''epoch'', ''keyfp''}" "k = ''stiq.'' @ s @ CHR ''.'' # f @ ns_suffix ns"
      "f' \<in> {''tokens'', ''epoch'', ''keyfp''}" "k' = ''stiq.'' @ s' @ CHR ''.'' # f' @ ns_suffix ns'"
      using k b by (auto simp: own_keys_def new_wallet_def base_named_def)
    have "\<not> (s = s' \<and> ns = ns')" using assms(3) b by auto
    moreover have "ns = ns'" if "f @ ns_suffix ns = f' @ ns_suffix ns'" using that f(1,3) by auto
    ultimately show ?thesis
      using sep_split[OF b(2,4), of "f @ ns_suffix ns" "f' @ ns_suffix ns'"] f(2,4) by auto
  qed
  then show ?thesis by blast
qed

lemma confined_run: "confined K st0 ws \<Longrightarrow> confined K st0 (fst (foldl w_exec (ws, spent) ops))"
proof (induction ops arbitrary: ws spent)
  case (Cons op ops)
  then show ?case
    using confined_exec[of K st0 ws spent op] by (cases "w_exec (ws, spent) op") auto
qed simp

text \<open>
  The seven token budgets of an account, and the budgets of different accounts, never touch
  each other: whatever is done with one wallet, every key another wallet reads keeps its value.
\<close>

theorem wallets_isolated:
  assumes "b \<in> set WALLET_BASES" "b' \<in> set WALLET_BASES" "(b, ns) \<noteq> (b', ns')"
    and "k \<in> own_keys (new_wallet ns' fp' b')"
  shows "getItem (snd (fst (foldl w_exec ((new_wallet ns fp b, st), []) ops))) k = getItem st k"
proof -
  have "confined (own_keys (new_wallet ns fp b)) st (new_wallet ns fp b, st)"
    by (simp add: confined_def mem.same_except_refl)
  from confined_run[OF this, of "[]" ops] have
    "mem.same_except (own_keys (new_wallet ns fp b)) st (snd (fst (foldl w_exec ((new_wallet ns fp b, st), []) ops)))"
    by (auto simp: confined_def case_prod_unfold)
  moreover have "k \<notin> own_keys (new_wallet ns fp b)"
    using wallet_keys_disjoint[OF assms(1-3), of fp fp'] assms(4) by blast
  ultimately show ?thesis by (simp add: mem.same_except_def)
qed

theorem wallets_isolated_witness:
  "getItem (snd (fst (foldl w_exec ((new_wallet ''a'' None POST_WALLET_ITEMS, [(''stiq.readwallet.tokens.a'', Json (JArr []))]), [])
     [WAdd 1 [], WSpend]))) ''stiq.readwallet.tokens.a'' = Some (Json (JArr []))"
  using wallets_isolated[of POST_WALLET_ITEMS "POOL_WALLET_ITEMS Read" "''a''" "''a''" "''stiq.readwallet.tokens.a''" None None
      "[(''stiq.readwallet.tokens.a'', Json (JArr []))]" "[WAdd 1 [], WSpend]"]
  by (simp add: WALLET_BASES_def POST_WALLET_ITEMS_def POOL_PURPOSES_def POOL_WALLET_ITEMS_def
      own_keys_def new_wallet_def ns_suffix_def getItem_def)

section \<open>Markers of draws in flight\<close>

lemma takeWhile_suffix: "CHR ''.'' \<notin> set p \<Longrightarrow> takeWhile (\<lambda>c. c \<noteq> CHR ''.'') (p @ ns_suffix ns) = p"
  by (induction p) (auto simp: ns_suffix_def)

lemma markerKey_inject:
  assumes "CHR ''.'' \<notin> set p" "CHR ''.'' \<notin> set p'"
  shows "markerKey ns p = markerKey ns' p' \<longleftrightarrow> ns = ns' \<and> p = p'"
proof
  assume "markerKey ns p = markerKey ns' p'"
  then have eq: "p @ ns_suffix ns = p' @ ns_suffix ns'" by (simp add: markerKey_def)
  then have "p = p'" using takeWhile_suffix assms by metis
  with eq show "ns = ns' \<and> p = p'" by simp
qed simp

text \<open>
  A staged marker is returned by the next load until it is three days old, then the load
  erases it; neither staging nor loading touches the marker of another purpose or account.
\<close>

theorem draw_marker_lifecycle:
  assumes "isDrawMarker m" "js_prop m ''savedAt'' = Some (JNum t)"
    and "CHR ''.'' \<notin> set p" "CHR ''.'' \<notin> set p'" "(ns, p) \<noteq> (ns', p')"
  shows "let (st', r) = loadDrawMarker now ns p (saveDrawMarker ns p m st)
    in (if now - t \<le> STALE_DRAW_MARKER_MS then r = Some m \<and> getItem st' (markerKey ns p) = Some (Json m)
        else r = None \<and> getItem st' (markerKey ns p) = None)
       \<and> getItem st' (markerKey ns' p') = getItem st (markerKey ns' p')"
  using assms markerKey_inject[OF assms(3,4), of ns ns']
  by (auto simp: loadDrawMarker_def saveDrawMarker_def clearDrawMarker_def marker_stale_def storage_simps)

theorem draw_marker_lifecycle_witness:
  "let m = JObj [(''credId'', JStr ''c''), (''epoch'', JNum 1), (''purpose'', JStr ''post''), (''reqHash'', JStr ''h''),
         (''issuerPublicKey'', JStr ''k''), (''organizerPubkey'', JStr ''o''), (''requestEvent'', JObj []),
         (''replyPubkey'', JStr ''r''), (''respConvKey'', JStr ''s''), (''items'', JArr []), (''savedAt'', JNum 100)]
   in snd (loadDrawMarker 200 ''slot'' ''post'' (saveDrawMarker ''slot'' ''post'' m [])) = Some m"
  unfolding Let_def
  using draw_marker_lifecycle[of "JObj [(''credId'', JStr ''c''), (''epoch'', JNum 1), (''purpose'', JStr ''post''), (''reqHash'', JStr ''h''),
         (''issuerPublicKey'', JStr ''k''), (''organizerPubkey'', JStr ''o''), (''requestEvent'', JObj []),
         (''replyPubkey'', JStr ''r''), (''respConvKey'', JStr ''s''), (''items'', JArr []), (''savedAt'', JNum 100)]"
      100 "''post''" "''read''" "''slot''" "''slot''" 200 "[]"]
  by (simp add: isDrawMarker_def js_prop_def js_truthy_def is_str_def is_num_def STALE_DRAW_MARKER_MS_def
      case_prod_unfold Let_def)

end
