(* ===== verification/BlindPost.thy ===== *)
theory BlindPost
  imports Wallet
begin

text \<open>
  The writing side of blind posting: \<open>client/src/blind/tokenCost.ts\<close>,
  \<open>client/src/blind/holderProof.ts\<close> and the assembly of \<open>client/src/blind/blindPost.ts\<close>; the signer
  that composes them is in \<open>BlindSigner\<close>.

  The primitives of \<open>@noble/curves\<close>, \<open>@noble/hashes\<close> and \<open>nostr-tools\<close> are the fields of a record
  \<open>crypto\<close> that the operations take; \<open>schnorr_ok\<close> is what the code relies on: a signature verifies
  under the public key of its secret.  A text is a string of
  code units below 256 where its weight matters (\<open>units\<close>); the weight itself is defined on all
  UTF-16 texts.
\<close>

section \<open>Definitions\<close>

definition TAG_TOKEN :: string where "TAG_TOKEN = ''stiq_token''"
definition TAG_SIG :: string where "TAG_SIG = ''stiq_sig''"
definition TAG_SPEND :: string where "TAG_SPEND = ''stiq_spend''"
definition TAG_ATTR :: string where "TAG_ATTR = ''stiq_attr''"
definition TAG_DOM :: string where "TAG_DOM = ''stiq_dom''"
definition TAG_ENC :: string where "TAG_ENC = ''encrypted''"
definition ENC_NIP44 :: string where "ENC_NIP44 = ''nip44''"
definition TAG_KE :: string where "TAG_KE = ''ke''"
definition SPEND_DOMAIN :: string where "SPEND_DOMAIN = ''stiq-spend-v1''"

subsection \<open>tokenCost.ts\<close>

definition cp_bytes :: "int \<Rightarrow> nat" where
  "cp_bytes c = (if c < 0x80 then 1 else if c < 0x800 then 2 else if c < 0x10000 then 3 else 4)"

fun utf8ByteLength :: "int list \<Rightarrow> nat" where
  \<comment> \<open>the loop over code points: a high surrogate and the low surrogate after it count once\<close>
  "utf8ByteLength [] = 0"
| "utf8ByteLength [u] = cp_bytes u"
| "utf8ByteLength (u # v # s) =
     (if 0xd800 \<le> u \<and> u \<le> 0xdbff \<and> 0xdc00 \<le> v \<and> v \<le> 0xdfff
      then cp_bytes (0x10000 + (u - 0xd800) * 1024 + (v - 0xdc00)) + utf8ByteLength s
      else cp_bytes u + utf8ByteLength (v # s))"

definition token_tag :: "int list list \<Rightarrow> bool" where
  "token_tag tag = (case tag of [] \<Rightarrow> False
     | name # _ \<Rightarrow> name = units TAG_TOKEN \<or> name = units TAG_SIG \<or> name = units TAG_SPEND)"

definition chargeableWeight :: "int list \<Rightarrow> int list list list \<Rightarrow> nat" where
  "chargeableWeight body tgs =
     foldl (\<lambda>n tag. if token_tag tag then n else foldl (\<lambda>n el. n + utf8ByteLength el + 1) n tag)
       (utf8ByteLength body) tgs"

definition setBytesPerToken :: "int option \<Rightarrow> int" where
  \<comment> \<open>the new rate for a value that is a number or not\<close>
  "setBytesPerToken n = (case n of Some n \<Rightarrow> if 0 < n then n else 0 | None \<Rightarrow> 0)"

definition tokenCost :: "int list \<Rightarrow> int list list list \<Rightarrow> int \<Rightarrow> int" where
  "tokenCost body tgs bytesPerToken =
     (if bytesPerToken \<le> 0 then 1
      else let cost = - ((- int (chargeableWeight body tgs)) div bytesPerToken) \<comment> \<open>\<open>Math.ceil\<close>\<close>
           in if cost < 1 then 1 else cost)"

subsection \<open>holderProof.ts\<close>

record crypto =
  sha256 :: "u8 list \<Rightarrow> u8 list"
  schnorr_sign :: "u8 list \<Rightarrow> u8 list \<Rightarrow> u8 list" \<comment> \<open>message, secret\<close>
  schnorr_verify :: "u8 list \<Rightarrow> u8 list \<Rightarrow> u8 list \<Rightarrow> bool option" \<comment> \<open>signature, message, public key; \<^const>\<open>None\<close> throws\<close>
  getPublicKey :: "u8 list \<Rightarrow> u8 list"
  nobleHexToBytes :: "string \<Rightarrow> u8 list option" \<comment> \<open>\<^const>\<open>None\<close> throws\<close>
  getEventHash :: "event \<Rightarrow> string"

definition spendMessage :: "crypto \<Rightarrow> string \<Rightarrow> u8 list option" where
  "spendMessage C eventPubkeyHex =
     map_option (\<lambda>pk. sha256 C (map of_char SPEND_DOMAIN @ pk)) (nobleHexToBytes C eventPubkeyHex)"

definition spendProof :: "crypto \<Rightarrow> u8 list \<Rightarrow> string \<Rightarrow> u8 list option" where
  "spendProof C q eventPubkeyHex = map_option (\<lambda>m. schnorr_sign C m q) (spendMessage C eventPubkeyHex)"

definition verifySpendProof :: "crypto \<Rightarrow> u8 list \<Rightarrow> string \<Rightarrow> u8 list \<Rightarrow> bool option" where
  "verifySpendProof C s eventPubkeyHex Q =
     Option.bind (spendMessage C eventPubkeyHex) (\<lambda>m. schnorr_verify C s m Q)"

subsection \<open>blindPost.ts\<close>

datatype blind_error = NoToken | BadPubkey | BadStoredToken codec_error | BlindTokensExhausted
  | SealKeyUnavailable | NoKeyEnrolled | BodyRefused

record unsigned_event =
  u_kind :: nat
  u_created_at :: "int option"
  u_tags :: "string list list"
  u_content :: string

definition BLIND_TS_BUCKET_SECONDS :: int where "BLIND_TS_BUCKET_SECONDS = 180"

definition random_u32 :: "u8 \<Rightarrow> u8 \<Rightarrow> u8 \<Rightarrow> u8 \<Rightarrow> i32" where
  "random_u32 b0 b1 b2 b3 = push_bit 24 (ucast b0) OR push_bit 16 (ucast b1) OR push_bit 8 (ucast b2) OR ucast b3"

definition fuzzBlindCreatedAt :: "u8 \<times> u8 \<times> u8 \<times> u8 \<Rightarrow> int \<Rightarrow> int" where
  \<comment> \<open>over the four random bytes\<close>
  "fuzzBlindCreatedAt = (\<lambda>(b0, b1, b2, b3) nowSeconds.
     let bucketStart = (nowSeconds div BLIND_TS_BUCKET_SECONDS) * BLIND_TS_BUCKET_SECONDS;
         r = uint (random_u32 b0 b1 b2 b3)
     in min nowSeconds (bucketStart + r mod BLIND_TS_BUCKET_SECONDS))"

definition finalizeEvent :: "crypto \<Rightarrow> nat \<Rightarrow> int \<Rightarrow> string list list \<Rightarrow> string \<Rightarrow> u8 list \<Rightarrow> event" where
  "finalizeEvent C k t tgs c sk =
     (let e = \<lparr>eid = '''', pubkey = bytesToHex (getPublicKey C sk), created_at = t, kind = k, tags = tgs,
               content = c\<rparr>
      in e\<lparr>eid := getEventHash C e\<rparr>)"

fun spend_tags :: "crypto \<Rightarrow> string \<Rightarrow> token list \<Rightarrow> string list list option" where
  "spend_tags C pk [] = Some []"
| "spend_tags C pk (t # ts) =
     Option.bind (spendProof C (secret t) pk) (\<lambda>proof.
       map_option (\<lambda>r. [TAG_SPEND, bytesToBase64 proof] # r) (spend_tags C pk ts))"

definition token_tags :: "token list \<Rightarrow> string list list" where
  "token_tags ts = concat (map (\<lambda>t. [[TAG_TOKEN, bytesToBase64 (tok t)], [TAG_SIG, bytesToBase64 (sig t)]]) ts)"

definition assembleBlindEvent ::
  "crypto \<Rightarrow> u8 \<times> u8 \<times> u8 \<times> u8 \<Rightarrow> int \<Rightarrow> unsigned_event \<Rightarrow> token list \<Rightarrow> string \<Rightarrow> blind_error + event" where
  "assembleBlindEvent C rnd now ue tokens attr =
     (case tokens of
        [] \<Rightarrow> Inl NoToken
      | token0 # others \<Rightarrow>
          case spend_tags C (bytesToHex (tok token0)) others of
            None \<Rightarrow> Inl BadPubkey
          | Some spends \<Rightarrow>
              Inr (finalizeEvent C (u_kind ue)
                (fuzzBlindCreatedAt rnd (case u_created_at ue of Some t \<Rightarrow> t | None \<Rightarrow> now))
                (u_tags ue @ token_tags tokens @ spends @ [[TAG_ATTR, attr]])
                (u_content ue) (secret token0)))"

definition isBlindPost :: "event \<Rightarrow> bool" where
  "isBlindPost e = list_ex (\<lambda>t. tag_is TAG_TOKEN t \<and> truthy (at t 1)) (tags e)"

definition isSealedContent :: "event \<Rightarrow> bool" where
  "isSealedContent e =
     (isBlindPost e \<and> list_ex (\<lambda>t. tag_is TAG_ENC t \<and> at t 1 = Some ENC_NIP44) (tags e))"

section \<open>The price of an event\<close>

lemma length_utf8_seq: "length (utf8_seq c) = cp_bytes c"
  by (simp add: utf8_seq_def cp_bytes_def)

lemma utf8ByteLength_bytes: "paired s \<Longrightarrow> utf8ByteLength s = length (utf8_bytes s)"
proof (induction s rule: utf8ByteLength.induct)
  case (3 u v s)
  show ?case
  proof (cases "0xd800 \<le> u \<and> u \<le> 0xdbff")
    case True
    with 3 show ?thesis by (auto simp: length_utf8_seq push_bit_eq_mult)
  next
    case False
    with 3 show ?thesis by (auto simp: length_utf8_seq)
  qed
qed (auto simp: length_utf8_seq)

lemma weight_foldl:
  "foldl (\<lambda>n tag. if token_tag tag then n else foldl (\<lambda>n el. n + utf8ByteLength el + 1) n tag) n tgs =
   n + sum_list (map (\<lambda>tag. if token_tag tag then 0 else sum_list (map (\<lambda>el. utf8ByteLength el + 1) tag)) tgs)"
proof (induction tgs arbitrary: n)
  case (Cons tag tgs)
  have "foldl (\<lambda>n el. n + utf8ByteLength el + 1) n tag = n + sum_list (map (\<lambda>el. utf8ByteLength el + 1) tag)" for n
    by (induction tag arbitrary: n) auto
  with Cons show ?case by auto
qed simp

lemma chargeableWeight_sum:
  "chargeableWeight body tgs = utf8ByteLength body +
   sum_list (map (\<lambda>tag. if token_tag tag then 0 else sum_list (map (\<lambda>el. utf8ByteLength el + 1) tag)) tgs)"
  by (simp add: chargeableWeight_def weight_foldl)

lemma tokenCost_bounds:
  assumes "0 < b"
  shows "1 \<le> tokenCost body tgs b" "int (chargeableWeight body tgs) \<le> tokenCost body tgs b * b"
    "1 \<le> k \<Longrightarrow> int (chargeableWeight body tgs) \<le> k * b \<Longrightarrow> tokenCost body tgs b \<le> k"
proof -
  define w where "w = int (chargeableWeight body tgs)"
  define c where "c = - ((- w) div b)"
  have cost: "tokenCost body tgs b = (if c < 1 then 1 else c)"
    using assms by (simp add: tokenCost_def c_def w_def Let_def)
  have "w \<le> - ((- w) div b * b)"
    using div_mult_mod_eq[of "- w" b] pos_mod_sign[OF assms, of "- w"] by linarith
  then have le: "w \<le> c * b" by (simp add: c_def)
  show "1 \<le> tokenCost body tgs b" by (simp add: cost)
  show "int (chargeableWeight body tgs) \<le> tokenCost body tgs b * b"
  proof (cases "c < 1")
    case True
    then have "c * b \<le> b" using assms by (simp add: mult_le_cancel_right1)
    with le True show ?thesis by (simp add: cost w_def)
  next
    case False
    with le show ?thesis by (simp add: cost w_def)
  qed
  show "tokenCost body tgs b \<le> k" if k: "1 \<le> k" "int (chargeableWeight body tgs) \<le> k * b"
  proof -
    have "- k * b \<le> - w" using k(2) by (simp add: w_def)
    then have "(- k * b) div b \<le> (- w) div b" using zdiv_mono1[of "- k * b" "- w" b] assms by blast
    moreover have "(- k * b) div b = - k" using assms by (metis less_irrefl nonzero_mult_div_cancel_right)
    ultimately have "- k \<le> (- w) div b" by simp
    with k(1) show ?thesis by (simp add: cost c_def)
  qed
qed

text \<open>
  The price of an event is the least number of tokens, at least one, whose budget of
  \<open>bytesPerToken\<close> bytes each covers its weight; the token, signature and holder-proof tags are free,
  wherever they stand.  On text without unpaired surrogates the weight counts the bytes that
  \<open>utf8Encode\<close> produces.
\<close>

theorem tokenCost_least:
  "(0 < b \<longrightarrow> 1 \<le> tokenCost body tgs b \<and> int (chargeableWeight body tgs) \<le> tokenCost body tgs b * b
      \<and> (\<forall>k \<ge> 1. int (chargeableWeight body tgs) \<le> k * b \<longrightarrow> tokenCost body tgs b \<le> k))
   \<and> (b \<le> 0 \<longrightarrow> tokenCost body tgs b = 1)
   \<and> tokenCost body tgs b = tokenCost body (filter (\<lambda>t. \<not> token_tag t) tgs) b
   \<and> (paired body \<longrightarrow> utf8ByteLength body = length (utf8Encode body))"
proof -
  have "chargeableWeight body (filter (\<lambda>t. \<not> token_tag t) tgs) = chargeableWeight body tgs"
    unfolding chargeableWeight_sum by (induction tgs) auto
  then show ?thesis
    using tokenCost_bounds[where b = b and body = body and tgs = tgs]
    by (auto simp: tokenCost_def utf8ByteLength_bytes utf8Encode_def)
qed

theorem tokenCost_least_witness:
  "1 \<le> tokenCost [0x61] [[units TAG_TOKEN, [0x62]]] 2
   \<and> utf8ByteLength [0xd83d, 0xde00] = length (utf8Encode [0xd83d, 0xde00])"
  using tokenCost_least[of 2 "[0x61]" "[[units TAG_TOKEN, [0x62]]]"] tokenCost_least[of 0 "[0xd83d, 0xde00]" "[]"]
  by simp

text \<open>
  The fuzzed timestamp of a blind post never lies in the future and is less than one bucket
  before the true second, for every value of the random bytes.
\<close>

theorem fuzzBlindCreatedAt_bounds:
  "now - BLIND_TS_BUCKET_SECONDS < fuzzBlindCreatedAt rnd now \<and> fuzzBlindCreatedAt rnd now \<le> now"
proof -
  obtain b0 b1 b2 b3 where rnd: "rnd = (b0, b1, b2, b3)" by (cases rnd)
  have "now - 180 < now div 180 * 180 + uint (random_u32 b0 b1 b2 b3) mod 180"
    using div_mult_mod_eq[of now 180] pos_mod_bound[of 180 now]
      pos_mod_sign[of 180 "uint (random_u32 b0 b1 b2 b3)"] by linarith
  then show ?thesis
    by (simp add: fuzzBlindCreatedAt_def rnd BLIND_TS_BUCKET_SECONDS_def Let_def min_def)
qed

section \<open>What a signed post carries\<close>

lemma unstore_all_length: "unstore_all h = Inr ts \<Longrightarrow> length ts = length h"
  by (induction h arbitrary: ts) (auto simp: sbind_Inr_iff)

lemma spendMany_length: "spendMany n ws = (ws', Inr (Some ts)) \<Longrightarrow> length ts = n"
  by (auto simp: spendMany_def Let_def case_prod_unfold sbind_Inr_iff split: if_splits
      dest!: unstore_all_length)

lemma spend_tags_shape:
  "spend_tags C pk ts = Some r \<Longrightarrow>
   (\<forall>t \<in> set r. \<exists>p. t = [TAG_SPEND, p]) \<and> length r = length ts"
  by (induction ts arbitrary: r) (auto simp: bind_eq_Some_conv)

lemma tag_names_distinct [simp]:
  "TAG_TOKEN \<noteq> TAG_SIG" "TAG_TOKEN \<noteq> TAG_SPEND" "TAG_TOKEN \<noteq> TAG_ATTR" "TAG_TOKEN \<noteq> TAG_ENC"
  "TAG_TOKEN \<noteq> TAG_KE" "TAG_TOKEN \<noteq> TAG_DOM" "TAG_SIG \<noteq> TAG_TOKEN" "TAG_SPEND \<noteq> TAG_TOKEN"
  "TAG_ATTR \<noteq> TAG_TOKEN" "TAG_ENC \<noteq> TAG_TOKEN" "TAG_KE \<noteq> TAG_TOKEN" "TAG_DOM \<noteq> TAG_TOKEN"
  "TAG_SPEND \<noteq> TAG_SIG" "TAG_SIG \<noteq> TAG_SPEND" "TAG_ATTR \<noteq> TAG_SIG" "TAG_ATTR \<noteq> TAG_SPEND"
  "TAG_SPEND \<noteq> TAG_ATTR" "TAG_SIG \<noteq> TAG_ATTR"
  "TAG_ENC \<noteq> TAG_SIG" "TAG_ENC \<noteq> TAG_SPEND" "TAG_KE \<noteq> TAG_SIG" "TAG_KE \<noteq> TAG_SPEND"
  "TAG_DOM \<noteq> TAG_SIG" "TAG_DOM \<noteq> TAG_SPEND"
  by (simp_all add: TAG_TOKEN_def TAG_SIG_def TAG_SPEND_def TAG_ATTR_def TAG_ENC_def TAG_KE_def TAG_DOM_def)

lemma units_inject [simp]: "units a = units b \<longleftrightarrow> a = b"
proof
  assume "units a = units b"
  then have "map (of_char :: char \<Rightarrow> int) a = map of_char b" by (simp add: units_def)
  then show "a = b" by (rule map_injective) (auto intro!: injI)
qed simp

definition plain_tags :: "string list list \<Rightarrow> bool" where
  \<comment> \<open>no tag of the composer is a token, signature or holder-proof tag\<close>
  "plain_tags tgs \<longleftrightarrow> (\<forall>t \<in> set tgs. \<not> tag_is TAG_TOKEN t \<and> \<not> tag_is TAG_SIG t \<and> \<not> tag_is TAG_SPEND t)"

lemma token_tag_units:
  "token_tag (map units t) \<longleftrightarrow> tag_is TAG_TOKEN t \<or> tag_is TAG_SIG t \<or> tag_is TAG_SPEND t"
  by (cases t) (auto simp: token_tag_def tag_is_def)

lemma assembled_tags:
  assumes "assembleBlindEvent C rnd now ue ts attr = Inr e"
  shows "\<exists>t0 others spends. ts = t0 # others \<and> spend_tags C (bytesToHex (tok t0)) others = Some spends
    \<and> tags e = u_tags ue @ token_tags ts @ spends @ [[TAG_ATTR, attr]] \<and> content e = u_content ue
    \<and> pubkey e = bytesToHex (getPublicKey C (secret t0))"
  using assms
  by (auto simp: assembleBlindEvent_def finalizeEvent_def Let_def split: list.splits option.splits)

lemma count_token_tags: "length (filter (tag_is TAG_TOKEN) (token_tags ts)) = length ts"
  by (induction ts) (auto simp: token_tags_def tag_is_def)

lemma assembled_count:
  assumes "assembleBlindEvent C rnd now ue ts attr = Inr e" "plain_tags (u_tags ue)"
  shows "length (filter (tag_is TAG_TOKEN) (tags e)) = length ts"
proof -
  obtain t0 :: token and others spends where s: "spend_tags C (bytesToHex (tok t0)) others = Some spends"
    "tags e = u_tags ue @ token_tags ts @ spends @ [[TAG_ATTR, attr]]"
    using assembled_tags[OF assms(1)] by blast
  have "filter (tag_is TAG_TOKEN) (u_tags ue) = []" "filter (tag_is TAG_TOKEN) spends = []"
    using assms(2) spend_tags_shape[OF s(1)] by (auto simp: plain_tags_def filter_empty_conv tag_is_def)
  then show ?thesis by (simp add: s(2) count_token_tags tag_is_def)
qed

lemma assembled_weight:
  assumes "assembleBlindEvent C rnd now ue ts attr = Inr e"
    and "utf8ByteLength (units attr) = utf8ByteLength (units attr')"
  shows "chargeableWeight (units (content e)) (map (map units) (tags e)) =
    chargeableWeight (units (u_content ue)) (map (map units) (u_tags ue @ [[TAG_ATTR, attr']]))"
proof -
  obtain t0 :: token and others spends where s: "spend_tags C (bytesToHex (tok t0)) others = Some spends"
    "tags e = u_tags ue @ token_tags ts @ spends @ [[TAG_ATTR, attr]]" "content e = u_content ue"
    using assembled_tags[OF assms(1)] by blast
  have free: "sum_list (map ((\<lambda>tag. if token_tag tag then 0 else f tag) \<circ> map units) tgs) = (0 :: nat)"
    if "\<forall>t \<in> set tgs. token_tag (map units t)" for tgs f
    using that by (induction tgs) auto
  have attr: "\<not> token_tag [units TAG_ATTR, x]" for x by (simp add: token_tag_def)
  have "\<forall>t \<in> set (token_tags ts). token_tag (map units t)"
    by (auto simp: token_tags_def token_tag_units tag_is_def)
  moreover have "\<forall>t \<in> set spends. token_tag (map units t)"
    using spend_tags_shape[OF s(1)] by (auto simp: token_tag_units tag_is_def)
  ultimately show ?thesis
    using assms(2) by (simp add: s chargeableWeight_sum free attr)
qed

section \<open>Concrete primitives\<close>

definition ex_crypto :: crypto where
  "ex_crypto = \<lparr>sha256 = (\<lambda>b. b), schnorr_sign = (\<lambda>m q. 0 # q), schnorr_verify = (\<lambda>s m Q. Some (s = 0 # Q)),
     getPublicKey = (\<lambda>q. q), nobleHexToBytes = (\<lambda>s. case hexToBytes s of Inr b \<Rightarrow> Some b | Inl _ \<Rightarrow> None),
     getEventHash = (\<lambda>e. pubkey e @ content e)\<rparr>"

end
