(* ===== verification/Identity.thy ===== *)
theory Identity
  imports BlindPost
begin

text \<open>
  Who wrote a blind post: \<open>client/src/blind/attribution.ts\<close>, \<open>identity.ts\<close>, \<open>communityKey.ts\<close>,
  \<open>memberRoll.ts\<close>, and the reading half of \<open>blindPost.ts\<close>.

  The module-level variables are the record \<open>community\<close>: the active community key, the member roll
  with its version, the unlocked content keys and the cache of resolved authors.  NIP-44, the
  signatures of \<open>nostr-tools\<close> and the JSON text of an event are the parameter \<open>sealing\<close>.  What is
  relied on is \<open>finalize_ok\<close>, that a finalised event verifies and keeps its fields, and \<open>readable\<close>,
  that decryption inverts encryption under the same key and the text of an event is parsed back.
\<close>

section \<open>Definitions\<close>

subsection \<open>The parameters\<close>

record signed_event = event +
  esig :: string

record sealing =
  s_encrypt :: "string \<Rightarrow> u8 list \<Rightarrow> string"
  s_decrypt :: "string \<Rightarrow> u8 list \<Rightarrow> string option" \<comment> \<open>\<^const>\<open>None\<close> throws\<close>
  s_stringify :: "signed_event \<Rightarrow> string"
  s_parse :: "string \<Rightarrow> signed_event option" \<comment> \<open>\<^const>\<open>None\<close>: the text is no event\<close>
  s_finalize :: "nat \<Rightarrow> int \<Rightarrow> string list list \<Rightarrow> string \<Rightarrow> u8 list \<Rightarrow> signed_event"
  s_verify :: "signed_event \<Rightarrow> bool"
  s_public :: "u8 list \<Rightarrow> string"

definition finalize_ok :: "sealing \<Rightarrow> bool" where
  "finalize_ok P \<longleftrightarrow> (\<forall>k t tg c sk. kind (s_finalize P k t tg c sk) = k \<and> tags (s_finalize P k t tg c sk) = tg
     \<and> pubkey (s_finalize P k t tg c sk) = s_public P sk \<and> s_verify P (s_finalize P k t tg c sk))"

definition readable :: "sealing \<Rightarrow> u8 list \<Rightarrow> signed_event \<Rightarrow> bool" where
  "readable P key n \<longleftrightarrow> s_encrypt P (s_stringify P n) key \<noteq> ''''
     \<and> s_decrypt P (s_encrypt P (s_stringify P n) key) key = Some (s_stringify P n)
     \<and> s_parse P (s_stringify P n) = Some n"

subsection \<open>communityKey.ts\<close>

definition COMMUNITY_KEY_BYTES :: nat where "COMMUNITY_KEY_BYTES = 32"

definition encodeCommunityKey :: "u8 list \<Rightarrow> string" where
  "encodeCommunityKey key = bytesToBase64 key"

definition decodeCommunityKey :: "string \<Rightarrow> u8 list option" where
  "decodeCommunityKey b64 = (case base64ToBytes b64 of
       Inl _ \<Rightarrow> None
     | Inr key \<Rightarrow> if length key = COMMUNITY_KEY_BYTES then Some key else None)"

subsection \<open>attribution.ts\<close>

record Attribution =
  a_pubkey :: string
  a_name :: "string option"
  a_gradient :: "string option"

definition KIND_ATTESTATION :: nat where "KIND_ATTESTATION = 27555"
definition ATTR_BIND :: string where "ATTR_BIND = ''bind''"
definition ATTR_NAME :: string where "ATTR_NAME = ''nm''"
definition ATTR_GRAD :: string where "ATTR_GRAD = ''g''"

definition attestation :: "sealing \<Rightarrow> int \<Rightarrow> u8 list \<Rightarrow> string \<Rightarrow> string option \<Rightarrow> string option \<Rightarrow> signed_event" where
  "attestation P now realSecretKey throwawayPubkey nm gradient =
     s_finalize P KIND_ATTESTATION now
       ([[ATTR_BIND, throwawayPubkey]]
          @ (if truthy nm then [[ATTR_NAME, the nm]] else [])
          @ (if truthy gradient then [[ATTR_GRAD, the gradient]] else [])) '''' realSecretKey"

definition buildAttribution ::
  "sealing \<Rightarrow> int \<Rightarrow> u8 list \<Rightarrow> string \<Rightarrow> u8 list \<Rightarrow> string option \<Rightarrow> string option \<Rightarrow> string" where
  "buildAttribution P now realSecretKey throwawayPubkey communityKey nm gradient =
     s_encrypt P (s_stringify P (attestation P now realSecretKey throwawayPubkey nm gradient)) communityKey"

definition tag_value :: "string \<Rightarrow> string list list \<Rightarrow> string option" where
  \<comment> \<open>\<open>tags.find(t => t[0] === name && t[1])?.[1]\<close>\<close>
  "tag_value name tgs = Option.bind (find (\<lambda>t. at t 0 = Some name \<and> truthy (at t 1)) tgs) (\<lambda>t. at t 1)"

definition parseAttribution :: "sealing \<Rightarrow> string option \<Rightarrow> string \<Rightarrow> u8 list \<Rightarrow> Attribution option" where
  "parseAttribution P attrTagValue throwawayPubkey communityKey =
     (if \<not> truthy attrTagValue then None
      else case s_decrypt P (the attrTagValue) communityKey of
        None \<Rightarrow> None
      | Some json \<Rightarrow> (case s_parse P json of
          None \<Rightarrow> None
        | Some n \<Rightarrow>
            if kind n \<noteq> KIND_ATTESTATION then None
            else if \<not> s_verify P n then None
            else if tag_value ATTR_BIND (tags n) \<noteq> Some throwawayPubkey then None
            else Some \<lparr>a_pubkey = pubkey n, a_name = tag_value ATTR_NAME (tags n),
                       a_gradient = tag_value ATTR_GRAD (tags n)\<rparr>))"

subsection \<open>blindPost.ts, reading\<close>

definition readBlindAuthor :: "sealing \<Rightarrow> event \<Rightarrow> u8 list \<Rightarrow> Attribution option" where
  "readBlindAuthor P e communityKey = parseAttribution P (tag_value TAG_ATTR (tags e)) (pubkey e) communityKey"

subsection \<open>identity.ts and memberRoll.ts\<close>

record ResolvedAuthor =
  ra_pubkey :: string
  ra_name :: "string option"
  ra_gradient :: "string option"
  ra_blind :: bool

record community =
  active_key :: "u8 list option"
  roll :: "string list option"
  roll_version :: nat
  author_cache :: "(string \<times> ResolvedAuthor) list"

definition new_community :: community where
  "new_community = \<lparr>active_key = None, roll = None, roll_version = 0, author_cache = []\<rparr>"

definition setActiveCommunityKey :: "u8 list option \<Rightarrow> community \<Rightarrow> community" where
  "setActiveCommunityKey k c = c\<lparr>active_key := k\<rparr>"

definition setActiveMemberRoll :: "string list option \<Rightarrow> community \<Rightarrow> community" where
  "setActiveMemberRoll r c = c\<lparr>roll := r, roll_version := roll_version c + 1\<rparr>"

definition clearAuthorCache :: "community \<Rightarrow> community" where
  "clearAuthorCache c = c\<lparr>author_cache := []\<rparr>"

definition anonymous :: "event \<Rightarrow> ResolvedAuthor" where
  "anonymous e = \<lparr>ra_pubkey = pubkey e, ra_name = None, ra_gradient = None, ra_blind = False\<rparr>"

definition attributed :: "Attribution option \<Rightarrow> event \<Rightarrow> ResolvedAuthor" where
  "attributed a e = (case a of
       Some x \<Rightarrow> \<lparr>ra_pubkey = a_pubkey x, ra_name = a_name x, ra_gradient = a_gradient x, ra_blind = True\<rparr>
     | None \<Rightarrow> anonymous e)"

definition remember :: "event \<Rightarrow> ResolvedAuthor \<Rightarrow> community \<Rightarrow> community" where
  "remember e r c = (if eid e \<noteq> '''' then c\<lparr>author_cache := AList.update (eid e) r (author_cache c)\<rparr> else c)"

definition resolveAuthor :: "sealing \<Rightarrow> event \<Rightarrow> community \<Rightarrow> ResolvedAuthor \<times> community" where
  "resolveAuthor P e c =
     (case map_of (author_cache c) (eid e) of
        Some r \<Rightarrow> (r, c)
      | None \<Rightarrow>
          if \<not> isBlindPost e then (anonymous e, remember e (anonymous e) c)
          else case active_key c of
            None \<Rightarrow> (anonymous e, c)
          | Some key \<Rightarrow>
              let r = attributed (readBlindAuthor P e key) e in (r, remember e r c))"

definition resolveAuthorPubkey :: "sealing \<Rightarrow> event \<Rightarrow> community \<Rightarrow> string \<times> community" where
  "resolveAuthorPubkey P e c = (let (r, c') = resolveAuthor P e c in (ra_pubkey r, c'))"

definition isUnattributedBlindPost :: "sealing \<Rightarrow> event \<Rightarrow> community \<Rightarrow> bool \<times> community" where
  "isUnattributedBlindPost P e c =
     (if \<not> isBlindPost e then (False, c)
      else if active_key c = None then (False, c)
      else let (r, c') = resolveAuthor P e c in (\<not> ra_blind r, c'))"

definition isOffRollBlindPost :: "sealing \<Rightarrow> event \<Rightarrow> community \<Rightarrow> bool \<times> community" where
  "isOffRollBlindPost P e c =
     (if \<not> isBlindPost e then (False, c)
      else if active_key c = None then (False, c)
      else case roll c of
        None \<Rightarrow> (False, c)
      | Some members \<Rightarrow>
          let (r, c') = resolveAuthor P e c in (ra_blind r \<and> ra_pubkey r \<notin> set members, c'))"

definition isUnverifiedBlindPost :: "sealing \<Rightarrow> event \<Rightarrow> community \<Rightarrow> bool \<times> community" where
  "isUnverifiedBlindPost P e c =
     (let (u, c') = isUnattributedBlindPost P e c in if u then (True, c') else isOffRollBlindPost P e c')"

subsection \<open>Resolution without the cache\<close>

definition author :: "sealing \<Rightarrow> community \<Rightarrow> event \<Rightarrow> ResolvedAuthor" where
  "author P c e = (if \<not> isBlindPost e then anonymous e
     else case active_key c of None \<Rightarrow> anonymous e | Some key \<Rightarrow> attributed (readBlindAuthor P e key) e)"

definition offRoll :: "sealing \<Rightarrow> community \<Rightarrow> event \<Rightarrow> bool" where
  "offRoll P c e \<longleftrightarrow> isBlindPost e \<and> active_key c \<noteq> None \<and>
     (case roll c of None \<Rightarrow> False | Some members \<Rightarrow> ra_blind (author P c e) \<and> ra_pubkey (author P c e) \<notin> set members)"

definition unattributed :: "sealing \<Rightarrow> community \<Rightarrow> event \<Rightarrow> bool" where
  "unattributed P c e \<longleftrightarrow> isBlindPost e \<and> active_key c \<noteq> None \<and> \<not> ra_blind (author P c e)"

datatype id_op = Resolve event | SetKey "u8 list option" | SetRoll "string list option" | ClearCache

fun id_step :: "sealing \<Rightarrow> id_op \<Rightarrow> community \<Rightarrow> community" where
  "id_step P (Resolve e) c = snd (resolveAuthor P e c)"
| "id_step P (SetKey k) c = setActiveCommunityKey k c"
| "id_step P (SetRoll r) c = setActiveMemberRoll r c"
| "id_step P ClearCache c = clearAuthorCache c"

definition id_run :: "sealing \<Rightarrow> id_op list \<Rightarrow> community" where
  "id_run P ops = foldl (\<lambda>c x. id_step P x c) new_community ops"

section \<open>Attribution\<close>

lemma tag_value_simps [simp]:
  "tag_value name [] = None"
  "tag_value name ([n, v] # ts) = (if n = name \<and> v \<noteq> '''' then Some v else tag_value name ts)"
  by (simp_all add: tag_value_def)

lemma decode_encode_key:
  "length k = 32 \<Longrightarrow> decodeCommunityKey (encodeCommunityKey k) = Some k"
  by (simp add: decodeCommunityKey_def encodeCommunityKey_def COMMUNITY_KEY_BYTES_def)


definition ex_note :: signed_event where
  "ex_note = \<lparr>eid = ''a1'', pubkey = ''07'', created_at = 5, kind = KIND_ATTESTATION,
     tags = [[ATTR_BIND, ''t1''], [ATTR_NAME, ''ann'']], content = '''', esig = ''s''\<rparr>"

definition ex_sealing :: sealing where
  "ex_sealing = \<lparr>s_encrypt = (\<lambda>x k. (if length k = 2 then CHR ''A'' else CHR ''B'') # x),
     s_decrypt = (\<lambda>x k. case x of [] \<Rightarrow> None
        | c # r \<Rightarrow> if c = (if length k = 2 then CHR ''A'' else CHR ''B'') then Some r else None),
     s_stringify = (\<lambda>n. ''json''), s_parse = (\<lambda>s. if s = ''json'' then Some ex_note else None),
     s_finalize = (\<lambda>k t tg c sk. \<lparr>eid = ''a1'', pubkey = (if sk = [] then ''00'' else ''07''), created_at = t,
        kind = k, tags = tg, content = c, esig = ''s''\<rparr>),
     s_verify = (\<lambda>n. esig n = ''s''), s_public = (\<lambda>sk. if sk = [] then ''00'' else ''07'')\<rparr>"

lemma ex_sealing_ok: "finalize_ok ex_sealing"
  by (simp add: finalize_ok_def ex_sealing_def)


text \<open>
  Nothing is attributed without a signature: whatever a tag holds, an author read from it has signed
  an attestation that names the key of this very post.
\<close>

lemma attribution_signed:
  assumes "readBlindAuthor P e key = Some a"
  shows "\<exists>n. s_verify P n \<and> pubkey n = a_pubkey a \<and> kind n = KIND_ATTESTATION \<and>
    tag_value ATTR_BIND (tags n) = Some (pubkey e)"
  using assms by (auto simp: readBlindAuthor_def parseAttribution_def split: if_splits option.splits)

section \<open>The author cache\<close>

definition op_events :: "id_op list \<Rightarrow> event set" where
  "op_events ops = {e. Resolve e \<in> set ops}"

definition ids_identify :: "event set \<Rightarrow> bool" where
  \<comment> \<open>an id is the hash of the event\<close>
  "ids_identify E \<longleftrightarrow> inj_on eid E"

definition one_key :: "u8 list \<Rightarrow> id_op list \<Rightarrow> bool" where
  \<comment> \<open>only this community key is ever loaded\<close>
  "one_key k ops \<longleftrightarrow> (\<forall>x \<in> set ops. \<forall>k'. x = SetKey k' \<longrightarrow> k' = Some k)"

definition cache_ok :: "sealing \<Rightarrow> u8 list \<Rightarrow> event set \<Rightarrow> community \<Rightarrow> bool" where
  "cache_ok P k E c \<longleftrightarrow> active_key c \<in> {None, Some k} \<and>
     (\<forall>e \<in> E. \<forall>r. map_of (author_cache c) (eid e) = Some r \<longrightarrow>
        r = author P c e \<and> (isBlindPost e \<longrightarrow> active_key c = Some k))"

lemma author_frame [simp]:
  "author P (c\<lparr>author_cache := x\<rparr>) = author P c" "author P (c\<lparr>roll := r, roll_version := v\<rparr>) = author P c"
  by (simp_all add: author_def fun_eq_iff)

lemma author_key: "active_key c = active_key c' \<or> \<not> isBlindPost e \<Longrightarrow> author P c e = author P c' e"
  by (auto simp: author_def)

lemma resolveAuthor_ok:
  assumes "cache_ok P k E c" and "ids_identify E" and "e \<in> E"
  shows "fst (resolveAuthor P e c) = author P c e" "cache_ok P k E (snd (resolveAuthor P e c))"
proof -
  show "fst (resolveAuthor P e c) = author P c e"
  proof (cases "map_of (author_cache c) (eid e)")
    case None
    then show ?thesis by (simp add: resolveAuthor_def author_def Let_def split: option.splits)
  next
    case (Some r)
    then have "r = author P c e" using assms(1,3) unfolding cache_ok_def by blast
    with Some show ?thesis by (simp add: resolveAuthor_def)
  qed
  have rem: "cache_ok P k E (remember e (author P c e) c)" if "isBlindPost e \<longrightarrow> active_key c = Some k"
  proof (cases "eid e = ''''")
    case True
    then show ?thesis using assms(1) by (simp add: remember_def)
  next
    case False
    have same: "e' = e" if "e' \<in> E" "eid e' = eid e" for e'
      using that assms(2,3) by (simp add: ids_identify_def inj_on_def)
    have look: "map_of (author_cache (remember e (author P c e) c)) (eid e') =
        (if eid e' = eid e then Some (author P c e) else map_of (author_cache c) (eid e'))" for e'
      using False by (simp add: remember_def js_map_simps)
    have frame: "author P (remember e (author P c e) c) = author P c"
      "active_key (remember e (author P c e) c) = active_key c"
      by (simp_all add: remember_def)
    show ?thesis
      using that assms(1) same unfolding cache_ok_def look frame by (metis option.inject)
  qed
  show "cache_ok P k E (snd (resolveAuthor P e c))"
  proof (cases "map_of (author_cache c) (eid e)")
    case None
    have "active_key c = None \<or> active_key c = Some k" using assms(1) by (auto simp: cache_ok_def)
    with None rem assms(1) show ?thesis by (auto simp: resolveAuthor_def author_def Let_def)
  qed (simp add: resolveAuthor_def assms(1))
qed

lemma cache_ok_step:
  assumes "cache_ok P k E c" and "ids_identify E" and "\<forall>e. x = Resolve e \<longrightarrow> e \<in> E" and "\<forall>k'. x = SetKey k' \<longrightarrow> k' = Some k"
  shows "cache_ok P k E (id_step P x c)"
proof (cases x)
  case (SetKey k')
  then show ?thesis
    using assms(1,4) author_key[of c "c\<lparr>active_key := Some k\<rparr>"]
    by (auto simp: cache_ok_def setActiveCommunityKey_def)
next
  case (Resolve e)
  then show ?thesis using assms resolveAuthor_ok(2) by simp
qed (use assms in \<open>auto simp: cache_ok_def setActiveMemberRoll_def clearAuthorCache_def\<close>)

lemma cache_ok_run:
  assumes "ids_identify E" and "op_events ops \<subseteq> E" and "one_key k ops"
  shows "cache_ok P k E (id_run P ops)"
proof -
  have "cache_ok P k E c \<Longrightarrow> \<forall>x \<in> set ops. (\<forall>e. x = Resolve e \<longrightarrow> e \<in> E) \<and> (\<forall>k'. x = SetKey k' \<longrightarrow> k' = Some k) \<Longrightarrow>
      cache_ok P k E (foldl (\<lambda>c x. id_step P x c) c ops)" for c
    by (induction ops arbitrary: c) (auto simp: cache_ok_step assms(1))
  moreover have "cache_ok P k E new_community" by (simp add: cache_ok_def new_community_def)
  ultimately show ?thesis
    using assms(2,3) by (auto simp: id_run_def op_events_def one_key_def)
qed

text \<open>
  C37. The author cache is transparent for one community.  As long as a single community key is
  ever loaded (before or after posts are seen, with any roll updates and cache clears in between),
  every resolution returns what a fresh computation under the current key returns, and so do the
  two verdicts on a blind post.
\<close>

theorem author_cache_transparent:
  assumes "ids_identify (insert e (op_events ops))" and "one_key k ops"
  shows "fst (resolveAuthor P e (id_run P ops)) = author P (id_run P ops) e
    \<and> fst (isOffRollBlindPost P e (id_run P ops)) = offRoll P (id_run P ops) e
    \<and> fst (isUnattributedBlindPost P e (id_run P ops)) = unattributed P (id_run P ops) e"
proof -
  have "fst (resolveAuthor P e (id_run P ops)) = author P (id_run P ops) e"
    by (rule resolveAuthor_ok(1)[OF cache_ok_run[OF assms(1) _ assms(2)] assms(1)]) auto
  then show ?thesis
    by (auto simp: isOffRollBlindPost_def isUnattributedBlindPost_def offRoll_def unattributed_def Let_def
        split: option.splits prod.splits)
qed

definition ex_blind :: event where
  "ex_blind = \<lparr>eid = ''e1'', pubkey = ''t1'', created_at = 6, kind = 1,
     tags = [[TAG_TOKEN, ''x''], [TAG_ATTR, buildAttribution ex_sealing 5 [7] ''t1'' [1, 2] (Some ''ann'') None]], content = ''''\<rparr>"

definition ex_ops :: "id_op list" where
  "ex_ops = [Resolve ex_blind, SetKey (Some [1, 2]), SetRoll (Some [''08'']), Resolve ex_blind]"

lemma ex_blind_author:
  "isBlindPost ex_blind" "eid ex_blind = ''e1''"
  "readBlindAuthor ex_sealing ex_blind [1, 2] = Some \<lparr>a_pubkey = ''07'', a_name = Some ''ann'', a_gradient = None\<rparr>"
  "readBlindAuthor ex_sealing ex_blind [9] = None"
  by (simp_all add: ex_blind_def isBlindPost_def tag_is_def TAG_TOKEN_def TAG_ATTR_def readBlindAuthor_def
      parseAttribution_def buildAttribution_def ex_sealing_def ex_note_def ATTR_BIND_def ATTR_NAME_def ATTR_GRAD_def)

lemmas ex_run = id_run_def new_community_def resolveAuthor_def ex_blind_author remember_def attributed_def
  anonymous_def setActiveCommunityKey_def setActiveMemberRoll_def Let_def

theorem author_cache_transparent_witness:
  "fst (resolveAuthor ex_sealing ex_blind (id_run ex_sealing ex_ops))
     = \<lparr>ra_pubkey = ''07'', ra_name = Some ''ann'', ra_gradient = None, ra_blind = True\<rparr>
   \<and> fst (isOffRollBlindPost ex_sealing ex_blind (id_run ex_sealing ex_ops))"
proof -
  have 1: "ids_identify (insert ex_blind (op_events ex_ops))"
    by (auto simp: ids_identify_def op_events_def ex_ops_def)
  have 2: "one_key [1, 2] ex_ops" by (auto simp: one_key_def ex_ops_def)
  have 3: "author ex_sealing (id_run ex_sealing ex_ops) ex_blind
      = \<lparr>ra_pubkey = ''07'', ra_name = Some ''ann'', ra_gradient = None, ra_blind = True\<rparr>"
    by (simp add: ex_ops_def ex_run author_def)
  then have 4: "offRoll ex_sealing (id_run ex_sealing ex_ops) ex_blind"
    by (simp add: offRoll_def ex_ops_def ex_run)
  show ?thesis using author_cache_transparent[OF 1 2, of ex_sealing] 3 4 by simp
qed

text \<open>
  A failed resolution sticks.  A blind post seen while another community's key is active is
  remembered as anonymous, so after the right key is loaded it still has no author and counts as
  unattributed, although the comment on \<open>resolveAuthor\<close> says that such a post is not cached and
  resolves again.  Likewise an author that was resolved stays known after the key is withdrawn.
\<close>

theorem wrong_key_result_is_cached:
  "let seen_early = id_run ex_sealing [SetKey (Some [9]), Resolve ex_blind, SetKey (Some [1, 2])];
       withdrawn = id_run ex_sealing [SetKey (Some [1, 2]), Resolve ex_blind, SetKey None]
   in ra_blind (author ex_sealing seen_early ex_blind)
    \<and> fst (resolveAuthor ex_sealing ex_blind seen_early) = anonymous ex_blind
    \<and> fst (isUnattributedBlindPost ex_sealing ex_blind seen_early)
    \<and> ra_pubkey (fst (resolveAuthor ex_sealing ex_blind withdrawn)) = ''07''"
  by (simp add: ex_run author_def isUnattributedBlindPost_def)

end
