(* ===== verification/ContentKey.thy ===== *)
theory ContentKey
  imports Identity
begin

text \<open>
  \<open>client/src/blind/contentKey.ts\<close> and the sealed-body half of \<open>client/src/blind/blindPost.ts\<close>: the
  per-epoch keys that make the text of a post readable.

  \<open>content_keys\<close> holds the unlocked keys in memory and the two groups of items in the secure store:
  the hexadecimal keys, one per account and epoch, and one index of epochs per account.  The index
  is a comma-separated text; it is kept as the list of what \<open>Number\<close> makes of its fields,
  \<^const>\<open>None\<close> for a field that is no integer.  The two groups are separate maps: the
  names of their items never coincide (\<open>key_item_names\<close>).  An epoch is an integer.
\<close>

section \<open>Definitions\<close>

subsection \<open>Keys in memory\<close>

datatype key_error = MalformedKey

record content_keys =
  epochKeys :: "(int \<times> u8 list) list"
  writeEpoch :: int
  storage_wired :: bool
  key_items :: "(string \<times> string) list"
  index_items :: "(string \<times> int option list) list"

definition CONTENT_KEY_BYTES :: nat where "CONTENT_KEY_BYTES = 32"

definition new_keys :: content_keys where
  "new_keys = \<lparr>epochKeys = [], writeEpoch = -1, storage_wired = True, key_items = [], index_items = []\<rparr>"

definition setContentEpochKey :: "int \<Rightarrow> u8 list \<Rightarrow> content_keys \<Rightarrow> content_keys" where
  "setContentEpochKey ep key c =
     (if ep < 0 \<or> length key \<noteq> CONTENT_KEY_BYTES then c
      else c\<lparr>epochKeys := AList.update ep key (epochKeys c),
             writeEpoch := (if ep > writeEpoch c then ep else writeEpoch c)\<rparr>)"

definition getContentEpochKey :: "content_keys \<Rightarrow> int \<Rightarrow> u8 list option" where
  "getContentEpochKey c ep = map_of (epochKeys c) ep"

definition getWriteContentKey :: "content_keys \<Rightarrow> (int \<times> u8 list) option" where
  "getWriteContentKey c =
     (if writeEpoch c < 0 then None else map_option (\<lambda>k. (writeEpoch c, k)) (map_of (epochKeys c) (writeEpoch c)))"

definition hasContentEpochKey :: "content_keys \<Rightarrow> int \<Rightarrow> bool" where
  "hasContentEpochKey c ep = (map_of (epochKeys c) ep \<noteq> None)"

definition clearActiveContentKeys :: "content_keys \<Rightarrow> content_keys" where
  "clearActiveContentKeys c = c\<lparr>epochKeys := [], writeEpoch := -1\<rparr>"

subsection \<open>Keys in the secure store\<close>

definition js_int :: "int \<Rightarrow> string" where
  "js_int i = (if i < 0 then CHR ''-'' # js_dec (nat (- i)) else js_dec (nat i))"

definition keyItem :: "string \<Rightarrow> int \<Rightarrow> string" where
  "keyItem ns ep = ''stiq.content.key:'' @ ns @ '':'' @ js_int ep"

definition indexItem :: "string \<Rightarrow> string" where
  "indexItem ns = ''stiq.content.key:'' @ ns @ '':epochs''"

definition epochs_of :: "int option list \<Rightarrow> int list" where
  \<comment> \<open>\<open>.map(Number).filter(n => Number.isInteger(n) && n >= 0)\<close>\<close>
  "epochs_of fs = map the (filter (\<lambda>f. case f of None \<Rightarrow> False | Some n \<Rightarrow> n \<ge> 0) fs)"

definition readEpochIndex :: "string \<Rightarrow> content_keys \<Rightarrow> int list" where
  "readEpochIndex ns c =
     (if \<not> storage_wired c then []
      else case getItem (index_items c) (indexItem ns) of None \<Rightarrow> [] | Some fs \<Rightarrow> epochs_of fs)"

definition storeContentEpochKey :: "string \<Rightarrow> int \<Rightarrow> u8 list \<Rightarrow> content_keys \<Rightarrow> (key_error + unit) \<times> content_keys" where
  "storeContentEpochKey ns ep key c =
     (if \<not> storage_wired c then (Inr (), c)
      else if length key \<noteq> CONTENT_KEY_BYTES then (Inl MalformedKey, c)
      else let c1 = c\<lparr>key_items := setItem (keyItem ns ep) (bytesToHex key) (key_items c)\<rparr>;
               epochs = readEpochIndex ns c1
           in (Inr (), if ep \<in> set epochs then c1
                       else c1\<lparr>index_items := setItem (indexItem ns) (map Some (epochs @ [ep])) (index_items c1)\<rparr>))"

definition load_epoch :: "string \<Rightarrow> content_keys \<Rightarrow> int \<Rightarrow> content_keys" where
  \<comment> \<open>one round of the loop of \<open>loadContentKeys\<close>; a corrupt entry is skipped\<close>
  "load_epoch ns c ep =
     (case getItem (key_items c) (keyItem ns ep) of
        None \<Rightarrow> c
      | Some hex \<Rightarrow>
          if hex = '''' then c
          else case hexToBytes hex of
            Inl _ \<Rightarrow> c
          | Inr key \<Rightarrow> if length key = CONTENT_KEY_BYTES then setContentEpochKey ep key c else c)"

definition loadContentKeys :: "string \<Rightarrow> content_keys \<Rightarrow> content_keys" where
  "loadContentKeys ns c =
     (let c1 = clearActiveContentKeys c in
      if \<not> storage_wired c1 then c1 else foldl (load_epoch ns) c1 (readEpochIndex ns c1))"

definition clearStoredContentKeys :: "string \<Rightarrow> content_keys \<Rightarrow> content_keys" where
  "clearStoredContentKeys ns c =
     (if \<not> storage_wired c then c
      else c\<lparr>key_items := foldl (\<lambda>st ep. removeItem (keyItem ns ep) st) (key_items c) (readEpochIndex ns c),
             index_items := removeItem (indexItem ns) (index_items c)\<rparr>)"

definition copy_epoch :: "string \<Rightarrow> string \<Rightarrow> (string \<times> string) list \<Rightarrow> int \<Rightarrow> (string \<times> string) list" where
  "copy_epoch fromNs toNs st ep =
     (if getItem st (keyItem toNs ep) \<noteq> None then st
      else case getItem st (keyItem fromNs ep) of None \<Rightarrow> st | Some hex \<Rightarrow> setItem (keyItem toNs ep) hex st)"

definition migrateContentKeys :: "string \<Rightarrow> string \<Rightarrow> content_keys \<Rightarrow> content_keys" where
  "migrateContentKeys fromNs toNs c =
     (case getItem (index_items c) (indexItem fromNs) of
        None \<Rightarrow> c
      | Some fs \<Rightarrow>
          let epochs = epochs_of fs in
          if epochs = [] then c
          else c\<lparr>key_items := foldl (copy_epoch fromNs toNs) (key_items c) epochs,
                 index_items := (if getItem (index_items c) (indexItem toNs) = None
                   then setItem (indexItem toNs) (map Some epochs) (index_items c) else index_items c)\<rparr>)"

subsection \<open>Reading a sealed body\<close>

datatype lock_state = Plain | UnlockedBody | LockedBody

definition contentEpochOf :: "(string \<Rightarrow> int option) \<Rightarrow> event \<Rightarrow> int option" where
  \<comment> \<open>over \<open>Number\<close> on the text of the tag, \<^const>\<open>None\<close> for what is no integer\<close>
  "contentEpochOf number e = (case tag_value TAG_KE (tags e) of
       None \<Rightarrow> None
     | Some keRaw \<Rightarrow> (case number keRaw of Some ep \<Rightarrow> if ep \<ge> 0 then Some ep else None | None \<Rightarrow> None))"

definition contentLockState :: "(string \<Rightarrow> int option) \<Rightarrow> content_keys \<Rightarrow> event \<Rightarrow> lock_state" where
  "contentLockState number c e =
     (if \<not> isSealedContent e then Plain
      else case contentEpochOf number e of
        None \<Rightarrow> LockedBody
      | Some ep \<Rightarrow> if hasContentEpochKey c ep then UnlockedBody else LockedBody)"

definition resolveContent ::
  "sealing \<Rightarrow> (string \<Rightarrow> int option) \<Rightarrow> content_keys \<Rightarrow> event \<Rightarrow> (event \<times> string) list \<Rightarrow> (string \<times> bool) \<times> (event \<times> string) list" where
  \<comment> \<open>the text and whether it is locked; the memo of successful decryptions is threaded through\<close>
  "resolveContent P number c e memo =
     (if \<not> isSealedContent e then ((content e, False), memo)
      else case contentEpochOf number e of
        None \<Rightarrow> (('''', True), memo)
      | Some ep \<Rightarrow> (case getContentEpochKey c ep of
          None \<Rightarrow> (('''', True), memo)
        | Some key \<Rightarrow> (case map_of memo e of
            Some text \<Rightarrow> ((text, False), memo)
          | None \<Rightarrow> (case s_decrypt P (content e) key of
              Some text \<Rightarrow> ((text, False), (e, text) # memo)
            | None \<Rightarrow> (('''', True), memo)))))"

section \<open>Names of stored items\<close>

lemma js_int_no_colon: "CHR '':'' \<notin> set (js_int i)"
  using js_dec_no_colon by (simp add: js_int_def)

lemma js_int_inject: "js_int i = js_int j \<Longrightarrow> i = j"
proof -
  assume eq: "js_int i = js_int j"
  have minus: "js_dec n \<noteq> CHR ''-'' # x" for n x
  proof
    assume "js_dec n = CHR ''-'' # x"
    then have "CHR ''-'' \<in> set (js_dec n)" by simp
    then obtain d where "d < 10" "CHR ''-'' = hex_digit d" using js_dec_digit by blast
    then show False using hex_digit_plain(2)[of d] by simp
  qed
  show "i = j"
    using eq minus js_dec_inject[of "nat i" "nat j"] js_dec_inject[of "nat (- i)" "nat (- j)"]
    by (auto simp: js_int_def split: if_splits) metis+
qed

lemma key_item_names [simp]:
  "keyItem ns ep = keyItem ns' ep' \<longleftrightarrow> ns = ns' \<and> ep = ep'" "indexItem ns = indexItem ns' \<longleftrightarrow> ns = ns'"
  "keyItem ns ep \<noteq> indexItem ns'"
proof -
  show "keyItem ns ep = keyItem ns' ep' \<longleftrightarrow> ns = ns' \<and> ep = ep'"
    using sep_split_last[OF js_int_no_colon js_int_no_colon, of ns ep ns' ep'] js_int_inject[of ep ep']
    by (auto simp: keyItem_def)
  show "indexItem ns = indexItem ns' \<longleftrightarrow> ns = ns'" by (simp add: indexItem_def)
  have "js_int ep \<noteq> ''epochs''"
  proof
    assume "js_int ep = ''epochs''"
    then have "CHR ''p'' \<in> set (js_dec (nat ep))" by (auto simp: js_int_def split: if_splits)
    then obtain d where "d < 10" "CHR ''p'' = hex_digit d" using js_dec_digit by blast
    moreover have "\<forall>d \<in> set [0..<10]. hex_digit d \<noteq> CHR ''p''" by (simp add: hex_digit_def upt_rec)
    ultimately show False by auto
  qed
  then show "keyItem ns ep \<noteq> indexItem ns'"
    using sep_split_last[OF js_int_no_colon[of ep], of "''epochs''" ns ns'] by (auto simp: keyItem_def indexItem_def)
qed

section \<open>The stored keys\<close>

datatype key_op =
    Store string int "u8 list"
  | Load string
  | ClearStored string
  | ClearActive
  | Unlock int "u8 list"

fun key_step :: "key_op \<Rightarrow> content_keys \<Rightarrow> content_keys" where
  "key_step (Store ns ep key) c = snd (storeContentEpochKey ns ep key c)"
| "key_step (Load ns) c = loadContentKeys ns c"
| "key_step (ClearStored ns) c = clearStoredContentKeys ns c"
| "key_step ClearActive c = clearActiveContentKeys c"
| "key_step (Unlock ep key) c = setContentEpochKey ep key c"

definition key_run :: "key_op list \<Rightarrow> content_keys" where
  "key_run ops = foldl (\<lambda>c x. key_step x c) new_keys ops"

fun spec_key :: "key_op list \<Rightarrow> string \<Rightarrow> int \<Rightarrow> u8 list option" where
  \<comment> \<open>the key an account holds for an epoch, by the most recent call first\<close>
  "spec_key [] ns ep = None"
| "spec_key (x # xs) ns ep = (case x of
       Store ns' ep' key \<Rightarrow> if ns' = ns \<and> ep' = ep \<and> length key = CONTENT_KEY_BYTES then Some key else spec_key xs ns ep
     | ClearStored ns' \<Rightarrow> if ns' = ns then None else spec_key xs ns ep
     | _ \<Rightarrow> spec_key xs ns ep)"

definition key_ok :: "(string \<Rightarrow> int \<Rightarrow> u8 list option) \<Rightarrow> content_keys \<Rightarrow> bool" where
  "key_ok f c \<longleftrightarrow> storage_wired c \<and>
     (\<forall>ns ep. 0 \<le> ep \<longrightarrow> getItem (key_items c) (keyItem ns ep) = map_option bytesToHex (f ns ep)) \<and>
     (\<forall>ns ep key. f ns ep = Some key \<longrightarrow> length key = CONTENT_KEY_BYTES) \<and>
     (\<forall>ns ep. ep \<in> set (readEpochIndex ns c) \<longleftrightarrow> 0 \<le> ep \<and> f ns ep \<noteq> None)"

lemma stored_frame_keys [simp]:
  "key_items (setContentEpochKey ep key c) = key_items c" "index_items (setContentEpochKey ep key c) = index_items c"
  "storage_wired (setContentEpochKey ep key c) = storage_wired c"
  by (simp_all add: setContentEpochKey_def)

lemma load_frame [simp]:
  "key_items (load_epoch ns c ep) = key_items c" "index_items (load_epoch ns c ep) = index_items c"
  "storage_wired (load_epoch ns c ep) = storage_wired c"
  by (auto simp: load_epoch_def split: option.splits sum.splits)

lemma foldl_load_frame [simp]:
  "key_items (foldl (load_epoch ns) c eps) = key_items c" "index_items (foldl (load_epoch ns) c eps) = index_items c"
  "storage_wired (foldl (load_epoch ns) c eps) = storage_wired c"
  by (induction eps arbitrary: c) auto

lemma key_ok_frame:
  assumes "key_ok f c" and "key_items c' = key_items c" "index_items c' = index_items c" "storage_wired c' = storage_wired c"
  shows "key_ok f c'"
proof -
  have "readEpochIndex ns c' = readEpochIndex ns c" for ns using assms(3,4) by (simp add: readEpochIndex_def)
  with assms show ?thesis by (simp add: key_ok_def)
qed

lemma epochs_of_Some: "epochs_of (map Some eps) = filter (\<lambda>ep. 0 \<le> ep) eps"
  by (induction eps) (auto simp: epochs_of_def)

lemma readEpochIndex_nonneg: "ep \<in> set (readEpochIndex ns c) \<Longrightarrow> 0 \<le> ep"
  by (auto simp: readEpochIndex_def epochs_of_def split: option.splits if_splits)

lemma filter_index [simp]: "filter (\<lambda>ep. 0 \<le> ep) (readEpochIndex ns c) = readEpochIndex ns c"
  using readEpochIndex_nonneg by (intro filter_True) blast

lemma readEpochIndex_set:
  "storage_wired c \<Longrightarrow>
   readEpochIndex ns (c\<lparr>index_items := setItem (indexItem ns') (map Some eps) (index_items c)\<rparr>)
   = (if ns = ns' then filter (\<lambda>ep. 0 \<le> ep) eps else readEpochIndex ns c)"
  by (auto simp: readEpochIndex_def storage_simps epochs_of_Some)

lemma key_ok_store:
  assumes ok: "key_ok f c" and len: "length key = CONTENT_KEY_BYTES"
  shows "key_ok (\<lambda>ns' ep'. if ns' = ns \<and> ep' = ep then Some key else f ns' ep') (snd (storeContentEpochKey ns ep key c))"
proof -
  have w: "storage_wired c" using ok by (simp add: key_ok_def)
  define c1 where "c1 = c\<lparr>key_items := setItem (keyItem ns ep) (bytesToHex key) (key_items c)\<rparr>"
  have idx: "readEpochIndex n c1 = readEpochIndex n c" for n by (simp add: c1_def readEpochIndex_def)
  have w1: "storage_wired c1" using w by (simp add: c1_def)
  have eq: "snd (storeContentEpochKey ns ep key c) = (if ep \<in> set (readEpochIndex ns c) then c1
      else c1\<lparr>index_items := setItem (indexItem ns) (map Some (readEpochIndex ns c @ [ep])) (index_items c1)\<rparr>)"
    using w len idx by (simp add: storeContentEpochKey_def c1_def Let_def)
  have items: "getItem (key_items c1) (keyItem n i) = (if n = ns \<and> i = ep then Some (bytesToHex key)
      else getItem (key_items c) (keyItem n i))" for n i
    by (simp add: c1_def storage_simps)
  show ?thesis
    using ok w1 len unfolding eq key_ok_def
    by (auto simp: items idx readEpochIndex_set[OF w1] simp del: map_append)
qed

lemma foldl_remove_items:
  "getItem (foldl (\<lambda>st ep. removeItem (keyItem ns ep) st) st eps) k =
    (if \<exists>ep \<in> set eps. k = keyItem ns ep then None else getItem st k)"
  by (induction eps arbitrary: st) (auto simp: storage_simps)

lemma key_ok_clear:
  assumes ok: "key_ok f c"
  shows "key_ok (\<lambda>ns' ep'. if ns' = ns then None else f ns' ep') (clearStoredContentKeys ns c)"
proof -
  have w: "storage_wired c" using ok by (simp add: key_ok_def)
  have idx: "readEpochIndex n (clearStoredContentKeys ns c) = (if n = ns then [] else readEpochIndex n c)" for n
    using w by (simp add: clearStoredContentKeys_def readEpochIndex_def storage_simps)
  have items: "getItem (key_items (clearStoredContentKeys ns c)) (keyItem n i) =
      (if n = ns \<and> i \<in> set (readEpochIndex ns c) then None else getItem (key_items c) (keyItem n i))" for n i
    using w by (auto simp: clearStoredContentKeys_def foldl_remove_items)
  have w1: "storage_wired (clearStoredContentKeys ns c)" using w by (simp add: clearStoredContentKeys_def)
  show ?thesis using ok w1 unfolding key_ok_def idx items by auto
qed

lemma key_ok_step: "key_ok (spec_key xs) c \<Longrightarrow> key_ok (spec_key (x # xs)) (key_step x c)"
proof -
  assume ok: "key_ok (spec_key xs) c"
  show ?thesis
  proof (cases x)
    case (Store ns ep key)
    show ?thesis
    proof (cases "length key = CONTENT_KEY_BYTES")
      case True
      moreover have "spec_key (x # xs) = (\<lambda>ns' ep'. if ns' = ns \<and> ep' = ep then Some key else spec_key xs ns' ep')"
        using True Store by (auto simp: fun_eq_iff)
      ultimately show ?thesis using key_ok_store[OF ok True] Store by simp
    next
      case False
      then have "snd (storeContentEpochKey ns ep key c) = c" by (simp add: storeContentEpochKey_def)
      moreover have "spec_key (x # xs) = spec_key xs" using False Store by (auto simp: fun_eq_iff)
      ultimately show ?thesis using ok Store by simp
    qed
  next
    case (ClearStored ns)
    moreover have "spec_key (x # xs) = (\<lambda>ns' ep'. if ns' = ns then None else spec_key xs ns' ep')"
      using ClearStored by (auto simp: fun_eq_iff)
    ultimately show ?thesis using key_ok_clear[OF ok] by simp
  next
    case (Load ns)
    moreover have "spec_key (x # xs) = spec_key xs" using Load by (auto simp: fun_eq_iff)
    ultimately show ?thesis
      using key_ok_frame[OF ok] by (simp add: loadContentKeys_def clearActiveContentKeys_def Let_def)
  next
    case ClearActive
    moreover have "spec_key (x # xs) = spec_key xs" using ClearActive by (auto simp: fun_eq_iff)
    ultimately show ?thesis using key_ok_frame[OF ok] by (simp add: clearActiveContentKeys_def)
  next
    case (Unlock ep key)
    moreover have "spec_key (x # xs) = spec_key xs" using Unlock by (auto simp: fun_eq_iff)
    ultimately show ?thesis using key_ok_frame[OF ok] by simp
  qed
qed

lemma key_ok_run: "key_ok (spec_key (rev ops)) (key_run ops)"
proof (induction ops rule: rev_induct)
  case Nil
  have "spec_key [] = (\<lambda>ns ep. None)" by (simp add: fun_eq_iff)
  then show ?case by (simp add: key_run_def key_ok_def new_keys_def getItem_def readEpochIndex_def)
next
  case (snoc x ops)
  from key_ok_step[OF this, of x] show ?case by (simp add: key_run_def del: spec_key.simps)
qed

definition write_ok :: "content_keys \<Rightarrow> bool" where
  \<comment> \<open>new posts are sealed under the newest unlocked epoch\<close>
  "write_ok c \<longleftrightarrow> (\<forall>ep. map_of (epochKeys c) ep \<noteq> None \<longrightarrow> 0 \<le> ep \<and> ep \<le> writeEpoch c) \<and>
     (if writeEpoch c < 0 then epochKeys c = [] else map_of (epochKeys c) (writeEpoch c) \<noteq> None)"

lemma write_ok_set: "write_ok c \<Longrightarrow> write_ok (setContentEpochKey ep key c)"
proof (cases "ep < 0 \<or> length key \<noteq> CONTENT_KEY_BYTES")
  case False
  assume ok: "write_ok c"
  then have "ep > writeEpoch c \<or> 0 \<le> writeEpoch c" using False by auto
  with False ok show ?thesis
    unfolding write_ok_def setContentEpochKey_def by (auto simp: js_map_simps)
qed (auto simp: setContentEpochKey_def)

lemma load_epoch_ok:
  assumes "getItem (key_items c) (keyItem ns ep) = Some (bytesToHex key)" and "length key = CONTENT_KEY_BYTES"
  shows "load_epoch ns c ep = setContentEpochKey ep key c"
proof -
  have "bytesToHex key \<noteq> ''''"
    using assms(2) length_bytesToHex[of key] by (auto simp: CONTENT_KEY_BYTES_def simp del: length_bytesToHex)
  with assms show ?thesis by (simp add: load_epoch_def)
qed

lemma foldl_load:
  assumes "\<forall>ep \<in> set eps. 0 \<le> ep \<and> (\<exists>key. f ep = Some key \<and> length key = CONTENT_KEY_BYTES
      \<and> getItem (key_items c) (keyItem ns ep) = Some (bytesToHex key))" and "write_ok c"
  shows "getContentEpochKey (foldl (load_epoch ns) c eps) ep = (if ep \<in> set eps then f ep else getContentEpochKey c ep)
    \<and> write_ok (foldl (load_epoch ns) c eps)"
  using assms
proof (induction eps arbitrary: c)
  case (Cons e eps)
  then obtain key where key: "f e = Some key" "length key = CONTENT_KEY_BYTES" "0 \<le> e"
    "getItem (key_items c) (keyItem ns e) = Some (bytesToHex key)" by auto
  have step: "load_epoch ns c e = setContentEpochKey e key c" by (rule load_epoch_ok[OF key(4,2)])
  have "getContentEpochKey (setContentEpochKey e key c) ep = (if ep = e then f e else getContentEpochKey c ep)" for ep
    using key by (simp add: getContentEpochKey_def setContentEpochKey_def js_map_simps)
  with Cons.IH[of "setContentEpochKey e key c"] Cons.prems step write_ok_set[of c e key] show ?case by simp
qed simp

text \<open>
  C31. Unlocked keys are kept per account.  After any sequence of stored keys, loads, wipes of an
  account's keys, cleared caches and unlocks, loading an account makes readable exactly the epochs
  whose keys were stored for this account since its last wipe, each with the key stored last, and
  seals new posts under the newest of them.  Keys of other accounts have no effect.
\<close>

theorem load_restores_account_keys:
  "let c = loadContentKeys ns (key_run ops) in
     (\<forall>ep. getContentEpochKey c ep = (if 0 \<le> ep then spec_key (rev ops) ns ep else None))
   \<and> (case getWriteContentKey c of
        None \<Rightarrow> \<forall>ep \<ge> 0. spec_key (rev ops) ns ep = None
      | Some (ep, key) \<Rightarrow> spec_key (rev ops) ns ep = Some key \<and> (\<forall>ep' > ep. spec_key (rev ops) ns ep' = None))"
proof -
  let ?f = "spec_key (rev ops) ns"
  let ?c = "clearActiveContentKeys (key_run ops)"
  have ok: "key_ok (spec_key (rev ops)) ?c"
    by (rule key_ok_frame[OF key_ok_run]) (simp_all add: clearActiveContentKeys_def)
  have idx: "ep \<in> set (readEpochIndex ns ?c) \<longleftrightarrow> 0 \<le> ep \<and> ?f ep \<noteq> None" for ep
    using ok by (simp add: key_ok_def)
  have "\<forall>ep \<in> set (readEpochIndex ns ?c). 0 \<le> ep \<and> (\<exists>key. ?f ep = Some key \<and> length key = CONTENT_KEY_BYTES
      \<and> getItem (key_items ?c) (keyItem ns ep) = Some (bytesToHex key))"
    using ok idx unfolding key_ok_def by auto
  moreover have "write_ok ?c" by (simp add: write_ok_def clearActiveContentKeys_def)
  moreover have "loadContentKeys ns (key_run ops) = foldl (load_epoch ns) ?c (readEpochIndex ns ?c)"
    using ok by (simp add: loadContentKeys_def key_ok_def Let_def)
  ultimately have c: "getContentEpochKey (loadContentKeys ns (key_run ops)) ep =
      (if ep \<in> set (readEpochIndex ns ?c) then ?f ep else getContentEpochKey ?c ep)"
    "write_ok (loadContentKeys ns (key_run ops))" for ep
    using foldl_load[of "readEpochIndex ns ?c" ?f ?c ns] by auto
  have keys: "getContentEpochKey (loadContentKeys ns (key_run ops)) ep = (if 0 \<le> ep then ?f ep else None)" for ep
    unfolding c(1) idx by (auto simp: getContentEpochKey_def clearActiveContentKeys_def)
  let ?l = "loadContentKeys ns (key_run ops)"
  have m: "map_of (epochKeys ?l) ep = (if 0 \<le> ep then ?f ep else None)" for ep
    using keys by (simp add: getContentEpochKey_def)
  have "case getWriteContentKey ?l of None \<Rightarrow> \<forall>ep \<ge> 0. ?f ep = None
      | Some (ep, key) \<Rightarrow> ?f ep = Some key \<and> (\<forall>ep' > ep. ?f ep' = None)"
  proof (cases "writeEpoch ?l < 0")
    case True
    then have "map_of (epochKeys ?l) ep = None" for ep using c(2) by (simp add: write_ok_def)
    then have "\<forall>ep \<ge> 0. ?f ep = None" using m by metis
    with True show ?thesis by (simp add: getWriteContentKey_def)
  next
    case False
    then obtain key where k: "map_of (epochKeys ?l) (writeEpoch ?l) = Some key"
      using c(2) by (auto simp: write_ok_def)
    have "?f ep = None" if "writeEpoch ?l < ep" for ep
    proof (rule ccontr)
      assume "?f ep \<noteq> None"
      then have "map_of (epochKeys ?l) ep \<noteq> None" using m[of ep] that False by simp
      then have "ep \<le> writeEpoch ?l" using c(2) unfolding write_ok_def by blast
      with that show False by simp
    qed
    with False k m[of "writeEpoch ?l"] show ?thesis by (simp add: getWriteContentKey_def)
  qed
  with keys show ?thesis by (simp add: Let_def)
qed

definition ex_key :: "u8 \<Rightarrow> u8 list" where
  "ex_key b = replicate 32 b"

definition ex_key_ops :: "key_op list" where
  "ex_key_ops = [Store ''a'' 3 (ex_key 1), Store ''b'' 4 (ex_key 2), Store ''a'' 2 (ex_key 3)]"

theorem load_restores_account_keys_witness:
  "getContentEpochKey (loadContentKeys ''a'' (key_run ex_key_ops)) 3 = Some (ex_key 1)
   \<and> getContentEpochKey (loadContentKeys ''a'' (key_run ex_key_ops)) 4 = None"
  using load_restores_account_keys[of "''a''" ex_key_ops]
  by (simp add: Let_def ex_key_ops_def ex_key_def CONTENT_KEY_BYTES_def)

section \<open>Migration\<close>

text \<open>
  The migration strands keys.  Where the target account already has an index, the copied keys
  are not entered in it: the account cannot load them, and wiping the account leaves them in the
  store.
\<close>

theorem migration_strands_keys:
  "let c = migrateContentKeys ''old'' ''new'' (key_run [Store ''old'' 1 (ex_key 1), Store ''new'' 2 (ex_key 2)])
   in getItem (key_items c) (keyItem ''new'' 1) = Some (bytesToHex (ex_key 1))
    \<and> getContentEpochKey (loadContentKeys ''new'' c) 1 = None
    \<and> getItem (key_items (clearStoredContentKeys ''new'' c)) (keyItem ''new'' 1) = Some (bytesToHex (ex_key 1))"
proof -
  define d where "d = key_run [Store ''old'' 1 (ex_key 1), Store ''new'' 2 (ex_key 2)]"
  have d: "d = \<lparr>epochKeys = [], writeEpoch = -1, storage_wired = True,
      key_items = setItem (keyItem ''new'' 2) (bytesToHex (ex_key 2)) (setItem (keyItem ''old'' 1) (bytesToHex (ex_key 1)) []),
      index_items = setItem (indexItem ''new'') [Some 2] (setItem (indexItem ''old'') [Some 1] [])\<rparr>"
    by (simp add: d_def key_run_def new_keys_def storeContentEpochKey_def ex_key_def CONTENT_KEY_BYTES_def Let_def
        readEpochIndex_def storage_simps getItem_def[of "[]"])
  define c where "c = migrateContentKeys ''old'' ''new'' d"
  have c: "c = d\<lparr>key_items := setItem (keyItem ''new'' 1) (bytesToHex (ex_key 1)) (key_items d)\<rparr>"
    by (simp add: c_def d migrateContentKeys_def epochs_of_def copy_epoch_def storage_simps Let_def getItem_def[of "[]"])
  have idx: "readEpochIndex ''new'' (clearActiveContentKeys c) = [2]" "readEpochIndex ''new'' c = [2]"
    by (simp_all add: c d readEpochIndex_def clearActiveContentKeys_def storage_simps epochs_of_def)
  have "getContentEpochKey (loadContentKeys ''new'' c) 1 = None"
    using idx unfolding loadContentKeys_def
    by (auto simp: Let_def load_epoch_def setContentEpochKey_def getContentEpochKey_def js_map_simps
        clearActiveContentKeys_def split: option.splits sum.splits)
  moreover have "getItem (key_items (clearStoredContentKeys ''new'' c)) (keyItem ''new'' 1) = Some (bytesToHex (ex_key 1))"
    using idx(2) unfolding clearStoredContentKeys_def by (simp add: c d storage_simps)
  moreover have "getItem (key_items c) (keyItem ''new'' 1) = Some (bytesToHex (ex_key 1))"
    by (simp add: c storage_simps)
  ultimately show ?thesis by (simp add: Let_def c_def d_def)
qed

section \<open>Reading sealed bodies\<close>

text \<open>
  A sealed body is shown only with its key.  Whatever the memo holds, a body is reported
  locked, and nothing of it is shown, unless the key of the epoch it names is loaded; so clearing the
  keys locks every sealed post again.  With its key loaded, and a memo of what was decrypted before,
  it shows the decrypted text, never the ciphertext.
\<close>

theorem sealed_body_needs_key:
  assumes "isSealedContent e"
  shows "contentLockState number c e = LockedBody \<Longrightarrow> fst (resolveContent P number c e memo) = ('''', True)"
    and "fst (resolveContent P number (clearActiveContentKeys c) e memo) = ('''', True)"
    and "fst (resolveContent P number c e memo) = (text, False) \<Longrightarrow>
      (e, text) \<in> set memo \<or> (\<exists>ep key. contentEpochOf number e = Some ep \<and> getContentEpochKey c ep = Some key
        \<and> s_decrypt P (content e) key = Some text)"
proof -
  show "contentLockState number c e = LockedBody \<Longrightarrow> fst (resolveContent P number c e memo) = ('''', True)"
    using assms by (auto simp: contentLockState_def resolveContent_def hasContentEpochKey_def getContentEpochKey_def
        split: option.splits if_splits)
  show "fst (resolveContent P number (clearActiveContentKeys c) e memo) = ('''', True)"
    using assms by (auto simp: resolveContent_def getContentEpochKey_def clearActiveContentKeys_def split: option.splits)
  show "(e, text) \<in> set memo \<or> (\<exists>ep key. contentEpochOf number e = Some ep \<and> getContentEpochKey c ep = Some key
        \<and> s_decrypt P (content e) key = Some text)" if "fst (resolveContent P number c e memo) = (text, False)"
    using assms that by (auto simp: resolveContent_def dest: map_of_SomeD split: option.splits)
qed

end
