(* ===== verification/Viewer.thy ===== *)
theory Viewer
  imports ContentKey
begin

text \<open>
  What a device makes of an event: the member who wrote it and the text it can read.  The feed and
  moderation modules call \<open>resolveAuthorPubkey\<close>, \<open>isOffRollBlindPost\<close>, \<open>isUnattributedBlindPost\<close> and
  \<open>resolveContent\<close>; here these are read off the active community and the unlocked content keys.
  While one community is active the caches of those modules return the same
  (\<open>author_cache_transparent\<close>).
\<close>

record viewer =
  v_sealing :: sealing
  v_number :: "string \<Rightarrow> int option"
  v_community :: community
  v_keys :: content_keys

definition real_author :: "viewer \<Rightarrow> event \<Rightarrow> string" where
  \<comment> \<open>\<open>resolveAuthorPubkey(event)\<close>\<close>
  "real_author V e = ra_pubkey (author (v_sealing V) (v_community V) e)"

definition off_roll :: "viewer \<Rightarrow> event \<Rightarrow> bool" where
  "off_roll V e = offRoll (v_sealing V) (v_community V) e"

definition no_author :: "viewer \<Rightarrow> event \<Rightarrow> bool" where
  "no_author V e = unattributed (v_sealing V) (v_community V) e"

definition body_of :: "viewer \<Rightarrow> event \<Rightarrow> string \<times> bool" where
  \<comment> \<open>the text and whether it is locked\<close>
  "body_of V e = fst (resolveContent (v_sealing V) (v_number V) (v_keys V) e [])"

definition ex_viewer :: viewer where
  "ex_viewer = \<lparr>v_sealing = ex_sealing, v_number = (\<lambda>_. None), v_community = new_community, v_keys = new_keys\<rparr>"

end
