(* ===== verification/EventStore.thy ===== *)
theory EventStore
  imports Prelude
begin

text \<open>
  \<open>client/src/nostr/store.ts\<close> and \<open>client/src/nostr/cacheExempt.ts\<close>: the event cache.

  \<open>mstore\<close> is \<open>InMemoryEventStore\<close> with its two indices and version counters; \<open>pstore\<close> is
  \<open>PersistentEventStore\<close>, whose asynchronous flush is a step relation over the pending timer, the
  snapshot in flight and the dirty mark; \<open>swap\<close> is \<open>SwappableEventStore\<close>.  The stored blob is the
  JSON text of an array: an entry without a string id is \<^const>\<open>None\<close>, and a text that is not an
  array or does not parse is \<open>Unusable\<close>.
\<close>

section \<open>Definitions\<close>

subsection \<open>cacheExempt.ts\<close>

definition CACHE_EXEMPT_KINDS :: "nat list" where
  "CACHE_EXEMPT_KINDS = [0, 3, 5, 13, 14, 40, 41, 1059, 1984, 9009]"

definition isCacheExempt :: "nat \<Rightarrow> bool" where
  "isCacheExempt k = (k \<in> set CACHE_EXEMPT_KINDS \<or> (10000 \<le> k \<and> k \<le> 19999) \<or> (30000 \<le> k \<and> k \<le> 39999))"

definition isReplaceableOrAddressable :: "nat \<Rightarrow> bool" where
  "isReplaceableOrAddressable k =
     (k = 0 \<or> k = 3 \<or> (10000 \<le> k \<and> k \<le> 19999) \<or> (30000 \<le> k \<and> k \<le> 39999))"

definition isEphemeralKind :: "nat \<Rightarrow> bool" where
  "isEphemeralKind k = (20000 \<le> k \<and> k \<le> 29999)"

subsection \<open>InMemoryEventStore\<close>

record feed_query =
  q_kinds :: "nat list option"
  q_authors :: "string list option"
  q_limit :: "nat option"
  q_unordered :: bool

record delete_opts =
  olderThanSeconds :: "int option"
  d_kinds :: "nat list option"

record mstore =
  byId :: "(string \<times> event) list"
  byKind :: "(nat \<times> (string \<times> event) list) list"
  globalVersion :: nat
  kindVersions :: "(nat \<times> nat) list"

definition empty_store :: mstore where
  "empty_store = \<lparr>byId = [], byKind = [], globalVersion = 0, kindVersions = []\<rparr>"

definition kindVersion :: "mstore \<Rightarrow> nat \<Rightarrow> nat" where
  "kindVersion st k = (case map_of (kindVersions st) k of None \<Rightarrow> 0 | Some v \<Rightarrow> v)"

definition bumpKind :: "nat \<Rightarrow> mstore \<Rightarrow> mstore" where
  "bumpKind k st = st\<lparr>globalVersion := globalVersion st + 1,
     kindVersions := AList.update k (kindVersion st k + 1) (kindVersions st)\<rparr>"

definition versionOf :: "mstore \<Rightarrow> nat list \<Rightarrow> nat" where
  "versionOf st ks = foldl (\<lambda>sum k. sum + kindVersion st k) 0 ks"

definition version :: "mstore \<Rightarrow> nat" where
  "version st = globalVersion st"

definition bucket_of :: "mstore \<Rightarrow> nat \<Rightarrow> (string \<times> event) list" where
  \<comment> \<open>the bucket of a kind; a missing bucket reads as empty everywhere\<close>
  "bucket_of st k = (case map_of (byKind st) k of None \<Rightarrow> [] | Some b \<Rightarrow> b)"

definition index :: "event \<Rightarrow> mstore \<Rightarrow> mstore" where
  "index e st = st\<lparr>byKind := AList.update (kind e) (AList.update (eid e) e (bucket_of st (kind e))) (byKind st)\<rparr>"

definition deindex :: "event \<Rightarrow> mstore \<Rightarrow> mstore" where
  "deindex e st =
     (case map_of (byKind st) (kind e) of
        None \<Rightarrow> st
      | Some b \<Rightarrow>
          let b = AList.delete (eid e) b
          in st\<lparr>byKind := (if b = [] then AList.delete (kind e) (byKind st)
                          else AList.update (kind e) b (byKind st))\<rparr>)"

definition has :: "mstore \<Rightarrow> string \<Rightarrow> bool" where
  "has st i = (map_of (byId st) i \<noteq> None)"

definition getById :: "mstore \<Rightarrow> string \<Rightarrow> event option" where
  "getById st i = map_of (byId st) i"

definition save :: "event \<Rightarrow> mstore \<Rightarrow> mstore \<times> bool" where
  "save e st =
     (if has st (eid e) then (st, False)
      else (bumpKind (kind e) (index e (st\<lparr>byId := AList.update (eid e) e (byId st)\<rparr>)), True))"

definition remove :: "string \<Rightarrow> mstore \<Rightarrow> mstore \<times> bool" where
  "remove i st =
     (case getById st i of
        None \<Rightarrow> (st, False)
      | Some e \<Rightarrow> (bumpKind (kind e) (deindex e (st\<lparr>byId := AList.delete i (byId st)\<rparr>)), True))"

definition deletable :: "delete_opts \<Rightarrow> event \<Rightarrow> bool" where
  \<comment> \<open>the body of the loops of \<open>deleteCachedEvents\<close> and \<open>cachedEventCount\<close>\<close>
  "deletable opts e =
     (\<not> isCacheExempt (kind e)
      \<and> (case d_kinds opts of None \<Rightarrow> True | Some ks \<Rightarrow> kind e \<in> set ks)
      \<and> created_at e < (case olderThanSeconds opts of None \<Rightarrow> 9007199254740991 | Some c \<Rightarrow> c))"

definition deleteCachedEvents :: "delete_opts \<Rightarrow> mstore \<Rightarrow> mstore \<times> nat" where
  "deleteCachedEvents opts st =
     (let doomed = map eid (filter (deletable opts) (map snd (byId st)))
      in (foldl (\<lambda>st i. fst (remove i st)) st doomed, length doomed))"

definition cachedEventCount :: "delete_opts \<Rightarrow> mstore \<Rightarrow> nat" where
  "cachedEventCount opts st =
     foldl (\<lambda>n e. if deletable opts e then n + 1 else n) 0 (map snd (byId st))"

definition newest_first :: "event \<Rightarrow> event \<Rightarrow> int" where
  "newest_first a b = created_at b - created_at a"

definition query :: "mstore \<Rightarrow> feed_query \<Rightarrow> event list" where
  "query st q =
     (let events = (case q_kinds q of
            Some ks \<Rightarrow> concat (map (\<lambda>k. map snd (bucket_of st k)) ks)
          | None \<Rightarrow> map snd (byId st));
          events = (case q_authors q of
            Some as \<Rightarrow> filter (\<lambda>e. pubkey e \<in> set as) events
          | None \<Rightarrow> events);
          events = (if \<not> q_unordered q \<or> q_limit q \<noteq> None then js_sort newest_first events else events)
      in case q_limit q of Some n \<Rightarrow> take n events | None \<Rightarrow> events)"

definition getPosts :: "mstore \<Rightarrow> nat option \<Rightarrow> event list" where
  "getPosts st limit = query st \<lparr>q_kinds = Some [1], q_authors = None, q_limit = limit, q_unordered = False\<rparr>"

definition newer :: "int option \<Rightarrow> event \<Rightarrow> int option" where
  "newer mx e = (case mx of None \<Rightarrow> Some (created_at e)
     | Some m \<Rightarrow> if created_at e > m then Some (created_at e) else Some m)"

definition latestCreatedAt :: "mstore \<Rightarrow> nat list option \<Rightarrow> int option" where
  "latestCreatedAt st kinds =
     (case kinds of
        Some ks \<Rightarrow> foldl (\<lambda>mx k. foldl newer mx (map snd (bucket_of st k))) None ks
      | None \<Rightarrow> foldl newer None (map snd (byId st)))"

definition store_size :: "mstore \<Rightarrow> nat" where
  "store_size st = length (byId st)"

definition clear :: "mstore \<Rightarrow> mstore" where
  "clear st = \<lparr>byId = [], byKind = [], globalVersion = globalVersion st + 1, kindVersions = []\<rparr>"

subsection \<open>PersistentEventStore\<close>

datatype cache_blob = Entries "event option list" | Unusable

definition MAX_PERSISTED_EVENTS :: nat where "MAX_PERSISTED_EVENTS = 2000"

record pstore =
  mem :: mstore
  flushTimer :: bool
  flushRunning :: "event list option" \<comment> \<open>the snapshot being serialized and written\<close>
  flushDirty :: bool
  blob :: "cache_blob option" \<comment> \<open>what the secure store holds under \<open>cacheItem\<close>\<close>

fun load_entries :: "event option list \<Rightarrow> mstore \<Rightarrow> mstore" where
  "load_entries [] st = st"
| "load_entries (None # es) st = load_entries es st"
| "load_entries (Some e # es) st =
     load_entries es (index e (st\<lparr>byId := AList.update (eid e) e (byId st)\<rparr>))"

definition create :: "cache_blob option \<Rightarrow> pstore" where
  "create b = \<lparr>mem = (case b of Some (Entries es) \<Rightarrow> load_entries es empty_store | _ \<Rightarrow> empty_store),
     flushTimer = False, flushRunning = None, flushDirty = False, blob = b\<rparr>"

definition snapshot :: "mstore \<Rightarrow> event list" where
  "snapshot st = query st \<lparr>q_kinds = None, q_authors = None, q_limit = Some MAX_PERSISTED_EVENTS,
     q_unordered = False\<rparr>"

definition scheduleFlush :: "pstore \<Rightarrow> pstore" where
  "scheduleFlush p = p\<lparr>flushTimer := True\<rparr>"

definition p_save :: "event \<Rightarrow> pstore \<Rightarrow> pstore" where
  "p_save e p = (let (m, added) = save e (mem p); p = p\<lparr>mem := m\<rparr>
     in if added then scheduleFlush p else p)"

definition p_remove :: "string \<Rightarrow> pstore \<Rightarrow> pstore" where
  "p_remove i p = (let (m, removed) = remove i (mem p); p = p\<lparr>mem := m\<rparr>
     in if removed then scheduleFlush p else p)"

definition p_clear :: "pstore \<Rightarrow> pstore" where
  "p_clear p = p\<lparr>mem := clear (mem p), flushTimer := False, blob := None\<rparr>"

definition flush_fire :: "pstore \<Rightarrow> pstore" where
  \<comment> \<open>the timer's callback: \<open>flush\<close> up to its first \<open>await\<close>\<close>
  "flush_fire p =
     (let p = p\<lparr>flushTimer := False\<rparr>
      in if flushRunning p \<noteq> None then p\<lparr>flushDirty := True\<rparr>
         else p\<lparr>flushDirty := False, flushRunning := Some (snapshot (mem p))\<rparr>)"

definition flush_written :: "bool \<Rightarrow> pstore \<Rightarrow> pstore" where
  \<comment> \<open>\<open>setItem\<close> has resolved (\<open>ok\<close>) or thrown; the loop runs once more when dirty\<close>
  "flush_written ok p =
     (case flushRunning p of
        None \<Rightarrow> p
      | Some es \<Rightarrow>
          let p = (if ok then p\<lparr>blob := Some (Entries (map Some es))\<rparr> else p)
          in if flushDirty p then p\<lparr>flushDirty := False, flushRunning := Some (snapshot (mem p))\<rparr>
             else p\<lparr>flushRunning := None\<rparr>)"

datatype p_event = PSave event | PRemove string | PClear | PFire | PWritten bool

fun p_enabled :: "p_event \<Rightarrow> pstore \<Rightarrow> bool" where
  "p_enabled PFire p = flushTimer p"
| "p_enabled (PWritten _) p = (flushRunning p \<noteq> None)"
| "p_enabled _ p = True"

fun p_apply :: "p_event \<Rightarrow> pstore \<Rightarrow> pstore" where
  "p_apply (PSave e) p = p_save e p"
| "p_apply (PRemove i) p = p_remove i p"
| "p_apply PClear p = p_clear p"
| "p_apply PFire p = flush_fire p"
| "p_apply (PWritten ok) p = flush_written ok p"

inductive p_steps :: "pstore \<Rightarrow> p_event list \<Rightarrow> pstore \<Rightarrow> bool" where
  p_refl: "p_steps p [] p"
| p_step: "p_steps p as p' \<Longrightarrow> p_enabled a p' \<Longrightarrow> p_steps p (as @ [a]) (p_apply a p')"

subsection \<open>SwappableEventStore\<close>

record swap =
  base :: nat
  inner :: mstore

definition sw_version :: "swap \<Rightarrow> nat" where
  "sw_version w = base w + version (inner w)"

definition sw_versionOf :: "swap \<Rightarrow> nat list \<Rightarrow> nat" where
  "sw_versionOf w ks = base w + versionOf (inner w) ks"

definition sw_kindVersion :: "swap \<Rightarrow> nat \<Rightarrow> nat" where
  "sw_kindVersion w k = base w + kindVersion (inner w) k"

definition setInner :: "mstore \<Rightarrow> swap \<Rightarrow> swap" where
  "setInner st w = \<lparr>base = sw_version w + 1, inner = st\<rparr>"

definition sw_save :: "event \<Rightarrow> swap \<Rightarrow> swap \<times> bool" where
  "sw_save e w = (let (st, added) = save e (inner w) in (w\<lparr>inner := st\<rparr>, added))"

fun sw_saveNewBatch :: "event list \<Rightarrow> swap \<Rightarrow> swap \<times> event list" where
  "sw_saveNewBatch [] w = (w, [])"
| "sw_saveNewBatch (e # es) w =
     (let (w, added) = sw_save e w; (w, stored) = sw_saveNewBatch es w
      in (w, if added then e # stored else stored))"

definition sw_remove :: "string \<Rightarrow> swap \<Rightarrow> swap \<times> bool" where
  "sw_remove i w = (let (st, removed) = remove i (inner w) in (w\<lparr>inner := st\<rparr>, removed))"

definition sw_deleteCachedEvents :: "delete_opts \<Rightarrow> swap \<Rightarrow> swap \<times> nat" where
  "sw_deleteCachedEvents opts w = (let (st, n) = deleteCachedEvents opts (inner w) in (w\<lparr>inner := st\<rparr>, n))"

definition sw_clear :: "swap \<Rightarrow> swap" where
  "sw_clear w = w\<lparr>inner := clear (inner w)\<rparr>"

section \<open>The two indices agree\<close>

datatype st_op = Save event | Remove string | DeleteCached delete_opts | Clear

fun st_apply :: "mstore \<Rightarrow> st_op \<Rightarrow> mstore" where
  "st_apply st (Save e) = fst (save e st)"
| "st_apply st (Remove i) = fst (remove i st)"
| "st_apply st (DeleteCached opts) = fst (deleteCachedEvents opts st)"
| "st_apply st Clear = clear st"

definition run :: "st_op list \<Rightarrow> mstore" where
  \<comment> \<open>the store after a sequence of calls\<close>
  "run ops = foldl st_apply empty_store ops"

definition store_ok :: "mstore \<Rightarrow> bool" where
  "store_ok st \<longleftrightarrow> distinct (map fst (byId st)) \<and> (\<forall>(i, e) \<in> set (byId st). eid e = i)
     \<and> (\<forall>k. bucket_of st k = filter (\<lambda>(i, e). kind e = k) (byId st))
     \<and> (\<forall>(k, b) \<in> set (byKind st). b \<noteq> [])"

lemma delete_filter: "AList.delete i m = filter (\<lambda>(j, _). i \<noteq> j) m"
  by (simp add: AList.delete_eq)

lemma bucket_of_simps [simp]:
  "bucket_of (bumpKind k st) = bucket_of st" "bucket_of (st\<lparr>byId := m\<rparr>) = bucket_of st"
  "bucket_of (index e st) k = (if k = kind e then AList.update (eid e) e (bucket_of st k) else bucket_of st k)"
  by (auto simp: bucket_of_def bumpKind_def index_def js_map_simps fun_eq_iff)

lemma bucket_of_deindex [simp]:
  "bucket_of (deindex e st) k =
     (if k = kind e then AList.delete (eid e) (bucket_of st k) else bucket_of st k)"
  by (auto simp: bucket_of_def deindex_def js_map_simps Let_def split: option.splits)

lemma byId_simps [simp]:
  "byId (bumpKind k st) = byId st" "byId (index e st) = byId st" "byId (deindex e st) = byId st"
  by (auto simp: bumpKind_def index_def deindex_def Let_def split: option.splits)


lemma store_ok_empty: "store_ok empty_store"
  by (simp add: store_ok_def empty_store_def bucket_of_def)

lemma store_ok_add:
  assumes "store_ok st" "\<not> has st (eid e)"
  defines "st' \<equiv> index e (st\<lparr>byId := AList.update (eid e) e (byId st)\<rparr>)"
  shows "byId st' = byId st @ [(eid e, e)]" "store_ok st'"
proof -
  have new: "eid e \<notin> set (map fst (byId st))"
    using assms(2) by (auto simp: has_def map_of_eq_None_iff)
  then show byId: "byId st' = byId st @ [(eid e, e)]"
    by (simp add: st'_def values_update_new)
  have bucket: "bucket_of st' k = filter (\<lambda>(i, e). kind e = k) (byId st')" for k
  proof -
    have "AList.update (eid e) e (filter (\<lambda>(i, e'). kind e' = k) (byId st)) =
        filter (\<lambda>(i, e'). kind e' = k) (byId st) @ [(eid e, e)]"
      using new by (intro values_update_new) auto
    with assms(1) show ?thesis by (simp add: byId) (simp add: st'_def store_ok_def)
  qed
  have ne: "AList.update i x m \<noteq> []" for i :: string and x :: event and m by (cases m) auto
  have "\<forall>(k, b) \<in> set (byKind st'). b \<noteq> []"
    using assms(1) ne[symmetric] by (auto simp: st'_def store_ok_def index_def dest!: set_update_bucket)
  with assms(1) new bucket show "store_ok st'" by (auto simp: store_ok_def byId)
qed

lemma store_ok_bump [simp]: "store_ok (bumpKind k st) = store_ok st"
  by (simp add: store_ok_def) (simp add: bumpKind_def)

lemma save_byId:
  assumes "store_ok st"
  shows "byId (fst (save e st)) = (if has st (eid e) then byId st else byId st @ [(eid e, e)])"
    "store_ok (fst (save e st))"
  using store_ok_add[OF assms, of e] assms by (auto simp: save_def)

lemma remove_byId:
  assumes "store_ok st"
  shows "byId (fst (remove i st)) = filter (\<lambda>(j, _). i \<noteq> j) (byId st)" "store_ok (fst (remove i st))"
proof -
  have "byId (fst (remove i st)) = filter (\<lambda>(j, _). i \<noteq> j) (byId st) \<and> store_ok (fst (remove i st))"
  proof (cases "getById st i")
    case None
    then have "filter (\<lambda>(j, _). i \<noteq> j) (byId st) = byId st"
      by (auto simp: getById_def map_of_eq_None_iff filter_id_conv image_iff)
    with None assms show ?thesis by (simp add: remove_def)
  next
    case (Some e)
    then have e: "eid e = i" "(i, e) \<in> set (byId st)"
      using assms by (auto simp: getById_def store_ok_def dest: map_of_SomeD)
    define st' where "st' = deindex e (st\<lparr>byId := AList.delete i (byId st)\<rparr>)"
    have byId: "byId st' = filter (\<lambda>(j, _). i \<noteq> j) (byId st)"
      by (simp add: st'_def delete_filter)
    have only: "x = e" if "(i, x) \<in> set (byId st)" for x
      using that e assms by (auto simp: store_ok_def dest: eq_key_imp_eq_value)
    have bucket: "bucket_of st' k = filter (\<lambda>(i, e). kind e = k) (byId st')" for k
    proof (cases "k = kind e")
      case True
      with assms e show ?thesis
        by (simp add: byId) (auto simp: st'_def store_ok_def delete_filter intro: filter_cong)
    next
      case False
      have "filter (\<lambda>(i, e). kind e = k) (byId st) =
          filter (\<lambda>x. (case x of (j, _) \<Rightarrow> i \<noteq> j) \<and> (case x of (i, e) \<Rightarrow> kind e = k)) (byId st)"
        using only False by (intro filter_cong) auto
      with assms False show ?thesis
        by (simp add: byId) (simp add: st'_def store_ok_def conj_commute)
    qed
    have "\<forall>(k, b) \<in> set (byKind st'). b \<noteq> []"
      using assms by (auto simp: st'_def store_ok_def deindex_def Let_def delete_filter
          split: option.splits if_splits dest!: set_update_bucket)
    with assms bucket have "store_ok st'"
      by (auto simp: store_ok_def byId distinct_map_filter)
    with Some byId show ?thesis by (simp add: remove_def flip: st'_def)
  qed
  then show "byId (fst (remove i st)) = filter (\<lambda>(j, _). i \<noteq> j) (byId st)" "store_ok (fst (remove i st))"
    by auto
qed

lemma remove_all:
  "store_ok st \<Longrightarrow> store_ok (foldl (\<lambda>st i. fst (remove i st)) st is)
   \<and> byId (foldl (\<lambda>st i. fst (remove i st)) st is) = filter (\<lambda>(j, _). j \<notin> set is) (byId st)"
proof (induction "is" arbitrary: st)
  case (Cons i "is")
  then show ?case
    using remove_byId[OF Cons.prems, of i] by (auto intro: filter_cong simp: case_prod_unfold conj_commute)
qed simp

lemma delete_byId:
  assumes "store_ok st"
  shows "byId (fst (deleteCachedEvents opts st)) = filter (\<lambda>(_, e). \<not> deletable opts e) (byId st)"
    "store_ok (fst (deleteCachedEvents opts st))"
proof -
  let ?doomed = "map eid (filter (deletable opts) (map snd (byId st)))"
  have "i \<notin> set ?doomed \<longleftrightarrow> \<not> deletable opts e" if e: "(i, e) \<in> set (byId st)" for i e
  proof -
    have id: "eid e = i" using e assms by (auto simp: store_ok_def)
    have "x = e" if "x \<in> snd ` set (byId st)" "eid x = i" for x
      using that e assms by (auto simp: store_ok_def dest: eq_key_imp_eq_value)
    with e id show ?thesis by force
  qed
  then have "filter (\<lambda>(j, _). j \<notin> set ?doomed) (byId st) = filter (\<lambda>(_, e). \<not> deletable opts e) (byId st)"
    by (intro filter_cong) auto
  then show "byId (fst (deleteCachedEvents opts st)) = filter (\<lambda>(_, e). \<not> deletable opts e) (byId st)"
    "store_ok (fst (deleteCachedEvents opts st))"
    using remove_all[OF assms, of ?doomed] by (simp_all add: deleteCachedEvents_def Let_def)
qed

lemma store_ok_apply: "store_ok st \<Longrightarrow> store_ok (st_apply st op)"
proof (cases op)
  case Clear
  then show ?thesis by (simp add: store_ok_def clear_def bucket_of_def)
qed (auto simp: save_byId remove_byId delete_byId)

lemma store_ok_foldl: "store_ok st \<Longrightarrow> store_ok (foldl st_apply st ops)"
  by (induction ops arbitrary: st) (auto simp: store_ok_apply)

lemma store_ok_run: "store_ok (run ops)"
  by (simp add: run_def store_ok_foldl store_ok_empty)

section \<open>Queries\<close>

interpretation recency: comparator newest_first
  by unfold_locales (auto simp: newest_first_def)

definition query_spec :: "event list \<Rightarrow> feed_query \<Rightarrow> event list" where
  \<comment> \<open>the query over the plain list of cached events, without any index\<close>
  "query_spec evs q =
     (let evs = (case q_kinds q of None \<Rightarrow> evs
            | Some ks \<Rightarrow> concat (map (\<lambda>k. filter (\<lambda>e. kind e = k) evs) ks));
          evs = filter (\<lambda>e. case q_authors q of None \<Rightarrow> True | Some as \<Rightarrow> pubkey e \<in> set as) evs
      in case q_limit q of
           None \<Rightarrow> if q_unordered q then evs else js_sort newest_first evs
         | Some n \<Rightarrow> take n (js_sort newest_first evs))"

definition cached :: "mstore \<Rightarrow> event list" where
  "cached st = map snd (byId st)"

lemma bucket_events:
  "store_ok st \<Longrightarrow> map snd (bucket_of st k) = filter (\<lambda>e. kind e = k) (cached st)"
  by (simp add: store_ok_def cached_def filter_map comp_def case_prod_unfold)

lemma query_eq_spec: "store_ok st \<Longrightarrow> query st q = query_spec (cached st) q"
  by (cases "q_kinds q"; cases "q_authors q"; cases "q_limit q")
     (simp_all add: query_def query_spec_def bucket_events cached_def[symmetric] Let_def)

text \<open>
  C1. After any sequence of saves, removals, scoped deletions and clears, an answer from the
  per-kind index is the answer of a scan over the list of all cached events.
\<close>

theorem query_refines_scan: "query (run ops) q = query_spec (cached (run ops)) q"
  by (rule query_eq_spec) (rule store_ok_run)

definition matches :: "feed_query \<Rightarrow> event \<Rightarrow> bool" where
  "matches q e \<longleftrightarrow> (case q_kinds q of None \<Rightarrow> True | Some ks \<Rightarrow> kind e \<in> set ks)
     \<and> (case q_authors q of None \<Rightarrow> True | Some as \<Rightarrow> pubkey e \<in> set as)"

lemma take_sorted_rest:
  assumes "sorted_wrt P xs" "x \<in> set (take n xs)" "y \<in> set xs" "y \<notin> set (take n xs)"
  shows "P x y" "length (take n xs) = n"
proof -
  have "y \<in> set (drop n xs)" using assms(3,4) by (metis Un_iff append_take_drop_id set_append)
  then show "P x y"
    using assms(1,2) by (metis append_take_drop_id sorted_wrt_append)
  show "length (take n xs) = n" using \<open>y \<in> set (drop n xs)\<close> by (cases "length xs \<le> n") auto
qed

text \<open>
  A query with a limit returns the newest matching events first, and leaves out a matching
  event only when the limit is reached and nothing returned is older, whatever the ordering flag.
\<close>

theorem query_top_n:
  assumes "q_limit q = Some n"
  shows "sorted_wrt (\<lambda>a b. created_at b \<le> created_at a) (query (run ops) q)
    \<and> length (query (run ops) q) \<le> n
    \<and> (\<forall>e \<in> set (query (run ops) q). matches q e \<and> e \<in> set (cached (run ops)))
    \<and> (\<forall>e \<in> set (cached (run ops)). matches q e \<longrightarrow> e \<notin> set (query (run ops) q) \<longrightarrow>
         length (query (run ops) q) = n \<and> (\<forall>x \<in> set (query (run ops) q). created_at e \<le> created_at x))"
proof -
  define m where "m = filter (\<lambda>e. case q_authors q of None \<Rightarrow> True | Some as \<Rightarrow> pubkey e \<in> set as)
    (case q_kinds q of None \<Rightarrow> cached (run ops)
      | Some ks \<Rightarrow> concat (map (\<lambda>k. filter (\<lambda>e. kind e = k) (cached (run ops))) ks))"
  have q: "query (run ops) q = take n (js_sort newest_first m)"
    using assms by (simp add: query_eq_spec store_ok_run query_spec_def m_def Let_def)
  have m: "set m = {e \<in> set (cached (run ops)). matches q e}"
    by (auto simp: m_def matches_def split: option.splits)
  have srt: "sorted_wrt (\<lambda>a b. created_at b \<le> created_at a) (js_sort newest_first m)"
    using recency.sorted_js_sort[of m] by (simp add: newest_first_def)
  have "set (take n (js_sort newest_first m)) \<subseteq> set m"
    using set_take_subset[of n "js_sort newest_first m"] by simp
  moreover have "length (take n (js_sort newest_first m)) = n \<and>
      (\<forall>x \<in> set (take n (js_sort newest_first m)). created_at e \<le> created_at x)"
    if "e \<in> set m" "e \<notin> set (take n (js_sort newest_first m))" for e
  proof -
    have "length (js_sort newest_first m) > n"
      using that by (metis le_eq_less_or_eq linorder_not_le set_js_sort take_all)
    then show ?thesis using that take_sorted_rest(1)[OF srt, of _ n e] by auto
  qed
  ultimately show ?thesis
    using srt m by (auto simp: q sorted_wrt_take)
qed

theorem query_top_n_witness:
  "let q = \<lparr>q_kinds = Some [1], q_authors = None, q_limit = Some 1, q_unordered = True\<rparr>;
       ev = (\<lambda>i t. \<lparr>eid = i, pubkey = ''p'', created_at = t, kind = 1, tags = [], content = ''''\<rparr>)
   in length (query (run [Save (ev ''a'' 5), Save (ev ''b'' 9)]) q) \<le> 1"
  using query_top_n[of "\<lparr>q_kinds = Some [1], q_authors = None, q_limit = Some 1, q_unordered = True\<rparr>" 1]
  by (simp add: Let_def)

section \<open>Scoped deletion\<close>

lemma count_foldl: "foldl (\<lambda>n e. if P e then n + 1 else n) (n :: nat) es = n + length (filter P es)"
  by (induction es arbitrary: n) auto

text \<open>
  A scoped deletion removes exactly the cached events that match it, keeps the others in
  place, reports the number the preview announces, and never removes a direct message, a report or
  other durable state.
\<close>

theorem deleteCachedEvents_exact:
  "cached (fst (deleteCachedEvents opts (run ops))) = filter (\<lambda>e. \<not> deletable opts e) (cached (run ops))
   \<and> snd (deleteCachedEvents opts (run ops)) = cachedEventCount opts (run ops)
   \<and> length (cached (fst (deleteCachedEvents opts (run ops)))) + cachedEventCount opts (run ops)
       = length (cached (run ops))
   \<and> filter (\<lambda>e. isCacheExempt (kind e)) (cached (fst (deleteCachedEvents opts (run ops))))
       = filter (\<lambda>e. isCacheExempt (kind e)) (cached (run ops))"
proof -
  have c: "cached (fst (deleteCachedEvents opts (run ops))) = filter (\<lambda>e. \<not> deletable opts e) (cached (run ops))"
    by (simp add: cached_def delete_byId store_ok_run filter_map comp_def case_prod_unfold)
  have n: "cachedEventCount opts (run ops) = length (filter (deletable opts) (cached (run ops)))"
    by (simp add: cachedEventCount_def count_foldl cached_def)
  have "snd (deleteCachedEvents opts (run ops)) = cachedEventCount opts (run ops)"
    by (simp add: n deleteCachedEvents_def Let_def cached_def)
  moreover have "filter (\<lambda>e. isCacheExempt (kind e)) (filter (\<lambda>e. \<not> deletable opts e) (cached (run ops)))
      = filter (\<lambda>e. isCacheExempt (kind e)) (cached (run ops))"
    by (auto simp: deletable_def intro: filter_cong)
  ultimately show ?thesis
    using c n sum_length_filter_compl[of "deletable opts" "cached (run ops)"] by simp
qed

section \<open>Version counters\<close>

lemma kindVersion_bump [simp]:
  "kindVersion (bumpKind k st) j = kindVersion st j + (if j = k then 1 else 0)"
  by (auto simp: kindVersion_def bumpKind_def js_map_simps)

lemma kindVersion_frame [simp]:
  "kindVersion (index e st) = kindVersion st" "kindVersion (deindex e st) = kindVersion st"
  "kindVersion (st\<lparr>byId := m\<rparr>) = kindVersion st"
  by (auto simp: kindVersion_def fun_eq_iff index_def deindex_def Let_def split: option.splits)

lemma versionOf_sum: "versionOf st ks = sum_list (map (kindVersion st) ks)"
proof -
  have "foldl (\<lambda>sum k. sum + kindVersion st k) n ks = n + sum_list (map (kindVersion st) ks)" for n
    by (induction ks arbitrary: n) auto
  then show ?thesis by (simp add: versionOf_def)
qed

definition evolves :: "mstore \<Rightarrow> mstore \<Rightarrow> bool" where
  \<comment> \<open>counters do not fall, and a kind whose counter stands still has not changed\<close>
  "evolves st st' \<longleftrightarrow> (\<forall>k. kindVersion st k \<le> kindVersion st' k
     \<and> (kindVersion st k = kindVersion st' k \<longrightarrow> bucket_of st' k = bucket_of st k))"

lemma evolves_refl: "evolves st st"
  by (simp add: evolves_def)

lemma evolves_trans:
  assumes "evolves st st'" "evolves st' st''"
  shows "evolves st st''"
  unfolding evolves_def
proof (intro allI conjI impI)
  fix k
  show "kindVersion st k \<le> kindVersion st'' k"
    using assms by (meson evolves_def order_trans)
  assume "kindVersion st k = kindVersion st'' k"
  with assms have "kindVersion st k = kindVersion st' k" "kindVersion st' k = kindVersion st'' k"
    by (metis evolves_def order_antisym)+
  with assms show "bucket_of st'' k = bucket_of st k" by (simp add: evolves_def)
qed

lemma evolves_save: "evolves st (fst (save e st))"
  by (auto simp: evolves_def save_def)

lemma evolves_remove: "evolves st (fst (remove i st))"
  by (auto simp: evolves_def remove_def split: option.splits)

lemma evolves_apply: "op \<noteq> Clear \<Longrightarrow> evolves st (st_apply st op)"
proof (cases op)
  case (DeleteCached opts)
  have "evolves st (foldl (\<lambda>st i. fst (remove i st)) st is)" for "is"
    by (induction "is" arbitrary: st) (auto intro: evolves_refl evolves_trans evolves_remove)
  with DeleteCached show ?thesis by (simp add: deleteCachedEvents_def Let_def)
qed (auto simp: evolves_save evolves_remove)

lemma evolves_run: "Clear \<notin> set ops \<Longrightarrow> evolves st (foldl st_apply st ops)"
proof (induction ops arbitrary: st)
  case (Cons op ops)
  then have "evolves st (st_apply st op)" by (intro evolves_apply) auto
  with Cons show ?case by (auto intro: evolves_trans)
qed (simp add: evolves_refl)

lemma sum_list_eq_pointwise:
  fixes f g :: "'a \<Rightarrow> nat"
  assumes "\<forall>k \<in> set ks. f k \<le> g k" "sum_list (map f ks) = sum_list (map g ks)" "k \<in> set ks"
  shows "f k = g k"
  using assms
proof (induction ks)
  case (Cons x ks)
  have "sum_list (map f ks) \<le> sum_list (map g ks)"
    using Cons.prems(1) by (intro sum_list_mono) auto
  then have "f x = g x" "sum_list (map f ks) = sum_list (map g ks)"
    using Cons.prems(1,2) by auto
  with Cons show ?case by auto
qed simp

text \<open>
  As long as the store is not cleared, an unchanged combined version of some kinds means that
  none of these kinds has changed: every query over them answers as before.
\<close>

theorem versionOf_detects_change:
  assumes "Clear \<notin> set ops'" and "q_kinds q = Some ks"
    and "versionOf (run (ops @ ops')) ks = versionOf (run ops) ks"
  shows "query (run (ops @ ops')) q = query (run ops) q"
proof -
  have ev: "evolves (run ops) (run (ops @ ops'))"
    using assms(1) by (simp add: run_def evolves_run)
  then have "kindVersion (run ops) k = kindVersion (run (ops @ ops')) k" if "k \<in> set ks" for k
    using assms(3) that
      sum_list_eq_pointwise[of ks "kindVersion (run ops)" "kindVersion (run (ops @ ops'))" k]
    by (simp add: evolves_def versionOf_sum)
  with ev have b: "map (\<lambda>k. map snd (bucket_of (run (ops @ ops')) k)) ks = map (\<lambda>k. map snd (bucket_of (run ops) k)) ks"
    by (simp add: evolves_def)
  show ?thesis using assms(2) by (simp add: query_def b)
qed

theorem versionOf_detects_change_witness:
  "let ev = (\<lambda>i k. \<lparr>eid = i, pubkey = ''p'', created_at = 1, kind = k, tags = [], content = ''''\<rparr>);
       q = \<lparr>q_kinds = Some [1], q_authors = None, q_limit = None, q_unordered = False\<rparr>
   in query (run ([Save (ev ''a'' 1)] @ [Save (ev ''b'' 7)])) q = query (run [Save (ev ''a'' 1)]) q"
  unfolding Let_def
  by (rule versionOf_detects_change[where ks = "[1]"]) code_simp+

text \<open>
  A clear resets the per-kind counters, so the combined version can return to an earlier value
  while the events of the kind have changed.
\<close>

theorem versionOf_repeats_after_clear:
  "let ev = (\<lambda>i. \<lparr>eid = i, pubkey = ''p'', created_at = 1, kind = 1, tags = [], content = ''''\<rparr>);
       before = run [Save (ev ''a'')]; after = run [Save (ev ''a''), Clear, Save (ev ''b'')]
   in versionOf after [1] = versionOf before [1] \<and> getPosts after None \<noteq> getPosts before None"
  by code_simp

section \<open>Swapping the backing store\<close>

text \<open>
  What \<open>SwappableEventStore\<close> relies on in a backing store: a combined version of distinct kinds
  never exceeds the global version.
\<close>

locale versioned_store =
  fixes ver :: "'s \<Rightarrow> nat" and verOf :: "'s \<Rightarrow> nat list \<Rightarrow> nat" and ok :: "'s \<Rightarrow> bool"
  assumes verOf_le: "ok s \<Longrightarrow> distinct ks \<Longrightarrow> verOf s ks \<le> ver s"
begin

lemma swap_raises: "ok s \<Longrightarrow> distinct ks \<Longrightarrow> b + verOf s ks < (b + ver s + 1) + verOf s' ks"
  using verOf_le[of s ks] by linarith

lemma swap_raises_version: "b + ver s < (b + ver s + 1) + ver s'"
  by linarith

end

definition counted :: "mstore \<Rightarrow> bool" where
  "counted st \<longleftrightarrow> (\<forall>ks. distinct ks \<longrightarrow> versionOf st ks \<le> version st)"

lemma versionOf_bump:
  "distinct ks \<Longrightarrow> versionOf (bumpKind k st) ks = versionOf st ks + (if k \<in> set ks then 1 else 0)"
  unfolding versionOf_sum by (induction ks) auto

lemma counted_bump: "counted st \<Longrightarrow> counted (bumpKind k st)"
  unfolding counted_def by (auto simp: versionOf_bump) (auto simp: version_def bumpKind_def)

lemma version_frame [simp]:
  "version (index e st) = version st" "version (deindex e st) = version st"
  "version (st\<lparr>byId := m\<rparr>) = version st"
  by (auto simp: version_def index_def deindex_def Let_def split: option.splits)

lemma counted_frame [simp]:
  "counted (index e st) = counted st" "counted (deindex e st) = counted st"
  "counted (st\<lparr>byId := m\<rparr>) = counted st"
  by (simp_all add: counted_def versionOf_sum)

lemma counted_fresh: "kindVersions st = [] \<Longrightarrow> counted st"
proof -
  assume "kindVersions st = []"
  then have "versionOf st ks = 0" for ks
    unfolding versionOf_sum by (induction ks) (auto simp: kindVersion_def)
  then show ?thesis by (simp add: counted_def)
qed

lemma counted_save: "counted st \<Longrightarrow> counted (fst (save e st))"
  by (simp add: save_def counted_bump)

lemma counted_remove: "counted st \<Longrightarrow> counted (fst (remove i st))"
  by (simp add: remove_def counted_bump split: option.splits)

lemma counted_apply: "counted st \<Longrightarrow> counted (st_apply st op)"
proof (cases op)
  case (DeleteCached opts)
  have "counted st \<Longrightarrow> counted (foldl (\<lambda>st i. fst (remove i st)) st is)" for "is"
    by (induction "is" arbitrary: st) (auto simp: counted_remove)
  with DeleteCached show "counted st \<Longrightarrow> ?thesis" by (simp add: deleteCachedEvents_def Let_def)
qed (auto simp: counted_save counted_remove counted_fresh clear_def)

lemma counted_run: "counted (run ops)"
proof -
  have "counted st \<Longrightarrow> counted (foldl st_apply st ops)" for st
    by (induction ops arbitrary: st) (auto simp: counted_apply)
  moreover have "counted empty_store" by (simp add: counted_fresh empty_store_def)
  ultimately show ?thesis by (simp add: run_def)
qed

interpretation mem_versions: versioned_store version versionOf counted
  by unfold_locales (simp add: counted_def)

text \<open>
  Swapping in another community's store raises every version a cache may have recorded, the
  combined version of any set of kinds included, so no cache takes the new store for the old one.
\<close>

theorem setInner_detected:
  assumes "inner w = run ops" "distinct ks"
  shows "sw_versionOf w ks < sw_versionOf (setInner st w) ks \<and> sw_version w < sw_version (setInner st w)
    \<and> (\<forall>k. sw_kindVersion w k < sw_kindVersion (setInner st w) k)"
proof -
  have c: "counted (inner w)" using assms(1) by (simp add: counted_run)
  have "kindVersion (inner w) k \<le> version (inner w)" for k
    using mem_versions.verOf_le[OF c, of "[k]"] by (simp add: versionOf_sum)
  then have "sw_kindVersion w k < sw_kindVersion (setInner st w) k" for k
    by (simp add: sw_kindVersion_def setInner_def sw_version_def less_Suc_eq_le trans_le_add1)
  with mem_versions.swap_raises[OF c assms(2), of "base w" st]
    mem_versions.swap_raises_version[of "base w" "inner w" st]
  show ?thesis by (simp add: sw_versionOf_def sw_version_def setInner_def)
qed

theorem setInner_detected_witness:
  "let ev = \<lparr>eid = ''a'', pubkey = ''p'', created_at = 1, kind = 1, tags = [], content = ''''\<rparr>;
       w = \<lparr>base = 0, inner = run [Save ev]\<rparr>
   in sw_versionOf w [1] < sw_versionOf (setInner empty_store w) [1]"
  using setInner_detected[of "\<lparr>base = 0, inner = run [Save \<lparr>eid = ''a'', pubkey = ''p'', created_at = 1,
      kind = 1, tags = [], content = ''''\<rparr>]\<rparr>" "[Save \<lparr>eid = ''a'', pubkey = ''p'', created_at = 1,
      kind = 1, tags = [], content = ''''\<rparr>]" "[1]" empty_store]
  by (simp add: Let_def)

section \<open>Flushing to the encrypted store\<close>

definition persisted :: "pstore \<Rightarrow> event list" where
  "persisted p = (case blob p of Some (Entries es) \<Rightarrow> map the (filter (\<lambda>e. e \<noteq> None) es) | _ \<Rightarrow> [])"

definition pending :: "pstore \<Rightarrow> bool" where
  \<comment> \<open>a write that will capture the current events is still due\<close>
  "pending p \<longleftrightarrow> flushTimer p \<or> flushDirty p"

definition flush_inv :: "pstore \<Rightarrow> bool" where
  "flush_inv p \<longleftrightarrow> store_ok (mem p)
     \<and> (blob p = None \<or> blob p = Some (Entries (map Some (persisted p)))) \<and> (flushRunning p = None \<longrightarrow> \<not> flushDirty p)
     \<and> (pending p \<or> (case flushRunning p of None \<Rightarrow> persisted p = snapshot (mem p)
          | Some es \<Rightarrow> es = snapshot (mem p)))"

lemma snapshot_eq:
  "store_ok st \<Longrightarrow> snapshot st = take MAX_PERSISTED_EVENTS (js_sort newest_first (cached st))"
  by (simp add: snapshot_def query_eq_spec query_spec_def)

lemma persisted_written [simp]: "persisted (p\<lparr>blob := Some (Entries (map Some es))\<rparr>) = es"
  by (simp add: persisted_def filter_map comp_def)

lemma persisted_frame [simp]:
  "persisted (p\<lparr>mem := m\<rparr>) = persisted p" "persisted (p\<lparr>flushTimer := b\<rparr>) = persisted p"
  "persisted (p\<lparr>flushDirty := b\<rparr>) = persisted p" "persisted (p\<lparr>flushRunning := r\<rparr>) = persisted p"
  by (simp_all add: persisted_def)

lemma unchanged_save: "store_ok st \<Longrightarrow> \<not> snd (save e st) \<Longrightarrow> fst (save e st) = st"
  by (auto simp: save_def split: if_splits)

lemma unchanged_remove: "\<not> snd (remove i st) \<Longrightarrow> fst (remove i st) = st"
  by (auto simp: remove_def split: option.splits)

lemma flush_inv_step:
  assumes "flush_inv p" "p_enabled a p" "a \<noteq> PClear" "a \<noteq> PWritten False"
  shows "flush_inv (p_apply a p)"
proof (cases a)
  case (PSave e)
  with assms(1) show ?thesis
    using unchanged_save[of "mem p" e]
    by (cases "snd (save e (mem p))")
       (auto simp: flush_inv_def p_save_def case_prod_unfold Let_def scheduleFlush_def pending_def save_byId)
next
  case (PRemove i)
  with assms(1) show ?thesis
    using unchanged_remove[of i "mem p"]
    by (cases "snd (remove i (mem p))")
       (auto simp: flush_inv_def p_remove_def case_prod_unfold Let_def scheduleFlush_def pending_def remove_byId)
next
  case PFire
  with assms(1) show ?thesis
    by (auto simp: flush_inv_def flush_fire_def pending_def Let_def)
next
  case (PWritten ok)
  with assms show ?thesis
    by (auto simp: flush_inv_def flush_written_def pending_def Let_def split: option.splits)
qed (use assms in simp)

lemma flush_inv_steps:
  "p_steps p as p' \<Longrightarrow> flush_inv p \<Longrightarrow> PClear \<notin> set as \<Longrightarrow> PWritten False \<notin> set as \<Longrightarrow> flush_inv p'"
  by (induction rule: p_steps.induct) (auto intro: flush_inv_step)

lemma load_entries_new:
  "distinct (map eid es) \<Longrightarrow> store_ok st \<Longrightarrow> (\<forall>e \<in> set es. \<not> has st (eid e)) \<Longrightarrow>
   store_ok (load_entries (map Some es) st)
   \<and> cached (load_entries (map Some es) st) = cached st @ es"
proof (induction es arbitrary: st)
  case (Cons e es)
  let ?st = "index e (st\<lparr>byId := AList.update (eid e) e (byId st)\<rparr>)"
  have byId: "byId ?st = byId st @ [(eid e, e)]" and ok: "store_ok ?st"
    using store_ok_add[OF Cons.prems(2)] Cons.prems(3) by auto
  have "\<forall>x \<in> set es. \<not> has ?st (eid x)"
    using Cons.prems(1,3) by (auto simp: has_def js_map_simps) (metis imageI)
  with Cons.IH[of ?st] Cons.prems(1) ok byId show ?case by (simp add: cached_def)
qed simp

lemma distinct_cached: "store_ok st \<Longrightarrow> distinct (map eid (cached st))"
proof -
  assume ok: "store_ok st"
  then have "map eid (cached st) = map fst (byId st)"
    by (auto simp: store_ok_def cached_def)
  with ok show ?thesis by (simp add: store_ok_def)
qed

lemma reload_snapshot:
  assumes "store_ok st" "persisted p = snapshot st"
    and "blob p = None \<or> blob p = Some (Entries (map Some (persisted p)))"
  shows "snapshot (mem (create (blob p))) = snapshot st"
proof -
  let ?es = "snapshot st"
  have srt: "sorted_wrt (\<lambda>a b. newest_first a b \<le> 0) ?es"
    by (simp add: snapshot_eq assms(1) sorted_wrt_take recency.sorted_js_sort)
  have "distinct (map eid (js_sort newest_first (cached st)))"
    using distinct_cached[OF assms(1)] by (metis mset_eq_imp_distinct_iff mset_js_sort mset_map)
  then have dist: "distinct (map eid ?es)"
    by (simp add: snapshot_eq assms(1) distinct_take flip: take_map)
  have len: "length ?es \<le> MAX_PERSISTED_EVENTS" by (simp add: snapshot_eq assms(1))
  have none: "\<not> has empty_store i" for i by (simp add: has_def empty_store_def)
  have "store_ok (load_entries (map Some ?es) empty_store)"
    "cached (load_entries (map Some ?es) empty_store) = ?es"
    using load_entries_new[OF dist store_ok_empty] none by (auto simp: cached_def empty_store_def)
  then have reload: "snapshot (load_entries (map Some ?es) empty_store) = ?es"
    using len by (simp add: snapshot_eq recency.js_sort_id[OF srt])
  have "?es = []" if "blob p = None" using assms(2) that by (simp add: persisted_def)
  with reload assms(2,3) show ?thesis by (auto simp: create_def)
qed

text \<open>
  C29. However saves, removals, timer callbacks and completed writes interleave, once no flush is
  pending or running the encrypted blob holds the newest events of the cache: a restart shows the
  same newest events in the same order.
\<close>

theorem flush_loses_nothing:
  assumes "p_steps (create None) as p" "PClear \<notin> set as" "PWritten False \<notin> set as"
    and "\<not> flushTimer p" "flushRunning p = None"
  shows "snapshot (mem (create (blob p))) = snapshot (mem p)"
proof -
  have "flush_inv (create None)"
    by (simp add: flush_inv_def create_def store_ok_empty snapshot_eq cached_def)
       (simp add: empty_store_def persisted_def)
  with assms have "flush_inv p" by (intro flush_inv_steps[OF assms(1)])
  with assms(4,5) show ?thesis by (intro reload_snapshot) (auto simp: flush_inv_def pending_def)
qed

theorem flush_loses_nothing_witness:
  "let e = \<lparr>eid = ''a'', pubkey = ''p'', created_at = 1, kind = 1, tags = [], content = ''''\<rparr>;
       p = p_apply (PWritten True) (p_apply PFire (p_apply (PSave e) (create None)))
   in snapshot (mem (create (blob p))) = snapshot (mem p)"
proof -
  let ?e = "\<lparr>eid = ''a'', pubkey = ''p'', created_at = 1, kind = 1, tags = [], content = ''''\<rparr>"
  let ?p1 = "p_apply (PSave ?e) (create None)"
  let ?p2 = "p_apply PFire ?p1"
  have "p_steps (create None) ((([] @ [PSave ?e]) @ [PFire]) @ [PWritten True]) (p_apply (PWritten True) ?p2)"
  proof (intro p_step p_refl)
    show "p_enabled (PSave ?e) (create None)" by simp
    show "p_enabled PFire ?p1" by code_simp
    show "p_enabled (PWritten True) ?p2" by code_simp
  qed
  moreover have "\<not> flushTimer (p_apply (PWritten True) ?p2) \<and> flushRunning (p_apply (PWritten True) ?p2) = None"
    by code_simp
  ultimately show ?thesis
    using flush_loses_nothing[of "(([] @ [PSave ?e]) @ [PFire]) @ [PWritten True]"]
    unfolding Let_def by auto
qed

text \<open>
  A clear while a flush is in flight is undone: the clear removes the blob, then the write of
  the snapshot taken before it completes, and the cleared events are on disk again.
\<close>

theorem clear_undone_by_flush:
  "let e = \<lparr>eid = ''a'', pubkey = ''p'', created_at = 1, kind = 1, tags = [], content = ''''\<rparr>
   in \<exists>p. p_steps (create None) [PSave e, PFire, PClear, PWritten True] p
        \<and> cached (mem p) = [] \<and> \<not> flushTimer p \<and> flushRunning p = None
        \<and> blob p = Some (Entries [Some e]) \<and> cached (mem (create (blob p))) = [e]"
proof -
  let ?e = "\<lparr>eid = ''a'', pubkey = ''p'', created_at = 1, kind = 1, tags = [], content = ''''\<rparr>"
  let ?p1 = "p_apply (PSave ?e) (create None)"
  let ?p3 = "p_apply PClear (p_apply PFire ?p1)"
  have "p_steps (create None) (((([] @ [PSave ?e]) @ [PFire]) @ [PClear]) @ [PWritten True])
      (p_apply (PWritten True) ?p3)"
  proof (intro p_step p_refl)
    show "p_enabled (PSave ?e) (create None)" by simp
    show "p_enabled PFire ?p1" by code_simp
    show "p_enabled PClear (p_apply PFire ?p1)" by simp
    show "p_enabled (PWritten True) ?p3" by code_simp
  qed
  moreover have "cached (mem (p_apply (PWritten True) ?p3)) = [] \<and> \<not> flushTimer (p_apply (PWritten True) ?p3)
      \<and> flushRunning (p_apply (PWritten True) ?p3) = None
      \<and> blob (p_apply (PWritten True) ?p3) = Some (Entries [Some ?e])
      \<and> cached (mem (create (blob (p_apply (PWritten True) ?p3)))) = [?e]"
    by code_simp
  ultimately show ?thesis unfolding Let_def by auto
qed

end
