(* ===== verification/Latest.thy ===== *)
theory Latest
  imports EventStore
begin

text \<open>
  The loop by which votes, hides, bans, mute lists and articles are folded: a \<open>Map\<close> from a target
  to the best record seen so far, where a later record replaces the stored one if its timestamp
  compares better.  The callers differ in the comparison (\<open>>\<close>, \<open>>=\<close> or \<open><\<close>), which the locale
  \<open>preference\<close> abstracts, in the target of a record and in what the map stores.
\<close>

section \<open>Definitions\<close>

definition keep_best ::
  "(int \<Rightarrow> int \<Rightarrow> bool) \<Rightarrow> ('v \<Rightarrow> int) \<Rightarrow> 'k \<Rightarrow> 'v \<Rightarrow> ('k \<times> 'v) list \<Rightarrow> ('k \<times> 'v) list" where
  \<comment> \<open>\<open>const prev = m.get(k); if (!prev || better) m.set(k, v)\<close>\<close>
  "keep_best better ts k v m = (case map_of m k of
       None \<Rightarrow> AList.update k v m
     | Some prev \<Rightarrow> if better (ts v) (ts prev) then AList.update k v m else m)"

definition best_of :: "(int \<Rightarrow> int \<Rightarrow> bool) \<Rightarrow> ('v \<Rightarrow> int) \<Rightarrow> 'v list \<Rightarrow> 'v option" where
  \<comment> \<open>the same loop for a single target\<close>
  "best_of better ts vs = foldl (\<lambda>a v. case a of None \<Rightarrow> Some v
     | Some prev \<Rightarrow> if better (ts v) (ts prev) then Some v else Some prev) None vs"

abbreviation newest_of :: "event list \<Rightarrow> event option" where
  "newest_of \<equiv> best_of (>) created_at"

section \<open>The best record of a target\<close>

lemma best_of_Nil [simp]: "best_of better ts [] = None"
  by (simp add: best_of_def)

lemma best_of_snoc:
  "best_of better ts (vs @ [v]) = (case best_of better ts vs of None \<Rightarrow> Some v
     | Some prev \<Rightarrow> if better (ts v) (ts prev) then Some v else Some prev)"
  by (simp add: best_of_def)

lemma best_of_None [simp]: "best_of better ts vs = None \<longleftrightarrow> vs = []"
  by (induction vs rule: rev_induct) (auto simp: best_of_snoc split: option.splits)

lemma best_of_mem: "best_of better ts vs = Some v \<Longrightarrow> v \<in> set vs"
proof (induction vs arbitrary: v rule: rev_induct)
  case (snoc x vs)
  then show ?case by (auto simp: best_of_snoc split: option.splits if_splits)
qed simp

lemma best_of_map: "best_of better ts (map f vs) = map_option f (best_of better (\<lambda>v. ts (f v)) vs)"
  by (induction vs rule: rev_induct) (auto simp: best_of_snoc split: option.splits)

lemma keep_best_fold:
  "map_of (foldl (\<lambda>m e. case g e of None \<Rightarrow> m | Some (k, v) \<Rightarrow> keep_best better ts k v m) [] es) k =
   best_of better ts (List.map_filter (\<lambda>e. case g e of Some (k', v) \<Rightarrow> if k' = k then Some v else None | None \<Rightarrow> None) es)"
proof (induction es rule: rev_induct)
  case Nil
  then show ?case by (simp add: List.map_filter_def)
next
  case (snoc e es)
  then show ?case
    by (auto simp: List.map_filter_def best_of_snoc keep_best_def js_map_simps split: option.splits)
qed

lemma keep_best_keys: "distinct (map fst m) \<Longrightarrow> distinct (map fst (keep_best better ts k v m))"
  by (auto simp: keep_best_def js_map_simps split: option.splits)

lemma keep_best_fold_keys:
  "distinct (map fst (foldl (\<lambda>m e. case g e of None \<Rightarrow> m | Some (k, v) \<Rightarrow> keep_best better ts k v m) [] es))"
  by (induction es rule: rev_induct) (auto simp: keep_best_keys split: option.splits)

text \<open>
  What the comparison must satisfy for the result to be a best record: it and its negation are
  transitive.
\<close>

locale preference =
  fixes better :: "int \<Rightarrow> int \<Rightarrow> bool"
  assumes better_trans: "better a b \<Longrightarrow> better b c \<Longrightarrow> better a c"
    and not_better_trans: "\<not> better a b \<Longrightarrow> \<not> better b c \<Longrightarrow> \<not> better a c"
begin

lemma best_of_best:
  "best_of better ts vs = Some v \<Longrightarrow> x \<in> set vs \<Longrightarrow> better (ts v) (ts x) \<or> \<not> better (ts x) (ts v)"
proof (induction vs arbitrary: v rule: rev_induct)
  case (snoc y vs)
  show ?case
  proof (cases "best_of better ts vs")
    case None
    with snoc.prems show ?thesis by (auto simp: best_of_snoc)
  next
    case (Some w)
    with snoc show ?thesis
      by (auto simp: best_of_snoc split: if_splits) (metis better_trans not_better_trans)+
  qed
qed simp

text \<open>A record that beats every other one is chosen, wherever it stands.\<close>

lemma best_of_unique:
  assumes "v \<in> set vs" and "\<And>x. x \<in> set vs \<Longrightarrow> x \<noteq> v \<Longrightarrow> better (ts v) (ts x) \<and> \<not> better (ts x) (ts v)"
  shows "best_of better ts vs = Some v"
proof -
  obtain w where w: "best_of better ts vs = Some w"
    using assms(1) by (cases "best_of better ts vs") auto
  show ?thesis
  proof (cases "w = v")
    case False
    then have "better (ts v) (ts w) \<and> \<not> better (ts w) (ts v)" using assms(2) best_of_mem[OF w] by blast
    then show ?thesis using best_of_best[OF w assms(1)] by blast
  qed (simp add: w)
qed

end

interpretation newer: preference "(>)"
  by unfold_locales auto

interpretation newer_or_same: preference "(\<ge>)"
  by unfold_locales auto

interpretation older: preference "(<)"
  by unfold_locales auto

lemma newest_of_max: "newest_of rs = Some r \<Longrightarrow> x \<in> set rs \<Longrightarrow> created_at x \<le> created_at r"
  using newer.best_of_best by fastforce

lemma newest_of_set:
  assumes "set rs = set rs'" and "inj_on created_at (set rs)"
  shows "newest_of rs = newest_of rs'"
proof (cases "newest_of rs")
  case None
  then show ?thesis using assms(1) by (metis best_of_None set_empty)
next
  case (Some r)
  have "x \<noteq> r \<Longrightarrow> x \<in> set rs' \<Longrightarrow> created_at x < created_at r" for x
    using newest_of_max[OF Some, of x] best_of_mem[OF Some] assms by (metis inj_onD order_le_less)
  then have "newest_of rs' = Some r"
    using best_of_mem[OF Some] assms(1) by (intro newer.best_of_unique) (auto intro: less_imp_le simp: not_less)
  with Some show ?thesis by simp
qed

end
