(* ===== verification/Voting.thy ===== *)
theory Voting
  imports Viewer Latest
begin

text \<open>
  \<open>client/src/feed/voting.ts\<close>: votes are reactions, counted once per member.
\<close>

section \<open>Definitions\<close>

definition KIND_REACTION :: nat where "KIND_REACTION = 7"

datatype VoteDirection = Up | Down

definition RETRACT_MARKER :: string where
  \<comment> \<open>U+2716, by the bytes of its encoding: a character of the model is below 256\<close>
  "RETRACT_MARKER = [CHR 0xE2, CHR 0x9C, CHR 0x96]"

definition buildRetraction :: "int \<Rightarrow> string \<Rightarrow> string \<Rightarrow> unsigned_event" where
  "buildRetraction now postId authorPubkey = \<lparr>u_kind = KIND_REACTION, u_created_at = Some now,
     u_tags = [[''e'', postId], [''p'', authorPubkey]], u_content = RETRACT_MARKER\<rparr>"

definition buildReaction :: "int \<Rightarrow> string \<Rightarrow> string \<Rightarrow> VoteDirection \<Rightarrow> unsigned_event" where
  "buildReaction now postId authorPubkey direction = \<lparr>u_kind = KIND_REACTION, u_created_at = Some now,
     u_tags = [[''e'', postId], [''p'', authorPubkey]], u_content = (if direction = Up then ''+'' else ''-'')\<rparr>"

definition buildGroupReaction :: "int \<Rightarrow> string \<Rightarrow> string \<Rightarrow> string \<Rightarrow> string \<Rightarrow> unsigned_event" where
  "buildGroupReaction now groupId targetId targetPubkey body = \<lparr>u_kind = KIND_REACTION, u_created_at = Some now,
     u_tags = [[''e'', targetId], [''p'', targetPubkey], [''h'', groupId]], u_content = body\<rparr>"

record Score =
  up :: nat
  down :: nat
  score :: int
  voteTimestamps :: "int list"

definition reactionValue :: "viewer \<Rightarrow> event \<Rightarrow> int" where
  "reactionValue V e =
     (if kind e \<noteq> KIND_REACTION then 0
      else let (text, locked) = body_of V e in
        if locked then 0
        else let body = js_trim text in
          if body = ''-'' then -1 else if body = ''+'' \<or> body = '''' then 1 else 0)"

definition reactionTarget :: "event \<Rightarrow> string option" where
  "reactionTarget e = (if kind e \<noteq> KIND_REACTION then None else tag_value ''e'' (tags e))"

definition counts_as_vote :: "viewer \<Rightarrow> event \<Rightarrow> bool" where
  "counts_as_vote V e \<longleftrightarrow> kind e = KIND_REACTION \<and> \<not> off_roll V e"

definition keep_latest :: "viewer \<Rightarrow> (string \<times> event) list \<Rightarrow> event \<Rightarrow> (string \<times> event) list" where
  "keep_latest V latest r =
     (if \<not> counts_as_vote V r then latest
      else keep_best (>) created_at (real_author V r) r latest)"

definition scoreReactions :: "viewer \<Rightarrow> event list \<Rightarrow> Score" where
  "scoreReactions V reactions =
     (let latest = map snd (foldl (keep_latest V) [] reactions);
          ups = filter (\<lambda>r. reactionValue V r > 0) latest;
          downs = filter (\<lambda>r. reactionValue V r < 0) latest
      in \<lparr>up = length ups, down = length downs, score = int (length ups) - int (length downs),
          voteTimestamps = map created_at ups\<rparr>)"

definition myVote :: "viewer \<Rightarrow> event list \<Rightarrow> string \<Rightarrow> VoteDirection option" where
  "myVote V reactions viewerPubkey =
     (case newest_of (filter (\<lambda>r. kind r = KIND_REACTION \<and> real_author V r = viewerPubkey) reactions) of
        None \<Rightarrow> None
      | Some r \<Rightarrow> if reactionValue V r = 0 then None
                  else if reactionValue V r < 0 then Some Down else Some Up)"

definition scoreForPost :: "viewer \<Rightarrow> mstore \<Rightarrow> string \<Rightarrow> Score" where
  "scoreForPost V st postId = scoreReactions V (filter (\<lambda>r. reactionTarget r = Some postId)
     (query st \<lparr>q_kinds = Some [KIND_REACTION], q_authors = None, q_limit = None, q_unordered = False\<rparr>))"

section \<open>One vote per member\<close>

definition ballots :: "viewer \<Rightarrow> event list \<Rightarrow> string \<Rightarrow> event list" where
  \<comment> \<open>the reactions of one member that may count\<close>
  "ballots V rs v = filter (\<lambda>r. counts_as_vote V r \<and> real_author V r = v) rs"

lemma keep_latest_guarded:
  "keep_latest V m r = (case (if counts_as_vote V r then Some (real_author V r, r) else None) of
     None \<Rightarrow> m | Some (k, v) \<Rightarrow> keep_best (>) created_at k v m)"
  by (simp add: keep_latest_def)

lemma keep_latest_map: "map_of (foldl (keep_latest V) [] rs) v = newest_of (ballots V rs v)"
proof -
  have "List.map_filter (\<lambda>e. case if counts_as_vote V e then Some (real_author V e, e) else None of
      Some (k', r) \<Rightarrow> if k' = v then Some r else None | None \<Rightarrow> None) rs = ballots V rs v"
    by (induction rs) (auto simp: List.map_filter_def ballots_def)
  then show ?thesis
    by (simp add: keep_latest_guarded[abs_def] keep_best_fold)
qed

lemma keep_latest_keys: "distinct (map fst (foldl (keep_latest V) [] rs))"
  unfolding keep_latest_guarded[abs_def] by (rule keep_best_fold_keys)

lemma count_values:
  assumes "distinct (map fst m)"
  shows "length (filter P (map snd m)) = card {v. \<exists>r. map_of m v = Some r \<and> P r}"
proof -
  have "{v. \<exists>r. map_of m v = Some r \<and> P r} = fst ` set (filter (\<lambda>x. P (snd x)) m)"
    using assms by (force simp: map_of_distinct_mem)
  moreover have "card (fst ` set (filter (\<lambda>x. P (snd x)) m)) = length (filter (\<lambda>x. P (snd x)) m)"
    using assms distinct_card[of "map fst (filter (\<lambda>x. P (snd x)) m)"] distinct_map_filter[of fst m "\<lambda>x. P (snd x)"]
    by simp
  ultimately show ?thesis by (simp add: filter_map comp_def)
qed

definition decides :: "viewer \<Rightarrow> event list \<Rightarrow> int \<Rightarrow> string set" where
  \<comment> \<open>the members whose newest ballot has this value\<close>
  "decides V rs x = {v. \<exists>r. newest_of (ballots V rs v) = Some r \<and> reactionValue V r = x}"

lemma value_cases: "reactionValue V r \<in> {-1, 0, 1}"
  by (auto simp: reactionValue_def Let_def split: prod.splits)

lemma value_signs [simp]: "0 < reactionValue V r \<longleftrightarrow> reactionValue V r = 1" "reactionValue V r < 0 \<longleftrightarrow> reactionValue V r = -1"
  using value_cases[of V r] by auto

lemma score_counts:
  "up (scoreReactions V rs) = card (decides V rs 1)" "down (scoreReactions V rs) = card (decides V rs (- 1))"
  using count_values[OF keep_latest_keys[of V rs], of "\<lambda>r. reactionValue V r = 1"]
    count_values[OF keep_latest_keys[of V rs], of "\<lambda>r. reactionValue V r = - 1"]
  by (simp_all add: scoreReactions_def decides_def keep_latest_map Let_def)

lemma decides_finite: "finite (decides V rs x)" "decides V rs x \<subseteq> real_author V ` {r \<in> set rs. counts_as_vote V r}"
proof -
  show sub: "decides V rs x \<subseteq> real_author V ` {r \<in> set rs. counts_as_vote V r}"
    using best_of_mem by (fastforce simp: decides_def ballots_def)
  show "finite (decides V rs x)" by (rule finite_subset[OF sub]) simp
qed

lemma score_fields:
  "score (scoreReactions V rs) = int (up (scoreReactions V rs)) - int (down (scoreReactions V rs))"
  "length (voteTimestamps (scoreReactions V rs)) = up (scoreReactions V rs)"
  by (simp_all add: scoreReactions_def Let_def)

text \<open>
  C30. A post's score counts each member once.  The upvotes are the members whose newest reaction
  to the post is an upvote, the downvotes those whose newest one is a downvote, whatever throwaway
  keys the reactions are signed with; so up and down together never exceed the number of
  members who reacted, votes off the member roll have no effect, and a still locked or a retracting
  reaction takes a member's vote back.  Only upvotes feed the velocity of the Rising sort.
\<close>

theorem one_vote_per_member:
  "up (scoreReactions V rs) = card (decides V rs 1) \<and> down (scoreReactions V rs) = card (decides V rs (- 1))
   \<and> score (scoreReactions V rs) = int (up (scoreReactions V rs)) - int (down (scoreReactions V rs))
   \<and> up (scoreReactions V rs) + down (scoreReactions V rs) \<le> card (real_author V ` {r \<in> set rs. counts_as_vote V r})
   \<and> length (voteTimestamps (scoreReactions V rs)) = up (scoreReactions V rs)
   \<and> scoreReactions V (filter (counts_as_vote V) rs) = scoreReactions V rs"
proof (intro conjI)
  have "decides V rs 1 \<inter> decides V rs (- 1) = {}" by (auto simp: decides_def)
  then have "card (decides V rs 1) + card (decides V rs (- 1)) = card (decides V rs 1 \<union> decides V rs (- 1))"
    by (simp add: card_Un_disjoint decides_finite(1))
  also have "\<dots> \<le> card (real_author V ` {r \<in> set rs. counts_as_vote V r})"
    using decides_finite(2) by (intro card_mono) auto
  finally show "up (scoreReactions V rs) + down (scoreReactions V rs) \<le> card (real_author V ` {r \<in> set rs. counts_as_vote V r})"
    by (simp add: score_counts)
  have "foldl (keep_latest V) m (filter (counts_as_vote V) rs) = foldl (keep_latest V) m rs" for m
    by (induction rs arbitrary: m) (auto simp: keep_latest_def)
  then show "scoreReactions V (filter (counts_as_vote V) rs) = scoreReactions V rs"
    by (simp add: scoreReactions_def)
qed (simp_all add: score_counts score_fields)

text \<open>
  The score does not depend on the order in which reactions arrive.  If no member has two
  reactions of the same second, two devices that hold the same reactions, in any order and with
  any repetitions, show the same votes.
\<close>

theorem score_order_independent:
  assumes "set rs = set rs'" and "\<And>v. inj_on created_at (set (ballots V rs v))"
  shows "up (scoreReactions V rs) = up (scoreReactions V rs') \<and> down (scoreReactions V rs) = down (scoreReactions V rs')
    \<and> score (scoreReactions V rs) = score (scoreReactions V rs')"
proof -
  have "newest_of (ballots V rs v) = newest_of (ballots V rs' v)" for v
    by (rule newest_of_set[OF _ assms(2)]) (use assms(1) in \<open>simp add: ballots_def\<close>)
  then have "decides V rs x = decides V rs' x" for x by (simp add: decides_def)
  then show ?thesis by (simp add: score_counts score_fields)
qed

definition ex_vote :: "string \<Rightarrow> string \<Rightarrow> int \<Rightarrow> string \<Rightarrow> event" where
  "ex_vote i who t body = \<lparr>eid = i, pubkey = who, created_at = t, kind = 7, tags = [[''e'', ''p1'']], content = body\<rparr>"

theorem score_order_independent_witness:
  "let rs = [ex_vote ''1'' ''ann'' 5 ''+'', ex_vote ''2'' ''bob'' 6 ''+'', ex_vote ''3'' ''ann'' 7 ''-'']
   in up (scoreReactions ex_viewer rs) = up (scoreReactions ex_viewer (rev rs))
    \<and> score (scoreReactions ex_viewer (rev rs)) = 0"
proof -
  let ?rs = "[ex_vote ''1'' ''ann'' 5 ''+'', ex_vote ''2'' ''bob'' 6 ''+'', ex_vote ''3'' ''ann'' 7 ''-'']"
  have "set (ballots ex_viewer ?rs v) \<subseteq> set ?rs" for v by (auto simp: ballots_def)
  moreover have "inj_on created_at (set ?rs)" by (simp add: ex_vote_def)
  ultimately have inj: "inj_on created_at (set (ballots ex_viewer ?rs v))" for v using inj_on_subset by blast
  have "score (scoreReactions ex_viewer (rev ?rs)) = 0" by code_simp
  moreover have "set ?rs = set (rev ?rs)" by (simp only: set_rev)
  from score_order_independent[OF this inj]
  have "up (scoreReactions ex_viewer ?rs) = up (scoreReactions ex_viewer (rev ?rs))" by (rule conjunct1)
  ultimately show ?thesis unfolding Let_def by (rule conjI[rotated])
qed

text \<open>
  The viewer's own vote agrees with the count: it is the direction of the viewer's newest reaction,
  unless the viewer is off the roll.
\<close>

lemma myVote_agrees:
  assumes "\<forall>r \<in> set rs. real_author V r = me \<longrightarrow> \<not> off_roll V r"
  shows "myVote V rs me = Some Up \<longleftrightarrow> me \<in> decides V rs 1" "myVote V rs me = Some Down \<longleftrightarrow> me \<in> decides V rs (- 1)"
proof -
  have "filter (\<lambda>r. kind r = KIND_REACTION \<and> real_author V r = me) rs = ballots V rs me"
    unfolding ballots_def by (rule filter_cong) (use assms in \<open>auto simp: counts_as_vote_def\<close>)
  then show "myVote V rs me = Some Up \<longleftrightarrow> me \<in> decides V rs 1" "myVote V rs me = Some Down \<longleftrightarrow> me \<in> decides V rs (- 1)"
    using value_cases[of V] by (auto simp: myVote_def decides_def split: option.splits)
qed


end
