(* ===== verification/Thread.thy ===== *)
theory Thread
  imports BlindPost EventStore
begin

text \<open>
  \<open>client/src/feed/comments.ts\<close>, \<open>client/src/feed/thread.ts\<close> and \<open>client/src/feed/pinned.ts\<close>:
  comments and the comment tree of a post.

  Comments come in two representations, kind 1111 with the root in upper-case tags and kind 1 with
  markers in the fourth slot of its tags.  The builders take the clock as an argument.  The tree
  builder threads the set of visited identifiers, which is the list \<open>visited\<close> here, and stops at
  depth 100.
\<close>

section \<open>Definitions\<close>

subsection \<open>comments.ts\<close>

definition KIND_POST :: nat where "KIND_POST = 1"
definition KIND_COMMENT :: nat where "KIND_COMMENT = 1111"

record EventRef =
  r_id :: string
  r_pubkey :: string
  r_kind :: nat

datatype comment_error = CommentEmpty

definition refOf :: "event \<Rightarrow> EventRef" where
  "refOf e = \<lparr>r_id = eid e, r_pubkey = pubkey e, r_kind = kind e\<rparr>"

definition buildComment :: "int \<Rightarrow> string \<Rightarrow> EventRef \<Rightarrow> EventRef \<Rightarrow> comment_error + unsigned_event" where
  "buildComment now body root parent =
     (let trimmed = js_trim body in
      if trimmed = '''' then Inl CommentEmpty
      else Inr \<lparr>u_kind = KIND_COMMENT, u_created_at = Some now,
        u_tags = [[''E'', r_id root, '''', r_pubkey root], [''K'', js_dec (r_kind root)], [''P'', r_pubkey root],
                  [''e'', r_id parent, '''', r_pubkey parent], [''k'', js_dec (r_kind parent)], [''p'', r_pubkey parent]],
        u_content = trimmed\<rparr>)"

definition buildChannelComment :: "int \<Rightarrow> string \<Rightarrow> EventRef \<Rightarrow> EventRef \<Rightarrow> comment_error + unsigned_event" where
  "buildChannelComment now body root parent =
     sbind (buildComment now body root parent) (\<lambda>b. Inr (b\<lparr>u_tags := u_tags b @ [[''context'', ''channel'']]\<rparr>))"

definition STIQ_COMMENT_MARKER :: string where "STIQ_COMMENT_MARKER = ''stiq-comment''"

definition buildNoteComment :: "int \<Rightarrow> string \<Rightarrow> EventRef \<Rightarrow> EventRef \<Rightarrow> comment_error + unsigned_event" where
  "buildNoteComment now body root parent =
     (let trimmed = js_trim body; isReplyToComment = (r_id parent \<noteq> r_id root) in
      if trimmed = '''' then Inl CommentEmpty
      else Inr \<lparr>u_kind = KIND_POST, u_created_at = Some now,
        u_tags = [[''e'', r_id root, '''', ''root'']]
          @ (if isReplyToComment then [[''e'', r_id parent, '''', ''reply'']] else [])
          @ [[''p'', r_pubkey root, '''', ''root'']]
          @ (if isReplyToComment then [[''p'', r_pubkey parent, '''', ''reply'']] else [])
          @ [[''t'', STIQ_COMMENT_MARKER]],
        u_content = trimmed\<rparr>)"

definition isStiqComment :: "event \<Rightarrow> bool" where
  "isStiqComment e = (kind e = KIND_POST \<and>
     list_ex (\<lambda>t. at t 0 = Some ''t'' \<and> at t 1 = Some STIQ_COMMENT_MARKER) (tags e))"

definition buildPostComment :: "int \<Rightarrow> string \<Rightarrow> EventRef \<Rightarrow> EventRef \<Rightarrow> comment_error + unsigned_event" where
  "buildPostComment now body root parent =
     (if r_kind root = KIND_POST then buildNoteComment now body root parent else buildComment now body root parent)"

definition markedTag :: "event \<Rightarrow> string \<Rightarrow> string \<Rightarrow> string option" where
  "markedTag e name marker =
     Option.bind (find (\<lambda>t. at t 0 = Some name \<and> truthy (at t 1) \<and> at t 3 = Some marker) (tags e)) (\<lambda>t. at t 1)"

definition hasMarkedPTag :: "event \<Rightarrow> bool" where
  "hasMarkedPTag e = list_ex (\<lambda>t. at t 0 = Some ''p'' \<and> truthy (at t 1) \<and>
     (at t 3 = Some ''root'' \<or> at t 3 = Some ''reply'')) (tags e)"

definition firstTagValue :: "event \<Rightarrow> string \<Rightarrow> string option" where
  "firstTagValue e name = Option.bind (find (\<lambda>t. at t 0 = Some name \<and> truthy (at t 1)) (tags e)) (\<lambda>t. at t 1)"

definition orElse :: "'a option \<Rightarrow> 'a option \<Rightarrow> 'a option" where
  \<comment> \<open>\<open>a ?? b\<close>\<close>
  "orElse a b = (case a of None \<Rightarrow> b | Some x \<Rightarrow> Some x)"

definition commentParentId :: "event \<Rightarrow> string option" where
  "commentParentId e =
     (if kind e = KIND_COMMENT then firstTagValue e ''e''
      else if isStiqComment e then
        orElse (markedTag e ''e'' ''reply'') (orElse (markedTag e ''e'' ''root'') (firstTagValue e ''e''))
      else None)"

definition commentRootId :: "event \<Rightarrow> string option" where
  "commentRootId e =
     (if kind e = KIND_COMMENT then firstTagValue e ''E''
      else if isStiqComment e then orElse (markedTag e ''e'' ''root'') (firstTagValue e ''e'')
      else None)"

definition commentRootAuthor :: "event \<Rightarrow> string option" where
  "commentRootAuthor e =
     (if kind e = KIND_COMMENT then firstTagValue e ''P''
      else if isStiqComment e then orElse (markedTag e ''p'' ''root'') (firstTagValue e ''p'')
      else None)"

definition commentParentAuthor :: "event \<Rightarrow> string option" where
  "commentParentAuthor e =
     (if kind e = KIND_COMMENT then firstTagValue e ''p''
      else if \<not> isStiqComment e then None
      else if hasMarkedPTag e then orElse (markedTag e ''p'' ''reply'') (markedTag e ''p'' ''root'')
      else (let pTags = map (\<lambda>t. at t 1) (filter (\<lambda>t. at t 0 = Some ''p'' \<and> truthy (at t 1)) (tags e)) in
        if length pTags = 0 then None
        else if length pTags \<ge> 2 then pTags ! 1 else pTags ! 0))"

subsection \<open>pinned.ts\<close>

definition PIN_MARKER :: string where "PIN_MARKER = ''stiq-pin''"

definition buildPinnedComment :: "int \<Rightarrow> string \<Rightarrow> EventRef \<Rightarrow> comment_error + unsigned_event" where
  "buildPinnedComment now body post =
     sbind (buildComment now body post post) (\<lambda>b. Inr (b\<lparr>u_tags := u_tags b @ [[PIN_MARKER, r_id post]]\<rparr>))"

definition isPinnedFor :: "event \<Rightarrow> string \<Rightarrow> string \<Rightarrow> bool" where
  "isPinnedFor e postId postAuthor =
     (kind e = KIND_COMMENT \<and> pubkey e = postAuthor \<and>
      list_ex (\<lambda>t. at t 0 = Some PIN_MARKER \<and> at t 1 = Some postId) (tags e))"

definition isPinnedComment :: "event \<Rightarrow> bool" where
  "isPinnedComment e = (kind e = KIND_COMMENT \<and> list_ex (\<lambda>t. at t 0 = Some PIN_MARKER) (tags e))"

definition oldest_first :: "event \<Rightarrow> event \<Rightarrow> int" where
  "oldest_first a b = created_at a - created_at b"

definition loadPinnedHistory :: "mstore \<Rightarrow> string \<Rightarrow> string \<Rightarrow> event option \<times> event list" where
  \<comment> \<open>the latest version and the earlier ones\<close>
  "loadPinnedHistory st postId postAuthor =
     (let versions = js_sort oldest_first (filter (\<lambda>e. isPinnedFor e postId postAuthor)
            (query st \<lparr>q_kinds = Some [KIND_COMMENT], q_authors = Some [postAuthor], q_limit = None, q_unordered = False\<rparr>))
      in if versions = [] then (None, []) else (Some (last versions), butlast versions))"

subsection \<open>thread.ts\<close>

datatype CommentNode = Node (n_event: event) (n_depth: nat) (n_children: "CommentNode list")

definition MAX_COMMENT_DEPTH :: nat where "MAX_COMMENT_DEPTH = 100"

definition thread_comments :: "mstore \<Rightarrow> string \<Rightarrow> event list" where
  "thread_comments st rootPostId =
     (let of_kind = (\<lambda>k. query st \<lparr>q_kinds = Some [k], q_authors = None, q_limit = None, q_unordered = False\<rparr>)
      in filter (\<lambda>c. commentRootId c = Some rootPostId \<and> \<not> isPinnedComment c)
           (of_kind KIND_COMMENT @ filter isStiqComment (of_kind KIND_POST)))"

definition parent_of :: "string \<Rightarrow> event \<Rightarrow> string" where
  "parent_of rootPostId c = (case commentParentId c of None \<Rightarrow> rootPostId | Some p \<Rightarrow> p)"

definition push_bucket :: "string \<Rightarrow> event \<Rightarrow> (string \<times> event list) list \<Rightarrow> (string \<times> event list) list" where
  "push_bucket k c m = (case map_of m k of
       Some b \<Rightarrow> AList.update k (b @ [c]) m
     | None \<Rightarrow> AList.update k [c] m)"

definition by_parent :: "string \<Rightarrow> event list \<Rightarrow> (string \<times> event list) list" where
  "by_parent rootPostId cs = foldl (\<lambda>m c. push_bucket (parent_of rootPostId c) c m) [] cs"

definition children_of :: "(string \<times> event list) list \<Rightarrow> string \<Rightarrow> event list" where
  "children_of byParent parentId =
     js_sort oldest_first (case map_of byParent parentId of None \<Rightarrow> [] | Some b \<Rightarrow> b)"

function build :: "(string \<times> event list) list \<Rightarrow> string \<Rightarrow> nat \<Rightarrow> string list \<Rightarrow> CommentNode list \<times> string list"
  and build_loop :: "(string \<times> event list) list \<Rightarrow> event list \<Rightarrow> nat \<Rightarrow> string list \<Rightarrow> CommentNode list \<times> string list" where
  "build byParent parentId depth visited =
     (if depth \<ge> MAX_COMMENT_DEPTH then ([], visited)
      else build_loop byParent (children_of byParent parentId) depth visited)"
| "build_loop byParent [] depth visited = ([], visited)"
| "build_loop byParent (e # es) depth visited =
     (if eid e \<in> set visited then build_loop byParent es depth visited
      else let (children, visited1) = build byParent (eid e) (depth + 1) (visited @ [eid e]);
               (nodes, visited2) = build_loop byParent es depth visited1
           in (Node e depth children # nodes, visited2))"
  by pat_completeness auto
termination
  by (relation "measures [\<lambda>x. case x of
          Inl (m, p, d, v) \<Rightarrow> if d < MAX_COMMENT_DEPTH then 2 * (MAX_COMMENT_DEPTH - d) + 2 else 0
        | Inr (m, es, d, v) \<Rightarrow> 2 * (MAX_COMMENT_DEPTH - d) + 1,
      \<lambda>x. case x of Inl _ \<Rightarrow> 0 | Inr (m, es, d, v) \<Rightarrow> length es]") auto

declare build.simps [simp del]

definition buildThread :: "mstore \<Rightarrow> string \<Rightarrow> CommentNode list" where
  "buildThread st rootPostId =
     fst (build (by_parent rootPostId (thread_comments st rootPostId)) rootPostId 0 [])"

fun partition_node :: "(event \<Rightarrow> bool) \<Rightarrow> CommentNode \<Rightarrow> CommentNode list \<times> CommentNode list"
  and partitionThread :: "(event \<Rightarrow> bool) \<Rightarrow> CommentNode list \<Rightarrow> CommentNode list \<times> CommentNode list" where
  "partition_node isHidden (Node e d cs) =
     (if isHidden e then ([], [Node e d cs])
      else let (v, h) = partitionThread isHidden cs in ([Node e d v], h))"
| "partitionThread isHidden [] = ([], [])"
| "partitionThread isHidden (n # ns) =
     (let (v, h) = partition_node isHidden n; (vs, hs) = partitionThread isHidden ns in (v @ vs, h @ hs))"

fun count_node :: "CommentNode \<Rightarrow> nat" and countComments :: "CommentNode list \<Rightarrow> nat" where
  "count_node (Node e d cs) = 1 + countComments cs"
| "countComments [] = 0"
| "countComments (n # ns) = count_node n + countComments ns"

fun flatten_node :: "CommentNode \<Rightarrow> CommentNode list" and flattenThread :: "CommentNode list \<Rightarrow> CommentNode list" where
  "flatten_node (Node e d cs) = Node e d cs # flattenThread cs"
| "flattenThread [] = []"
| "flattenThread (n # ns) = flatten_node n @ flattenThread ns"

section \<open>Comments carry their thread edge\<close>

definition signed_as :: "unsigned_event \<Rightarrow> event \<Rightarrow> bool" where
  \<comment> \<open>the event a signer makes of it: kind, tags and content are kept\<close>
  "signed_as u e \<longleftrightarrow> kind e = u_kind u \<and> tags e = u_tags u \<and> content e = u_content u"

lemmas comment_readers = commentRootId_def commentParentId_def commentRootAuthor_def commentParentAuthor_def
  firstTagValue_def markedTag_def hasMarkedPTag_def isStiqComment_def orElse_def STIQ_COMMENT_MARKER_def

text \<open>
  A comment names its place in the thread.  Whatever the kind of the root, whether the comment
  answers the post or another comment, and whether or not the two have the same author, the four
  readers return from the signed comment exactly the root, the parent and their authors that were
  given to the builder.
\<close>

theorem comment_edge_roundtrip:
  assumes "buildPostComment now body root parent = Inr u" and "signed_as u e"
    and "r_id root \<noteq> ''''" and "r_id parent \<noteq> ''''" and "r_pubkey root \<noteq> ''''" and "r_pubkey parent \<noteq> ''''"
    and "r_id parent = r_id root \<longrightarrow> r_pubkey parent = r_pubkey root"
  shows "commentRootId e = Some (r_id root) \<and> commentParentId e = Some (r_id parent)
    \<and> commentRootAuthor e = Some (r_pubkey root) \<and> commentParentAuthor e = Some (r_pubkey parent)"
proof (cases "r_kind root = KIND_POST")
  case True
  with assms have k: "kind e = KIND_POST"
    and t: "tags e = u_tags u" and b: "buildNoteComment now body root parent = Inr u"
    by (auto simp: buildPostComment_def buildNoteComment_def signed_as_def Let_def split: if_splits)
  have ne: "KIND_POST \<noteq> KIND_COMMENT" by (simp add: KIND_POST_def KIND_COMMENT_def)
  show ?thesis
  proof (cases "r_id parent = r_id root")
    case True
    with b t have "tags e = [[''e'', r_id root, '''', ''root''], [''p'', r_pubkey root, '''', ''root''], [''t'', ''stiq-comment'']]"
      by (auto simp: buildNoteComment_def STIQ_COMMENT_MARKER_def Let_def split: if_splits)
    then show ?thesis using assms(3-7) True k ne by (simp add: comment_readers at_def)
  next
    case False
    with b t have "tags e = [[''e'', r_id root, '''', ''root''], [''e'', r_id parent, '''', ''reply''],
        [''p'', r_pubkey root, '''', ''root''], [''p'', r_pubkey parent, '''', ''reply''], [''t'', ''stiq-comment'']]"
      by (auto simp: buildNoteComment_def STIQ_COMMENT_MARKER_def Let_def split: if_splits)
    then show ?thesis using assms(3-7) False k ne by (simp add: comment_readers at_def)
  qed
next
  case False
  with assms have "kind e = KIND_COMMENT"
    and "tags e = [[''E'', r_id root, '''', r_pubkey root], [''K'', js_dec (r_kind root)], [''P'', r_pubkey root],
       [''e'', r_id parent, '''', r_pubkey parent], [''k'', js_dec (r_kind parent)], [''p'', r_pubkey parent]]"
    by (auto simp: buildPostComment_def buildComment_def signed_as_def Let_def split: if_splits)
  then show ?thesis using assms(3-6) by (simp add: comment_readers at_def)
qed

definition ex_root :: EventRef where "ex_root = \<lparr>r_id = ''p1'', r_pubkey = ''ann'', r_kind = 1\<rparr>"
definition ex_parent :: EventRef where "ex_parent = \<lparr>r_id = ''c1'', r_pubkey = ''ann'', r_kind = 1\<rparr>"
definition ex_comment :: event where
  "ex_comment = \<lparr>eid = ''c2'', pubkey = ''bob'', created_at = 9, kind = 1,
     tags = [[''e'', ''p1'', '''', ''root''], [''e'', ''c1'', '''', ''reply''], [''p'', ''ann'', '''', ''root''],
             [''p'', ''ann'', '''', ''reply''], [''t'', ''stiq-comment'']], content = ''hi''\<rparr>"

theorem comment_edge_roundtrip_witness:
  "commentParentId ex_comment = Some ''c1'' \<and> commentParentAuthor ex_comment = Some ''ann''"
proof -
  obtain u where u: "buildPostComment 9 '' hi '' ex_root ex_parent = Inr u" "signed_as u ex_comment"
  proof -
    have "case buildPostComment 9 '' hi '' ex_root ex_parent of Inl _ \<Rightarrow> False | Inr u \<Rightarrow> signed_as u ex_comment"
      by code_simp
    then show thesis using that by (cases "buildPostComment 9 '' hi '' ex_root ex_parent") auto
  qed
  show ?thesis
    using comment_edge_roundtrip[OF u] by (simp add: ex_root_def ex_parent_def)
qed

section \<open>Flattening, counting and pruning\<close>

lemma countComments_flatten:
  "count_node n = length (flatten_node n)" "countComments ns = length (flattenThread ns)"
  by (induction n and ns rule: flatten_node_flattenThread.induct) auto

lemma flattenThread_append [simp]: "flattenThread (xs @ ys) = flattenThread xs @ flattenThread ys"
  by (induction xs) auto

definition thread_events :: "CommentNode list \<Rightarrow> event list" where
  "thread_events ns = map n_event (flattenThread ns)"

lemma thread_events_simps [simp]:
  "thread_events [] = []" "thread_events (Node e d cs # ns) = e # thread_events cs @ thread_events ns"
  "thread_events (xs @ ys) = thread_events xs @ thread_events ys"
  by (simp_all add: thread_events_def)

fun visible_in :: "(event \<Rightarrow> bool) \<Rightarrow> CommentNode \<Rightarrow> event list"
  and visible_events :: "(event \<Rightarrow> bool) \<Rightarrow> CommentNode list \<Rightarrow> event list" where
  \<comment> \<open>the events of a thread that are not hidden and under no hidden event, in display order\<close>
  "visible_in isHidden (Node e d cs) = (if isHidden e then [] else e # visible_events isHidden cs)"
| "visible_events isHidden [] = []"
| "visible_events isHidden (n # ns) = visible_in isHidden n @ visible_events isHidden ns"

lemma partition_visible:
  "thread_events (fst (partition_node isHidden n)) = visible_in isHidden n"
  "thread_events (fst (partitionThread isHidden ns)) = visible_events isHidden ns"
  by (induction isHidden n and isHidden ns rule: partition_node_partitionThread.induct)
    (auto simp: Let_def split: prod.splits)

lemma partition_mset:
  "mset (thread_events (fst (partition_node isHidden n))) + mset (thread_events (snd (partition_node isHidden n)))
     = mset (thread_events [n])"
  "mset (thread_events (fst (partitionThread isHidden ns))) + mset (thread_events (snd (partitionThread isHidden ns)))
     = mset (thread_events ns)"
proof (induction isHidden n and isHidden ns rule: partition_node_partitionThread.induct)
  case (3 isHidden n ns)
  have "mset (thread_events (n # ns)) = mset (thread_events [n]) + mset (thread_events ns)"
    using thread_events_simps(3)[of "[n]" ns] by simp
  then show ?case using 3 by (auto simp: Let_def ac_simps split: prod.splits)
qed (auto simp: Let_def split: prod.splits)

lemma partition_hidden_heads:
  "x \<in> set (snd (partition_node isHidden n)) \<Longrightarrow> isHidden (n_event x)"
  "x \<in> set (snd (partitionThread isHidden ns)) \<Longrightarrow> isHidden (n_event x)"
  by (induction isHidden n and isHidden ns rule: partition_node_partitionThread.induct)
    (auto simp: Let_def split: prod.splits if_splits)

text \<open>
  Pruning a thread by a moderation predicate.  The visible tree shows exactly the comments that
  are not hidden and have no hidden ancestor, in their order; each node of the hidden list is itself
  hidden; and no comment is lost or duplicated between the two, so the counts add up.
\<close>

theorem partitionThread_exact:
  "thread_events (fst (partitionThread isHidden ns)) = visible_events isHidden ns
   \<and> (\<forall>x \<in> set (snd (partitionThread isHidden ns)). isHidden (n_event x))
   \<and> mset (thread_events (fst (partitionThread isHidden ns))) + mset (thread_events (snd (partitionThread isHidden ns)))
     = mset (thread_events ns)
   \<and> countComments (fst (partitionThread isHidden ns)) + countComments (snd (partitionThread isHidden ns))
     = countComments ns"
proof (intro conjI ballI)
  show "countComments (fst (partitionThread isHidden ns)) + countComments (snd (partitionThread isHidden ns))
     = countComments ns"
    using arg_cong[OF partition_mset(2)[of isHidden ns], of size]
    by (simp add: countComments_flatten thread_events_def)
qed (use partition_visible(2) partition_mset(2) partition_hidden_heads(2) in auto)

definition ex_node :: CommentNode where
  "ex_node = Node ex_comment 0 [Node (ex_comment\<lparr>eid := ''c3''\<rparr>) 1 []]"

theorem partitionThread_exact_witness:
  "thread_events (fst (partitionThread (\<lambda>e. eid e = ''c3'') [ex_node])) = [ex_comment]
   \<and> countComments (snd (partitionThread (\<lambda>e. eid e = ''c3'') [ex_node])) = 1"
  using partitionThread_exact[of "\<lambda>e. eid e = ''c3''" "[ex_node]"]
  by (auto simp: ex_node_def ex_comment_def)

section \<open>The thread builder\<close>

text \<open>
  \<open>replies cs root p n c\<close>: comment \<open>c\<close> of the thread is \<open>n\<close> replies below the children of \<open>p\<close>.
\<close>

fun replies :: "event list \<Rightarrow> string \<Rightarrow> string \<Rightarrow> nat \<Rightarrow> event \<Rightarrow> bool" where
  "replies cs root p 0 c = (c \<in> set cs \<and> parent_of root c = p)"
| "replies cs root p (Suc n) c = (c \<in> set cs \<and> (\<exists>q. replies cs root p n q \<and> parent_of root c = eid q))"

definition proper_thread :: "event list \<Rightarrow> string \<Rightarrow> bool" where
  \<comment> \<open>ids are unique, and no comment is the root it comments on\<close>
  "proper_thread cs root \<longleftrightarrow> distinct (map eid cs) \<and> root \<notin> eid ` set cs"

lemma replies_mem: "replies cs root p n c \<Longrightarrow> c \<in> set cs"
  by (cases n) auto

lemma proper_inj: "proper_thread cs root \<Longrightarrow> a \<in> set cs \<Longrightarrow> b \<in> set cs \<Longrightarrow> eid a = eid b \<Longrightarrow> a = b"
  by (auto simp: proper_thread_def distinct_map dest: inj_onD)

lemma replies_depth_unique:
  assumes "proper_thread cs root"
  shows "replies cs root root n c \<Longrightarrow> replies cs root root m c \<Longrightarrow> n = m"
proof (induction n arbitrary: m c)
  case 0
  then show ?case
    using assms replies_mem[of cs root root] by (cases m) (auto simp: proper_thread_def)
next
  case (Suc n)
  then obtain q where q: "replies cs root root n q" "parent_of root c = eid q" by auto
  show ?case
  proof (cases m)
    case 0
    then show ?thesis using Suc.prems q replies_mem[OF q(1)] assms by (auto simp: proper_thread_def)
  next
    case (Suc k)
    then obtain q' where q': "replies cs root root k q'" "parent_of root c = eid q'"
      using Suc.prems(2) by auto
    have "q = q'" using proper_inj[OF assms] replies_mem q q' by metis
    with Suc.IH[OF q(1)] q'(1) Suc show ?thesis by simp
  qed
qed

lemma replies_ancestor_unique:
  assumes "proper_thread cs root" and "e \<in> set cs" and "e' \<in> set cs"
  shows "replies cs root (eid e) n c \<Longrightarrow> replies cs root (eid e') n c \<Longrightarrow> e = e'"
proof (induction n arbitrary: c)
  case 0
  then show ?case using proper_inj[OF assms] by auto
next
  case (Suc n)
  then obtain q q' where "replies cs root (eid e) n q" "parent_of root c = eid q"
    "replies cs root (eid e') n q'" "parent_of root c = eid q'" by auto
  moreover from this have "q = q'" using proper_inj[OF assms(1)] replies_mem by metis
  ultimately show ?case using Suc.IH by blast
qed

lemma replies_below:
  "replies cs root p d e \<Longrightarrow> replies cs root (eid e) n c \<Longrightarrow> replies cs root p (Suc (d + n)) c"
  by (induction n arbitrary: c) (auto dest: replies_mem)

lemma replies_step_down:
  "replies cs root p (Suc n) c \<longleftrightarrow> (\<exists>e. e \<in> set cs \<and> parent_of root e = p \<and> replies cs root (eid e) n c)"
proof (induction n arbitrary: c)
  case (Suc n)
  have "replies cs root p (Suc (Suc n)) c \<longleftrightarrow> c \<in> set cs \<and>
      (\<exists>q. (\<exists>e. e \<in> set cs \<and> parent_of root e = p \<and> replies cs root (eid e) n q) \<and> parent_of root c = eid q)"
    by (simp only: replies.simps(2)[of cs root p "Suc n"] Suc.IH)
  then show ?case by auto
qed auto

subsection \<open>The map of children\<close>

lemma map_of_push: "map_of (push_bucket k c m) j =
    (if j = k then Some ((case map_of m k of None \<Rightarrow> [] | Some b \<Rightarrow> b) @ [c]) else map_of m j)"
  by (auto simp: push_bucket_def js_map_simps split: option.splits)

lemma map_of_by_parent:
  "(case map_of (by_parent root cs) p of None \<Rightarrow> [] | Some b \<Rightarrow> b) = filter (\<lambda>c. parent_of root c = p) cs"
proof (induction cs rule: rev_induct)
  case (snoc c cs)
  have "by_parent root (cs @ [c]) = push_bucket (parent_of root c) c (by_parent root cs)"
    by (simp add: by_parent_def)
  then show ?case using snoc by (auto simp: map_of_push)
qed (simp add: by_parent_def)

lemma children_of_by_parent:
  "children_of (by_parent root cs) p = js_sort oldest_first (filter (\<lambda>c. parent_of root c = p) cs)"
  by (simp add: children_of_def map_of_by_parent)

interpretation age: comparator oldest_first
  by unfold_locales (auto simp: oldest_first_def)

subsection \<open>The tree without the guard against revisits\<close>

fun reply_tree :: "(string \<times> event list) list \<Rightarrow> nat \<Rightarrow> nat \<Rightarrow> string \<Rightarrow> CommentNode list" where
  \<comment> \<open>\<open>k\<close> levels below \<open>p\<close>, starting at depth \<open>d\<close>\<close>
  "reply_tree m 0 d p = []"
| "reply_tree m (Suc k) d p = map (\<lambda>e. Node e d (reply_tree m k (Suc d) (eid e))) (children_of m p)"

definition reply_nodes :: "(string \<times> event list) list \<Rightarrow> nat \<Rightarrow> nat \<Rightarrow> event list \<Rightarrow> CommentNode list" where
  "reply_nodes m k d es = map (\<lambda>e. Node e d (reply_tree m k (Suc d) (eid e))) es"

abbreviation ids :: "CommentNode list \<Rightarrow> string list" where
  "ids ns \<equiv> map eid (thread_events ns)"

lemma build_loop_tree:
  "distinct (ids (reply_tree m (MAX_COMMENT_DEPTH - d) d p)) \<Longrightarrow>
   set v \<inter> set (ids (reply_tree m (MAX_COMMENT_DEPTH - d) d p)) = {} \<Longrightarrow>
   build m p d v = (reply_tree m (MAX_COMMENT_DEPTH - d) d p, v @ ids (reply_tree m (MAX_COMMENT_DEPTH - d) d p))"
  "distinct (ids (reply_nodes m (MAX_COMMENT_DEPTH - Suc d) d es)) \<Longrightarrow>
   set v \<inter> set (ids (reply_nodes m (MAX_COMMENT_DEPTH - Suc d) d es)) = {} \<Longrightarrow>
   build_loop m es d v = (reply_nodes m (MAX_COMMENT_DEPTH - Suc d) d es,
     v @ ids (reply_nodes m (MAX_COMMENT_DEPTH - Suc d) d es))"
proof (induction m p d v and m es d v rule: build_build_loop.induct)
  case (1 m p d v)
  show ?case
  proof (cases "d \<ge> MAX_COMMENT_DEPTH")
    case False
    then have "MAX_COMMENT_DEPTH - d = Suc (MAX_COMMENT_DEPTH - Suc d)" by simp
    then have "reply_tree m (MAX_COMMENT_DEPTH - d) d p = reply_nodes m (MAX_COMMENT_DEPTH - Suc d) d (children_of m p)"
      by (simp add: reply_nodes_def)
    with 1 False show ?thesis by (simp add: build.simps)
  qed (simp add: build.simps)
next
  case (3 m e es d v)
  let ?sub = "reply_tree m (MAX_COMMENT_DEPTH - Suc d) (Suc d) (eid e)"
  have split: "ids (reply_nodes m (MAX_COMMENT_DEPTH - Suc d) d (e # es))
      = eid e # ids ?sub @ ids (reply_nodes m (MAX_COMMENT_DEPTH - Suc d) d es)"
    by (simp add: reply_nodes_def)
  have new: "eid e \<notin> set v" using 3 split by auto
  have sub: "build m (eid e) (d + 1) (v @ [eid e]) = (?sub, (v @ [eid e]) @ ids ?sub)"
    using 3(2)[OF new] 3(4,5) unfolding split by auto
  have "build_loop m es d ((v @ [eid e]) @ ids ?sub) = (reply_nodes m (MAX_COMMENT_DEPTH - Suc d) d es,
      ((v @ [eid e]) @ ids ?sub) @ ids (reply_nodes m (MAX_COMMENT_DEPTH - Suc d) d es))"
    by (rule 3(3)[OF new refl sub[symmetric]]) (use 3(4,5) in \<open>unfold split, auto\<close>)
  with new sub show ?case by (simp add: reply_nodes_def)
qed (simp add: reply_nodes_def)

subsection \<open>What the tree shows\<close>

definition shown :: "CommentNode list \<Rightarrow> (event \<times> nat) set" where
  "shown ns = (\<lambda>x. (n_event x, n_depth x)) ` set (flattenThread ns)"

lemma shown_nodes:
  "shown (map (\<lambda>e. Node e d (f e)) es) = (\<Union>e \<in> set es. insert (e, d) (shown (f e)))"
  by (induction es) (auto simp: shown_def)

lemma shown_tree:
  "(c, h) \<in> shown (reply_tree (by_parent root cs) k d p) \<longleftrightarrow> d \<le> h \<and> h < d + k \<and> replies cs root p (h - d) c"
proof (induction k arbitrary: d p)
  case 0
  then show ?case by (simp add: shown_def)
next
  case (Suc k)
  have "(c, h) \<in> shown (reply_tree (by_parent root cs) (Suc k) d p) \<longleftrightarrow>
      (\<exists>e \<in> set cs. parent_of root e = p \<and> ((c, h) = (e, d) \<or>
         Suc d \<le> h \<and> h < Suc d + k \<and> replies cs root (eid e) (h - Suc d) c))"
    by (auto simp: shown_nodes children_of_by_parent Suc)
  also have "\<dots> \<longleftrightarrow> d \<le> h \<and> h < d + Suc k \<and> replies cs root p (h - d) c"
  proof (cases "d < h")
    case True
    then have "h - d = Suc (h - Suc d)" by simp
    with True show ?thesis by (auto simp: replies_step_down simp del: replies.simps)
  next
    case False
    then show ?thesis by (cases "h = d") auto
  qed
  finally show ?case .
qed

lemma ids_tree:
  "i \<in> set (ids (reply_tree (by_parent root cs) k d p)) \<longleftrightarrow> (\<exists>n c. n < k \<and> replies cs root p n c \<and> eid c = i)"
proof -
  have "set (thread_events ns) = fst ` shown ns" for ns
    by (force simp: thread_events_def shown_def)
  then have "i \<in> set (ids (reply_tree (by_parent root cs) k d p)) \<longleftrightarrow>
      (\<exists>c h. (c, h) \<in> shown (reply_tree (by_parent root cs) k d p) \<and> eid c = i)" by force
  also have "\<dots> \<longleftrightarrow> (\<exists>c h. d \<le> h \<and> h < d + k \<and> replies cs root p (h - d) c \<and> eid c = i)"
    unfolding shown_tree by blast
  also have "\<dots> \<longleftrightarrow> (\<exists>n c. n < k \<and> replies cs root p n c \<and> eid c = i)"
    by (metis add_diff_cancel_left' le_add1 less_diff_conv2 nat_add_left_cancel_less le_Suc_ex)
  finally show ?thesis .
qed

definition level :: "event list \<Rightarrow> string \<Rightarrow> nat \<Rightarrow> string \<Rightarrow> bool" where
  \<comment> \<open>the children of \<open>p\<close> are at depth \<open>d\<close>\<close>
  "level cs root d p \<longleftrightarrow> (\<forall>n c. replies cs root p n c \<longrightarrow> replies cs root root (d + n) c)"

lemma level_down: "level cs root d p \<Longrightarrow> e \<in> set cs \<Longrightarrow> parent_of root e = p \<Longrightarrow> level cs root (Suc d) (eid e)"
  using replies_below[of cs root root d e]
  by (auto simp: level_def dest!: spec[of _ 0])

lemma siblings_disjoint:
  assumes "proper_thread cs root" and "level cs root d p" and "e \<in> set cs" "parent_of root e = p"
    and "e' \<in> set cs" "parent_of root e' = p"
  shows "replies cs root (eid e) n c \<Longrightarrow> eid c \<noteq> eid e'"
    "replies cs root (eid e) n c \<Longrightarrow> replies cs root (eid e') n' c' \<Longrightarrow> eid c = eid c' \<Longrightarrow> e = e'"
proof -
  have d: "replies cs root root d e'" using assms(2,5,6) by (auto simp: level_def dest!: spec[of _ 0])
  note below = level_down[OF assms(2-4), unfolded level_def, rule_format]
    level_down[OF assms(2,5,6), unfolded level_def, rule_format]
  note unique = replies_depth_unique[OF assms(1)]
  note same = proper_inj[OF assms(1) replies_mem replies_mem]
  show "eid c \<noteq> eid e'" if "replies cs root (eid e) n c"
    using unique[OF d] below(1)[OF that] same[OF that d] by fastforce
  show "e = e'" if "replies cs root (eid e) n c" "replies cs root (eid e') n' c'" "eid c = eid c'"
  proof -
    have "c = c'" using same that by blast
    moreover from this have "n = n'" using unique[OF below(1)[OF that(1)]] below(2)[OF that(2)] by fastforce
    ultimately show ?thesis using replies_ancestor_unique[OF assms(1,3,5)] that by blast
  qed
qed

lemma distinct_nodes:
  assumes "proper_thread cs root" and "level cs root d p"
    and "\<forall>e \<in> set es. e \<in> set cs \<and> parent_of root e = p" and "distinct es"
    and "\<forall>e \<in> set es. distinct (ids (reply_tree (by_parent root cs) k (Suc d) (eid e)))"
  shows "distinct (ids (reply_nodes (by_parent root cs) k d es))"
  using assms(3-5)
proof (induction es)
  case (Cons e es)
  let ?sub = "\<lambda>e. set (ids (reply_tree (by_parent root cs) k (Suc d) (eid e)))"
  have e: "e \<in> set cs" "parent_of root e = p" and es: "\<And>x. x \<in> set es \<Longrightarrow> x \<in> set cs \<and> parent_of root x = p \<and> x \<noteq> e"
    using Cons.prems by auto
  have rest: "set (ids (reply_nodes (by_parent root cs) k d es)) = (\<Union>x \<in> set es. insert (eid x) (?sub x))"
    by (induction es) (auto simp: reply_nodes_def)
  have "eid e \<notin> ?sub e" "\<And>x. x \<in> set es \<Longrightarrow> eid e \<notin> ?sub x" "\<And>x. x \<in> set es \<Longrightarrow> eid x \<notin> ?sub e"
    using siblings_disjoint(1)[OF assms(1,2)] e es unfolding ids_tree by metis+
  moreover have "eid e \<noteq> eid x" if "x \<in> set es" for x
    using proper_inj[OF assms(1) e(1)] es[OF that] by metis
  moreover have "?sub e \<inter> ?sub x = {}" if "x \<in> set es" for x
    using siblings_disjoint(2)[OF assms(1,2) e] es[OF that] unfolding ids_tree disjoint_iff by metis
  ultimately have "eid e \<notin> set (ids (reply_nodes (by_parent root cs) k d es))" "eid e \<notin> ?sub e"
    "?sub e \<inter> set (ids (reply_nodes (by_parent root cs) k d es)) = {}"
    unfolding rest by blast+
  with Cons show ?case by (auto simp: reply_nodes_def)
qed (simp add: reply_nodes_def)

lemma distinct_tree:
  assumes "proper_thread cs root"
  shows "level cs root d p \<Longrightarrow> distinct (ids (reply_tree (by_parent root cs) k d p))"
proof (induction k arbitrary: d p)
  case (Suc k)
  have "distinct cs" using assms by (auto simp: proper_thread_def distinct_map)
  then have "distinct (ids (reply_nodes (by_parent root cs) k d (children_of (by_parent root cs) p)))"
    by (intro distinct_nodes[OF assms Suc.prems])
      (auto simp: children_of_by_parent intro: Suc.IH level_down[OF Suc.prems])
  then show ?case by (simp add: reply_nodes_def)
qed simp

lemma reply_tree_children:
  assumes "x \<in> set (flattenThread (reply_tree (by_parent root cs) k d p))"
  shows "n_children x \<in> {[], map (\<lambda>e. Node e (Suc (n_depth x)) (reply_tree (by_parent root cs) (d + k - Suc (Suc (n_depth x))) (Suc (Suc (n_depth x))) (eid e)))
     (js_sort oldest_first (filter (\<lambda>c. parent_of root c = eid (n_event x)) cs))}"
  using assms
proof (induction k arbitrary: d p)
  case (Suc k)
  have fl: "flattenThread (map f es) = concat (map (\<lambda>e. flatten_node (f e)) es)" for f and es :: "event list"
    by (induction es) auto
  obtain e where e: "x = Node e d (reply_tree (by_parent root cs) k (Suc d) (eid e)) \<or>
      x \<in> set (flattenThread (reply_tree (by_parent root cs) k (Suc d) (eid e)))"
    using Suc.prems by (auto simp: fl)
  then show ?case
  proof
    assume x: "x = Node e d (reply_tree (by_parent root cs) k (Suc d) (eid e))"
    show ?thesis by (cases k) (auto simp: x children_of_by_parent)
  next
    assume "x \<in> set (flattenThread (reply_tree (by_parent root cs) k (Suc d) (eid e)))"
    from Suc.IH[OF this] show ?thesis by simp
  qed
qed simp

lemma thread_comments_distinct: "distinct (map eid (thread_comments (run ops) root))"
proof -
  let ?evs = "cached (run ops)"
  have q: "query (run ops) \<lparr>q_kinds = Some [k], q_authors = None, q_limit = None, q_unordered = False\<rparr>
      = js_sort newest_first (filter (\<lambda>e. kind e = k) ?evs)" for k
    using query_eq_spec[OF store_ok_run] by (simp add: query_spec_def)
  have d: "distinct (map eid ?evs)" by (rule distinct_cached[OF store_ok_run])
  have k: "distinct (map eid (js_sort newest_first (filter (\<lambda>e. kind e = k) ?evs)))" for k
    unfolding distinct_map_js_sort by (rule distinct_map_filter[OF d])
  have "eid a \<noteq> eid b" if "a \<in> set ?evs" "b \<in> set ?evs" "kind a = KIND_COMMENT" "kind b = KIND_POST" for a b
  proof
    assume "eid a = eid b"
    then have "a = b" using d that(1,2) by (simp add: distinct_map inj_on_def)
    with that show False by (simp add: KIND_COMMENT_def KIND_POST_def)
  qed
  then have "distinct (map eid (js_sort newest_first (filter (\<lambda>e. kind e = KIND_COMMENT) ?evs)
      @ filter isStiqComment (js_sort newest_first (filter (\<lambda>e. kind e = KIND_POST) ?evs))))"
    unfolding map_append distinct_append
    by (intro conjI k distinct_map_filter[OF k]) (auto simp del: map_append)
  then show ?thesis unfolding thread_comments_def Let_def q by (rule distinct_map_filter)
qed

lemma buildThread_tree:
  assumes "root \<notin> eid ` set (thread_comments (run ops) root)"
  shows "buildThread (run ops) root = reply_tree (by_parent root (thread_comments (run ops) root)) 100 0 root"
    "distinct (ids (buildThread (run ops) root))"
proof -
  let ?cs = "thread_comments (run ops) root"
  have "proper_thread ?cs root" using assms thread_comments_distinct by (simp add: proper_thread_def)
  then have d: "distinct (ids (reply_tree (by_parent root ?cs) 100 0 root))"
    by (rule distinct_tree) (simp add: level_def)
  then show "buildThread (run ops) root = reply_tree (by_parent root ?cs) 100 0 root"
    using build_loop_tree(1)[of "by_parent root ?cs" 0 root "[]"] by (simp add: buildThread_def MAX_COMMENT_DEPTH_def)
  with d show "distinct (ids (buildThread (run ops) root))" by simp
qed

text \<open>
  C25. The thread of a post is complete and has no duplicates.  Over any history of the store, the
  tree shows exactly the post's comments that are linked to it by a chain of at most a hundred
  replies, each once and at the depth that is the length of its chain; the replies under a comment
  are the comments that name it as their parent, oldest first.  Comments in a cycle or under a
  missing parent are not shown.  The only assumption is that no comment of the post has the
  post's own id, which a hash over the comment's tags cannot.
\<close>

theorem buildThread_complete:
  assumes "root \<notin> eid ` set (thread_comments (run ops) root)"
  shows "shown (buildThread (run ops) root)
      = {(c, h). h < 100 \<and> replies (thread_comments (run ops) root) root root h c}
    \<and> distinct (map eid (thread_events (buildThread (run ops) root)))
    \<and> sorted_wrt (\<lambda>x y. created_at x \<le> created_at y) (map n_event (buildThread (run ops) root))
    \<and> (\<forall>x \<in> set (flattenThread (buildThread (run ops) root)).
         (\<forall>y \<in> set (n_children x). parent_of root (n_event y) = eid (n_event x))
       \<and> sorted_wrt (\<lambda>x y. created_at x \<le> created_at y) (map n_event (n_children x)))"
proof (intro conjI ballI)
  let ?cs = "thread_comments (run ops) root"
  note tree = buildThread_tree[OF assms]
  have sorted: "sorted_wrt (\<lambda>x y. created_at x \<le> created_at y) (js_sort oldest_first es)" for es
    using age.sorted_js_sort[of es] by (simp add: oldest_first_def)
  show "shown (buildThread (run ops) root) = {(c, h). h < 100 \<and> replies ?cs root root h c}"
    using shown_tree[of _ _ root ?cs 100 0 root] unfolding tree(1) by auto
  show "distinct (map eid (thread_events (buildThread (run ops) root)))" by (rule tree(2))
  have "reply_tree m 100 0 root = reply_nodes m 99 0 (children_of m root)" for m
    by (simp add: reply_nodes_def numeral_eq_Suc)
  then show "sorted_wrt (\<lambda>x y. created_at x \<le> created_at y) (map n_event (buildThread (run ops) root))"
    unfolding tree(1) by (simp add: reply_nodes_def comp_def children_of_by_parent sorted)
  fix x assume "x \<in> set (flattenThread (buildThread (run ops) root))"
  from reply_tree_children[OF this[unfolded tree(1)]] show "sorted_wrt (\<lambda>x y. created_at x \<le> created_at y) (map n_event (n_children x))"
    "\<And>y. y \<in> set (n_children x) \<Longrightarrow> parent_of root (n_event y) = eid (n_event x)"
    by (auto simp: comp_def sorted)
qed

definition ex_reply :: "string \<Rightarrow> string \<Rightarrow> int \<Rightarrow> event" where
  "ex_reply i parent t = \<lparr>eid = i, pubkey = ''bob'', created_at = t, kind = 1111,
     tags = [[''E'', ''p1''], [''e'', parent]], content = ''hi''\<rparr>"

definition ex_history :: "st_op list" where
  "ex_history = [Save (ex_reply ''c2'' ''c1'' 9), Save (ex_reply ''c1'' ''p1'' 5), Save (ex_reply ''c3'' ''p1'' 4),
     Save (ex_reply ''x1'' ''x2'' 4), Save (ex_reply ''x2'' ''x1'' 4)]"

theorem buildThread_complete_witness:
  "''p1'' \<notin> eid ` set (thread_comments (run ex_history) ''p1'')
   \<and> shown (buildThread (run ex_history) ''p1'')
     = {(c, h). h < 100 \<and> replies (thread_comments (run ex_history) ''p1'') ''p1'' ''p1'' h c}
   \<and> map (\<lambda>x. (eid (n_event x), n_depth x)) (flattenThread (buildThread (run ex_history) ''p1''))
     = [(''c3'', 0), (''c1'', 0), (''c2'', 1)]"
proof -
  have 1: "''p1'' \<notin> eid ` set (thread_comments (run ex_history) ''p1'')" by code_simp
  have 2: "map (\<lambda>x. (eid (n_event x), n_depth x)) (flattenThread (buildThread (run ex_history) ''p1''))
     = [(''c3'', 0), (''c1'', 0), (''c2'', 1)]" by code_simp
  show ?thesis using 1 2 buildThread_complete[OF 1] by blast
qed

section \<open>The author's note\<close>

lemma isPinned_query:
  "loadPinnedHistory (run ops) postId postAuthor = (case js_sort oldest_first (filter (\<lambda>e. isPinnedFor e postId postAuthor)
       (js_sort newest_first (filter (\<lambda>e. pubkey e = postAuthor) (filter (\<lambda>e. kind e = KIND_COMMENT) (cached (run ops))))))
     of [] \<Rightarrow> (None, []) | v # vs \<Rightarrow> (Some (last (v # vs)), butlast (v # vs)))"
  using query_eq_spec[OF store_ok_run, of ops]
  by (auto simp: loadPinnedHistory_def query_spec_def Let_def split: list.splits)

text \<open>
  The note block shows the newest version the post's author has pinned to the post, and the history
  holds all the other versions in the order of their creation; comments of others never appear in
  it, whatever marker they carry, and no version appears in the comment tree.
\<close>

lemma pinned_history_exact:
  assumes "loadPinnedHistory (run ops) postId postAuthor = (latest, history)"
  shows "mset (history @ (case latest of None \<Rightarrow> [] | Some e \<Rightarrow> [e]))
      = mset (filter (\<lambda>e. isPinnedFor e postId postAuthor) (cached (run ops)))
    \<and> sorted_wrt (\<lambda>x y. created_at x \<le> created_at y) (history @ (case latest of None \<Rightarrow> [] | Some e \<Rightarrow> [e]))"
proof -
  let ?vs = "js_sort oldest_first (filter (\<lambda>e. isPinnedFor e postId postAuthor)
       (js_sort newest_first (filter (\<lambda>e. pubkey e = postAuthor) (filter (\<lambda>e. kind e = KIND_COMMENT) (cached (run ops))))))"
  have "history @ (case latest of None \<Rightarrow> [] | Some e \<Rightarrow> [e]) = ?vs"
    using assms unfolding isPinned_query by (auto split: list.splits)
  moreover have "mset ?vs = mset (filter (\<lambda>e. isPinnedFor e postId postAuthor) (cached (run ops)))"
    by (simp add: filter_filter_mset isPinnedFor_def) (auto intro!: filter_mset_cong)
  moreover have "sorted_wrt (\<lambda>x y. created_at x \<le> created_at y) ?vs"
    using age.sorted_js_sort by (simp add: oldest_first_def)
  ultimately show ?thesis by simp
qed

lemma pinned_not_in_thread: "isPinnedFor c postId a \<Longrightarrow> c \<notin> set (thread_comments st root)"
  by (auto simp: thread_comments_def isPinnedFor_def isPinnedComment_def Let_def list_ex_iff)

end
