(* ===== verification/Reports.thy ===== *)
theory Reports
  imports Viewer Latest Thread
begin

text \<open>
  Moderators' actions: \<open>client/src/moderation/report.ts\<close> (the kind-1984 events that hide, restore,
  lock, ban and so on), \<open>moderators.ts\<close> (the roster), \<open>advisory.ts\<close> (directives that route
  content to the log) and \<open>bans.ts\<close> (active bans).  Decoding and printing of an npub is the
  third-party \<open>nip19\<close>: the functions that need it take \<open>npub_data\<close>, which is \<^const>\<open>None\<close> for what
  does not decode to a public key.  A folded state is a list of entries in the order of a
  JavaScript \<open>Map\<close>.
\<close>

section \<open>Definitions\<close>

subsection \<open>report.ts\<close>

definition KIND_REPORT :: nat where "KIND_REPORT = 1984"

definition CONTENT_SNAPSHOT_TAG :: string where "CONTENT_SNAPSHOT_TAG = ''content-snapshot''"
definition CONTENT_SNAPSHOT_MAX :: nat where "CONTENT_SNAPSHOT_MAX = 280"
definition ACTION_TAG :: string where "ACTION_TAG = ''stiq-action''"
definition LABEL_NAMESPACE :: string where "LABEL_NAMESPACE = ''stiq.type''"

record RemoveOptions =
  authorPubkey :: "string option"
  reasonId :: "string option"
  ro_note :: "string option"
  contentSnapshot :: "string option"
  reportType :: "string option"
  ro_reason :: "string option"

definition report_event :: "int \<Rightarrow> string list list \<Rightarrow> string \<Rightarrow> unsigned_event" where
  "report_event now tgs body = \<lparr>u_kind = KIND_REPORT, u_created_at = Some now, u_tags = tgs, u_content = body\<rparr>"

definition p_tag :: "string option \<Rightarrow> string list list" where
  \<comment> \<open>\<open>if (authorPubkey) tags.push(['p', authorPubkey])\<close>\<close>
  "p_tag a = (if truthy a then [[''p'', the a]] else [])"

definition coalesce :: "'a option \<Rightarrow> 'a option \<Rightarrow> 'a option" where
  \<comment> \<open>\<open>a ?? b\<close>\<close>
  "coalesce a b = (case a of None \<Rightarrow> b | Some x \<Rightarrow> Some x)"

definition buildRemoveReport :: "int \<Rightarrow> string \<Rightarrow> RemoveOptions \<Rightarrow> unsigned_event" where
  "buildRemoveReport now postId opts =
     (let bucket = (case coalesce (reasonId opts) (reportType opts) of Some b \<Rightarrow> b | None \<Rightarrow> ''other'');
          snapshot = map_option js_trim (contentSnapshot opts);
          body = (case coalesce (ro_note opts) (ro_reason opts) of Some b \<Rightarrow> b | None \<Rightarrow> '''')
      in report_event now ([[''e'', postId, bucket]] @ p_tag (authorPubkey opts)
           @ (if truthy snapshot then [[CONTENT_SNAPSHOT_TAG, take CONTENT_SNAPSHOT_MAX (the snapshot)]] else [])) body)"

definition contentSnapshotOf :: "event \<Rightarrow> string option" where
  "contentSnapshotOf r = (case Option.bind (find (\<lambda>t. at t 0 = Some CONTENT_SNAPSHOT_TAG) (tags r)) (\<lambda>t. at t 1) of
       Some s \<Rightarrow> if s = '''' then None else Some s
     | None \<Rightarrow> None)"

datatype StiqAction = ARestore | ALock | AUnlock | ARetag | APin | AUnpin | ABan | AUnban

definition stiq_action :: "string \<Rightarrow> StiqAction option" where
  "stiq_action v = map_of [(''restore'', ARestore), (''lock'', ALock), (''unlock'', AUnlock), (''retag'', ARetag),
     (''pin'', APin), (''unpin'', AUnpin), (''ban'', ABan), (''unban'', AUnban)] v"

fun first_action :: "(string \<Rightarrow> 'a option) \<Rightarrow> string list list \<Rightarrow> 'a option" where
  \<comment> \<open>the first known value of an action tag\<close>
  "first_action known [] = None"
| "first_action known (t # ts) =
     (if at t 0 = Some ACTION_TAG \<and> Option.bind (at t 1) known \<noteq> None then Option.bind (at t 1) known
      else first_action known ts)"

definition stiqActionOf :: "event \<Rightarrow> StiqAction option" where
  "stiqActionOf r = first_action stiq_action (tags r)"

definition isHideReport :: "event \<Rightarrow> bool" where
  "isHideReport r = (stiqActionOf r = None)"

definition action_report :: "string \<Rightarrow> int \<Rightarrow> string \<Rightarrow> string option \<Rightarrow> unsigned_event" where
  \<comment> \<open>what the builders of the actions on a post share\<close>
  "action_report act now targetId authorPk = report_event now ([[''e'', targetId], [ACTION_TAG, act]] @ p_tag authorPk) ''''"

definition buildRestore :: "int \<Rightarrow> string \<Rightarrow> string option \<Rightarrow> unsigned_event" where
  "buildRestore = action_report ''restore''"

definition buildLockThread :: "int \<Rightarrow> string \<Rightarrow> string option \<Rightarrow> unsigned_event" where
  "buildLockThread = action_report ''lock''"

definition buildUnlockThread :: "int \<Rightarrow> string \<Rightarrow> string option \<Rightarrow> unsigned_event" where
  "buildUnlockThread = action_report ''unlock''"

definition buildRetag :: "int \<Rightarrow> string \<Rightarrow> string \<Rightarrow> string option \<Rightarrow> unsigned_event" where
  "buildRetag now targetId newLabel authorPk = report_event now
     ([[''e'', targetId], [ACTION_TAG, ''retag''], [''l'', newLabel, LABEL_NAMESPACE]] @ p_tag authorPk) ''''"

definition buildPin :: "int \<Rightarrow> string \<Rightarrow> string option \<Rightarrow> unsigned_event" where
  "buildPin = action_report ''pin''"

definition buildUnpin :: "int \<Rightarrow> string \<Rightarrow> string option \<Rightarrow> unsigned_event" where
  "buildUnpin = action_report ''unpin''"

definition buildBan :: "int \<Rightarrow> string \<Rightarrow> string option \<Rightarrow> int option \<Rightarrow> unsigned_event" where
  "buildBan now pk message untilSec = report_event now
     ([[''p'', pk], [ACTION_TAG, ''ban'']]
        @ (case untilSec of Some u \<Rightarrow> if u > 0 then [[''ban-until'', js_dec (nat u)]] else [] | None \<Rightarrow> []))
     (case message of Some m \<Rightarrow> m | None \<Rightarrow> '''')"

definition buildUnban :: "int \<Rightarrow> string \<Rightarrow> unsigned_event" where
  "buildUnban now pk = report_event now [[''p'', pk], [ACTION_TAG, ''unban'']] ''''"

datatype visibility = Hide | Unhide

definition reportAction :: "event \<Rightarrow> visibility" where
  "reportAction r = (if isHideReport r then Hide else Unhide)"

definition reportedPostId :: "event \<Rightarrow> string option" where
  "reportedPostId r = (if kind r \<noteq> KIND_REPORT then None else tag_value ''e'' (tags r))"

subsection \<open>moderators.ts\<close>

definition moderatorPubkeySet :: "(string \<Rightarrow> string option) \<Rightarrow> string list \<Rightarrow> string list" where
  "moderatorPubkeySet npub_data npubs =
     foldl (\<lambda>s npub. case npub_data npub of Some pk \<Rightarrow> set_add pk s | None \<Rightarrow> s) [] npubs"

definition isModerator :: "(string \<Rightarrow> string option) \<Rightarrow> string list \<Rightarrow> string \<Rightarrow> bool" where
  "isModerator npub_data npubs pk = (pk \<in> set (moderatorPubkeySet npub_data npubs))"

subsection \<open>advisory.ts\<close>

datatype AdvisoryAction = LogUser | UnlogUser | Log | RestoreEvent | LogBatch

definition advisory_action :: "string \<Rightarrow> AdvisoryAction option" where
  "advisory_action v = map_of [(''log-user'', LogUser), (''unlog-user'', UnlogUser), (''log'', Log),
     (''restore'', RestoreEvent), (''log-batch'', LogBatch)] v"

definition buildLogUser :: "int \<Rightarrow> string \<Rightarrow> unsigned_event" where
  "buildLogUser now authorPk = report_event now [[''p'', authorPk], [ACTION_TAG, ''log-user'']] ''''"

definition buildUnlogUser :: "int \<Rightarrow> string \<Rightarrow> unsigned_event" where
  "buildUnlogUser now authorPk = report_event now [[''p'', authorPk], [ACTION_TAG, ''unlog-user'']] ''''"

definition buildLogEvent :: "int \<Rightarrow> string \<Rightarrow> string option \<Rightarrow> unsigned_event" where
  "buildLogEvent = action_report ''log''"

definition buildLogBatch :: "int \<Rightarrow> string list \<Rightarrow> string \<Rightarrow> unsigned_event" where
  "buildLogBatch now eventIds authorPk = report_event now
     (map (\<lambda>i. [''e'', i]) eventIds @ [[''p'', authorPk], [ACTION_TAG, ''log-batch'']]) ''''"

definition advisoryActionOf :: "event \<Rightarrow> AdvisoryAction option" where
  "advisoryActionOf e = first_action advisory_action (tags e)"

record directive =
  \<comment> \<open>\<open>{ts, logged, ev}\<close>\<close>
  dr_ts :: int
  dr_logged :: bool
  dr_ev :: event

type_synonym directives = "(string \<times> directive) list"

definition direct :: "string \<Rightarrow> bool \<Rightarrow> event \<Rightarrow> directives \<Rightarrow> directives" where
  "direct target logged e = keep_best (\<ge>) dr_ts target \<lparr>dr_ts = created_at e, dr_logged = logged, dr_ev = e\<rparr>"

definition advisory_step :: "(string \<Rightarrow> bool) \<Rightarrow> directives \<times> directives \<Rightarrow> event \<Rightarrow> directives \<times> directives" where
  \<comment> \<open>one round of the loop of \<open>advisoryOverlay\<close>: the author rules and the event rules\<close>
  "advisory_step is_mod = (\<lambda>(authorTs, eventTs) e.
     if kind e \<noteq> KIND_REPORT \<or> \<not> is_mod (pubkey e) then (authorTs, eventTs)
     else case advisoryActionOf e of
       None \<Rightarrow> (authorTs, eventTs)
     | Some act \<Rightarrow>
         if act = LogUser \<or> act = UnlogUser then
           (case tag_value ''p'' (tags e) of
              None \<Rightarrow> (authorTs, eventTs)
            | Some authorPk \<Rightarrow> (direct authorPk (act = LogUser) e authorTs, eventTs))
         else (authorTs, foldl (\<lambda>m t. if at t 0 \<noteq> Some ''e'' \<or> \<not> truthy (at t 1) then m
                                      else direct (the (at t 1)) (act \<noteq> RestoreEvent) e m) eventTs (tags e)))"

record AdvisoryOverlay =
  loggedAuthors :: "string list"
  loggedEvents :: "string list"
  authorReports :: "(string \<times> event) list"
  eventReports :: "(string \<times> event) list"

definition logged_reports :: "directives \<Rightarrow> (string \<times> event) list" where
  "logged_reports m = List.map_filter (\<lambda>(k, d). if dr_logged d then Some (k, dr_ev d) else None) m"

definition advisoryOverlay :: "event list \<Rightarrow> (string \<Rightarrow> bool) \<Rightarrow> AdvisoryOverlay" where
  "advisoryOverlay events is_mod =
     (let (authorTs, eventTs) = foldl (advisory_step is_mod) ([], []) events
      in \<lparr>loggedAuthors = map fst (logged_reports authorTs), loggedEvents = map fst (logged_reports eventTs),
          authorReports = logged_reports authorTs, eventReports = logged_reports eventTs\<rparr>)"

record LoggedAuthor =
  la_pubkey :: string
  la_since :: int
  la_moderator :: string

definition loggedAuthorsFrom :: "AdvisoryOverlay \<Rightarrow> LoggedAuthor list" where
  "loggedAuthorsFrom ov = js_sort (\<lambda>a b. la_since b - la_since a)
     (map (\<lambda>(pk, e). \<lparr>la_pubkey = pk, la_since = created_at e, la_moderator = pubkey e\<rparr>) (authorReports ov))"

subsection \<open>bans.ts\<close>

definition kinds_query :: "nat list \<Rightarrow> feed_query" where
  "kinds_query ks = \<lparr>q_kinds = Some ks, q_authors = None, q_limit = None, q_unordered = False\<rparr>"

definition dec_val :: "char \<Rightarrow> nat option" where
  "dec_val c = (if of_char c \<in> {48..57 :: nat} then Some (of_char c - 48) else None)"

fun dec_prefix :: "nat \<Rightarrow> string \<Rightarrow> nat" where
  "dec_prefix acc [] = acc"
| "dec_prefix acc (c # cs) = (case dec_val c of Some d \<Rightarrow> dec_prefix (acc * 10 + d) cs | None \<Rightarrow> acc)"

definition parseInt10 :: "string \<Rightarrow> int option" where
  \<comment> \<open>\<open>parseInt(s, 10)\<close>: the longest numeric prefix, \<^const>\<open>None\<close> for \<open>NaN\<close>\<close>
  "parseInt10 s =
     (let s = dropWhile js_space s;
          neg = (s \<noteq> [] \<and> hd s = CHR ''-'');
          ds = (if s \<noteq> [] \<and> hd s \<in> {CHR ''-'', CHR ''+''} then tl s else s)
      in if ds = [] \<or> dec_val (hd ds) = None then None
         else Some (if neg then - int (dec_prefix 0 ds) else int (dec_prefix 0 ds)))"

record BanInfo =
  b_message :: string
  b_since :: int
  b_until :: "int option"
  b_moderator :: string

record ban_record =
  \<comment> \<open>\<open>{ts, ev, action}\<close>\<close>
  br_ts :: int
  br_ev :: event
  br_ban :: bool

definition ban_of :: "string list \<Rightarrow> event \<Rightarrow> (string \<times> ban_record) option" where
  \<comment> \<open>the guards of the loop: whom a moderator's action bans or unbans\<close>
  "ban_of mods r =
     (if pubkey r \<notin> set mods then None
      else if stiqActionOf r \<noteq> Some ABan \<and> stiqActionOf r \<noteq> Some AUnban then None
      else case Option.bind (find (\<lambda>t. at t 0 = Some ''p'') (tags r)) (\<lambda>t. at t 1) of
        None \<Rightarrow> None
      | Some p \<Rightarrow> if p = '''' then None
                  else Some (p, \<lparr>br_ts = created_at r, br_ev = r, br_ban = (stiqActionOf r = Some ABan)\<rparr>))"

definition ban_until :: "event \<Rightarrow> int option" where
  "ban_until r = (case Option.bind (find (\<lambda>t. at t 0 = Some ''ban-until'') (tags r)) (\<lambda>t. at t 1) of
       Some u \<Rightarrow> if u = '''' then None else parseInt10 u
     | None \<Rightarrow> None)"

definition ban_info :: "int \<Rightarrow> ban_record \<Rightarrow> BanInfo option" where
  "ban_info nowSec v =
     (if \<not> br_ban v then None
      else let until = ban_until (br_ev v) in
        if until \<noteq> None \<and> the until \<noteq> 0 \<and> the until \<le> nowSec then None
        else Some \<lparr>b_message = content (br_ev v), b_since = created_at (br_ev v), b_until = until,
                   b_moderator = pubkey (br_ev v)\<rparr>)"

definition bannedAuthors :: "mstore \<Rightarrow> string list \<Rightarrow> int \<Rightarrow> (string \<times> BanInfo) list" where
  \<comment> \<open>\<open>mods\<close> is the set decoded from the roster\<close>
  "bannedAuthors st mods nowSec =
     List.map_filter (\<lambda>(p, v). map_option (Pair p) (ban_info nowSec v))
       (foldl (\<lambda>m r. case ban_of mods r of None \<Rightarrow> m | Some (p, v) \<Rightarrow> keep_best (>) br_ts p v m) []
          (query st (kinds_query [KIND_REPORT])))"

definition bannedMembers :: "mstore \<Rightarrow> string list \<Rightarrow> int \<Rightarrow> (string \<times> BanInfo) list" where
  "bannedMembers st mods nowSec = js_sort (\<lambda>a b. b_since (snd b) - b_since (snd a)) (bannedAuthors st mods nowSec)"

section \<open>Folds over the reports\<close>

lemma map_of_map_filter:
  assumes "distinct (map fst m)"
  shows "map_of (List.map_filter (\<lambda>(k, v). map_option (Pair k) (f v)) m) k = Option.bind (map_of m k) f"
  using assms
proof (induction m)
  case (Cons x m)
  obtain k' v where x: "x = (k', v)" by (cases x)
  have "map_of m k' = None" using Cons.prems x by (simp add: map_of_eq_None_iff)
  with Cons x show ?case by (cases "f v") (auto simp: List.map_filter_simps)
qed (simp add: List.map_filter_def)

lemma keys_map_filter:
  assumes "distinct (map fst m)"
  shows "distinct (map fst (List.map_filter (\<lambda>(k, v). map_option (Pair k) (f v)) m))"
proof -
  have "fst ` set (List.map_filter (\<lambda>(k, v). map_option (Pair k) (f v)) m) \<subseteq> fst ` set m" for m
    by (force simp: List.map_filter_def)
  with assms show ?thesis
    by (induction m) (force simp: List.map_filter_simps split: option.splits)+
qed

lemma logged_reports_alt:
  "logged_reports m = List.map_filter (\<lambda>(k, v). map_option (Pair k) (if dr_logged v then Some (dr_ev v) else None)) m"
  by (induction m) (auto simp: logged_reports_def List.map_filter_simps)

definition author_rule :: "(string \<Rightarrow> bool) \<Rightarrow> event \<Rightarrow> (string \<times> directive) list" where
  \<comment> \<open>the standing rule an event states, if any\<close>
  "author_rule is_mod e =
     (if kind e = KIND_REPORT \<and> is_mod (pubkey e) \<and> advisoryActionOf e \<in> {Some LogUser, Some UnlogUser}
        \<and> tag_value ''p'' (tags e) \<noteq> None
      then [(the (tag_value ''p'' (tags e)),
             \<lparr>dr_ts = created_at e, dr_logged = (advisoryActionOf e = Some LogUser), dr_ev = e\<rparr>)] else [])"

definition event_rules :: "(string \<Rightarrow> bool) \<Rightarrow> event \<Rightarrow> (string \<times> directive) list" where
  \<comment> \<open>the directives on single events\<close>
  "event_rules is_mod e =
     (if kind e = KIND_REPORT \<and> is_mod (pubkey e) \<and> advisoryActionOf e \<in> {Some Log, Some RestoreEvent, Some LogBatch}
      then map (\<lambda>t. (the (at t 1), \<lparr>dr_ts = created_at e, dr_logged = (advisoryActionOf e \<noteq> Some RestoreEvent), dr_ev = e\<rparr>))
             (filter (\<lambda>t. at t 0 = Some ''e'' \<and> truthy (at t 1)) (tags e)) else [])"

definition put_directive :: "directives \<Rightarrow> string \<times> directive \<Rightarrow> directives" where
  "put_directive m x = keep_best (\<ge>) dr_ts (fst x) (snd x) m"

lemma advisory_step_rules:
  "advisory_step is_mod (a, b) e = (foldl put_directive a (author_rule is_mod e), foldl put_directive b (event_rules is_mod e))"
proof -
  have fold: "foldl (\<lambda>m t. if at t 0 \<noteq> Some ''e'' \<or> \<not> truthy (at t 1) then m else direct (the (at t 1)) l e m) b ts =
      foldl put_directive b (map (\<lambda>t. (the (at t 1), \<lparr>dr_ts = created_at e, dr_logged = l, dr_ev = e\<rparr>))
             (filter (\<lambda>t. at t 0 = Some ''e'' \<and> truthy (at t 1)) ts))" for l ts
    by (induction ts arbitrary: b) (auto simp: direct_def put_directive_def)
  consider (ignored) "kind e \<noteq> KIND_REPORT \<or> \<not> is_mod (pubkey e) \<or> advisoryActionOf e = None"
    | (rule) act where "kind e = KIND_REPORT" "is_mod (pubkey e)" "advisoryActionOf e = Some act" "act = LogUser \<or> act = UnlogUser"
    | (event) act where "kind e = KIND_REPORT" "is_mod (pubkey e)" "advisoryActionOf e = Some act" "\<not> (act = LogUser \<or> act = UnlogUser)"
    by fastforce
  then show ?thesis
  proof cases
    case ignored
    then show ?thesis by (auto simp: advisory_step_def author_rule_def event_rules_def)
  next
    case rule
    then show ?thesis
      by (auto simp: advisory_step_def author_rule_def event_rules_def put_directive_def direct_def split: option.splits)
  next
    case event
    then have "advisory_step is_mod (a, b) e = (a, foldl (\<lambda>m t. if at t 0 \<noteq> Some ''e'' \<or> \<not> truthy (at t 1) then m
        else direct (the (at t 1)) (act \<noteq> RestoreEvent) e m) b (tags e))"
      unfolding advisory_step_def by simp
    moreover have "author_rule is_mod e = []" using event by (auto simp: author_rule_def)
    moreover have "act \<in> {Log, RestoreEvent, LogBatch}" using event by (cases act) auto
    ultimately show ?thesis using event unfolding fold event_rules_def by auto
  qed
qed

lemma advisory_fold:
  "foldl (advisory_step is_mod) (a, b) es =
     (foldl put_directive a (concat (map (author_rule is_mod) es)), foldl put_directive b (concat (map (event_rules is_mod) es)))"
  by (induction es arbitrary: a b) (simp_all add: advisory_step_rules)

lemma directives_fold:
  "map_of (foldl put_directive [] xs) k = best_of (\<ge>) dr_ts (map snd (filter (\<lambda>x. fst x = k) xs))"
  "distinct (map fst (foldl put_directive [] xs))"
proof -
  have eq: "put_directive = (\<lambda>m e. case Some e of None \<Rightarrow> m | Some (k, v) \<Rightarrow> keep_best (\<ge>) dr_ts k v m)"
    by (auto simp: put_directive_def fun_eq_iff)
  have flt: "List.map_filter (\<lambda>e. case Some e of Some (k', v) \<Rightarrow> if k' = k then Some v else None | None \<Rightarrow> None) xs =
      map snd (filter (\<lambda>x. fst x = k) xs)"
    by (induction xs) (auto simp: List.map_filter_simps)
  show "map_of (foldl put_directive [] xs) k = best_of (\<ge>) dr_ts (map snd (filter (\<lambda>x. fst x = k) xs))"
    unfolding eq keep_best_fold flt ..
  show "distinct (map fst (foldl put_directive [] xs))"
    unfolding eq by (rule keep_best_fold_keys)
qed
section \<open>The newest action decides\<close>

lemma set_query:
  "set (query (run ops) (kinds_query ks)) = {e \<in> set (cached (run ops)). kind e \<in> set ks}"
  using query_eq_spec[OF store_ok_run, of ops "kinds_query ks"] by (auto simp: query_spec_def kinds_query_def)

definition ban_target :: "string list \<Rightarrow> event \<Rightarrow> string option" where
  "ban_target mods r = map_option fst (ban_of mods r)"

lemma ban_of_record:
  "ban_of mods r = Some (p, v) \<Longrightarrow>
   v = \<lparr>br_ts = created_at r, br_ev = r, br_ban = (stiqActionOf r = Some ABan)\<rparr> \<and> pubkey r \<in> set mods"
  by (auto simp: ban_of_def split: if_splits option.splits)

lemma bannedAuthors_lookup:
  "map_of (bannedAuthors st mods now) p =
   Option.bind (newest_of (filter (\<lambda>r. ban_target mods r = Some p) (query st (kinds_query [KIND_REPORT]))))
     (\<lambda>r. ban_info now \<lparr>br_ts = created_at r, br_ev = r, br_ban = (stiqActionOf r = Some ABan)\<rparr>)"
proof -
  let ?rec = "\<lambda>r. \<lparr>br_ts = created_at r, br_ev = r, br_ban = (stiqActionOf r = Some ABan)\<rparr>"
  have "List.map_filter (\<lambda>e. case ban_of mods e of Some (k', v) \<Rightarrow> if k' = p then Some v else None | None \<Rightarrow> None) rs =
      map ?rec (filter (\<lambda>r. ban_target mods r = Some p) rs)" for rs
    by (induction rs) (auto simp: List.map_filter_simps ban_target_def dest!: ban_of_record split: option.splits)
  then show ?thesis
    by (simp add: bannedAuthors_def map_of_map_filter keep_best_fold_keys keep_best_fold best_of_map bind_map_option comp_def)
qed

text \<open>
  Every ban in force was issued by a moderator in a stored event that names the banned author.
\<close>

lemma bans_are_accountable:
  assumes "map_of (bannedAuthors (run ops) mods now) p = Some i"
  shows "\<exists>r \<in> set (cached (run ops)). pubkey r \<in> set mods \<and> stiqActionOf r = Some ABan \<and> ban_target mods r = Some p
    \<and> b_moderator i = pubkey r \<and> b_message i = content r"
proof -
  obtain r where r: "newest_of (filter (\<lambda>r. ban_target mods r = Some p) (query (run ops) (kinds_query [KIND_REPORT]))) = Some r"
      "ban_info now \<lparr>br_ts = created_at r, br_ev = r, br_ban = (stiqActionOf r = Some ABan)\<rparr> = Some i"
    using assms by (auto simp: bannedAuthors_lookup bind_eq_Some_conv)
  have "r \<in> set (cached (run ops))" "ban_target mods r = Some p"
    using best_of_mem[OF r(1)] by (auto simp: set_query)
  moreover have "pubkey r \<in> set mods" using calculation(2) by (auto simp: ban_target_def dest: ban_of_record)
  ultimately show ?thesis using r(2) by (auto simp: ban_info_def Let_def split: if_splits)
qed

lemma ban_decided_by_newest:
  assumes "r \<in> set (cached (run ops))" "kind r = KIND_REPORT" "ban_target mods r = Some p"
    and "\<And>x. x \<in> set (cached (run ops)) \<Longrightarrow> ban_target mods x = Some p \<Longrightarrow> x \<noteq> r \<Longrightarrow> created_at x < created_at r"
  shows "map_of (bannedAuthors (run ops) mods now) p =
    (if stiqActionOf r = Some ABan \<and> (case ban_until r of None \<Rightarrow> True | Some u \<Rightarrow> u = 0 \<or> now < u)
     then Some \<lparr>b_message = content r, b_since = created_at r, b_until = ban_until r, b_moderator = pubkey r\<rparr> else None)"
proof -
  have "newest_of (filter (\<lambda>r. ban_target mods r = Some p) (query (run ops) (kinds_query [KIND_REPORT]))) = Some r"
    using assms by (intro newer.best_of_unique) (auto simp: set_query not_less less_imp_le)
  then show ?thesis
    by (auto simp: bannedAuthors_lookup ban_info_def Let_def split: option.splits)
qed

lemma dec_val_digit: "d < 10 \<Longrightarrow> dec_val (hex_digit d) = Some d"
proof -
  have "\<forall>d \<in> set [0..<10]. dec_val (hex_digit d) = Some d"
    by (simp add: dec_val_def hex_digit_def upt_rec)
  then show "d < 10 \<Longrightarrow> dec_val (hex_digit d) = Some d" by simp
qed

lemma dec_prefix_append:
  "(\<forall>c \<in> set xs. dec_val c \<noteq> None) \<Longrightarrow> dec_prefix acc (xs @ ys) = dec_prefix (dec_prefix acc xs) ys"
  by (induction xs arbitrary: acc) (auto split: option.splits)

lemma dec_prefix_dec: "dec_prefix 0 (js_dec n) = n"
proof (induction n rule: js_dec.induct)
  case (1 n)
  have digits: "\<forall>c \<in> set (js_dec k). dec_val c \<noteq> None" for k
    using js_dec_digit dec_val_digit by fastforce
  show ?case
  proof (cases "n < 10")
    case True
    then have "js_dec n = [hex_digit n]" by (subst js_dec.simps) simp
    with True show ?thesis by (simp add: dec_val_digit)
  next
    case False
    then have "js_dec n = js_dec (n div 10) @ [hex_digit (n mod 10)]" by (subst js_dec.simps) simp
    with False 1 show ?thesis by (simp add: dec_prefix_append[OF digits] dec_val_digit)
  qed
qed

lemma parseInt10_dec: "parseInt10 (js_dec n) = Some (int n)"
proof -
  have ne: "js_dec n \<noteq> []"
    by (subst js_dec.simps) simp
  then obtain d where d: "d < 10" "hd (js_dec n) = hex_digit d"
    using js_dec_digit list.set_sel(1) by blast
  have "dropWhile js_space (js_dec n) = js_dec n"
    using ne d hex_digit_plain(1)[of d] by (cases "js_dec n") auto
  moreover have "hd (js_dec n) \<noteq> CHR ''-''" "hd (js_dec n) \<noteq> CHR ''+''"
    using d hex_digit_plain[of d] by simp_all
  ultimately show ?thesis
    using ne d by (simp add: parseInt10_def dec_val_digit dec_prefix_dec)
qed

text \<open>What a ban or its lift says once it is signed.\<close>

lemmas report_builders = report_event_def buildBan_def buildUnban_def buildRemoveReport_def action_report_def
  buildRestore_def buildLockThread_def buildUnlockThread_def buildPin_def buildUnpin_def buildRetag_def
  buildLogUser_def buildUnlogUser_def buildLogEvent_def buildLogBatch_def p_tag_def

lemma ban_signed:
  assumes "signed_as (buildBan t pk msg until) e" "pk \<noteq> ''''" "pubkey e \<in> set mods"
  shows "ban_target mods e = Some pk" "stiqActionOf e = Some ABan"
    "ban_until e = (case until of Some u \<Rightarrow> if u > 0 then Some u else None | None \<Rightarrow> None)"
    "content e = (case msg of Some m \<Rightarrow> m | None \<Rightarrow> '''')"
proof -
  have tg: "tags e = [[''p'', pk], [ACTION_TAG, ''ban'']] @
      (case until of Some u \<Rightarrow> if u > 0 then [[''ban-until'', js_dec (nat u)]] else [] | None \<Rightarrow> [])"
    and ct: "content e = (case msg of Some m \<Rightarrow> m | None \<Rightarrow> '''')"
    using assms(1) by (simp_all add: signed_as_def report_builders)
  show act: "stiqActionOf e = Some ABan"
    by (simp add: stiqActionOf_def tg stiq_action_def ACTION_TAG_def)
  then show "ban_target mods e = Some pk"
    using assms(2,3) by (simp add: ban_target_def ban_of_def tg)
  have "js_dec n \<noteq> ''''" for n by (subst js_dec.simps) simp
  then show "ban_until e = (case until of Some u \<Rightarrow> if u > 0 then Some u else None | None \<Rightarrow> None)"
    by (auto simp: ban_until_def tg ACTION_TAG_def parseInt10_dec split: option.splits)
  show "content e = (case msg of Some m \<Rightarrow> m | None \<Rightarrow> '''')" by (rule ct)
qed

lemma unban_signed:
  assumes "signed_as (buildUnban t pk) e" "pk \<noteq> ''''" "pubkey e \<in> set mods"
  shows "ban_target mods e = Some pk" "stiqActionOf e = Some AUnban"
proof -
  have tg: "tags e = [[''p'', pk], [ACTION_TAG, ''unban'']]"
    using assms(1) by (simp add: signed_as_def report_builders)
  then show act: "stiqActionOf e = Some AUnban"
    by (simp add: stiqActionOf_def stiq_action_def ACTION_TAG_def)
  then show "ban_target mods e = Some pk"
    using assms(2,3) tg by (simp add: ban_target_def ban_of_def)
qed

text \<open>
  A ban lasts until its expiry or until any moderator lifts it.  If the newest ban action of the
  moderators on an author is a ban, the author is banned exactly until the expiry it was issued
  with, for ever if it had none; if it is a lift the author is not banned, whatever was issued
  before.
\<close>

theorem ban_lifecycle:
  assumes "pk \<noteq> ''''" and "pubkey e \<in> set mods" and "e \<in> set (cached (run ops))"
    and "\<And>x. x \<in> set (cached (run ops)) \<Longrightarrow> ban_target mods x = Some pk \<Longrightarrow> x \<noteq> e \<Longrightarrow> created_at x < created_at e"
  shows "(signed_as (buildBan t pk msg until) e \<longrightarrow>
      (map_of (bannedAuthors (run ops) mods now) pk \<noteq> None \<longleftrightarrow> (case until of None \<Rightarrow> True | Some u \<Rightarrow> u \<le> 0 \<or> now < u)))
    \<and> (signed_as (buildUnban t pk) e \<longrightarrow> map_of (bannedAuthors (run ops) mods now) pk = None)"
proof (intro conjI impI)
  assume s: "signed_as (buildBan t pk msg until) e"
  have "kind e = KIND_REPORT" using s by (simp add: signed_as_def report_builders)
  from ban_decided_by_newest[OF assms(3) this ban_signed(1)[OF s assms(1,2)] assms(4), of now]
  show "map_of (bannedAuthors (run ops) mods now) pk \<noteq> None \<longleftrightarrow> (case until of None \<Rightarrow> True | Some u \<Rightarrow> u \<le> 0 \<or> now < u)"
    using ban_signed(2,3)[OF s assms(1,2)] by (auto split: option.splits if_splits)
next
  assume s: "signed_as (buildUnban t pk) e"
  have "kind e = KIND_REPORT" using s by (simp add: signed_as_def report_builders)
  from ban_decided_by_newest[OF assms(3) this unban_signed(1)[OF s assms(1,2)] assms(4), of now]
  show "map_of (bannedAuthors (run ops) mods now) pk = None"
    using unban_signed(2)[OF s assms(1,2)] by simp
qed

definition ex_ban :: event where
  "ex_ban = \<lparr>eid = ''b1'', pubkey = ''mod'', created_at = 10, kind = 1984,
     tags = [[''p'', ''eve''], [''stiq-action'', ''ban''], [''ban-until'', ''50'']], content = ''spam''\<rparr>"

theorem ban_lifecycle_witness:
  "map_of (bannedAuthors (run [Save ex_ban]) [''mod''] 49) ''eve'' \<noteq> None
   \<and> map_of (bannedAuthors (run [Save ex_ban]) [''mod''] 50) ''eve'' = None"
proof -
  have stored: "cached (run [Save ex_ban]) = [ex_ban]"
    by (simp add: cached_def run_def save_def has_def empty_store_def)
  have "js_dec 50 = ''50''" by (simp add: js_dec.simps hex_digit_def)
  then have signed: "signed_as (buildBan 10 ''eve'' (Some ''spam'') (Some 50)) ex_ban"
    by (simp add: signed_as_def report_builders ex_ban_def KIND_REPORT_def ACTION_TAG_def)
  have "map_of (bannedAuthors (run [Save ex_ban]) [''mod''] now) ''eve'' \<noteq> None \<longleftrightarrow> now < 50" for now
    using ban_lifecycle[of "''eve''" ex_ban "[''mod'']" "[Save ex_ban]" 10 "Some ''spam''" "Some 50" now] signed
    by (simp add: stored) (simp add: ex_ban_def)
  from this[of 49] this[of 50] show ?thesis by simp
qed

section \<open>Directives that route content to the log\<close>

lemma directive_best:
  assumes "(k, d) \<in> set xs" and "\<And>d'. (k, d') \<in> set xs \<Longrightarrow> d' \<noteq> d \<Longrightarrow> dr_ts d' < dr_ts d"
  shows "map_of (logged_reports (foldl put_directive [] xs)) k = (if dr_logged d then Some (dr_ev d) else None)"
proof -
  have "best_of (\<ge>) dr_ts (map snd (filter (\<lambda>x. fst x = k) xs)) = Some d"
    using assms by (intro newer_or_same.best_of_unique) (force simp: not_le less_imp_le)+
  then show ?thesis
    by (simp add: logged_reports_alt map_of_map_filter directives_fold)
qed

lemma overlay_fields:
  "eventReports (advisoryOverlay evs is_mod) = logged_reports (foldl put_directive [] (concat (map (event_rules is_mod) evs)))"
  "authorReports (advisoryOverlay evs is_mod) = logged_reports (foldl put_directive [] (concat (map (author_rule is_mod) evs)))"
  "loggedEvents (advisoryOverlay evs is_mod) = map fst (eventReports (advisoryOverlay evs is_mod))"
  "loggedAuthors (advisoryOverlay evs is_mod) = map fst (authorReports (advisoryOverlay evs is_mod))"
  by (simp_all add: advisoryOverlay_def advisory_fold)

lemma mem_keys_iff: "k \<in> set (map fst m) \<longleftrightarrow> map_of m k \<noteq> None"
  by (simp add: map_of_eq_None_iff)

lemma rules_of_event:
  "(i, d) \<in> set (event_rules is_mod e) \<Longrightarrow>
     d = \<lparr>dr_ts = created_at e, dr_logged = (advisoryActionOf e \<noteq> Some RestoreEvent), dr_ev = e\<rparr>
     \<and> is_mod (pubkey e) \<and> kind e = KIND_REPORT"
  "(i, d) \<in> set (author_rule is_mod e) \<Longrightarrow>
     d = \<lparr>dr_ts = created_at e, dr_logged = (advisoryActionOf e = Some LogUser), dr_ev = e\<rparr>
     \<and> is_mod (pubkey e) \<and> kind e = KIND_REPORT"
  by (auto simp: event_rules_def author_rule_def split: if_splits)

lemma event_rule_decided:
  assumes "e \<in> set evs" "i \<in> fst ` set (event_rules is_mod e)"
    and "\<And>x. x \<in> set evs \<Longrightarrow> i \<in> fst ` set (event_rules is_mod x) \<Longrightarrow> x \<noteq> e \<Longrightarrow> created_at x < created_at e"
  shows "map_of (eventReports (advisoryOverlay evs is_mod)) i = (if advisoryActionOf e \<noteq> Some RestoreEvent then Some e else None)"
proof -
  let ?d = "\<lambda>e. \<lparr>dr_ts = created_at e, dr_logged = (advisoryActionOf e \<noteq> Some RestoreEvent), dr_ev = e\<rparr>"
  have here: "(i, ?d e) \<in> set (concat (map (event_rules is_mod) evs))"
  proof -
    obtain d where "(i, d) \<in> set (event_rules is_mod e)" using assms(2) by auto
    with rules_of_event(1)[OF this] assms(1) show ?thesis by auto
  qed
  have "dr_ts d' < dr_ts (?d e)" if d': "(i, d') \<in> set (concat (map (event_rules is_mod) evs))" "d' \<noteq> ?d e" for d'
  proof -
    from d' obtain x where x: "x \<in> set evs" "(i, d') \<in> set (event_rules is_mod x)" by auto
    with d'(2) have "x \<noteq> e" by (auto dest: rules_of_event(1))
    with x have "created_at x < created_at e" by (intro assms(3)) force+
    with x(2) show ?thesis by (simp add: rules_of_event(1)[OF x(2)])
  qed
  from directive_best[OF here this] show ?thesis by (simp add: overlay_fields(1))
qed

text \<open>
  Content returns to the feed as soon as a moderator restores it.  If the newest moderator
  directive naming an event is a log directive, alone or in a batch, the event is routed to the
  log and attributed to that directive, for every event of the batch; if it is a restore it is
  not.
\<close>

theorem directive_lifecycle:
  assumes "i \<noteq> ''''" and "is_mod (pubkey e)" and "e \<in> set evs"
    and "\<And>x. x \<in> set evs \<Longrightarrow> i \<in> fst ` set (event_rules is_mod x) \<Longrightarrow> x \<noteq> e \<Longrightarrow> created_at x < created_at e"
  shows "(signed_as (buildLogBatch t targets a) e \<and> i \<in> set targets \<longrightarrow>
       i \<in> set (loggedEvents (advisoryOverlay evs is_mod)) \<and> map_of (eventReports (advisoryOverlay evs is_mod)) i = Some e)
    \<and> (signed_as (buildLogEvent t i b) e \<longrightarrow> i \<in> set (loggedEvents (advisoryOverlay evs is_mod)))
    \<and> (signed_as (buildRestore t i b) e \<longrightarrow> i \<notin> set (loggedEvents (advisoryOverlay evs is_mod)))"
proof (intro conjI impI; (elim conjE)?)
  have fa: "first_action advisory_action (map (\<lambda>i. [''e'', i]) targets @ ts) = first_action advisory_action ts" for targets ts
    by (induction targets) (auto simp: ACTION_TAG_def)
  {
    assume s: "signed_as (buildLogBatch t targets a) e" and i: "i \<in> set targets"
    have act: "advisoryActionOf e = Some LogBatch" "kind e = KIND_REPORT"
      "tags e = map (\<lambda>i. [''e'', i]) targets @ [[''p'', a], [ACTION_TAG, ''log-batch'']]"
      using s by (simp_all add: signed_as_def report_builders advisoryActionOf_def fa)
        (simp add: ACTION_TAG_def advisory_action_def)
    then have "i \<in> fst ` set (event_rules is_mod e)"
      using assms(1,2) i by (force simp: event_rules_def)
    from event_rule_decided[OF assms(3) this assms(4)] act(1)
    show "map_of (eventReports (advisoryOverlay evs is_mod)) i = Some e" by simp
    then show "i \<in> set (loggedEvents (advisoryOverlay evs is_mod))"
      by (simp add: overlay_fields(3) mem_keys_iff del: set_map)
  }
  {
    assume s: "signed_as (buildLogEvent t i b) e"
    have act: "advisoryActionOf e = Some Log" "kind e = KIND_REPORT" "[''e'', i] \<in> set (tags e)"
      using s by (simp_all add: signed_as_def report_builders advisoryActionOf_def ACTION_TAG_def advisory_action_def)
    then have "i \<in> fst ` set (event_rules is_mod e)"
      using assms(1,2) by (force simp: event_rules_def)
    from event_rule_decided[OF assms(3) this assms(4)] act(1)
    show "i \<in> set (loggedEvents (advisoryOverlay evs is_mod))"
      by (simp add: overlay_fields(3) mem_keys_iff del: set_map)
  }
  {
    assume s: "signed_as (buildRestore t i b) e"
    have act: "advisoryActionOf e = Some RestoreEvent" "kind e = KIND_REPORT" "[''e'', i] \<in> set (tags e)"
      using s by (simp_all add: signed_as_def report_builders advisoryActionOf_def ACTION_TAG_def advisory_action_def)
    then have "i \<in> fst ` set (event_rules is_mod e)"
      using assms(1,2) by (force simp: event_rules_def)
    from event_rule_decided[OF assms(3) this assms(4)] act(1)
    show "i \<notin> set (loggedEvents (advisoryOverlay evs is_mod))"
      by (simp add: overlay_fields(3) mem_keys_iff del: set_map)
  }
qed

definition ex_batch :: event where
  "ex_batch = \<lparr>eid = ''d1'', pubkey = ''mod'', created_at = 10, kind = 1984,
     tags = [[''e'', ''p1''], [''e'', ''p2''], [''p'', ''eve''], [''stiq-action'', ''log-batch'']], content = ''''\<rparr>"

theorem directive_lifecycle_witness:
  "''p2'' \<in> set (loggedEvents (advisoryOverlay [ex_batch] (\<lambda>p. p = ''mod'')))"
proof -
  have "signed_as (buildLogBatch 10 [''p1'', ''p2''] ''eve'') ex_batch"
    by (simp add: signed_as_def report_builders ex_batch_def KIND_REPORT_def ACTION_TAG_def)
  then show ?thesis
    using directive_lifecycle[of "''p2''" "\<lambda>p. p = ''mod''" ex_batch "[ex_batch]" 10 "[''p1'', ''p2'']" "''eve''" None]
    by (simp add: ex_batch_def)
qed

end
