(* ===== verification/DoubleSpend.thy ===== *)
theory DoubleSpend
  imports BlindPost EventStore
begin

text \<open>
  The reading side of blind posting: \<open>client/src/blind/doubleSpend.ts\<close> detects a holder who spends one
  token in two events, \<open>client/src/blind/spendWitness.ts\<close> is the advisory event that names such a
  pair and its verification against the local store.

  A bucket of \<open>detectDoubleSpends\<close> is the list of (id, time) pairs recorded for a token; the set
  \<open>seenPerToken\<close> of the code is the set of their ids.  The memo of \<open>validSpentTokenIds\<close> caches the
  value of a pure function and is not modelled.
\<close>

section \<open>Definitions\<close>

subsection \<open>doubleSpend.ts\<close>

definition tokenId :: "crypto \<Rightarrow> u8 list \<Rightarrow> string" where
  "tokenId C Q = bytesToHex (sha256 C Q)"

definition decodeOrNull :: "string option \<Rightarrow> u8 list option" where
  "decodeOrNull b64 =
     (if \<not> truthy b64 then None
      else case base64ToBytes (the b64) of Inl _ \<Rightarrow> None | Inr bs \<Rightarrow> Some bs)"

definition safeVerifySpend :: "crypto \<Rightarrow> u8 list \<Rightarrow> string \<Rightarrow> u8 list \<Rightarrow> bool" where
  "safeVerifySpend C proof eventPubkeyHex Q = (verifySpendProof C proof eventPubkeyHex Q = Some True)"

definition tag_values :: "string \<Rightarrow> event \<Rightarrow> u8 list option list" where
  \<comment> \<open>the decoded values of the tags with a name, in tag order\<close>
  "tag_values name e = map (\<lambda>t. decodeOrNull (at t 1)) (filter (tag_is name) (tags e))"

fun spent_loop :: "crypto \<Rightarrow> event \<Rightarrow> u8 list option list \<Rightarrow> nat \<Rightarrow> u8 list option list \<Rightarrow> string list \<Rightarrow> string list" where
  "spent_loop C e spends i [] ids = ids"
| "spent_loop C e spends i (None # ts) ids = spent_loop C e spends (Suc i) ts ids"
| "spent_loop C e spends i (Some Q # ts) ids =
     (let valid = (if i = 0 then bytesToHex Q = pubkey e
                   else case at spends (i - 1) of
                     Some (Some proof) \<Rightarrow> safeVerifySpend C proof (pubkey e) Q
                   | _ \<Rightarrow> False)
      in spent_loop C e spends (Suc i) ts (if valid then set_add (tokenId C Q) ids else ids))"

definition validSpentTokenIds :: "crypto \<Rightarrow> event \<Rightarrow> string list" where
  "validSpentTokenIds C e =
     (if \<not> isBlindPost e then []
      else spent_loop C e (tag_values TAG_SPEND e) 0 (tag_values TAG_TOKEN e) [])"

record conflict =
  c_tokenId :: string
  c_winner :: string
  c_losers :: "string list"
  c_eventIds :: "string list"

definition bucket_add :: "string \<Rightarrow> string \<times> int \<Rightarrow> (string \<times> (string \<times> int) list) list \<Rightarrow> (string \<times> (string \<times> int) list) list" where
  "bucket_add tid x buckets =
     (let b = (case map_of buckets tid of None \<Rightarrow> [] | Some b \<Rightarrow> b)
      in AList.update tid (if fst x \<in> fst ` set b then b else b @ [x]) buckets)"

definition spend_buckets :: "crypto \<Rightarrow> event list \<Rightarrow> (string \<times> (string \<times> int) list) list" where
  "spend_buckets C events =
     foldl (\<lambda>bs e. foldl (\<lambda>bs tid. bucket_add tid (eid e, created_at e) bs) bs (validSpentTokenIds C e)) [] events"

definition spend_order :: "string \<times> int \<Rightarrow> string \<times> int \<Rightarrow> int" where
  "spend_order a b = (if snd a \<noteq> snd b then snd a - snd b else str_cmp (fst a) (fst b))"

definition conflict_of :: "string \<Rightarrow> (string \<times> int) list \<Rightarrow> conflict" where
  "conflict_of tid bucket =
     (let eventIds = map fst (js_sort spend_order bucket)
      in \<lparr>c_tokenId = tid, c_winner = hd eventIds, c_losers = tl eventIds, c_eventIds = eventIds\<rparr>)"

definition detect_step ::
  "string list \<times> (string \<times> conflict) list \<Rightarrow> string \<times> (string \<times> int) list \<Rightarrow> string list \<times> (string \<times> conflict) list" where
  \<comment> \<open>the body of the loop over the buckets\<close>
  "detect_step = (\<lambda>(loserIds, conflicts) (tid, bucket).
     if length bucket < 2 then (loserIds, conflicts)
     else let c = conflict_of tid bucket
          in (foldl (\<lambda>ls l. set_add l ls) loserIds (c_losers c), AList.update tid c conflicts))"

definition detectDoubleSpends :: "crypto \<Rightarrow> event list \<Rightarrow> string list \<times> (string \<times> conflict) list" where
  \<comment> \<open>the losing event ids and the conflicts by token id\<close>
  "detectDoubleSpends C events = foldl detect_step ([], []) (spend_buckets C events)"

subsection \<open>spendWitness.ts\<close>

definition KIND_SPEND_WITNESS :: nat where "KIND_SPEND_WITNESS = 1986"
definition DS_TAG :: string where "DS_TAG = ''stiq_ds''"

definition buildSpendWitness :: "int \<Rightarrow> string \<Rightarrow> string \<Rightarrow> string \<Rightarrow> unsigned_event" where
  "buildSpendWitness now tokenIdHex winnerId loserId =
     \<lparr>u_kind = KIND_SPEND_WITNESS, u_created_at = Some now,
      u_tags = [[''e'', winnerId], [''e'', loserId], [DS_TAG, tokenIdHex]], u_content = ''''\<rparr>"

fun witness_loop :: "string list list \<Rightarrow> string list \<Rightarrow> string option \<Rightarrow> string list \<times> string option" where
  "witness_loop [] ids t = (ids, t)"
| "witness_loop (tg # tgs) ids t =
     (if tag_is ''e'' tg \<and> truthy (at tg 1) \<and> length ids < 2 then witness_loop tgs (ids @ [the (at tg 1)]) t
      else if tag_is DS_TAG tg \<and> truthy (at tg 1) \<and> t = None then witness_loop tgs ids (at tg 1)
      else witness_loop tgs ids t)"

definition parseSpendWitness :: "event \<Rightarrow> (string \<times> string list) option" where
  "parseSpendWitness ev =
     (if kind ev \<noteq> KIND_SPEND_WITNESS then None
      else case witness_loop (tags ev) [] None of
        (ids, Some t) \<Rightarrow> if length ids < 2 then None else Some (t, ids)
      | (_, None) \<Rightarrow> None)"

fun resolve_named :: "mstore \<Rightarrow> string list \<Rightarrow> (string \<times> event) list \<Rightarrow> (string \<times> event) list option" where
  "resolve_named store [] named = Some named"
| "resolve_named store (i # is) named =
     (case getById store i of None \<Rightarrow> None | Some e \<Rightarrow> resolve_named store is (AList.update i e named))"

definition verifySpendWitness :: "crypto \<Rightarrow> event \<Rightarrow> mstore \<Rightarrow> string list" where
  "verifySpendWitness C ev store =
     (case parseSpendWitness ev of
        None \<Rightarrow> []
      | Some (tid, eventIds) \<Rightarrow>
          case resolve_named store eventIds [] of
            None \<Rightarrow> []
          | Some named \<Rightarrow>
              let conflicts = snd (detectDoubleSpends C (map snd named));
                  losers = (case map_of conflicts tid of None \<Rightarrow> [] | Some c \<Rightarrow> c_losers c)
              in foldl (\<lambda>ls l. if map_of named l \<noteq> None then set_add l ls else ls) [] losers)"

section \<open>Which spends count\<close>

lemma spent_loop_acc: "set (spent_loop C e sp i ts ids) = set ids \<union> set (spent_loop C e sp i ts [])"
proof (induction ts arbitrary: i ids)
  case (Cons t ts)
  show ?case
  proof (cases t)
    case None
    then show ?thesis using Cons.IH[of "Suc i" ids] by simp
  next
    case (Some Q)
    have "\<And>b. set (spent_loop C e sp (Suc i) ts (if b then set_add (tokenId C Q) ids else ids)) =
        set ids \<union> set (spent_loop C e sp (Suc i) ts (if b then set_add (tokenId C Q) [] else []))"
      using Cons.IH[of "Suc i" "set_add (tokenId C Q) ids"] Cons.IH[of "Suc i" "set_add (tokenId C Q) []"]
        Cons.IH[of "Suc i" ids] by auto
    with Some show ?thesis by (simp add: Let_def)
  qed
qed simp

lemma distinct_spent_loop: "distinct ids \<Longrightarrow> distinct (spent_loop C e sp i ts ids)"
  by (induction C e sp i ts ids rule: spent_loop.induct) (auto simp: Let_def)

lemma spent_loop_sound:
  "tid \<in> set (spent_loop C e sp i ts []) \<Longrightarrow>
   \<exists>Q. Some Q \<in> set ts \<and> tid = tokenId C Q
     \<and> (bytesToHex Q = pubkey e \<or> (\<exists>proof. Some proof \<in> set sp \<and> safeVerifySpend C proof (pubkey e) Q))"
proof (induction ts arbitrary: i)
  case (Cons t ts)
  show ?case
  proof (cases t)
    case None
    then show ?thesis using Cons.IH[of "Suc i"] Cons.prems by auto
  next
    case (Some Q)
    define valid where "valid = (if i = 0 then bytesToHex Q = pubkey e
                   else case at sp (i - 1) of
                     Some (Some proof) \<Rightarrow> safeVerifySpend C proof (pubkey e) Q
                   | _ \<Rightarrow> False)"
    have "tid \<in> set (spent_loop C e sp (Suc i) ts []) \<or> (valid \<and> tid = tokenId C Q)"
      using Cons.prems Some spent_loop_acc[of C e sp "Suc i" ts "set_add (tokenId C Q) []"]
      by (auto simp: Let_def valid_def split: if_splits)
    then show ?thesis
    proof
      assume "tid \<in> set (spent_loop C e sp (Suc i) ts [])"
      with Cons.IH[of "Suc i"] show ?thesis by auto
    next
      assume v: "valid \<and> tid = tokenId C Q"
      then have "bytesToHex Q = pubkey e \<or> (\<exists>proof. Some proof \<in> set sp \<and> safeVerifySpend C proof (pubkey e) Q)"
        by (auto simp: valid_def at_def split: if_splits option.splits) (metis One_nat_def diff_Suc_1 nth_mem)+
      with v Some show ?thesis by auto
    qed
  qed
qed simp

lemma distinct_validSpent: "distinct (validSpentTokenIds C e)"
  by (simp add: validSpentTokenIds_def distinct_spent_loop)

text \<open>
  A token is attributed to an event only with proof: the event is signed by the token's own
  key, or one of its holder proofs verifies for this event's key and this token.  A copied token
  tag alone counts for nothing.
\<close>

theorem spends_are_proven:
  assumes "tid \<in> set (validSpentTokenIds C e)"
  shows "\<exists>Q. tid = tokenId C Q \<and> (bytesToHex Q = pubkey e
     \<or> (\<exists>proof. verifySpendProof C proof (pubkey e) Q = Some True))"
  using assms spent_loop_sound[of tid C e "tag_values TAG_SPEND e" 0 "tag_values TAG_TOKEN e"]
  by (auto simp: validSpentTokenIds_def safeVerifySpend_def split: if_splits)

section \<open>Winners and losers\<close>

lemma spend_order_le:
  "spend_order a b \<le> 0 \<longleftrightarrow> snd a < snd b \<or> snd a = snd b \<and> fst a \<le> fst b"
  by (auto simp: spend_order_def)

lemma spend_order_less:
  "spend_order a b < 0 \<longleftrightarrow> snd a < snd b \<or> snd a = snd b \<and> fst a < fst b"
  by (auto simp: spend_order_def)

interpretation spends: comparator spend_order
  by unfold_locales (auto simp: spend_order_le)

lemma spend_order_antisym: "spend_order a b \<le> 0 \<Longrightarrow> spend_order b a \<le> 0 \<Longrightarrow> a = b"
  by (auto simp: spend_order_le prod_eq_iff)

definition record_spend :: "string \<times> int \<Rightarrow> (string \<times> int) list \<Rightarrow> (string \<times> int) list" where
  "record_spend x b = (if fst x \<in> fst ` set b then b else b @ [x])"

definition bucket_get :: "(string \<times> (string \<times> int) list) list \<Rightarrow> string \<Rightarrow> (string \<times> int) list" where
  "bucket_get bs tid = (case map_of bs tid of None \<Rightarrow> [] | Some b \<Rightarrow> b)"

lemma bucket_get_add [simp]:
  "bucket_get (bucket_add tid x bs) j = (if j = tid then record_spend x (bucket_get bs j) else bucket_get bs j)"
  by (auto simp: bucket_get_def bucket_add_def record_spend_def js_map_simps Let_def)

lemma record_spend_idem [simp]: "record_spend x (record_spend x b) = record_spend x b"
  by (auto simp: record_spend_def)

lemma bucket_get_event:
  "bucket_get (foldl (\<lambda>bs tid. bucket_add tid x bs) bs tids) j =
   (if j \<in> set tids then record_spend x (bucket_get bs j) else bucket_get bs j)"
  by (induction tids arbitrary: bs) auto

definition bucket_for :: "crypto \<Rightarrow> event list \<Rightarrow> string \<Rightarrow> (string \<times> int) list" where
  "bucket_for C evs tid =
     foldl (\<lambda>b e. if tid \<in> set (validSpentTokenIds C e) then record_spend (eid e, created_at e) b else b) [] evs"

lemma bucket_get_spends: "bucket_get (spend_buckets C evs) tid = bucket_for C evs tid"
proof -
  have "bucket_get (foldl (\<lambda>bs e. foldl (\<lambda>bs tid. bucket_add tid (eid e, created_at e) bs) bs (validSpentTokenIds C e)) bs evs) tid =
      foldl (\<lambda>b e. if tid \<in> set (validSpentTokenIds C e) then record_spend (eid e, created_at e) b else b)
        (bucket_get bs tid) evs" for bs
    by (induction evs arbitrary: bs) (auto simp: bucket_get_event)
  from this[of "[]"] show ?thesis by (simp add: spend_buckets_def bucket_for_def bucket_get_def)
qed

lemma spend_buckets_keys: "distinct (map fst (spend_buckets C evs))"
proof -
  have 1: "distinct (map fst bs) \<Longrightarrow> distinct (map fst (foldl (\<lambda>bs tid. bucket_add tid x bs) bs tids))" for x bs tids
    by (induction tids arbitrary: bs) (auto simp: bucket_add_def Let_def distinct_keys_update)
  have "distinct (map fst bs) \<Longrightarrow> distinct (map fst (foldl (\<lambda>bs e. foldl (\<lambda>bs tid. bucket_add tid (eid e, created_at e) bs) bs (validSpentTokenIds C e)) bs evs))" for bs
    by (induction evs arbitrary: bs) (auto simp: 1)
  then show ?thesis by (simp add: spend_buckets_def)
qed

definition ids_unique :: "event list \<Rightarrow> bool" where
  \<comment> \<open>an event id stands for one event\<close>
  "ids_unique evs \<longleftrightarrow> (\<forall>e \<in> set evs. \<forall>e' \<in> set evs. eid e = eid e' \<longrightarrow> e = e')"

lemma bucket_for_set:
  assumes "ids_unique evs"
  shows "distinct (map fst (bucket_for C evs tid))"
    "set (bucket_for C evs tid) =
      (\<lambda>e. (eid e, created_at e)) ` {e \<in> set evs. tid \<in> set (validSpentTokenIds C e)}"
proof -
  have "ids_unique evs \<longrightarrow> distinct (map fst (bucket_for C evs tid)) \<and> set (bucket_for C evs tid) =
      (\<lambda>e. (eid e, created_at e)) ` {e \<in> set evs. tid \<in> set (validSpentTokenIds C e)}"
  proof (induction evs rule: rev_induct)
    case Nil
    show ?case by (simp add: bucket_for_def)
  next
    case (snoc e evs)
    have step: "bucket_for C (evs @ [e]) tid =
        (if tid \<in> set (validSpentTokenIds C e) then record_spend (eid e, created_at e) (bucket_for C evs tid)
         else bucket_for C evs tid)"
      by (simp add: bucket_for_def)
    have "(eid e, created_at e) \<in> set (bucket_for C evs tid)"
      if u: "ids_unique (evs @ [e])" and m: "eid e \<in> fst ` set (bucket_for C evs tid)"
    proof -
      have u': "ids_unique evs" using u by (auto simp: ids_unique_def)
      with m snoc obtain e' where "e' \<in> set evs" "eid e' = eid e" "tid \<in> set (validSpentTokenIds C e')" by auto
      with u have "e' = e" by (auto simp: ids_unique_def)
      with \<open>e' \<in> set evs\<close> \<open>tid \<in> set (validSpentTokenIds C e')\<close> u' snoc show ?thesis by auto
    qed
    note known = this
    show ?case
    proof
      assume u: "ids_unique (evs @ [e])"
      then have IH: "distinct (map fst (bucket_for C evs tid))" "set (bucket_for C evs tid) =
          (\<lambda>e. (eid e, created_at e)) ` {e \<in> set evs. tid \<in> set (validSpentTokenIds C e)}"
        using snoc by (auto simp: ids_unique_def)
      show "distinct (map fst (bucket_for C (evs @ [e]) tid)) \<and> set (bucket_for C (evs @ [e]) tid) =
          (\<lambda>e. (eid e, created_at e)) ` {x \<in> set (evs @ [e]). tid \<in> set (validSpentTokenIds C x)}"
      proof (cases "tid \<in> set (validSpentTokenIds C e)")
        case True
        then have set: "{x \<in> set (evs @ [e]). tid \<in> set (validSpentTokenIds C x)} =
            insert e {e \<in> set evs. tid \<in> set (validSpentTokenIds C e)}" by auto
        show ?thesis
          unfolding step set image_insert IH(2)[symmetric]
          using True IH(1) known[OF u] by (auto simp: record_spend_def)
      next
        case False
        then have set: "{x \<in> set (evs @ [e]). tid \<in> set (validSpentTokenIds C x)} =
            {e \<in> set evs. tid \<in> set (validSpentTokenIds C e)}" by auto
        show ?thesis unfolding step set IH(2)[symmetric] using False IH(1) by simp
      qed
    qed
  qed
  with assms show "distinct (map fst (bucket_for C evs tid))"
    "set (bucket_for C evs tid) =
      (\<lambda>e. (eid e, created_at e)) ` {e \<in> set evs. tid \<in> set (validSpentTokenIds C e)}"
    by auto
qed

lemma losers_of_bucket:
  assumes "distinct (map fst b)" "2 \<le> length b"
  shows "set (c_losers (conflict_of tid b)) = {fst p |p. p \<in> set b \<and> (\<exists>p' \<in> set b. spend_order p' p < 0)}"
proof -
  obtain h t where s: "js_sort spend_order b = h # t"
    using assms(2) length_js_sort[of spend_order b] by (cases "js_sort spend_order b") auto
  have setb: "set b = insert h (set t)" using set_js_sort[of spend_order b] s by simp
  have "distinct b" using assms(1) by (simp add: distinct_map)
  then have "distinct (h # t)" using distinct_js_sort[of spend_order b] s by simp
  then have notin: "h \<notin> set t" by simp
  have least: "spend_order h p \<le> 0" if "p \<in> set b" for p
    using spends.hd_js_sort_least[of b p] that s by (cases b) auto
  have "(\<exists>p' \<in> set b. spend_order p' p < 0) \<longleftrightarrow> p \<in> set t" if p: "p \<in> set b" for p
  proof
    assume "\<exists>p' \<in> set b. spend_order p' p < 0"
    then obtain p' where p': "p' \<in> set b" "spend_order p' p < 0" by blast
    then have "p \<noteq> h" using least[OF p'(1)] by (auto simp: spend_order_le spend_order_less)
    with p setb show "p \<in> set t" by blast
  next
    assume "p \<in> set t"
    then have "p \<noteq> h" "p \<in> set b" using notin setb by auto
    then have "spend_order h p \<le> 0" "\<not> (fst h = fst p \<and> snd h = snd p)"
      using least by (auto simp: prod_eq_iff)
    then have "spend_order h p < 0" by (auto simp: spend_order_le spend_order_less)
    then show "\<exists>p' \<in> set b. spend_order p' p < 0" using setb by blast
  qed
  then have "{fst p |p. p \<in> set b \<and> (\<exists>p' \<in> set b. spend_order p' p < 0)} = fst ` set t"
    using setb by blast
  then show ?thesis by (simp add: conflict_of_def s Let_def)
qed

lemma set_foldl_set_add: "set (foldl (\<lambda>ls l. set_add l ls) ls xs) = set ls \<union> set xs"
  by (induction xs arbitrary: ls) auto

lemma detect_losers:
  "set (fst (foldl detect_step (ls, cs) bs)) =
     set ls \<union> (\<Union>(tid, b) \<in> set bs. if length b < 2 then {} else set (c_losers (conflict_of tid b)))"
proof (induction bs arbitrary: ls cs)
  case (Cons x bs)
  obtain tid b where x: "x = (tid, b)" by (cases x)
  show ?case
    using Cons.IH by (simp add: x detect_step_def set_foldl_set_add Let_def Un_assoc)
qed simp

lemma detect_conflicts:
  "distinct (map fst bs) \<Longrightarrow>
   map_of (snd (foldl detect_step (ls, cs) bs)) tid =
     (case map_of bs tid of
        Some b \<Rightarrow> if length b < 2 then map_of cs tid else Some (conflict_of tid b)
      | None \<Rightarrow> map_of cs tid)"
proof (induction bs arbitrary: ls cs)
  case (Cons x bs)
  obtain t b where x: "x = (t, b)" by (cases x)
  have none: "map_of bs t = None" using Cons.prems x by (auto simp: map_of_eq_None_iff)
  show ?case
  proof (cases "t = tid")
    case True
    with none show ?thesis using Cons by (simp add: x detect_step_def Let_def js_map_simps)
  next
    case False
    then show ?thesis using Cons by (simp add: x detect_step_def Let_def js_map_simps split: option.splits)
  qed
qed simp

lemma bucket_in_map:
  "map_of (spend_buckets C evs) tid = Some b \<Longrightarrow> b = bucket_for C evs tid"
  "2 \<le> length (bucket_for C evs tid) \<Longrightarrow> map_of (spend_buckets C evs) tid = Some (bucket_for C evs tid)"
  by (auto simp: bucket_get_def split: option.splits simp flip: bucket_get_spends)

lemma conflicts_of_bucket:
  "map_of (snd (detectDoubleSpends C evs)) tid =
     (if length (bucket_for C evs tid) < 2 then None else Some (conflict_of tid (bucket_for C evs tid)))"
proof (cases "map_of (spend_buckets C evs) tid")
  case None
  then have "length (bucket_for C evs tid) < 2" using bucket_in_map(2)[of C evs tid] by force
  with None show ?thesis by (simp add: detectDoubleSpends_def detect_conflicts[OF spend_buckets_keys])
next
  case (Some b)
  with bucket_in_map(1)[OF Some] show ?thesis
    by (simp add: detectDoubleSpends_def detect_conflicts[OF spend_buckets_keys])
qed

lemma losers_of_buckets:
  "set (fst (detectDoubleSpends C evs)) =
     (\<Union>tid. if length (bucket_for C evs tid) < 2 then {} else set (c_losers (conflict_of tid (bucket_for C evs tid))))"
proof -
  let ?L = "\<lambda>tid b. if length b < 2 then {} else set (c_losers (conflict_of tid b))"
  have mem: "(tid, b) \<in> set (spend_buckets C evs) \<longleftrightarrow> map_of (spend_buckets C evs) tid = Some b" for tid b
    by (rule map_of_distinct_mem[OF spend_buckets_keys, symmetric])
  have "(\<Union>(tid, b) \<in> set (spend_buckets C evs). ?L tid b) = (\<Union>tid. ?L tid (bucket_for C evs tid))"
  proof (intro equalityI subsetI)
    fix x assume "x \<in> (\<Union>(tid, b) \<in> set (spend_buckets C evs). ?L tid b)"
    then obtain tid b where "(tid, b) \<in> set (spend_buckets C evs)" "x \<in> ?L tid b" by blast
    then show "x \<in> (\<Union>tid. ?L tid (bucket_for C evs tid))" using bucket_in_map(1)[of C evs tid b] mem by blast
  next
    fix x assume "x \<in> (\<Union>tid. ?L tid (bucket_for C evs tid))"
    then obtain tid where x: "x \<in> ?L tid (bucket_for C evs tid)" by blast
    then have "2 \<le> length (bucket_for C evs tid)" by (simp split: if_splits)
    with x bucket_in_map(2)[of C evs tid] mem show "x \<in> (\<Union>(tid, b) \<in> set (spend_buckets C evs). ?L tid b)"
      by blast
  qed
  then show ?thesis by (simp add: detectDoubleSpends_def detect_losers)
qed

definition earlier :: "event \<Rightarrow> event \<Rightarrow> bool" where
  "earlier e' e \<longleftrightarrow> created_at e' < created_at e \<or> created_at e' = created_at e \<and> eid e' < eid e"

lemma loser_spec:
  assumes "ids_unique evs"
  shows "x \<in> set (fst (detectDoubleSpends C evs)) \<longleftrightarrow>
    (\<exists>e \<in> set evs. eid e = x \<and> (\<exists>e' \<in> set evs. earlier e' e
       \<and> set (validSpentTokenIds C e) \<inter> set (validSpentTokenIds C e') \<noteq> {}))"
proof -
  let ?B = "bucket_for C evs"
  have two: "2 \<le> length (?B tid)" if "p \<in> set (?B tid)" "p' \<in> set (?B tid)" "spend_order p' p < 0" for p p' tid
  proof (rule ccontr)
    assume "\<not> 2 \<le> length (?B tid)"
    then have "length (?B tid) = 0 \<or> length (?B tid) = 1" by linarith
    with that have "p = p'" by (auto simp: length_Suc_conv)
    with that(3) show False by (simp add: spend_order_less)
  qed
  have "x \<in> set (fst (detectDoubleSpends C evs)) \<longleftrightarrow>
      (\<exists>tid p p'. p \<in> set (?B tid) \<and> p' \<in> set (?B tid) \<and> spend_order p' p < 0 \<and> fst p = x)"
    unfolding losers_of_buckets
    using losers_of_bucket[OF bucket_for_set(1)[OF assms]] two
    by (auto simp: not_less split: if_splits) blast+
  also have "\<dots> \<longleftrightarrow> (\<exists>tid. \<exists>e \<in> set evs. \<exists>e' \<in> set evs. tid \<in> set (validSpentTokenIds C e)
      \<and> tid \<in> set (validSpentTokenIds C e') \<and> earlier e' e \<and> eid e = x)"
    unfolding bucket_for_set(2)[OF assms] earlier_def spend_order_less by (intro ex_cong1) auto
  finally show ?thesis by blast
qed

text \<open>
  C2. Exactly the events that share a validly spent token with an earlier event are hidden, where
  earlier is by creation time and then by id.  In particular an event whose tokens nobody else
  spends is never hidden, and the earliest spender of a token never loses for that token.
\<close>

theorem double_spend_losers:
  assumes "ids_unique evs"
  shows "x \<in> set (fst (detectDoubleSpends C evs)) \<longleftrightarrow>
    (\<exists>e \<in> set evs. eid e = x \<and> (\<exists>e' \<in> set evs. earlier e' e
       \<and> set (validSpentTokenIds C e) \<inter> set (validSpentTokenIds C e') \<noteq> {}))"
  using assms by (rule loser_spec)

lemma bucket_for_perm:
  assumes "ids_unique evs" "set evs = set evs'"
  shows "js_sort spend_order (bucket_for C evs tid) = js_sort spend_order (bucket_for C evs' tid)"
    "length (bucket_for C evs tid) = length (bucket_for C evs' tid)"
proof -
  have u: "ids_unique evs'" using assms by (simp add: ids_unique_def)
  have "mset (bucket_for C evs tid) = mset (bucket_for C evs' tid)"
    using bucket_for_set[OF assms(1), of C tid] bucket_for_set[OF u, of C tid] assms(2)
    by (metis distinct_map set_eq_iff_mset_eq_distinct)
  then show "js_sort spend_order (bucket_for C evs tid) = js_sort spend_order (bucket_for C evs' tid)"
    "length (bucket_for C evs tid) = length (bucket_for C evs' tid)"
    by (auto intro: spends.js_sort_unique spend_order_antisym dest: mset_eq_length)
qed

text \<open>
  Every client decides alike: the same events in any order, with any repetitions, give the
  same hidden events and the same conflicts, with the same winner and the same order of losers.
\<close>

theorem double_spend_order_independent:
  assumes "ids_unique evs" "set evs = set evs'"
  shows "set (fst (detectDoubleSpends C evs)) = set (fst (detectDoubleSpends C evs'))
    \<and> map_of (snd (detectDoubleSpends C evs)) = map_of (snd (detectDoubleSpends C evs'))"
  using bucket_for_perm[OF assms]
  by (auto simp: losers_of_buckets conflicts_of_bucket fun_eq_iff conflict_of_def)

section \<open>Holders who spend twice are found\<close>

definition schnorr_ok :: "crypto \<Rightarrow> bool" where
  \<comment> \<open>a signature is not empty and verifies under the key of its secret; hex text decodes\<close>
  "schnorr_ok C \<longleftrightarrow> (\<forall>m q. schnorr_verify C (schnorr_sign C m q) m (getPublicKey C q) = Some True
     \<and> schnorr_sign C m q \<noteq> []) \<and> (\<forall>b. nobleHexToBytes C (bytesToHex b) = Some b)"

definition holder_tokens :: "crypto \<Rightarrow> token list \<Rightarrow> bool" where
  \<comment> \<open>every token is the public key of its secret\<close>
  "holder_tokens C ts \<longleftrightarrow> (\<forall>t \<in> set ts. tok t = getPublicKey C (secret t) \<and> tok t \<noteq> [])"

lemma bytesToBase64_empty [simp]: "bytesToBase64 bs = [] \<longleftrightarrow> bs = []"
  by (metis bytesToBase64.simps(1) bytesToBase64_inject)

lemma decode_encoded: "bs \<noteq> [] \<Longrightarrow> decodeOrNull (Some (bytesToBase64 bs)) = Some bs"
  by (simp add: decodeOrNull_def)

lemma spend_tags_eq:
  assumes "schnorr_ok C"
  shows "spend_tags C (bytesToHex b) ts =
    Some (map (\<lambda>t. [TAG_SPEND, bytesToBase64 (the (spendProof C (secret t) (bytesToHex b)))]) ts)"
  using assms by (induction ts) (auto simp: spendProof_def spendMessage_def schnorr_ok_def)

definition valid_at :: "crypto \<Rightarrow> event \<Rightarrow> u8 list option list \<Rightarrow> nat \<Rightarrow> u8 list \<Rightarrow> bool" where
  "valid_at C e spends i Q = (if i = 0 then bytesToHex Q = pubkey e
     else case at spends (i - 1) of Some (Some proof) \<Rightarrow> safeVerifySpend C proof (pubkey e) Q | _ \<Rightarrow> False)"

lemma spent_loop_Some:
  "spent_loop C e sp i (Some Q # ts) ids =
   spent_loop C e sp (Suc i) ts (if valid_at C e sp i Q then set_add (tokenId C Q) ids else ids)"
  by (simp add: valid_at_def Let_def)

lemma spent_loop_all:
  "\<forall>j < length Qs. valid_at C e sp (i + j) (Qs ! j) \<Longrightarrow>
   set (spent_loop C e sp i (map Some Qs) ids) = set ids \<union> tokenId C ` set Qs"
proof (induction Qs arbitrary: i ids)
  case (Cons Q Qs)
  have "valid_at C e sp i Q" using Cons.prems by force
  moreover have "\<forall>j < length Qs. valid_at C e sp (Suc i + j) (Qs ! j)" using Cons.prems by fastforce
  ultimately show ?case
    using Cons.IH[of "Suc i" "set_add (tokenId C Q) ids"] by (simp add: spent_loop_Some del: spent_loop.simps)
qed simp

lemma assembled_spends:
  assumes ok: "schnorr_ok C" and hold: "holder_tokens C ts" and plain: "plain_tags (u_tags ue)"
    and e: "assembleBlindEvent C rnd now ue ts attr = Inr e"
  shows "set (validSpentTokenIds C e) = (\<lambda>t. tokenId C (tok t)) ` set ts"
proof -
  obtain t0 others spends where a: "ts = t0 # others" "spend_tags C (bytesToHex (tok t0)) others = Some spends"
    "tags e = u_tags ue @ token_tags ts @ spends @ [[TAG_ATTR, attr]]"
    "pubkey e = bytesToHex (getPublicKey C (secret t0))"
    using assembled_tags[OF e] by blast
  note ts = a(1)
  have tags: "tags e = u_tags ue @ token_tags ts
      @ map (\<lambda>t. [TAG_SPEND, bytesToBase64 (the (spendProof C (secret t) (bytesToHex (tok t0))))]) others
      @ [[TAG_ATTR, attr]]"
    using a(2,3) by (simp add: spend_tags_eq[OF ok])
  have pk: "pubkey e = bytesToHex (tok t0)" using a(4) hold ts by (simp add: holder_tokens_def)
  have none: "filter (tag_is TAG_TOKEN) (u_tags ue) = []" "filter (tag_is TAG_SPEND) (u_tags ue) = []"
    using plain by (auto simp: plain_tags_def filter_empty_conv)
  have tokens: "tag_values TAG_TOKEN e = map Some (map tok ts)"
  proof -
    have "filter (tag_is TAG_TOKEN) (token_tags us) = map (\<lambda>t. [TAG_TOKEN, bytesToBase64 (tok t)]) us" for us
      by (induction us) (auto simp: token_tags_def tag_is_def)
    moreover have "\<forall>t \<in> set ts. decodeOrNull (Some (bytesToBase64 (tok t))) = Some (tok t)"
      using hold by (auto simp: holder_tokens_def intro!: decode_encoded)
    ultimately show ?thesis by (simp add: tag_values_def tags none filter_map comp_def tag_is_def)
  qed
  let ?proof = "\<lambda>t. schnorr_sign C (the (spendMessage C (bytesToHex (tok t0)))) (secret t)"
  have proof_eq: "the (spendProof C q (bytesToHex b)) = schnorr_sign C (the (spendMessage C (bytesToHex b))) q" for q b
    using ok by (simp add: spendProof_def spendMessage_def schnorr_ok_def)
  have spends: "tag_values TAG_SPEND e = map Some (map ?proof others)"
  proof -
    have "filter (tag_is TAG_SPEND) (token_tags us) = []" for us
      by (induction us) (auto simp: token_tags_def tag_is_def)
    then show ?thesis
      using ok by (simp add: tag_values_def tags none filter_map comp_def tag_is_def schnorr_ok_def decode_encoded proof_eq)
  qed
  have "valid_at C e (tag_values TAG_SPEND e) j (map tok ts ! j)" if "j < length ts" for j
  proof (cases j)
    case 0
    then show ?thesis by (simp add: valid_at_def ts pk)
  next
    case (Suc i)
    with that ts have i: "i < length others" by simp
    then have "others ! i \<in> set ts" using ts by simp
    with hold have "tok (others ! i) = getPublicKey C (secret (others ! i))" by (simp add: holder_tokens_def)
    with i ok Suc show ?thesis
      by (simp add: valid_at_def ts spends at_def safeVerifySpend_def verifySpendProof_def pk spendMessage_def schnorr_ok_def)
  qed
  then have "set (spent_loop C e (tag_values TAG_SPEND e) 0 (map Some (map tok ts)) []) = tokenId C ` set (map tok ts)"
    using spent_loop_all[of "map tok ts" C e "tag_values TAG_SPEND e" 0 "[]"] by simp
  moreover have "isBlindPost e"
    using hold by (auto simp: isBlindPost_def tags ts token_tags_def tag_is_def list_ex_iff holder_tokens_def)
  ultimately show ?thesis by (simp add: validSpentTokenIds_def tokens image_image)
qed

text \<open>
  The two sides agree: an event assembled from holder-bound tokens is attributed exactly these
  tokens by the detector, so if two assembled events with different ids share a token, the later
  one is hidden wherever both are seen.
\<close>

theorem reused_token_detected:
  assumes "schnorr_ok C" "holder_tokens C ts" "holder_tokens C ts'"
    and "plain_tags (u_tags ue)" "plain_tags (u_tags ue')"
    and "assembleBlindEvent C rnd now ue ts attr = Inr e" "assembleBlindEvent C rnd' now' ue' ts' attr' = Inr e'"
    and "t \<in> set ts" "t \<in> set ts'" "earlier e' e"
    and "ids_unique evs" "e \<in> set evs" "e' \<in> set evs"
  shows "eid e \<in> set (fst (detectDoubleSpends C evs))
    \<and> set (validSpentTokenIds C e) = (\<lambda>t. tokenId C (tok t)) ` set ts"
proof -
  have "set (validSpentTokenIds C e) = (\<lambda>t. tokenId C (tok t)) ` set ts"
    "set (validSpentTokenIds C e') = (\<lambda>t. tokenId C (tok t)) ` set ts'"
    using assms by (auto simp: assembled_spends)
  moreover from this assms(8,9) have "set (validSpentTokenIds C e) \<inter> set (validSpentTokenIds C e') \<noteq> {}" by auto
  ultimately show ?thesis using assms(10-13) loser_spec[OF assms(11)] by blast
qed

definition ex_spend :: "int \<Rightarrow> string \<Rightarrow> event" where
  "ex_spend time text = projr (assembleBlindEvent ex_crypto (0, 0, 0, 0) 0
     \<lparr>u_kind = 1, u_created_at = Some time, u_tags = [], u_content = text\<rparr> [\<lparr>tok = [5], sig = [6], secret = [5]\<rparr>] ''a'')"

lemma ex_crypto_ok: "schnorr_ok ex_crypto"
  by (simp add: schnorr_ok_def ex_crypto_def hexToBytes_def hex_loop_bytesToHex)

lemma ex_spend_assembled:
  "assembleBlindEvent ex_crypto (0, 0, 0, 0) 0 \<lparr>u_kind = 1, u_created_at = Some time, u_tags = [], u_content = text\<rparr>
     [\<lparr>tok = [5], sig = [6], secret = [5]\<rparr>] ''a'' = Inr (ex_spend time text)"
  by (simp add: ex_spend_def assembleBlindEvent_def)

lemma ex_spend_fields:
  "eid (ex_spend time text) = bytesToHex [5] @ text" "created_at (ex_spend time text) = fuzzBlindCreatedAt (0, 0, 0, 0) time"
  by (simp_all add: ex_spend_def assembleBlindEvent_def finalizeEvent_def ex_crypto_def Let_def)

theorem reused_token_detected_witness:
  "eid (ex_spend 1000 ''b'') \<in> set (fst (detectDoubleSpends ex_crypto [ex_spend 1000 ''b'', ex_spend 100 ''a'']))"
proof -
  let ?t = "\<lparr>tok = [5], sig = [6], secret = [5]\<rparr>"
  have "holder_tokens ex_crypto [?t]" by (simp add: holder_tokens_def ex_crypto_def)
  moreover have "earlier (ex_spend 100 ''a'') (ex_spend 1000 ''b'')"
    by (simp add: earlier_def ex_spend_fields fuzzBlindCreatedAt_def random_u32_def BLIND_TS_BUCKET_SECONDS_def)
  moreover have "ids_unique [ex_spend 1000 ''b'', ex_spend 100 ''a'']"
    by (simp add: ids_unique_def ex_spend_fields)
  ultimately show ?thesis
    using reused_token_detected[OF ex_crypto_ok _ _ _ _ ex_spend_assembled[of 1000 "''b''"] ex_spend_assembled[of 100 "''a''"],
        of ?t "[ex_spend 1000 ''b'', ex_spend 100 ''a'']"]
    by (simp add: plain_tags_def)
qed

theorem spends_are_proven_witness:
  "\<exists>Q. tokenId ex_crypto [5] = tokenId ex_crypto Q \<and> (bytesToHex Q = pubkey (ex_spend 1000 ''b'')
     \<or> (\<exists>proof. verifySpendProof ex_crypto proof (pubkey (ex_spend 1000 ''b'')) Q = Some True))"
proof (rule spends_are_proven)
  have "holder_tokens ex_crypto [\<lparr>tok = [5], sig = [6], secret = [5]\<rparr>]"
    by (simp add: holder_tokens_def ex_crypto_def)
  from assembled_spends[OF ex_crypto_ok this _ ex_spend_assembled]
  show "tokenId ex_crypto [5] \<in> set (validSpentTokenIds ex_crypto (ex_spend 1000 ''b''))"
    by (simp add: plain_tags_def)
qed

theorem double_spend_losers_witness:
  "''x'' \<notin> set (fst (detectDoubleSpends ex_crypto [ex_spend 1000 ''b'']))"
  using double_spend_losers[of "[ex_spend 1000 ''b'']" "''x''" ex_crypto]
  by (simp add: ids_unique_def earlier_def)

theorem double_spend_order_independent_witness:
  "map_of (snd (detectDoubleSpends ex_crypto [ex_spend 1000 ''b'', ex_spend 100 ''a''])) =
   map_of (snd (detectDoubleSpends ex_crypto [ex_spend 100 ''a'', ex_spend 1000 ''b'', ex_spend 100 ''a'']))"
  using double_spend_order_independent[of "[ex_spend 1000 ''b'', ex_spend 100 ''a'']"
      "[ex_spend 100 ''a'', ex_spend 1000 ''b'', ex_spend 100 ''a'']" ex_crypto]
  by (simp add: ids_unique_def ex_spend_fields insert_commute)

section \<open>Witnesses of a double spend\<close>

lemma set_foldl_filter_add:
  "set (foldl (\<lambda>ls l. if P l then set_add l ls else ls) ls xs) = set ls \<union> {l \<in> set xs. P l}"
  by (induction xs arbitrary: ls) auto

lemma resolve_named_mem:
  "resolve_named store is named0 = Some named \<Longrightarrow> distinct (map fst named0) \<Longrightarrow>
   (\<forall>(i, e) \<in> set named0. getById store i = Some e) \<Longrightarrow>
   distinct (map fst named) \<and> (\<forall>(i, e) \<in> set named. getById store i = Some e)"
proof (induction store "is" named0 rule: resolve_named.induct)
  case (2 store i "is" named0)
  then obtain e where e: "getById store i = Some e" "resolve_named store is (AList.update i e named0) = Some named"
    by (auto split: option.splits)
  have "\<forall>(j, x) \<in> set (AList.update i e named0). getById store j = Some x"
    using 2(4) e(1) set_update_bucket[of _ i e named0] by fastforce
  with "2.IH"[OF e] 2(3) show ?case by (simp add: distinct_keys_update)
qed simp

lemma getById_eid: "getById (run ops) i = Some e \<Longrightarrow> eid e = i \<and> e \<in> set (cached (run ops))"
  using store_ok_run[of ops] by (force simp: getById_def store_ok_def cached_def dest: map_of_SomeD)

text \<open>
  C35. A double-spend witness is verified, never trusted: whatever its author claims, every event it
  makes the client hide is in the local store and shares a validly spent token with an earlier
  event of the store, so a false witness hides nothing.
\<close>

theorem witness_hides_only_double_spends:
  assumes "x \<in> set (verifySpendWitness C ev (run ops))"
  shows "\<exists>e \<in> set (cached (run ops)). \<exists>e' \<in> set (cached (run ops)). eid e = x \<and> earlier e' e
    \<and> set (validSpentTokenIds C e) \<inter> set (validSpentTokenIds C e') \<noteq> {}"
proof -
  obtain tid ids where p: "parseSpendWitness ev = Some (tid, ids)"
    using assms by (cases "parseSpendWitness ev") (auto simp: verifySpendWitness_def)
  obtain named where r: "resolve_named (run ops) ids [] = Some named"
    using assms p by (cases "resolve_named (run ops) ids []") (auto simp: verifySpendWitness_def)
  have n: "distinct (map fst named)" "\<forall>(i, e) \<in> set named. getById (run ops) i = Some e"
    using resolve_named_mem[OF r] by auto
  let ?evs = "map snd named"
  have mem: "eid e = i \<and> e \<in> set (cached (run ops))" if "(i, e) \<in> set named" for i e
    using that n(2) getById_eid by fastforce
  have u: "ids_unique ?evs"
    using mem n(1) by (auto simp: ids_unique_def) (metis eq_key_imp_eq_value)
  have "x \<in> set (fst (detectDoubleSpends C ?evs))"
    using assms p r
    by (auto simp: verifySpendWitness_def set_foldl_filter_add conflicts_of_bucket losers_of_buckets Let_def
        split: option.splits if_splits)
  then obtain e e' where "e \<in> set ?evs" "eid e = x" "e' \<in> set ?evs" "earlier e' e"
    "set (validSpentTokenIds C e) \<inter> set (validSpentTokenIds C e') \<noteq> {}"
    using loser_spec[OF u] by auto
  moreover have "set ?evs \<subseteq> set (cached (run ops))" using mem by auto
  ultimately show ?thesis by blast
qed

lemma witness_verified:
  assumes "getById (run ops) (eid e) = Some e" "getById (run ops) (eid e') = Some e'" "earlier e' e"
    and "tid \<in> set (validSpentTokenIds C e)" "tid \<in> set (validSpentTokenIds C e')"
    and "tid \<noteq> ''''" "eid e \<noteq> ''''" "eid e' \<noteq> ''''"
    and "kind w = KIND_SPEND_WITNESS"
    and "tags w = u_tags (buildSpendWitness now tid (eid e') (eid e))
       \<or> tags w = u_tags (buildSpendWitness now tid (eid e) (eid e'))"
  shows "verifySpendWitness C w (run ops) = [eid e]"
proof -
  have ne: "eid e \<noteq> eid e'"
  proof
    assume "eid e = eid e'"
    with assms(1,2) have "e = e'" by (metis option.inject)
    with assms(3) show False by (simp add: earlier_def)
  qed
  have lt: "spend_order (eid e, created_at e) (eid e', created_at e') > 0"
    "spend_order (eid e', created_at e') (eid e, created_at e) < 0"
    using assms(3) by (auto simp: spend_order_def earlier_def str_cmp_def)
  have parse: "parseSpendWitness w = Some (tid, [a, b])"
    if "tags w = u_tags (buildSpendWitness now tid a b)" "a \<noteq> ''''" "b \<noteq> ''''" for a b
    using that assms(6,9) by (simp add: parseSpendWitness_def buildSpendWitness_def tag_is_def DS_TAG_def)
  have bucket: "bucket_for C [x, y] tid = [(eid x, created_at x), (eid y, created_at y)]"
    if "tid \<in> set (validSpentTokenIds C x)" "tid \<in> set (validSpentTokenIds C y)" "eid x \<noteq> eid y" for x y
    using that by (simp add: bucket_for_def record_spend_def)
  have losers: "c_losers (conflict_of tid [(eid e', created_at e'), (eid e, created_at e)]) = [eid e]"
    "c_losers (conflict_of tid [(eid e, created_at e), (eid e', created_at e')]) = [eid e]"
    using lt by (simp_all add: conflict_of_def js_sort_def)
  have verified: "verifySpendWitness C w (run ops) = [eid e]"
    if "parseSpendWitness w = Some (tid, [eid x, eid y])" "getById (run ops) (eid x) = Some x"
      "getById (run ops) (eid y) = Some y" "eid x \<noteq> eid y" "tid \<in> set (validSpentTokenIds C x)"
      "tid \<in> set (validSpentTokenIds C y)" "eid e = eid x \<or> eid e = eid y"
      "c_losers (conflict_of tid [(eid x, created_at x), (eid y, created_at y)]) = [eid e]" for x y
  proof -
    have "map_of (snd (detectDoubleSpends C [x, y])) tid =
        Some (conflict_of tid [(eid x, created_at x), (eid y, created_at y)])"
      by (simp add: conflicts_of_bucket bucket that)
    with that show ?thesis by (auto simp: verifySpendWitness_def set_add_def Let_def)
  qed
  show ?thesis
    using assms(10)
  proof
    assume "tags w = u_tags (buildSpendWitness now tid (eid e') (eid e))"
    from verified[OF parse[OF this assms(8,7)]] assms(1,2,4,5) ne losers(1) show ?thesis by simp
  next
    assume "tags w = u_tags (buildSpendWitness now tid (eid e) (eid e'))"
    from verified[OF parse[OF this assms(7,8)]] assms(1,2,4,5) ne losers(2) show ?thesis by simp
  qed
qed

text \<open>
  A true witness convinces: for two stored events that validly spend the same token, the
  witness built for them hides the later one, in whichever order its author names them.
\<close>

theorem true_witness_verified:
  assumes "getById (run ops) (eid e) = Some e" "getById (run ops) (eid e') = Some e'" "earlier e' e"
    and "tid \<in> set (validSpentTokenIds C e)" "tid \<in> set (validSpentTokenIds C e')"
    and "tid \<noteq> ''''" "eid e \<noteq> ''''" "eid e' \<noteq> ''''"
    and "kind w = KIND_SPEND_WITNESS"
    and "tags w = u_tags (buildSpendWitness now tid (eid e') (eid e))
       \<or> tags w = u_tags (buildSpendWitness now tid (eid e) (eid e'))"
  shows "verifySpendWitness C w (run ops) = [eid e]"
  using assms by (rule witness_verified)

definition ex_witness :: event where
  "ex_witness = \<lparr>eid = ''w'', pubkey = ''p'', created_at = 0, kind = KIND_SPEND_WITNESS,
     tags = u_tags (buildSpendWitness 0 (tokenId ex_crypto [5]) (eid (ex_spend 100 ''a'')) (eid (ex_spend 1000 ''b''))),
     content = ''''\<rparr>"

abbreviation ex_ops :: "st_op list" where
  "ex_ops \<equiv> [Save (ex_spend 1000 ''b''), Save (ex_spend 100 ''a'')]"

lemma ex_store:
  "getById (run ex_ops) (eid (ex_spend 1000 ''b'')) = Some (ex_spend 1000 ''b'')"
  "getById (run ex_ops) (eid (ex_spend 100 ''a'')) = Some (ex_spend 100 ''a'')"
  by (simp_all add: run_def save_def has_def getById_def empty_store_def ex_spend_fields)

lemma ex_spends:
  "earlier (ex_spend 100 ''a'') (ex_spend 1000 ''b'')"
  "tokenId ex_crypto [5] \<in> set (validSpentTokenIds ex_crypto (ex_spend time text))"
  "tokenId ex_crypto [5] \<noteq> ''''"
proof -
  show "earlier (ex_spend 100 ''a'') (ex_spend 1000 ''b'')"
    by (simp add: earlier_def ex_spend_fields fuzzBlindCreatedAt_def random_u32_def BLIND_TS_BUCKET_SECONDS_def)
  have "holder_tokens ex_crypto [\<lparr>tok = [5], sig = [6], secret = [5]\<rparr>]"
    by (simp add: holder_tokens_def ex_crypto_def)
  from assembled_spends[OF ex_crypto_ok this _ ex_spend_assembled]
  show "tokenId ex_crypto [5] \<in> set (validSpentTokenIds ex_crypto (ex_spend time text))"
    by (simp add: plain_tags_def)
  show "tokenId ex_crypto [5] \<noteq> ''''" by (simp add: tokenId_def ex_crypto_def bytesToHex_simps)
qed

theorem true_witness_verified_witness:
  "verifySpendWitness ex_crypto ex_witness (run ex_ops) = [eid (ex_spend 1000 ''b'')]"
  by (rule true_witness_verified[OF ex_store ex_spends(1,2,2,3), where now = 0])
     (simp_all add: ex_spend_fields ex_witness_def)

theorem witness_hides_only_double_spends_witness:
  "\<exists>e \<in> set (cached (run ex_ops)). \<exists>e' \<in> set (cached (run ex_ops)). eid e = eid (ex_spend 1000 ''b'') \<and> earlier e' e
    \<and> set (validSpentTokenIds ex_crypto e) \<inter> set (validSpentTokenIds ex_crypto e') \<noteq> {}"
proof (rule witness_hides_only_double_spends)
  have "verifySpendWitness ex_crypto ex_witness (run ex_ops) = [eid (ex_spend 1000 ''b'')]"
    by (rule witness_verified[OF ex_store ex_spends(1,2,2,3), where now = 0])
       (simp_all add: ex_spend_fields ex_witness_def)
  then show "eid (ex_spend 1000 ''b'') \<in> set (verifySpendWitness ex_crypto ex_witness (run ex_ops))" by simp
qed

end
