(* ===== verification/Moderation.thy ===== *)
theory Moderation
  imports Reports DoubleSpend
begin

text \<open>
  What members see: \<open>client/src/moderation/filter.ts\<close> (the moderated feed, the moderation log and
  the hide decision of threads), \<open>autoModeration.ts\<close> with \<open>client/src/feed/postRules.ts\<close>
  (automatic hides by the organizer's rules) and the threshold of \<open>queue.ts\<close>.  The feed composes
  the event store, the moderators' actions, the authors of blind posts and the double-spend
  detection.  Printing an npub (\<open>npub_encode\<close>) is third-party code, and the measured prose of a body
  (\<open>measured\<close>, in the code \<open>bodyForMeasure\<close>, which strips inline media) is left open: the theorems
  hold for every such function.
\<close>

section \<open>Definitions\<close>

subsection \<open>postRules.ts\<close>

datatype PostKind = PkNote | PkArticle

datatype PostScope = ScopeAll | Scoped PostKind

definition scopeAppliesTo :: "PostScope \<Rightarrow> PostKind \<Rightarrow> bool" where
  "scopeAppliesTo sc k = (sc = ScopeAll \<or> sc = Scoped k)"

record TypeRule =
  tr_min :: int
  tr_max :: int
  mediaMax :: int
  labelRequired :: bool

record PostRules =
  note_rule :: TypeRule
  article_rule :: TypeRule
  authorNoteMax :: int

definition DEFAULT_POST_RULES :: PostRules where
  "DEFAULT_POST_RULES = \<lparr>note_rule = \<lparr>tr_min = 0, tr_max = 280, mediaMax = 1, labelRequired = False\<rparr>,
     article_rule = \<lparr>tr_min = 0, tr_max = 0, mediaMax = 8, labelRequired = False\<rparr>, authorNoteMax = 280\<rparr>"

function split_ws :: "string \<Rightarrow> string \<Rightarrow> string list" where
  \<comment> \<open>\<open>s.split(/\s+/)\<close> with the current piece\<close>
  "split_ws cur [] = [cur]"
| "split_ws cur (c # cs) = (if js_space c then cur # split_ws [] (dropWhile js_space cs) else split_ws (cur @ [c]) cs)"
  by pat_completeness auto
termination
  by (relation "measure (\<lambda>(cur, s). length s)") (auto simp: le_imp_less_Suc length_dropWhile_le)

definition wordCount :: "string \<Rightarrow> nat" where
  "wordCount body = (let trimmed = js_trim body in if trimmed = '''' then 0 else length (split_ws [] trimmed))"

datatype PostViolation = TooShort | TooLong | LabelRequired

definition evaluatePost :: "PostKind \<Rightarrow> string \<Rightarrow> string option \<Rightarrow> PostRules \<Rightarrow> PostViolation list" where
  "evaluatePost k body label rules =
     (let r = (if k = PkArticle then article_rule rules else note_rule rules);
          m = int (if k = PkArticle then wordCount body else length body)
      in (if tr_min r > 0 \<and> m < tr_min r then [TooShort] else [])
         @ (if tr_max r > 0 \<and> m > tr_max r then [TooLong] else [])
         @ (if labelRequired r \<and> \<not> truthy label then [LabelRequired] else []))"

subsection \<open>autoModeration.ts\<close>

definition KIND_ARTICLE :: nat where "KIND_ARTICLE = 30023"
definition KIND_POLL :: nat where "KIND_POLL = 1068"
definition KIND_VOICE_MESSAGE :: nat where "KIND_VOICE_MESSAGE = 1222"
definition KIND_MUTE_LIST :: nat where "KIND_MUTE_LIST = 10000"

record AutoModConfig =
  postRules :: PostRules
  postRulesAt :: int
  cfg_banned :: "string list option"
  cfg_pending :: "string list option"

definition labelOf :: "event \<Rightarrow> string option" where
  "labelOf e = Option.bind (find (\<lambda>t. at t 0 = Some ''l'' \<and> at t 2 = Some LABEL_NAMESPACE \<and> truthy (at t 1)) (tags e))
     (\<lambda>t. at t 1)"

definition visibility_target :: "string list \<Rightarrow> event \<Rightarrow> string option" where
  \<comment> \<open>the guards of the loops over hides and restores: the target of a moderator's hide or restore\<close>
  "visibility_target mods r =
     (if pubkey r \<notin> set mods then None
      else case reportedPostId r of
        None \<Rightarrow> None
      | Some i \<Rightarrow> if stiqActionOf r \<noteq> None \<and> stiqActionOf r \<noteq> Some ARestore then None else Some i)"

definition restoredIds :: "mstore \<Rightarrow> string list \<Rightarrow> string list" where
  "restoredIds st mods =
     map fst (filter (\<lambda>(i, v). snd v)
       (foldl (\<lambda>m r. case visibility_target mods r of
            None \<Rightarrow> m
          | Some i \<Rightarrow> keep_best (>) fst i (created_at r, stiqActionOf r = Some ARestore) m) []
          (query st (kinds_query [KIND_REPORT]))))"

definition rulesEnforceAnything :: "PostRules \<Rightarrow> bool" where
  "rulesEnforceAnything r = (tr_max (note_rule r) > 0 \<or> tr_max (article_rule r) > 0
     \<or> labelRequired (note_rule r) \<or> labelRequired (article_rule r))"

definition auto_verdict ::
  "viewer \<Rightarrow> (string \<Rightarrow> string) \<Rightarrow> AutoModConfig \<Rightarrow> string list \<Rightarrow> event \<Rightarrow> PostViolation option" where
  \<comment> \<open>one round of the loop of \<open>autoHiddenPosts\<close>\<close>
  "auto_verdict V measured cfg restored e =
     (if created_at e < postRulesAt cfg then None
      else if eid e \<in> set restored then None
      else if kind e = KIND_POST \<and> isStiqComment e then None
      else if snd (body_of V e) then None
      else let vs = evaluatePost (if kind e = KIND_ARTICLE then PkArticle else PkNote)
                      (measured (fst (body_of V e))) (labelOf e) (postRules cfg)
           in if LabelRequired \<in> set vs then Some LabelRequired
              else if TooLong \<in> set vs then Some TooLong else None)"

definition autoHiddenPosts ::
  "viewer \<Rightarrow> (string \<Rightarrow> string) \<Rightarrow> mstore \<Rightarrow> AutoModConfig \<Rightarrow> string list \<Rightarrow> (string \<times> PostViolation) list" where
  "autoHiddenPosts V measured st cfg mods =
     (if \<not> rulesEnforceAnything (postRules cfg) then []
      else let restored = restoredIds st mods in
        foldl (\<lambda>out e. case auto_verdict V measured cfg restored e of
            None \<Rightarrow> out | Some code \<Rightarrow> AList.update (eid e) code out) []
          (query st (kinds_query [KIND_POST, KIND_ARTICLE])))"

subsection \<open>filter.ts\<close>

record ModerationEntry =
  me_post :: event
  me_report :: event
  moderatorPubkey :: string
  moderatorNpub :: string

record ModeratedFeed =
  visible :: "event list"
  moderationLog :: "ModerationEntry list"

definition join_nul :: "string list \<Rightarrow> string" where
  "join_nul ss = (case ss of [] \<Rightarrow> [] | s # ss \<Rightarrow> s @ concat (map (\<lambda>x. CHR 0x00 # x) ss))"

definition moderatorPubkeySetCached ::
  "(string \<Rightarrow> string option) \<Rightarrow> string list \<Rightarrow> (string \<times> string list) option \<Rightarrow> string list \<times> (string \<times> string list) option" where
  \<comment> \<open>the one-entry memo on the joined roster\<close>
  "moderatorPubkeySetCached npub_data npubs memo =
     (let key = join_nul npubs in
      case memo of
        Some (k, s) \<Rightarrow> if k = key then (s, memo)
                       else let s' = moderatorPubkeySet npub_data npubs in (s', Some (key, s'))
      | None \<Rightarrow> let s' = moderatorPubkeySet npub_data npubs in (s', Some (key, s')))"

definition report_step ::
  "string list \<Rightarrow> (string \<times> event) list \<times> (string \<times> int \<times> visibility) list \<Rightarrow> event \<Rightarrow>
   (string \<times> event) list \<times> (string \<times> int \<times> visibility) list" where
  \<comment> \<open>one round of the loop: the earliest hide and the latest action per target\<close>
  "report_step mods = (\<lambda>(earliestHide, latestAction) r.
     case visibility_target mods r of
       None \<Rightarrow> (earliestHide, latestAction)
     | Some i \<Rightarrow> (if reportAction r = Hide then keep_best (<) created_at i r earliestHide else earliestHide,
                  keep_best (>) fst i (created_at r, reportAction r) latestAction))"

definition moderatorReportsByPost :: "string list \<Rightarrow> event list \<Rightarrow> (string \<times> event) list" where
  "moderatorReportsByPost mods reports =
     (let (earliestHide, latestAction) = foldl (report_step mods) ([], []) reports
      in filter (\<lambda>(i, r). map_option snd (map_of latestAction i) \<noteq> Some Unhide) earliestHide)"

definition muted_step :: "event \<Rightarrow> (string \<times> event) list \<Rightarrow> string list \<Rightarrow> (string \<times> event) list" where
  "muted_step e muted t =
     (if at t 0 = Some ''p'' \<and> truthy (at t 1) then keep_best (>) created_at (the (at t 1)) e muted else muted)"

definition moderatorMutedAuthors :: "mstore \<Rightarrow> string list \<Rightarrow> (string \<times> event) list" where
  "moderatorMutedAuthors st mods =
     (let latestPerMod = foldl (\<lambda>m e. if pubkey e \<notin> set mods then m else keep_best (>) created_at (pubkey e) e m) []
            (query st (kinds_query [KIND_MUTE_LIST]))
      in foldl (\<lambda>muted e. foldl (muted_step e) muted (tags e)) [] (map snd latestPerMod))"

record ModeratorHides =
  mh_reports :: "(string \<times> event) list"
  mutedAuthors :: "(string \<times> event) list"

definition moderatorHides :: "mstore \<Rightarrow> string list \<Rightarrow> ModeratorHides" where
  "moderatorHides st mods = \<lparr>mh_reports = moderatorReportsByPost mods (query st (kinds_query [KIND_REPORT])),
     mutedAuthors = moderatorMutedAuthors st mods\<rparr>"

definition map_has :: "('k \<times> 'v) list \<Rightarrow> 'k \<Rightarrow> bool" where
  "map_has m k = (map_of m k \<noteq> None)"

definition isModeratorHidden :: "viewer \<Rightarrow> event \<Rightarrow> ModeratorHides \<Rightarrow> bool" where
  "isModeratorHidden V e hides = (map_has (mh_reports hides) (eid e) \<or> map_has (mutedAuthors hides) (real_author V e))"

record CommunityHideContext =
  hides :: ModeratorHides
  advisory :: "AdvisoryOverlay option"
  ctx_banned :: "string list option"
  ctx_pending :: "string list option"

definition opt_has :: "'a list option \<Rightarrow> 'a \<Rightarrow> bool" where
  \<comment> \<open>\<open>s?.has(x)\<close>\<close>
  "opt_has s x = (case s of None \<Rightarrow> False | Some xs \<Rightarrow> x \<in> set xs)"

definition isCommunityHidden :: "viewer \<Rightarrow> event \<Rightarrow> CommunityHideContext \<Rightarrow> bool" where
  "isCommunityHidden V e ctx =
     (if map_has (mh_reports (hides ctx)) (eid e) then True
      else if opt_has (map_option loggedEvents (advisory ctx)) (eid e) then True
      else if opt_has (ctx_pending ctx) (eid e) then True
      else let a = real_author V e in
        map_has (mutedAuthors (hides ctx)) a \<or> opt_has (map_option loggedAuthors (advisory ctx)) a
        \<or> opt_has (ctx_banned ctx) a)"

definition entryFor :: "(string \<Rightarrow> string) \<Rightarrow> event \<Rightarrow> event \<Rightarrow> ModerationEntry" where
  "entryFor npub_encode post report =
     \<lparr>me_post = post, me_report = report, moderatorPubkey = pubkey report, moderatorNpub = npub_encode (pubkey report)\<rparr>"

definition opt_get :: "('k \<times> 'v) list option \<Rightarrow> 'k \<Rightarrow> 'v option" where
  \<comment> \<open>\<open>m?.get(k)\<close>\<close>
  "opt_get m k = (case m of None \<Rightarrow> None | Some m \<Rightarrow> map_of m k)"

definition hidden_by ::
  "viewer \<Rightarrow> (string \<times> event) list \<Rightarrow> (string \<times> event) list option \<Rightarrow> AdvisoryOverlay option \<Rightarrow> event \<Rightarrow> event option" where
  \<comment> \<open>the chain of checks in the loop of \<open>filterFeed\<close>: the moderator event that hides the post\<close>
  "hidden_by V reportsByPost muted ov post =
     (case map_of reportsByPost (eid post) of
        Some r \<Rightarrow> Some r
      | None \<Rightarrow> (case opt_get (map_option eventReports ov) (eid post) of
          Some r \<Rightarrow> Some r
        | None \<Rightarrow> (case opt_get muted (real_author V post) of
            Some r \<Rightarrow> Some r
          | None \<Rightarrow> opt_get (map_option authorReports ov) (real_author V post))))"

definition filterFeed ::
  "viewer \<Rightarrow> (string \<Rightarrow> string) \<Rightarrow> event list \<Rightarrow> event list \<Rightarrow> string list \<Rightarrow> (string \<times> event) list option \<Rightarrow>
   AdvisoryOverlay option \<Rightarrow> ModeratedFeed" where
  "filterFeed V npub_encode posts reports mods muted ov =
     (let reportsByPost = moderatorReportsByPost mods reports;
          (vis, log) = foldl (\<lambda>(vis, log) post. case hidden_by V reportsByPost muted ov post of
              Some r \<Rightarrow> (vis, log @ [entryFor npub_encode post r])
            | None \<Rightarrow> (vis @ [post], log)) ([], []) posts
      in \<lparr>visible = js_sort newest_first vis,
          moderationLog = js_sort (\<lambda>a b. created_at (me_post b) - created_at (me_post a)) log\<rparr>)"

definition article_coord :: "event \<Rightarrow> string" where
  "article_coord e = pubkey e @ '':'' @
     (case Option.bind (find (\<lambda>t. at t 0 = Some ''d'') (tags e)) (\<lambda>t. at t 1) of Some d \<Rightarrow> d | None \<Rightarrow> '''')"

definition split_step ::
  "event list \<times> event list \<times> (string \<times> event) list \<Rightarrow> event \<Rightarrow> event list \<times> event list \<times> (string \<times> event) list" where
  \<comment> \<open>the pass over the cached posts: posts, comments and the newest article per coordinate\<close>
  "split_step = (\<lambda>(posts, comments, latestArticle) e.
     if isStiqComment e then (posts, comments @ [e], latestArticle)
     else if kind e = KIND_ARTICLE then (posts, comments, keep_best (>) created_at (article_coord e) e latestArticle)
     else (posts @ [e], comments, latestArticle))"

definition feed_split :: "mstore \<Rightarrow> event list \<times> event list" where
  \<comment> \<open>the feed's posts and the hybrid comments\<close>
  "feed_split st =
     (let raw = query st \<lparr>q_kinds = Some [KIND_POST, KIND_ARTICLE, KIND_POLL, KIND_VOICE_MESSAGE], q_authors = None,
                          q_limit = None, q_unordered = True\<rparr>;
          (posts, comments, latestArticle) = foldl split_step ([], [], []) raw
      in (posts @ map snd latestArticle, comments))"

definition buildModeratedFeed ::
  "viewer \<Rightarrow> crypto \<Rightarrow> (string \<Rightarrow> string) \<Rightarrow> (string \<Rightarrow> string) \<Rightarrow> mstore \<Rightarrow> string list \<Rightarrow> AutoModConfig option \<Rightarrow>
   ModeratedFeed \<times> event list" where
  "buildModeratedFeed V C npub_encode measured st mods autoCfg =
     (let (posts, comments) = feed_split st;
          reports = query st (kinds_query [KIND_REPORT]);
          ov = advisoryOverlay reports (\<lambda>pk. pk \<in> set mods);
          feed = filterFeed V npub_encode posts reports mods (Some (moderatorMutedAuthors st mods)) (Some ov);
          vis = filter (\<lambda>p. \<not> no_author V p \<and> \<not> off_roll V p) (visible feed);
          vis = (case autoCfg of None \<Rightarrow> vis | Some cfg \<Rightarrow>
            let auto = autoHiddenPosts V measured st cfg mods
            in if auto \<noteq> [] \<or> (cfg_banned cfg \<noteq> None \<and> cfg_banned cfg \<noteq> Some [])
                 \<or> (cfg_pending cfg \<noteq> None \<and> cfg_pending cfg \<noteq> Some [])
               then filter (\<lambda>p. \<not> map_has auto (eid p) \<and> \<not> opt_has (cfg_pending cfg) (eid p)
                              \<and> \<not> opt_has (cfg_banned cfg) (real_author V p)) vis
               else vis);
          losers = fst (detectDoubleSpends C posts);
          vis = (if losers \<noteq> [] then filter (\<lambda>p. eid p \<notin> set losers) vis else vis)
      in (feed\<lparr>visible := vis\<rparr>, comments))"

subsection \<open>queue.ts\<close>

definition add_reporter :: "string \<Rightarrow> string \<Rightarrow> (string \<times> string list) list \<Rightarrow> (string \<times> string list) list" where
  "add_reporter i pk m = (case map_of m i of
       Some seen \<Rightarrow> AList.update i (set_add pk seen) m
     | None \<Rightarrow> AList.update i [pk] m)"

definition member_report :: "string list \<Rightarrow> event \<Rightarrow> string option" where
  \<comment> \<open>the guards of the loop: the target of a member's hide report\<close>
  "member_report mods r = (if pubkey r \<in> set mods then None else if \<not> isHideReport r then None else reportedPostId r)"

definition reporters_of :: "string list \<Rightarrow> event list \<Rightarrow> (string \<times> string list) list" where
  "reporters_of mods rs = foldl (\<lambda>m r. case member_report mods r of
     None \<Rightarrow> m | Some i \<Rightarrow> add_reporter i (pubkey r) m) [] rs"

definition thresholdHiddenTargets :: "mstore \<Rightarrow> string list \<Rightarrow> int \<Rightarrow> string list" where
  "thresholdHiddenTargets st mods reportThreshold =
     (if \<not> reportThreshold > 0 then []
      else let reporters = reporters_of mods (query st (kinds_query [KIND_REPORT])) in
        if reporters = [] then []
        else let restored = restoredIds st mods
             in map fst (filter (\<lambda>(i, who). int (length who) \<ge> reportThreshold \<and> i \<notin> set restored) reporters))"

subsection \<open>AppRuntime.ts\<close>

definition autoModConfig :: "mstore \<Rightarrow> string list \<Rightarrow> PostRules \<Rightarrow> int \<Rightarrow> int \<Rightarrow> int \<Rightarrow> AutoModConfig" where
  \<comment> \<open>the configuration that \<open>autoModKeyFor\<close> derives from the store, without its memos\<close>
  "autoModConfig st mods rules rulesAt reportThreshold nowSec =
     \<lparr>postRules = rules, postRulesAt = rulesAt, cfg_banned = Some (map fst (bannedAuthors st mods nowSec)),
      cfg_pending = Some (thresholdHiddenTargets st mods reportThreshold)\<rparr>"

definition derived_feed ::
  "viewer \<Rightarrow> crypto \<Rightarrow> (string \<Rightarrow> string) \<Rightarrow> (string \<Rightarrow> string) \<Rightarrow> PostRules \<Rightarrow> int \<Rightarrow> int \<Rightarrow> int \<Rightarrow>
   mstore \<Rightarrow> string list \<Rightarrow> ModeratedFeed \<times> event list" where
  \<comment> \<open>the feed with the bans and the pending reviews of its own store\<close>
  "derived_feed V C npub_encode measured rules rulesAt reportThreshold nowSec st mods =
     buildModeratedFeed V C npub_encode measured st mods (Some (autoModConfig st mods rules rulesAt reportThreshold nowSec))"

section \<open>Hides and restores\<close>

lemma report_fold:
  "foldl (report_step mods) (a, b) rs =
   (foldl (\<lambda>m r. case (if reportAction r = Hide then map_option (\<lambda>i. (i, r)) (visibility_target mods r) else None) of
        None \<Rightarrow> m | Some (k, v) \<Rightarrow> keep_best (<) created_at k v m) a rs,
    foldl (\<lambda>m r. case map_option (\<lambda>i. (i, created_at r, reportAction r)) (visibility_target mods r) of
        None \<Rightarrow> m | Some (k, v) \<Rightarrow> keep_best (>) fst k v m) b rs)"
  by (induction rs arbitrary: a b) (auto simp: report_step_def split: option.splits)

definition actions_on :: "string list \<Rightarrow> string \<Rightarrow> event list \<Rightarrow> event list" where
  \<comment> \<open>the moderators' hides and restores of one target\<close>
  "actions_on mods i rs = filter (\<lambda>r. visibility_target mods r = Some i) rs"

lemma map_filter_targets:
  "List.map_filter (\<lambda>e. case map_option (\<lambda>i. (i, f e)) (visibility_target mods e) of
     Some (k', v) \<Rightarrow> if k' = i then Some v else None | None \<Rightarrow> None) rs = map f (actions_on mods i rs)"
  by (induction rs) (auto simp: List.map_filter_simps actions_on_def split: option.splits)

lemma map_filter_hides:
  "List.map_filter (\<lambda>e. case if reportAction e = Hide then map_option (\<lambda>i. (i, e)) (visibility_target mods e) else None of
     Some (k', v) \<Rightarrow> if k' = i then Some v else None | None \<Rightarrow> None) rs =
   filter (\<lambda>r. reportAction r = Hide) (actions_on mods i rs)"
  by (induction rs) (auto simp: List.map_filter_simps actions_on_def split: option.splits)

lemma map_of_filter_keyed:
  "map_of (filter (\<lambda>(k, v). P k) m) k = (if P k then map_of m k else None)"
  by (induction m) auto

lemma hidden_lookup:
  "map_of (moderatorReportsByPost mods rs) i =
   (if \<exists>r. newest_of (actions_on mods i rs) = Some r \<and> reportAction r = Unhide then None
    else best_of (<) created_at (filter (\<lambda>r. reportAction r = Hide) (actions_on mods i rs)))"
proof -
  let ?hide = "\<lambda>r. if reportAction r = Hide then map_option (\<lambda>i. (i, r)) (visibility_target mods r) else None"
  let ?act = "\<lambda>r. map_option (\<lambda>i. (i, created_at r, reportAction r)) (visibility_target mods r)"
  let ?eh = "foldl (\<lambda>m r. case ?hide r of None \<Rightarrow> m | Some (k, v) \<Rightarrow> keep_best (<) created_at k v m) [] rs"
  let ?la = "foldl (\<lambda>m r. case ?act r of None \<Rightarrow> m | Some (k, v) \<Rightarrow> keep_best (>) fst k v m) [] rs"
  have la: "map_of ?la i = map_option (\<lambda>r. (created_at r, reportAction r)) (newest_of (actions_on mods i rs))"
    unfolding keep_best_fold map_filter_targets by (simp add: best_of_map)
  have eh: "map_of ?eh i = best_of (<) created_at (filter (\<lambda>r. reportAction r = Hide) (actions_on mods i rs))"
    unfolding keep_best_fold map_filter_hides ..
  have "map_of (moderatorReportsByPost mods rs) i =
      (if map_option snd (map_of ?la i) \<noteq> Some Unhide then map_of ?eh i else None)"
    by (simp add: moderatorReportsByPost_def report_fold map_of_filter_keyed)
  then show ?thesis unfolding la eh by (auto simp: option.map_comp comp_def)
qed

lemma action_of_target:
  "visibility_target mods r = Some i \<Longrightarrow> reportAction r = Unhide \<longleftrightarrow> stiqActionOf r = Some ARestore"
  by (auto simp: visibility_target_def reportAction_def isHideReport_def split: if_splits option.splits)

lemma target_facts:
  "visibility_target mods r = Some i \<Longrightarrow> pubkey r \<in> set mods \<and> kind r = KIND_REPORT"
  by (auto simp: visibility_target_def reportedPostId_def split: if_splits option.splits)

lemma filtered_keys:
  "distinct (map fst m) \<Longrightarrow> i \<in> set (map fst (filter (\<lambda>(i, v). P v) m)) \<longleftrightarrow> (\<exists>v. map_of m i = Some v \<and> P v)"
  by (induction m) (auto simp: map_of_eq_None_iff dest: map_of_SomeD intro: rev_image_eqI split: if_splits)

lemma restored_iff:
  "i \<in> set (restoredIds st mods) \<longleftrightarrow>
   (\<exists>r. newest_of (actions_on mods i (query st (kinds_query [KIND_REPORT]))) = Some r \<and> stiqActionOf r = Some ARestore)"
proof -
  let ?rs = "query st (kinds_query [KIND_REPORT])"
  let ?act = "\<lambda>r. map_option (\<lambda>i. (i, created_at r, stiqActionOf r = Some ARestore)) (visibility_target mods r)"
  let ?la = "foldl (\<lambda>m r. case ?act r of None \<Rightarrow> m | Some (k, v) \<Rightarrow> keep_best (>) fst k v m) [] ?rs"
  have step: "(case visibility_target mods r of None \<Rightarrow> m
      | Some i \<Rightarrow> keep_best (>) fst i (created_at r, stiqActionOf r = Some ARestore) m) =
      (case ?act r of None \<Rightarrow> m | Some (k, v) \<Rightarrow> keep_best (>) fst k v m)" for m r
    by (simp split: option.splits)
  have ids: "restoredIds st mods = map fst (filter (\<lambda>(i, v). snd v) ?la)"
    unfolding restoredIds_def step ..
  have la: "map_of ?la i = map_option (\<lambda>r. (created_at r, stiqActionOf r = Some ARestore)) (newest_of (actions_on mods i ?rs))"
    unfolding keep_best_fold map_filter_targets by (simp add: best_of_map)
  have "i \<in> set (restoredIds st mods) \<longleftrightarrow> (\<exists>v. map_of ?la i = Some v \<and> snd v)"
    unfolding ids by (rule filtered_keys[OF keep_best_fold_keys])
  then show ?thesis unfolding la by auto
qed

text \<open>
  A target on which a moderator has acted is hidden exactly if it is not restored: the feed and
  the automatic layer read the same newest action.
\<close>

lemma hidden_or_restored:
  assumes "actions_on mods i (query st (kinds_query [KIND_REPORT])) \<noteq> []"
  shows "map_has (moderatorReportsByPost mods (query st (kinds_query [KIND_REPORT]))) i \<longleftrightarrow> i \<notin> set (restoredIds st mods)"
proof -
  let ?as = "actions_on mods i (query st (kinds_query [KIND_REPORT]))"
  obtain r where r: "newest_of ?as = Some r" using assms by (cases "newest_of ?as") auto
  have rt: "visibility_target mods r = Some i" "r \<in> set ?as"
    using best_of_mem[OF r] by (auto simp: actions_on_def)
  have "map_has (moderatorReportsByPost mods (query st (kinds_query [KIND_REPORT]))) i \<longleftrightarrow> reportAction r \<noteq> Unhide"
    unfolding map_has_def hidden_lookup using r rt(2)
    by (cases "reportAction r") (auto simp: filter_empty_conv)
  with r show ?thesis by (simp add: restored_iff action_of_target[OF rt(1)])
qed

lemma target_signed:
  assumes "i \<noteq> ''''" "pubkey e \<in> set mods"
  shows "signed_as (buildRemoveReport t i opts) e \<Longrightarrow> visibility_target mods e = Some i \<and> isHideReport e \<and> kind e = KIND_REPORT"
    "signed_as (buildRestore t i a) e \<Longrightarrow> visibility_target mods e = Some i \<and> \<not> isHideReport e \<and> kind e = KIND_REPORT"
proof -
  assume s: "signed_as (buildRemoveReport t i opts) e"
  define snap where "snap = map_option js_trim (contentSnapshot opts)"
  define ts where "ts = p_tag (authorPubkey opts) @ (if truthy snap then [[CONTENT_SNAPSHOT_TAG, take CONTENT_SNAPSHOT_MAX (the snap)]] else [])"
  obtain b where tg: "tags e = [''e'', i, b] # ts" and k: "kind e = KIND_REPORT"
    using s by (simp add: signed_as_def buildRemoveReport_def report_event_def Let_def ts_def snap_def)
  have "at x 0 \<noteq> Some ACTION_TAG" if "x \<in> set ts" for x
    using that by (auto simp: ts_def p_tag_def ACTION_TAG_def CONTENT_SNAPSHOT_TAG_def split: if_splits)
  then have "first_action stiq_action ts = None" by (induction ts) auto
  then have "stiqActionOf e = None" by (simp add: stiqActionOf_def tg ACTION_TAG_def)
  then show "visibility_target mods e = Some i \<and> isHideReport e \<and> kind e = KIND_REPORT"
    using assms k by (simp add: visibility_target_def reportedPostId_def tag_value_def tg isHideReport_def)
next
  assume s: "signed_as (buildRestore t i a) e"
  then have "stiqActionOf e = Some ARestore" "reportedPostId e = Some i" "kind e = KIND_REPORT"
    using assms(1) by (simp_all add: signed_as_def report_builders stiqActionOf_def reportedPostId_def tag_value_def
        stiq_action_def ACTION_TAG_def)
  then show "visibility_target mods e = Some i \<and> \<not> isHideReport e \<and> kind e = KIND_REPORT"
    using assms by (simp add: visibility_target_def isHideReport_def)
qed

text \<open>
  C32. The newest moderator action on a post decides whether it is hidden.  After a removal report it
  is hidden, and the log attributes it to the earliest hide by a moderator; after a restore it is
  not hidden, and automatic hides are overridden too.  Locks, pins, labels and bans do not count,
  nor does anything signed by somebody else.
\<close>

theorem hide_lifecycle:
  assumes "i \<noteq> ''''" and "pubkey e \<in> set mods" and "e \<in> set (cached (run ops))"
    and "\<And>x. x \<in> set (cached (run ops)) \<Longrightarrow> visibility_target mods x = Some i \<Longrightarrow> x \<noteq> e \<Longrightarrow> created_at x < created_at e"
  defines "hidden \<equiv> moderatorReportsByPost mods (query (run ops) (kinds_query [KIND_REPORT]))"
  shows "(signed_as (buildRemoveReport t i opts) e \<longrightarrow>
       (\<exists>h \<in> set (cached (run ops)). map_of hidden i = Some h \<and> visibility_target mods h = Some i \<and> isHideReport h
          \<and> (\<forall>x \<in> set (cached (run ops)). visibility_target mods x = Some i \<longrightarrow> isHideReport x \<longrightarrow> created_at h \<le> created_at x)))
    \<and> (signed_as (buildRestore t i a) e \<longrightarrow> map_of hidden i = None \<and> i \<in> set (restoredIds (run ops) mods))"
proof (intro conjI impI)
  let ?as = "actions_on mods i (query (run ops) (kinds_query [KIND_REPORT]))"
  have mem: "x \<in> set ?as \<longleftrightarrow> x \<in> set (cached (run ops)) \<and> visibility_target mods x = Some i" for x
    using target_facts by (auto simp: actions_on_def set_query)
  have newest: "newest_of ?as = Some e" if "visibility_target mods e = Some i"
    using assms(3,4) that by (intro newer.best_of_unique) (auto simp: mem not_less less_imp_le)
  {
    assume s: "signed_as (buildRemoveReport t i opts) e"
    note e = target_signed(1)[OF assms(1,2) s]
    let ?hs = "filter (\<lambda>r. reportAction r = Hide) ?as"
    have hide: "reportAction x = Hide \<longleftrightarrow> isHideReport x" for x by (simp add: reportAction_def)
    have "e \<in> set ?hs" using e assms(3) by (simp add: mem hide)
    then obtain h where h: "best_of (<) created_at ?hs = Some h" by (metis best_of_None empty_iff empty_set option.exhaust)
    then have "map_of hidden i = Some h"
      using newest e by (simp add: hidden_def hidden_lookup hide[symmetric])
    moreover have "h \<in> set ?hs" using h by (rule best_of_mem)
    moreover have "created_at h \<le> created_at x" if "x \<in> set ?hs" for x
      using older.best_of_best[OF h that] by auto
    ultimately show "\<exists>h \<in> set (cached (run ops)). map_of hidden i = Some h \<and> visibility_target mods h = Some i \<and> isHideReport h
          \<and> (\<forall>x \<in> set (cached (run ops)). visibility_target mods x = Some i \<longrightarrow> isHideReport x \<longrightarrow> created_at h \<le> created_at x)"
      by (auto simp: mem hide)
  }
  {
    assume s: "signed_as (buildRestore t i a) e"
    note e = target_signed(2)[OF assms(1,2) s]
    then have act: "reportAction e = Unhide" by (simp add: reportAction_def)
    then show "map_of hidden i = None" using newest e by (simp add: hidden_def hidden_lookup)
    show "i \<in> set (restoredIds (run ops) mods)"
      using newest e act action_of_target[of mods e i] by (simp add: restored_iff)
  }
qed

definition ex_hide :: event where
  "ex_hide = \<lparr>eid = ''h1'', pubkey = ''mod'', created_at = 10, kind = 1984,
     tags = [[''e'', ''p1'', ''spam''], [''p'', ''eve''], [''content-snapshot'', ''buy'']], content = ''''\<rparr>"
definition ex_restore :: event where
  "ex_restore = \<lparr>eid = ''h2'', pubkey = ''mod2'', created_at = 20, kind = 1984,
     tags = [[''e'', ''p1''], [''stiq-action'', ''restore'']], content = ''''\<rparr>"

theorem hide_lifecycle_witness:
  "map_of (moderatorReportsByPost [''mod'', ''mod2''] (query (run [Save ex_hide]) (kinds_query [KIND_REPORT]))) ''p1'' = Some ex_hide
   \<and> map_of (moderatorReportsByPost [''mod'', ''mod2''] (query (run [Save ex_hide, Save ex_restore]) (kinds_query [KIND_REPORT]))) ''p1'' = None"
proof -
  have stored: "cached (run [Save ex_hide]) = [ex_hide]" "set (cached (run [Save ex_hide, Save ex_restore])) = {ex_hide, ex_restore}"
    by (simp_all add: cached_def run_def save_def has_def empty_store_def ex_hide_def ex_restore_def)
  have "js_trim ''buy'' = ''buy''" by (simp add: js_trim_def js_space_def)
  then have s: "signed_as (buildRemoveReport 10 ''p1'' \<lparr>authorPubkey = Some ''eve'', reasonId = Some ''spam'', ro_note = None,
        contentSnapshot = Some ''buy'', reportType = None, ro_reason = None\<rparr>) ex_hide"
    by (simp add: signed_as_def report_builders ex_hide_def KIND_REPORT_def CONTENT_SNAPSHOT_TAG_def CONTENT_SNAPSHOT_MAX_def
        coalesce_def)
  have s': "signed_as (buildRestore 20 ''p1'' None) ex_restore"
    by (simp add: signed_as_def report_builders ex_restore_def KIND_REPORT_def ACTION_TAG_def)
  have "\<exists>h \<in> set [ex_hide]. map_of (moderatorReportsByPost [''mod'', ''mod2''] (query (run [Save ex_hide]) (kinds_query [KIND_REPORT]))) ''p1'' = Some h"
    using hide_lifecycle[of "''p1''" ex_hide "[''mod'', ''mod2'']" "[Save ex_hide]", THEN conjunct1] s
    unfolding stored(1) by (simp only: simp_thms list.set insert_iff empty_iff) (auto simp: ex_hide_def)
  moreover have "map_of (moderatorReportsByPost [''mod'', ''mod2''] (query (run [Save ex_hide, Save ex_restore]) (kinds_query [KIND_REPORT]))) ''p1'' = None"
    using hide_lifecycle[of "''p1''" ex_restore "[''mod'', ''mod2'']" "[Save ex_hide, Save ex_restore]", THEN conjunct2] s'
    unfolding stored(2) by (auto simp: ex_hide_def ex_restore_def)
  ultimately show ?thesis by simp
qed

section \<open>The moderated feed\<close>

lemma filterFeed_split:
  "foldl (\<lambda>(vis, log) post. case h post of Some r \<Rightarrow> (vis, log @ [f post r]) | None \<Rightarrow> (vis @ [post], log)) (a, b) posts =
   (a @ filter (\<lambda>p. h p = None) posts, b @ map (\<lambda>p. f p (the (h p))) (filter (\<lambda>p. h p \<noteq> None) posts))"
  by (induction posts arbitrary: a b) (auto split: option.splits)

lemma filterFeed_fields:
  fixes V npub_encode posts reports mods muted ov
  defines "h \<equiv> hidden_by V (moderatorReportsByPost mods reports) muted ov"
  shows "visible (filterFeed V npub_encode posts reports mods muted ov) = js_sort newest_first (filter (\<lambda>p. h p = None) posts)"
    "moderationLog (filterFeed V npub_encode posts reports mods muted ov) =
     js_sort (\<lambda>a b. created_at (me_post b) - created_at (me_post a))
       (map (\<lambda>p. entryFor npub_encode p (the (h p))) (filter (\<lambda>p. h p \<noteq> None) posts))"
  by (simp_all add: filterFeed_def filterFeed_split h_def Let_def)

definition overlay :: "mstore \<Rightarrow> string list \<Rightarrow> AdvisoryOverlay" where
  "overlay st mods = advisoryOverlay (query st (kinds_query [KIND_REPORT])) (\<lambda>pk. pk \<in> set mods)"

definition feed_hidden_by :: "viewer \<Rightarrow> mstore \<Rightarrow> string list \<Rightarrow> event \<Rightarrow> event option" where
  \<comment> \<open>the moderator event that hides a post in the feed\<close>
  "feed_hidden_by V st mods = hidden_by V (mh_reports (moderatorHides st mods)) (Some (moderatorMutedAuthors st mods)) (Some (overlay st mods))"

definition thread_context :: "mstore \<Rightarrow> string list \<Rightarrow> string list option \<Rightarrow> string list option \<Rightarrow> CommunityHideContext" where
  \<comment> \<open>the context of a thread view, from the same store\<close>
  "thread_context st mods banned review = \<lparr>hides = moderatorHides st mods, advisory = Some (overlay st mods),
     ctx_banned = banned, ctx_pending = review\<rparr>"

lemma overlay_has:
  "x \<in> set (loggedEvents (overlay st mods)) \<longleftrightarrow> map_of (eventReports (overlay st mods)) x \<noteq> None"
  "x \<in> set (loggedAuthors (overlay st mods)) \<longleftrightarrow> map_of (authorReports (overlay st mods)) x \<noteq> None"
  by (simp_all add: overlay_def overlay_fields(3,4) mem_keys_iff del: set_map)

lemma hidden_in_thread_iff:
  "isCommunityHidden V p (thread_context st mods banned review) \<longleftrightarrow>
   feed_hidden_by V st mods p \<noteq> None \<or> opt_has review (eid p) \<or> opt_has banned (real_author V p)"
  by (auto simp: isCommunityHidden_def thread_context_def feed_hidden_by_def hidden_by_def Let_def map_has_def opt_has_def
      opt_get_def overlay_has moderatorHides_def split: option.splits)

definition shown_to :: "viewer \<Rightarrow> crypto \<Rightarrow> (string \<Rightarrow> string) \<Rightarrow> mstore \<Rightarrow> string list \<Rightarrow> AutoModConfig \<Rightarrow> event \<Rightarrow> bool" where
  "shown_to V C measured st mods cfg p \<longleftrightarrow>
     \<not> isCommunityHidden V p (thread_context st mods (cfg_banned cfg) (cfg_pending cfg))
     \<and> \<not> no_author V p \<and> \<not> off_roll V p \<and> \<not> map_has (autoHiddenPosts V measured st cfg mods) (eid p)
     \<and> eid p \<notin> set (fst (detectDoubleSpends C (fst (feed_split st))))"

lemma moderated_visible:
  "visible (fst (buildModeratedFeed V C npub_encode measured st mods (Some cfg))) =
   js_sort newest_first (filter (shown_to V C measured st mods cfg) (fst (feed_split st)))"
proof -
  let ?posts = "fst (feed_split st)"
  let ?auto = "autoHiddenPosts V measured st cfg mods"
  let ?losers = "fst (detectDoubleSpends C ?posts)"
  let ?h = "feed_hidden_by V st mods"
  have "(let auto = ?auto in if auto \<noteq> [] \<or> (cfg_banned cfg \<noteq> None \<and> cfg_banned cfg \<noteq> Some [])
                 \<or> (cfg_pending cfg \<noteq> None \<and> cfg_pending cfg \<noteq> Some [])
      then filter (\<lambda>p. \<not> map_has auto (eid p) \<and> \<not> opt_has (cfg_pending cfg) (eid p) \<and> \<not> opt_has (cfg_banned cfg) (real_author V p)) xs
      else xs) =
    filter (\<lambda>p. \<not> map_has ?auto (eid p) \<and> \<not> opt_has (cfg_pending cfg) (eid p) \<and> \<not> opt_has (cfg_banned cfg) (real_author V p)) xs" for xs
    by (auto simp: Let_def map_has_def opt_has_def filter_id_conv split: option.splits)
  moreover have "(if ?losers \<noteq> [] then filter (\<lambda>p. eid p \<notin> set ?losers) xs else xs) = filter (\<lambda>p. eid p \<notin> set ?losers) xs" for xs
    by (auto simp: filter_id_conv)
  ultimately have "visible (fst (buildModeratedFeed V C npub_encode measured st mods (Some cfg))) =
     filter (\<lambda>p. eid p \<notin> set ?losers)
       (filter (\<lambda>p. \<not> map_has ?auto (eid p) \<and> \<not> opt_has (cfg_pending cfg) (eid p) \<and> \<not> opt_has (cfg_banned cfg) (real_author V p))
         (filter (\<lambda>p. \<not> no_author V p \<and> \<not> off_roll V p) (js_sort newest_first (filter (\<lambda>p. ?h p = None) ?posts))))"
    by (simp add: buildModeratedFeed_def Let_def case_prod_unfold filterFeed_fields feed_hidden_by_def overlay_def moderatorHides_def)
  also have "\<dots> = js_sort newest_first (filter (shown_to V C measured st mods cfg) ?posts)"
    unfolding recency.filter_js_sort filter_filter
    by (rule arg_cong[where f = "js_sort newest_first"], rule filter_cong) (auto simp: shown_to_def hidden_in_thread_iff)
  finally show ?thesis .
qed

text \<open>
  C23. The feed shows a post exactly if a thread would not hide it.  The visible posts are, newest
  first, the posts that are not hidden by the context a thread view consults (the moderators'
  hides and mutes, standing and single directives, bans and pending reviews, built from the same
  store), whose author is a known member, that keep the organizer's rules and that did not lose
  a double spend.
\<close>

theorem moderated_feed_exact:
  "mset (visible (fst (buildModeratedFeed V C npub_encode measured st mods (Some cfg)))) =
     mset (filter (shown_to V C measured st mods cfg) (fst (feed_split st)))
   \<and> sorted_wrt (\<lambda>a b. created_at b \<le> created_at a)
       (visible (fst (buildModeratedFeed V C npub_encode measured st mods (Some cfg))))"
  using recency.sorted_js_sort by (simp add: moderated_visible newest_first_def)

definition vals_ok :: "('v \<Rightarrow> bool) \<Rightarrow> ('k \<times> 'v) list \<Rightarrow> bool" where
  "vals_ok P m \<longleftrightarrow> (\<forall>x \<in> set m. P (snd x))"

lemma vals_ok_keep_best: "vals_ok P m \<Longrightarrow> P v \<Longrightarrow> vals_ok P (keep_best better ts k v m)"
  unfolding vals_ok_def keep_best_def by (auto split: option.splits if_splits dest!: set_update_bucket)

lemma foldl_keeps: "(\<And>m x. x \<in> set xs \<Longrightarrow> Q m \<Longrightarrow> Q (f m x)) \<Longrightarrow> Q m \<Longrightarrow> Q (foldl f m xs)"
  by (induction xs arbitrary: m) auto

lemma muted_accountable:
  assumes "map_of (moderatorMutedAuthors (run ops) mods) a = Some e"
  shows "e \<in> set (cached (run ops)) \<and> pubkey e \<in> set mods \<and> kind e = KIND_MUTE_LIST"
proof -
  define P where "P = (\<lambda>e. e \<in> set (cached (run ops)) \<and> pubkey e \<in> set mods \<and> kind e = KIND_MUTE_LIST)"
  let ?ls = "query (run ops) (kinds_query [KIND_MUTE_LIST])"
  let ?per = "foldl (\<lambda>m e. if pubkey e \<notin> set mods then m else keep_best (>) created_at (pubkey e) e m) [] ?ls"
  have "vals_ok P ?per"
  proof (rule foldl_keeps)
    show "vals_ok P []" by (simp add: vals_ok_def)
  qed (auto simp: set_query P_def intro!: vals_ok_keep_best)
  then have per: "P e" if "e \<in> set (map snd ?per)" for e
    using that by (auto simp: vals_ok_def)
  have step: "vals_ok P (foldl (muted_step e) m (tags e))" if "vals_ok P m" "P e" for m e
    by (rule foldl_keeps) (use that in \<open>auto simp: muted_step_def intro: vals_ok_keep_best\<close>)
  have "vals_ok P (foldl (\<lambda>muted e. foldl (muted_step e) muted (tags e)) [] (map snd ?per))"
  proof (rule foldl_keeps)
    show "vals_ok P []" by (simp add: vals_ok_def)
  qed (rule step, assumption, rule per)
  then have "vals_ok P (moderatorMutedAuthors (run ops) mods)"
    by (simp only: moderatorMutedAuthors_def Let_def)
  then show ?thesis using map_of_SomeD[OF assms] by (fastforce simp: vals_ok_def P_def)
qed

lemma directive_source:
  assumes "map_of (logged_reports (foldl put_directive [] xs)) k = Some r"
  shows "\<exists>d. (k, d) \<in> set xs \<and> dr_ev d = r"
proof -
  obtain d where "best_of (\<ge>) dr_ts (map snd (filter (\<lambda>x. fst x = k) xs)) = Some d" "dr_ev d = r"
    using assms by (auto simp: logged_reports_alt map_of_map_filter directives_fold bind_eq_Some_conv split: if_splits)
  with best_of_mem[OF this(1)] show ?thesis by auto
qed

lemma directive_accountable:
  assumes "map_of (eventReports (overlay (run ops) mods)) k = Some r \<or> map_of (authorReports (overlay (run ops) mods)) k = Some r"
  shows "r \<in> set (cached (run ops)) \<and> pubkey r \<in> set mods \<and> kind r = KIND_REPORT"
proof -
  obtain d e where "e \<in> set (query (run ops) (kinds_query [KIND_REPORT]))" "dr_ev d = r"
      "(k, d) \<in> set (event_rules (\<lambda>pk. pk \<in> set mods) e) \<or> (k, d) \<in> set (author_rule (\<lambda>pk. pk \<in> set mods) e)"
    using assms by (auto simp: overlay_def overlay_fields dest!: directive_source)
  then show ?thesis by (auto simp: set_query dest!: rules_of_event)
qed

lemma report_accountable:
  assumes "map_of (moderatorReportsByPost mods (query (run ops) (kinds_query [KIND_REPORT]))) i = Some r"
  shows "r \<in> set (cached (run ops)) \<and> pubkey r \<in> set mods \<and> kind r = KIND_REPORT"
proof -
  have "best_of (<) created_at (filter (\<lambda>r. reportAction r = Hide)
      (actions_on mods i (query (run ops) (kinds_query [KIND_REPORT])))) = Some r"
    using assms by (auto simp: hidden_lookup split: if_splits)
  from best_of_mem[OF this] show ?thesis using target_facts by (auto simp: actions_on_def set_query)
qed

lemma hidden_accountable:
  assumes "feed_hidden_by V (run ops) mods p = Some r"
  shows "r \<in> set (cached (run ops)) \<and> pubkey r \<in> set mods \<and> kind r \<in> {KIND_REPORT, KIND_MUTE_LIST}"
  using assms report_accountable muted_accountable directive_accountable
  by (fastforce simp: feed_hidden_by_def hidden_by_def opt_get_def moderatorHides_def split: option.splits)

lemma moderated_log:
  "moderationLog (fst (buildModeratedFeed V C npub_encode measured st mods autoCfg)) =
   js_sort (\<lambda>a b. created_at (me_post b) - created_at (me_post a))
     (map (\<lambda>p. entryFor npub_encode p (the (feed_hidden_by V st mods p)))
       (filter (\<lambda>p. feed_hidden_by V st mods p \<noteq> None) (fst (feed_split st))))"
  by (simp add: buildModeratedFeed_def Let_def case_prod_unfold filterFeed_fields feed_hidden_by_def overlay_def moderatorHides_def)

definition moderated :: "viewer \<Rightarrow> mstore \<Rightarrow> string list \<Rightarrow> event \<Rightarrow> bool" where
  \<comment> \<open>hidden by a hide or a mute list, or sent to the log by a directive on the event or its author\<close>
  "moderated V st mods p \<longleftrightarrow> isModeratorHidden V p (moderatorHides st mods)
     \<or> eid p \<in> set (loggedEvents (overlay st mods)) \<or> real_author V p \<in> set (loggedAuthors (overlay st mods))"

definition withheld :: "viewer \<Rightarrow> crypto \<Rightarrow> (string \<Rightarrow> string) \<Rightarrow> mstore \<Rightarrow> string list \<Rightarrow> AutoModConfig \<Rightarrow> event \<Rightarrow> bool" where
  \<comment> \<open>by a ban, by the report threshold, by the organizer's rules, for its author, or as a double spend\<close>
  "withheld V C measured st mods cfg p \<longleftrightarrow> opt_has (cfg_banned cfg) (real_author V p) \<or> opt_has (cfg_pending cfg) (eid p)
     \<or> map_has (autoHiddenPosts V measured st cfg mods) (eid p) \<or> no_author V p \<or> off_roll V p
     \<or> eid p \<in> set (fst (detectDoubleSpends C (fst (feed_split st))))"

lemma moderated_iff: "moderated V st mods p \<longleftrightarrow> feed_hidden_by V st mods p \<noteq> None"
proof -
  have "moderated V st mods p \<longleftrightarrow> isCommunityHidden V p (thread_context st mods None None)"
    by (auto simp: moderated_def isCommunityHidden_def thread_context_def isModeratorHidden_def opt_has_def Let_def)
  then show ?thesis by (simp add: hidden_in_thread_iff opt_has_def)
qed

lemma shown_iff: "shown_to V C measured st mods cfg p \<longleftrightarrow> \<not> moderated V st mods p \<and> \<not> withheld V C measured st mods cfg p"
  unfolding shown_to_def hidden_in_thread_iff moderated_iff withheld_def by auto

lemma mset_filter_split: "mset xs = mset (filter P xs) + mset (filter (\<lambda>x. \<not> P x) xs)"
  by (simp add: mset_filter flip: multiset_partition)

text \<open>
  C33. The moderation log is complete for hides, mute lists and directives, and accountable.  It holds
  exactly the feed posts that one of these hides, each once, and every entry names a stored report or
  mute list signed by a moderator of the roster.  Every post of the feed is shown, in the log, or
  withheld without an entry; the last only for a ban, the report threshold, the organizer's rules, an
  author that is unknown or off the roll, or a lost double spend.
\<close>

theorem moderation_log_accountable:
  "let F = fst (buildModeratedFeed V C npub_encode measured (run ops) mods (Some cfg)); posts = fst (feed_split (run ops))
   in mset (map me_post (moderationLog F)) = mset (filter (moderated V (run ops) mods) posts)
     \<and> mset posts = mset (visible F) + mset (map me_post (moderationLog F))
         + mset (filter (\<lambda>p. \<not> moderated V (run ops) mods p \<and> withheld V C measured (run ops) mods cfg p) posts)
     \<and> me_report ` set (moderationLog F)
         \<subseteq> {r. r \<in> set (cached (run ops)) \<and> pubkey r \<in> set mods \<and> kind r \<in> {KIND_REPORT, KIND_MUTE_LIST}}"
proof -
  let ?st = "run ops"
  let ?F = "fst (buildModeratedFeed V C npub_encode measured ?st mods (Some cfg))" and ?posts = "fst (feed_split ?st)"
  have log: "mset (map me_post (moderationLog ?F)) = mset (filter (moderated V ?st mods) ?posts)"
    unfolding moderated_log mset_map mset_js_sort moderated_iff[abs_def]
    by (simp add: entryFor_def image_mset.compositionality comp_def)
  have vis: "mset (visible ?F) = mset (filter (\<lambda>p. \<not> moderated V ?st mods p \<and> \<not> withheld V C measured ?st mods cfg p) ?posts)"
    unfolding moderated_visible mset_js_sort shown_iff[abs_def] ..
  have "mset ?posts = mset (filter (moderated V ?st mods) ?posts) + mset (filter (\<lambda>p. \<not> moderated V ?st mods p) ?posts)"
    by (rule mset_filter_split)
  moreover have "mset (filter (\<lambda>p. \<not> moderated V ?st mods p) ?posts)
      = mset (filter (\<lambda>p. \<not> moderated V ?st mods p \<and> withheld V C measured ?st mods cfg p) ?posts) + mset (visible ?F)"
    unfolding vis
    by (subst mset_filter_split[where P = "withheld V C measured ?st mods cfg"]) (simp add: conj_commute)
  ultimately have "mset ?posts = mset (visible ?F) + mset (map me_post (moderationLog ?F))
      + mset (filter (\<lambda>p. \<not> moderated V ?st mods p \<and> withheld V C measured ?st mods cfg p) ?posts)"
    unfolding log by (simp only: ac_simps)
  moreover have "me_report ` set (moderationLog ?F) \<subseteq> {r. r \<in> set (cached ?st) \<and> pubkey r \<in> set mods \<and> kind r \<in> {KIND_REPORT, KIND_MUTE_LIST}}"
    using hidden_accountable by (fastforce simp: moderated_log entryFor_def)
  ultimately show ?thesis using log by (simp add: Let_def)
qed


section \<open>Nobody else moderates\<close>

lemma foldl_skip: "(\<And>s x. \<not> P x \<Longrightarrow> f s x = s) \<Longrightarrow> foldl f s (filter P xs) = foldl f s xs"
  by (induction xs arbitrary: s) auto

lemma cached_save: "cached (run (ops @ [Save e])) \<in> {cached (run ops), cached (run ops) @ [e]}"
  using save_byId(1)[OF store_ok_run, of e ops] by (simp add: run_def cached_def)

lemma query_save_other:
  assumes "q_kinds q = Some ks" "kind e \<notin> set ks"
  shows "query (run (ops @ [Save e])) q = query (run ops) q"
proof -
  have "filter (\<lambda>x. kind x = k) (cached (run (ops @ [Save e]))) = filter (\<lambda>x. kind x = k) (cached (run ops))" if "k \<in> set ks" for k
    using cached_save[of ops e] that assms(2) by auto
  then have "map (\<lambda>k. filter (\<lambda>x. kind x = k) (cached (run (ops @ [Save e])))) ks = map (\<lambda>k. filter (\<lambda>x. kind x = k) (cached (run ops))) ks"
    by simp
  then show ?thesis by (simp only: query_eq_spec[OF store_ok_run] query_spec_def assms(1) option.case)
qed

lemma query_save_filter:
  assumes "\<not> P e"
  shows "filter P (query (run (ops @ [Save e])) (kinds_query ks)) = filter P (query (run ops) (kinds_query ks))"
proof -
  have "filter P (filter (\<lambda>x. kind x = k) (cached (run (ops @ [Save e])))) = filter P (filter (\<lambda>x. kind x = k) (cached (run ops)))" for k
    using cached_save[of ops e] assms by auto
  then have "filter P (concat (map (\<lambda>k. filter (\<lambda>x. kind x = k) (cached (run (ops @ [Save e])))) ks)) =
      filter P (concat (map (\<lambda>k. filter (\<lambda>x. kind x = k) (cached (run ops))) ks))"
    unfolding filter_concat map_map comp_def by simp
  then show ?thesis
    by (simp add: query_eq_spec[OF store_ok_run] query_spec_def kinds_query_def recency.filter_js_sort)
qed

lemma fold_save_ignored:
  assumes "\<And>s x. \<not> P x \<Longrightarrow> f s x = s" "\<not> P e"
  shows "foldl f s (query (run (ops @ [Save e])) (kinds_query ks)) = foldl f s (query (run ops) (kinds_query ks))"
  by (metis foldl_skip[of P f, OF assms(1)] query_save_filter[of P, OF assms(2)])

section \<open>Automatic hides\<close>

definition reports_by :: "string list \<Rightarrow> string \<Rightarrow> event list \<Rightarrow> string set" where
  \<comment> \<open>the members who reported a target\<close>
  "reports_by mods i rs = pubkey ` {r. r \<in> set rs \<and> member_report mods r = Some i}"

lemma reporters_snoc:
  "reporters_of mods (rs @ [r]) = (case member_report mods r of None \<Rightarrow> reporters_of mods rs
     | Some i \<Rightarrow> add_reporter i (pubkey r) (reporters_of mods rs))"
  by (simp add: reporters_of_def split: option.split)

lemma reports_by_snoc:
  "reports_by mods i (rs @ [r]) =
     (if member_report mods r = Some i then insert (pubkey r) (reports_by mods i rs) else reports_by mods i rs)"
  by (auto simp: reports_by_def)

lemma reporters_fold:
  "case map_of (reporters_of mods rs) i of
     None \<Rightarrow> reports_by mods i rs = {}
   | Some who \<Rightarrow> distinct who \<and> set who = reports_by mods i rs"
proof (induction rs rule: rev_induct)
  case Nil
  show ?case by (simp add: reporters_of_def reports_by_def)
next
  case (snoc r rs)
  then show ?case unfolding reporters_snoc reports_by_snoc
    by (auto simp: add_reporter_def js_map_simps set_add_def split: option.splits if_splits)
qed

lemma reporters_keys: "distinct (map fst (reporters_of mods rs))"
proof (induction rs rule: rev_induct)
  case Nil
  show ?case by (simp add: reporters_of_def)
next
  case (snoc r rs)
  then show ?case unfolding reporters_snoc
    by (auto simp: add_reporter_def js_map_simps split: option.splits)
qed

text \<open>
  Automatic hiding by reports needs that many different members and yields to a moderator.  A
  target is hidden by the organizer's threshold exactly if at least that many distinct keys
  outside the roster reported it and no moderator's newest action on it is a restore; with the
  threshold 0 nothing is.
\<close>

theorem threshold_exact:
  "i \<in> set (thresholdHiddenTargets (run ops) mods n) \<longleftrightarrow>
   0 < n \<and> i \<notin> set (restoredIds (run ops) mods) \<and> n \<le> int (card (reports_by mods i (cached (run ops))))"
proof -
  let ?rs = "query (run ops) (kinds_query [KIND_REPORT])"
  have "member_report mods r = Some i \<Longrightarrow> kind r = KIND_REPORT" for r i
    by (auto simp: member_report_def reportedPostId_def split: if_splits)
  then have same: "reports_by mods i ?rs = reports_by mods i (cached (run ops))"
    by (auto simp: reports_by_def set_query)
  have "(\<exists>who. map_of (reporters_of mods ?rs) i = Some who \<and> int (length who) \<ge> n \<and> i \<notin> set (restoredIds (run ops) mods)) \<longleftrightarrow>
      i \<notin> set (restoredIds (run ops) mods) \<and> n \<le> int (card (reports_by mods i ?rs))" if "0 < n"
    using reporters_fold[where mods = mods and rs = ?rs and i = i] that by (auto split: option.splits simp flip: distinct_card)
  moreover have "i \<in> set (thresholdHiddenTargets (run ops) mods n) \<longleftrightarrow> 0 < n \<and>
      (\<exists>who. map_of (reporters_of mods ?rs) i = Some who \<and> int (length who) \<ge> n \<and> i \<notin> set (restoredIds (run ops) mods))"
  proof -
    have "i \<in> set (thresholdHiddenTargets (run ops) mods n) \<longleftrightarrow> 0 < n \<and>
        i \<in> set (map fst (filter (\<lambda>(j, who). int (length who) \<ge> n \<and> j \<notin> set (restoredIds (run ops) mods)) (reporters_of mods ?rs)))"
      by (auto simp: thresholdHiddenTargets_def Let_def)
    also have "\<dots> \<longleftrightarrow> 0 < n \<and>
        i \<in> set (map fst (filter (\<lambda>(j, who). int (length who) \<ge> n \<and> i \<notin> set (restoredIds (run ops) mods)) (reporters_of mods ?rs)))"
      by auto
    finally show ?thesis unfolding filtered_keys[OF reporters_keys] .
  qed
  ultimately show ?thesis unfolding same by blast
qed

definition enough_reports :: "string list \<Rightarrow> int \<Rightarrow> mstore \<Rightarrow> string \<Rightarrow> bool" where
  \<comment> \<open>that many different members reported the target and no moderator restored it\<close>
  "enough_reports mods n st i \<longleftrightarrow> 0 < n \<and> i \<notin> set (restoredIds st mods) \<and> n \<le> int (card (reports_by mods i (cached st)))"

lemma restored_save: "pubkey e \<notin> set mods \<Longrightarrow> restoredIds (run (ops @ [Save e])) mods = restoredIds (run ops) mods"
  unfolding restoredIds_def
  by (subst fold_save_ignored[where P = "\<lambda>r. pubkey r \<in> set mods" and e = e and ops = ops]) (auto simp: visibility_target_def)

lemma banned_save: "pubkey e \<notin> set mods \<Longrightarrow> bannedAuthors (run (ops @ [Save e])) mods now = bannedAuthors (run ops) mods now"
  unfolding bannedAuthors_def
  by (subst fold_save_ignored[where P = "\<lambda>r. pubkey r \<in> set mods" and e = e and ops = ops]) (auto simp: ban_of_def)

lemma reports_save:
  assumes "member_report mods e \<noteq> Some i"
  shows "reports_by mods i (cached (run (ops @ [Save e]))) = reports_by mods i (cached (run ops))"
  using cached_save[of ops e] assms by (auto simp: reports_by_def)

lemma reports_mono:
  "card (reports_by mods i (cached (run ops))) \<le> card (reports_by mods i (cached (run (ops @ [Save e]))))"
  using cached_save[of ops e] by (intro card_mono) (auto simp: reports_by_def)

lemma threshold_save:
  assumes "pubkey e \<notin> set mods"
  shows "i \<in> set (thresholdHiddenTargets (run (ops @ [Save e])) mods n) \<longleftrightarrow>
    i \<in> set (thresholdHiddenTargets (run ops) mods n)
    \<or> (member_report mods e = Some i \<and> enough_reports mods n (run (ops @ [Save e])) i)"
proof (cases "member_report mods e = Some i")
  case True
  then show ?thesis using reports_mono[of mods i ops e]
    by (auto simp: threshold_exact enough_reports_def restored_save[OF assms])
next
  case False
  then show ?thesis by (simp add: threshold_exact restored_save[OF assms] reports_save)
qed

lemma auto_cfg:
  "postRules c = postRules c' \<Longrightarrow> postRulesAt c = postRulesAt c' \<Longrightarrow>
   autoHiddenPosts V measured st c mods = autoHiddenPosts V measured st c' mods"
proof -
  assume c: "postRules c = postRules c'" "postRulesAt c = postRulesAt c'"
  then have "auto_verdict V measured c restored e = auto_verdict V measured c' restored e" for restored e
    by (simp only: auto_verdict_def)
  then show ?thesis by (simp add: autoHiddenPosts_def c(1) cong: option.case_cong)
qed

lemma auto_save:
  assumes "pubkey e \<notin> set mods" and "kind e \<notin> {KIND_POST, KIND_ARTICLE}"
  shows "autoHiddenPosts V measured (run (ops @ [Save e])) cfg mods = autoHiddenPosts V measured (run ops) cfg mods"
proof -
  have "query (run (ops @ [Save e])) (kinds_query [KIND_POST, KIND_ARTICLE]) = query (run ops) (kinds_query [KIND_POST, KIND_ARTICLE])"
    by (rule query_save_other) (use assms in \<open>auto simp: kinds_query_def\<close>)
  then show ?thesis by (simp add: autoHiddenPosts_def restored_save[OF assms(1)])
qed

lemma hides_save:
  assumes "pubkey e \<notin> set mods"
  shows "moderatorHides (run (ops @ [Save e])) mods = moderatorHides (run ops) mods"
    "overlay (run (ops @ [Save e])) mods = overlay (run ops) mods"
    "moderatorMutedAuthors (run (ops @ [Save e])) mods = moderatorMutedAuthors (run ops) mods"
proof -
  let ?st' = "run (ops @ [Save e])" and ?st = "run ops" and ?R = "kinds_query [KIND_REPORT]"
  note ignored = fold_save_ignored[where P = "\<lambda>r. pubkey r \<in> set mods" and e = e and ops = ops]
  have "foldl (report_step mods) s (query ?st' ?R) = foldl (report_step mods) s (query ?st ?R)" for s
    by (rule ignored) (use assms in \<open>auto simp: report_step_def visibility_target_def\<close>)
  moreover show muted: "moderatorMutedAuthors ?st' mods = moderatorMutedAuthors ?st mods"
    unfolding moderatorMutedAuthors_def by (subst ignored) (use assms in auto)
  ultimately show "moderatorHides ?st' mods = moderatorHides ?st mods"
    by (simp add: moderatorHides_def moderatorReportsByPost_def)
  have "foldl (advisory_step (\<lambda>pk. pk \<in> set mods)) s (query ?st' ?R) = foldl (advisory_step (\<lambda>pk. pk \<in> set mods)) s (query ?st ?R)" for s
    by (rule ignored) (use assms in \<open>auto simp: advisory_step_def\<close>)
  then show "overlay ?st' mods = overlay ?st mods" by (simp add: overlay_def advisoryOverlay_def)
qed

text \<open>
  C24. Only moderators moderate, except that enough members together withhold a post for review.
  Bans and pending reviews are derived from the same store as the feed.  Whatever event somebody
  outside the roster signs, unless it is itself a post of the feed, storing it leaves the moderation
  log as it is and adds nothing to the visible posts; it removes the post that it reports, and that
  only once the organizer's threshold of different members has reported it and no moderator's newest
  action on it is a restore.
\<close>

theorem nonmoderators_cannot_moderate:
  assumes "pubkey e \<notin> set mods" and "kind e \<notin> {KIND_POST, KIND_ARTICLE, KIND_POLL, KIND_VOICE_MESSAGE}"
  shows "let feed = (\<lambda>st. derived_feed V C npub_encode measured rules rulesAt n now st mods);
      st = run ops; st' = run (ops @ [Save e])
    in moderationLog (fst (feed st')) = moderationLog (fst (feed st)) \<and> snd (feed st') = snd (feed st)
      \<and> visible (fst (feed st')) =
          filter (\<lambda>p. \<not> (member_report mods e = Some (eid p) \<and> enough_reports mods n st' (eid p))) (visible (fst (feed st)))"
proof -
  let ?st' = "run (ops @ [Save e])" and ?st = "run ops"
  let ?cfg = "\<lambda>st. autoModConfig st mods rules rulesAt n now"
  have posts: "feed_split ?st' = feed_split ?st"
    unfolding feed_split_def by (subst query_save_other) (use assms(2) in auto)
  have hid: "feed_hidden_by V ?st' mods p = feed_hidden_by V ?st mods p" for p
    by (simp add: feed_hidden_by_def hides_save[OF assms(1)])
  have auto: "autoHiddenPosts V measured ?st' (?cfg ?st') mods = autoHiddenPosts V measured ?st (?cfg ?st) mods"
    using assms(2) by (subst auto_save[OF assms(1)]) (auto simp: autoModConfig_def intro!: auto_cfg)
  have shown: "shown_to V C measured ?st' mods (?cfg ?st') p \<longleftrightarrow> shown_to V C measured ?st mods (?cfg ?st) p
      \<and> \<not> (member_report mods e = Some (eid p) \<and> enough_reports mods n ?st' (eid p))" for p
    unfolding shown_to_def hidden_in_thread_iff hid auto posts
    by (auto simp: autoModConfig_def opt_has_def threshold_save[OF assms(1)] banned_save[OF assms(1)])
  have "snd (buildModeratedFeed V C npub_encode measured st mods cfg) = snd (feed_split st)" for st cfg
    by (simp add: buildModeratedFeed_def Let_def case_prod_unfold)
  then show ?thesis
    unfolding derived_feed_def Let_def moderated_log moderated_visible posts hid shown
    by (auto simp: recency.filter_js_sort conj_commute posts)
qed

definition ex_reported :: event where
  "ex_reported = \<lparr>eid = ''p1'', pubkey = ''eve'', created_at = 5, kind = 1, tags = [], content = ''buy''\<rparr>"

lemma ex_threshold: "''p1'' \<in> set (thresholdHiddenTargets (run ([Save ex_reported] @ [Save ex_hide])) [''ann''] 1)"
  by code_simp

theorem nonmoderators_cannot_moderate_witness:
  "visible (fst (derived_feed ex_viewer ex_crypto id id DEFAULT_POST_RULES 0 1 9 (run ([Save ex_reported] @ [Save ex_hide])) [''ann'']))
   = filter (\<lambda>p. eid p \<noteq> ''p1'') (visible (fst (derived_feed ex_viewer ex_crypto id id DEFAULT_POST_RULES 0 1 9 (run [Save ex_reported]) [''ann''])))"
proof -
  have m: "member_report [''ann''] ex_hide = Some ''p1''" by code_simp
  have r: "enough_reports [''ann''] 1 (run ([Save ex_reported] @ [Save ex_hide])) ''p1''"
    using ex_threshold unfolding threshold_exact enough_reports_def by simp
  have "pubkey ex_hide \<notin> set [''ann'']" "kind ex_hide \<notin> {KIND_POST, KIND_ARTICLE, KIND_POLL, KIND_VOICE_MESSAGE}"
    by (simp_all add: ex_hide_def KIND_POST_def KIND_ARTICLE_def KIND_POLL_def KIND_VOICE_MESSAGE_def)
  from nonmoderators_cannot_moderate[OF this, of ex_viewer ex_crypto id id DEFAULT_POST_RULES 0 1 9 "[Save ex_reported]"]
  have "visible (fst (derived_feed ex_viewer ex_crypto id id DEFAULT_POST_RULES 0 1 9 (run ([Save ex_reported] @ [Save ex_hide])) [''ann'']))
     = filter (\<lambda>p. \<not> (member_report [''ann''] ex_hide = Some (eid p)
           \<and> enough_reports [''ann''] 1 (run ([Save ex_reported] @ [Save ex_hide])) (eid p)))
         (visible (fst (derived_feed ex_viewer ex_crypto id id DEFAULT_POST_RULES 0 1 9 (run [Save ex_reported]) [''ann''])))"
    unfolding Let_def by blast
  also have "\<dots> = filter (\<lambda>p. eid p \<noteq> ''p1'')
      (visible (fst (derived_feed ex_viewer ex_crypto id id DEFAULT_POST_RULES 0 1 9 (run [Save ex_reported]) [''ann''])))"
    using r unfolding m by (intro filter_cong) auto
  finally show ?thesis .
qed


lemma auto_fold:
  "map_of (foldl (\<lambda>out e. case f e of None \<Rightarrow> out | Some code \<Rightarrow> AList.update (eid e) code out) [] es) i \<noteq> None
   \<longleftrightarrow> (\<exists>e \<in> set es. eid e = i \<and> f e \<noteq> None)"
  by (induction es rule: rev_induct) (auto simp: js_map_simps split: option.splits)

lemma labelOf_None: "\<not> truthy (labelOf e) \<longleftrightarrow> labelOf e = None"
proof (cases "find (\<lambda>t. at t 0 = Some ''l'' \<and> at t 2 = Some LABEL_NAMESPACE \<and> truthy (at t 1)) (tags e)")
  case (Some t)
  then have "truthy (at t 1)" by (auto simp: find_Some_iff)
  with Some show ?thesis by (auto simp: labelOf_def truthy_def)
qed (simp add: labelOf_def)

lemma violations:
  "LabelRequired \<in> set (evaluatePost k b l rules) \<longleftrightarrow>
     labelRequired (if k = PkArticle then article_rule rules else note_rule rules) \<and> \<not> truthy l"
  "TooLong \<in> set (evaluatePost k b l rules) \<longleftrightarrow>
     0 < tr_max (if k = PkArticle then article_rule rules else note_rule rules)
     \<and> tr_max (if k = PkArticle then article_rule rules else note_rule rules) < int (if k = PkArticle then wordCount b else length b)"
  by (auto simp: evaluatePost_def Let_def)

definition rule_for :: "AutoModConfig \<Rightarrow> event \<Rightarrow> TypeRule" where
  "rule_for cfg e = (if kind e = KIND_ARTICLE then article_rule (postRules cfg) else note_rule (postRules cfg))"

definition extent_of :: "viewer \<Rightarrow> (string \<Rightarrow> string) \<Rightarrow> event \<Rightarrow> int" where
  \<comment> \<open>words of an article, characters of a note\<close>
  "extent_of V measured e = (let b = measured (fst (body_of V e))
     in int (if kind e = KIND_ARTICLE then wordCount b else length b))"

text \<open>
  The organizer's rules hide exactly the posts that break them.  A cached note or article is
  hidden automatically exactly if it was written after the rules came into force, is no comment,
  can be read on this device, is not restored by a moderator, and lacks a required label or
  exceeds the maximum (characters for a note, words for an article); the minimum hides nothing.
\<close>

theorem autohide_exact:
  assumes "e \<in> set (cached (run ops))" and "kind e \<in> {KIND_POST, KIND_ARTICLE}"
  shows "map_has (autoHiddenPosts V measured (run ops) cfg mods) (eid e) \<longleftrightarrow>
    postRulesAt cfg \<le> created_at e \<and> eid e \<notin> set (restoredIds (run ops) mods) \<and> \<not> isStiqComment e \<and> \<not> snd (body_of V e)
    \<and> (labelRequired (rule_for cfg e) \<and> labelOf e = None
       \<or> 0 < tr_max (rule_for cfg e) \<and> tr_max (rule_for cfg e) < extent_of V measured e)"
proof -
  have only: "x = e" if "x \<in> set (cached (run ops))" "eid x = eid e" for x
    using that assms(1) distinct_cached[OF store_ok_run, of ops] by (auto simp: distinct_map dest: inj_onD)
  have "e \<in> set (query (run ops) (kinds_query [KIND_POST, KIND_ARTICLE]))"
    using assms(1,2) by (auto simp: set_query)
  then have "(\<exists>x \<in> set (query (run ops) (kinds_query [KIND_POST, KIND_ARTICLE])). eid x = eid e
        \<and> auto_verdict V measured cfg (restoredIds (run ops) mods) x \<noteq> None) \<longleftrightarrow>
      auto_verdict V measured cfg (restoredIds (run ops) mods) e \<noteq> None"
    using only by (auto simp: set_query)
  then have "map_has (autoHiddenPosts V measured (run ops) cfg mods) (eid e) \<longleftrightarrow>
      rulesEnforceAnything (postRules cfg) \<and> auto_verdict V measured cfg (restoredIds (run ops) mods) e \<noteq> None"
    unfolding map_has_def autoHiddenPosts_def Let_def
    by (cases "rulesEnforceAnything (postRules cfg)") (simp_all only: auto_fold if_True if_False simp_thms map_of.simps not_True_eq_False not_False_eq_True)
  also have "\<dots> \<longleftrightarrow> auto_verdict V measured cfg (restoredIds (run ops) mods) e \<noteq> None"
    by (auto simp: rulesEnforceAnything_def auto_verdict_def violations Let_def split: if_splits)
  also have "\<dots> \<longleftrightarrow> postRulesAt cfg \<le> created_at e \<and> eid e \<notin> set (restoredIds (run ops) mods) \<and> \<not> isStiqComment e
      \<and> \<not> snd (body_of V e) \<and> (labelRequired (rule_for cfg e) \<and> labelOf e = None
         \<or> 0 < tr_max (rule_for cfg e) \<and> tr_max (rule_for cfg e) < extent_of V measured e)"
  proof -
    have "isStiqComment e \<Longrightarrow> kind e = KIND_POST" by (simp add: isStiqComment_def)
    then show ?thesis
      by (auto simp: auto_verdict_def violations Let_def rule_for_def extent_of_def labelOf_None not_less split: if_splits)
  qed
  finally show ?thesis .
qed

definition ex_long :: event where
  "ex_long = \<lparr>eid = ''p9'', pubkey = ''eve'', created_at = 30, kind = 1, tags = [], content = ''too long''\<rparr>"
definition ex_rules :: AutoModConfig where
  "ex_rules = \<lparr>postRules = DEFAULT_POST_RULES\<lparr>note_rule := \<lparr>tr_min = 0, tr_max = 5, mediaMax = 1, labelRequired = False\<rparr>\<rparr>,
     postRulesAt = 20, cfg_banned = None, cfg_pending = None\<rparr>"

theorem autohide_exact_witness:
  "map_has (autoHiddenPosts ex_viewer id (run [Save ex_long]) ex_rules []) ''p9''"
proof -
  have stored: "cached (run [Save ex_long]) = [ex_long]"
    by (simp add: cached_def run_def save_def has_def empty_store_def)
  have plain: "body_of ex_viewer ex_long = (''too long'', False)"
    by (simp add: body_of_def resolveContent_def isSealedContent_def ex_long_def)
  have free: "eid ex_long \<notin> set (restoredIds (run [Save ex_long]) [])"
    by (auto simp: restored_iff actions_on_def visibility_target_def)
  have "extent_of ex_viewer id ex_long = 8"
    by (simp add: extent_of_def plain) (simp add: ex_long_def KIND_ARTICLE_def)
  moreover have "tr_max (rule_for ex_rules ex_long) = 5" "\<not> labelRequired (rule_for ex_rules ex_long)"
    by (simp_all add: rule_for_def ex_long_def ex_rules_def KIND_ARTICLE_def)
  moreover have "\<not> isStiqComment ex_long" "kind ex_long = KIND_POST" "postRulesAt ex_rules \<le> created_at ex_long" "eid ex_long = ''p9''"
    by (simp_all add: ex_long_def ex_rules_def isStiqComment_def KIND_POST_def)
  ultimately show ?thesis
    using autohide_exact[of ex_long "[Save ex_long]" ex_viewer id ex_rules "[]"] free
    by (simp add: stored plain)
qed

section \<open>The memo of the roster\<close>

lemma join_nul_terminated: "xs \<noteq> [] \<Longrightarrow> join_nul xs @ [CHR 0x00] = concat (map (\<lambda>x. x @ [CHR 0x00]) xs)"
proof (induction xs)
  case (Cons x xs)
  then show ?case by (cases xs) (simp_all add: join_nul_def)
qed simp

lemma terminated_inject:
  "concat (map (\<lambda>x. x @ [c]) xs) = concat (map (\<lambda>x. x @ [c]) ys) \<Longrightarrow> \<forall>x \<in> set xs \<union> set ys. c \<notin> set x \<Longrightarrow> xs = ys"
proof (induction xs arbitrary: ys)
  case Nil
  then show ?case by (cases ys) auto
next
  case (Cons x xs)
  then obtain y ys' where ys: "ys = y # ys'" by (cases ys) auto
  have "x @ c # concat (map (\<lambda>x. x @ [c]) xs) = y @ c # concat (map (\<lambda>x. x @ [c]) ys')"
    using Cons.prems(1) by (simp add: ys)
  then have "x = y" "concat (map (\<lambda>x. x @ [c]) xs) = concat (map (\<lambda>x. x @ [c]) ys')"
    using Cons.prems(2) by (auto simp: ys sep_split)
  with Cons.IH[of ys'] Cons.prems(2) show ?case by (simp add: ys)
qed

text \<open>
  The memo on the joined roster returns what decoding the roster anew returns, as long as no entry
  contains a NUL character and the empty string does not decode.
\<close>

lemma roster_memo_transparent:
  assumes "\<forall>x \<in> set npubs \<union> set npubs'. CHR 0x00 \<notin> set x" and "npub_data '''' = None"
  shows "fst (moderatorPubkeySetCached npub_data npubs (Some (join_nul npubs', moderatorPubkeySet npub_data npubs')))
    = moderatorPubkeySet npub_data npubs"
proof (cases "join_nul npubs' = join_nul npubs")
  case same: True
  have "moderatorPubkeySet npub_data npubs' = moderatorPubkeySet npub_data npubs"
  proof (cases "npubs = [] \<or> npubs' = []")
    case True
    have single: "xs = [] \<or> xs = ['''']" if "join_nul xs = ''''" for xs
    proof (cases xs)
      case (Cons x ys)
      with that show ?thesis by (cases ys) (simp_all add: join_nul_def)
    qed simp
    have "join_nul npubs = ''''" "join_nul npubs' = ''''" using True same by (auto simp: join_nul_def)
    then show ?thesis using single[of npubs] single[of npubs'] assms(2) by (auto simp: moderatorPubkeySet_def)
  next
    case False
    then have "concat (map (\<lambda>x. x @ [CHR 0x00]) npubs') = concat (map (\<lambda>x. x @ [CHR 0x00]) npubs)"
      using same by (simp flip: join_nul_terminated)
    then show ?thesis using terminated_inject assms(1) by (metis Un_commute)
  qed
  with same show ?thesis by (simp add: moderatorPubkeySetCached_def)
qed (simp add: moderatorPubkeySetCached_def Let_def)

end
