(* ===== verification/TorConfig.thy ===== *)
theory TorConfig
  imports Encoding
begin

text \<open>
  \<open>client/src/tor/types.ts\<close>, \<open>client/src/tor/onionAuth.ts\<close> and \<open>client/src/tor/bridges.ts\<close>: the
  configuration a Tor daemon is started with.  The module variables of \<open>onionAuth.ts\<close> are the record
  \<open>reach\<close>; the random indices of the shuffle are an argument.
\<close>

section \<open>Types\<close>

datatype transport = Direct | Webtunnel | Obfs4 | Snowflake

record socks_proxy =
  sp_host :: string
  sp_port :: int

record onion_auth =
  onionHost :: string
  privKeyBase32 :: string

record start_config =
  sc_transport :: transport
  sc_bridgeLines :: "string list"
  sc_socksPort :: int
  sc_dataDir :: "string option"
  sc_onionAuth :: "onion_auth option"
  sc_relayOnion :: "string option"
  sc_onionAuthExtra :: "onion_auth list" \<comment> \<open>\<open>[]\<close> for a missing field\<close>
  sc_dormancy :: bool \<comment> \<open>\<open>False\<close> for a missing field\<close>

datatype backend_event =
    Stopped
  | Starting
  | Bootstrapping int "string option"
  | BConnected socks_proxy "string option"
  | Verified
  | TransportDead string
  | BError string

section \<open>Onion addresses and credentials\<close>

definition base32_lower :: "char \<Rightarrow> bool" where
  \<comment> \<open>\<open>[a-z2-7]\<close>\<close>
  "base32_lower c \<longleftrightarrow> (CHR ''a'' \<le> c \<and> c \<le> CHR ''z'') \<or> (CHR ''2'' \<le> c \<and> c \<le> CHR ''7'')"

definition base32_upper :: "char \<Rightarrow> bool" where
  \<comment> \<open>\<open>[A-Z2-7]\<close>\<close>
  "base32_upper c \<longleftrightarrow> (CHR ''A'' \<le> c \<and> c \<le> CHR ''Z'') \<or> (CHR ''2'' \<le> c \<and> c \<le> CHR ''7'')"

definition v3_host :: "string \<Rightarrow> bool" where
  "v3_host s \<longleftrightarrow> length s = 56 \<and> list_all base32_lower s"

definition isValidAuthKeyBase32 :: "string option \<Rightarrow> bool" where
  "isValidAuthKeyBase32 s =
     (case s of Some k \<Rightarrow> length k = 52 \<and> list_all base32_upper k | None \<Rightarrow> False)"

definition drop_onion :: "string \<Rightarrow> string" where
  \<comment> \<open>\<open>s.slice(0, -'.onion'.length)\<close>\<close>
  "drop_onion s = take (length s - 6) s"

definition onionHostOf :: "string \<Rightarrow> string option" where
  "onionHostOf relayUrl =
     (let s = js_trim relayUrl;
          scheme = indexOf ''://'' s;
          s = (if scheme \<ge> 0 then drop (nat (scheme + 3)) s else s);
          s = takeWhile (\<lambda>c. c \<notin> {CHR ''/'', CHR ''?'', CHR ''#''}) s;
          colon = indexOf '':'' s;
          s = (if colon \<ge> 0 then take (nat colon) s else s);
          s = toLowerCase s
      in if \<not> endsWith s ''.onion'' then None
         else let host = drop_onion s in if v3_host host then Some host else None)"

definition relayOnionHostOf :: "string option \<Rightarrow> string option" where
  "relayOnionHostOf inp =
     (case inp of
        None \<Rightarrow> None
      | Some i \<Rightarrow> (case onionHostOf i of
            Some h \<Rightarrow> Some h
          | None \<Rightarrow>
              let s = toLowerCase (js_trim i);
                  s = (if endsWith s ''.onion'' then drop_onion s else s)
              in if v3_host s then Some s else None))"

definition deriveOnionAuth :: "string \<Rightarrow> string option \<Rightarrow> onion_auth option" where
  "deriveOnionAuth relayUrl onionAuthKey =
     (if \<not> isValidAuthKeyBase32 onionAuthKey then None
      else case onionHostOf relayUrl of
        None \<Rightarrow> None
      | Some h \<Rightarrow> Some \<lparr>onionHost = h, privKeyBase32 = the onionAuthKey\<rparr>)"

definition deriveOnionAuthSet :: "(string \<times> string option) list \<Rightarrow> onion_auth list" where
  \<comment> \<open>mirrors as pairs of \<open>url\<close> and \<open>onionAuthKey\<close>\<close>
  "deriveOnionAuthSet mirrors =
     snd (foldl (\<lambda>(seen, out) m. case deriveOnionAuth (fst m) (snd m) of
         None \<Rightarrow> (seen, out)
       | Some auth \<Rightarrow> if onionHost auth \<in> set seen then (seen, out)
           else (seen @ [onionHost auth], out @ [auth])) ([], []) mirrors)"

definition sameOnionAuthSet :: "onion_auth list \<Rightarrow> onion_auth list \<Rightarrow> bool" where
  "sameOnionAuthSet a b \<longleftrightarrow> length a = length b
     \<and> list_all2 (\<lambda>x y. onionHost x = onionHost y \<and> privKeyBase32 x = privKeyBase32 y) a b"

definition preserveDisplacedActivePrimary ::
    "onion_auth list \<Rightarrow> onion_auth option \<Rightarrow> bool \<Rightarrow> onion_auth option \<Rightarrow> onion_auth list" where
  "preserveDisplacedActivePrimary extras activePrimary overrideActive override =
     (case activePrimary of
        None \<Rightarrow> extras
      | Some p \<Rightarrow>
          if \<not> overrideActive then extras
          else if (case override of Some ov \<Rightarrow> onionHost ov = onionHost p | None \<Rightarrow> False) then extras
          else if list_ex (\<lambda>a. onionHost a = onionHost p) extras then extras
          else p # extras)"

record reach =
  activeRelayOnion :: "string option"
  activeOnionAuth :: "onion_auth option"
  activeOnionAuthExtra :: "onion_auth list"

definition setActiveRelayOnion :: "string option \<Rightarrow> reach \<Rightarrow> reach" where
  "setActiveRelayOnion relay r = r\<lparr>activeRelayOnion := relayOnionHostOf relay\<rparr>"

definition setActiveOnionAuth :: "onion_auth option \<Rightarrow> reach \<Rightarrow> reach" where
  "setActiveOnionAuth a r = r\<lparr>activeOnionAuth := a\<rparr>"

definition setActiveOnionAuthExtra :: "onion_auth list \<Rightarrow> reach \<Rightarrow> reach" where
  "setActiveOnionAuthExtra l r = r\<lparr>activeOnionAuthExtra := l\<rparr>"

section \<open>Bridges\<close>

definition PREFERRED_TRANSPORT :: transport where
  "PREFERRED_TRANSPORT = Webtunnel"

definition DEFAULT_TRANSPORT :: transport where
  "DEFAULT_TRANSPORT = Obfs4"

definition BRIDGE_LADDER :: "transport list" where
  "BRIDGE_LADDER = [Webtunnel, Obfs4, Snowflake]"

definition DEFAULT_SOCKS_PORT :: int where
  "DEFAULT_SOCKS_PORT = 0"

definition DEFAULT_OBFS4_BRIDGES :: "string list" where
  "DEFAULT_OBFS4_BRIDGES =
    [''obfs4 85.31.186.98:443 011F2599C0E9B27EE74B353155E244813763C3E5 cert=ayq0XzCwhpdysn5o0EyDUbmSOx3X/oTEbzDMvczHOdBJKlvIdHHLJGkZARtT4dcBFArPPg iat-mode=0'',
     ''obfs4 146.57.248.225:22 10A6CD36A537FCE513A322361547444B393989F0 cert=K1gDtDAIcUfeLqbstggjIw2rtgIKqdIhUlHp82XRqNSq/mtAjp1BIC9vHKJ2FAEpGssTPw iat-mode=0'',
     ''obfs4 85.31.186.26:443 91A6354697E6B02A386312F68D82CF86824D3606 cert=PBwr+S8JTVZo6MPdHnkTwXJPILWADLqfMGoVvhZClMq/Urndyd42BwX9YFJHZnBB3H0XCw iat-mode=0'',
     ''obfs4 37.218.245.14:38224 D9A82D2F9C2F65A18407B1D2B764F130847F8B5D cert=bjRaMrr1BRiAW8IE9U5z27fQaYgOhX1UCmOpg2pFpoMvo6ZgQMzLsaTzzQNTlm7hNcb+Sg iat-mode=0'',
     ''obfs4 209.148.46.65:443 74FAD13168806246602538555B5521A0383A1875 cert=ssH+9rP8dG2NLDN2XuFw63hIO/9MNNinLmxQDpVa+7kTOa9/m+tGWT1SmSYpQ9uTBGa6Hw iat-mode=0'',
     ''obfs4 45.145.95.6:27015 C5B7CD6946FF10C5B3E89691A7D3F2C122D2117C cert=TD7PbUO0/0k6xYHMPW3vJxICfkMZNdkRrb63Zhl5j9dW3iRGiCx0A7mPhe5T2EDzQ35+Zw iat-mode=0'',
     ''obfs4 192.95.36.142:443 CDF2E852BF539B82BD10E27E9115A31734E378C2 cert=qUVQ0srL1JI/vO6V6m/24anYXiJD3QP2HgzUKQtQ7GRqqUvs7P+tG43RtAqdhLOALP7DJQ iat-mode=1'',
     ''obfs4 51.222.13.177:80 5EDAC3B810E12B01F6FD8050D2FD3E277B289A08 cert=2uplIpLQ0q9+0qMFrK5pkaYRDOe460LL9WHBvatgkuRr/SL31wBOEupaMMJ6koRE6Ld0ew iat-mode=0'',
     ''obfs4 193.11.166.194:27020 86AC7B8D430DAC4117E9F42C9EAED18133863AAF cert=0LDeJH4JzMDtkJJrFphJCiPqKx7loozKN7VNfuukMGfHO0Z8OGdzHVkhVAOfo1mUdv9cMg iat-mode=0'',
     ''obfs4 193.11.166.194:27025 1AE2C08904527FEA90C4C4F8C1083EA59FBC6FAF cert=ItvYZzW5tn6v3G4UnQa6Qz04Npro6e81AP70YujmK/KXwDFPTs3aHXcHp4n8Vt6w/bv8cA iat-mode=0'',
     ''obfs4 193.11.166.194:27015 2D82C2E354D531A68469ADF7F878FA6060C6BACA cert=4TLQPJrTSaDffMK7Nbao6LC7G9OW/NHkUwIdjLSS3KYf0Nv4/nQiiI8dY2TcsQx01NniOg iat-mode=0'']"

definition SNOWFLAKE_BROKER :: string where
  "SNOWFLAKE_BROKER =
     ''url=https://1098762253.rsc.cdn77.org/ '' @
     ''fronts=app.datapacket.com,www.datapacket.com '' @
     ''ice=stun:stun.antisip.com:3478,stun:stun.epygi.com:3478,'' @
     ''stun:stun.uls.co.za:3478,stun:stun.voipgate.com:3478,stun:stun.mixvoip.com:3478,'' @
     ''stun:stun.nextcloud.com:3478,stun:stun.bethesda.net:3478,stun:stun.nextcloud.com:443 '' @
     ''utls-imitate=hellorandomizedalpn''"

definition DEFAULT_SNOWFLAKE_BRIDGES :: "string list" where
  "DEFAULT_SNOWFLAKE_BRIDGES =
    [''snowflake 192.0.2.3:80 2B280B23E1107BB62ABFC40DDCC8824814F80A72 '' @ ''fingerprint=2B280B23E1107BB62ABFC40DDCC8824814F80A72 '' @ SNOWFLAKE_BROKER,
     ''snowflake 192.0.2.4:80 8838024498816A039FCBBAB14E6F40A0843051FA '' @ ''fingerprint=8838024498816A039FCBBAB14E6F40A0843051FA '' @ SNOWFLAKE_BROKER]"

definition DEFAULT_WEBTUNNEL_BRIDGES :: "string list" where
  "DEFAULT_WEBTUNNEL_BRIDGES = []"

fun shuffle_from :: "nat list \<Rightarrow> nat \<Rightarrow> 'a list \<Rightarrow> 'a list" where
  \<comment> \<open>the loop from index \<open>i\<close> down to 1; \<open>j\<close> is \<open>Math.floor(Math.random() * (i + 1))\<close>\<close>
  "shuffle_from js 0 copy = copy"
| "shuffle_from [] (Suc i) copy = copy"
| "shuffle_from (j # js) (Suc i) copy =
     shuffle_from js i (copy[Suc i := copy ! j, j := copy ! Suc i])"

definition pickRandom :: "nat list \<Rightarrow> 'a list \<Rightarrow> nat \<Rightarrow> 'a list" where
  "pickRandom js arr n = take (min n (length arr)) (shuffle_from js (length arr - 1) arr)"

definition defaultBridgeLines :: "transport \<Rightarrow> string list" where
  "defaultBridgeLines t = (case t of
       Direct \<Rightarrow> []
     | Snowflake \<Rightarrow> DEFAULT_SNOWFLAKE_BRIDGES
     | Webtunnel \<Rightarrow> DEFAULT_WEBTUNNEL_BRIDGES
     | _ \<Rightarrow> DEFAULT_OBFS4_BRIDGES)"

datatype bridge_error = EmptyBridgeList

definition buildTorrcBridgeLines :: "string list \<Rightarrow> bridge_error + string list" where
  "buildTorrcBridgeLines bridgeLines =
     (if bridgeLines = [] then Inl EmptyBridgeList
      else Inr (''UseBridges 1'' # map (\<lambda>l. ''Bridge '' @ l) bridgeLines))"

record start_opts =
  op_transport :: "transport option"
  op_bridgeLines :: "string list option"
  op_socksPort :: "int option"
  op_dataDir :: "string option"
  op_onionAuth :: "onion_auth option"
  op_relayOnion :: "string option"
  op_onionAuthExtra :: "onion_auth list option"
  op_dormancy :: "bool option"

definition orElse :: "'a option \<Rightarrow> 'a option \<Rightarrow> 'a option" where
  \<comment> \<open>\<open>a ?? b\<close>\<close>
  "orElse a b = (case a of Some x \<Rightarrow> Some x | None \<Rightarrow> b)"

definition or_default :: "'a option \<Rightarrow> 'a \<Rightarrow> 'a" where
  "or_default a d = (case a of Some x \<Rightarrow> x | None \<Rightarrow> d)"

definition buildStartConfig :: "start_opts \<Rightarrow> start_config" where
  "buildStartConfig opts =
     (let transport = or_default (op_transport opts) DEFAULT_TRANSPORT
      in \<lparr>sc_transport = transport,
          sc_bridgeLines = (case op_bridgeLines opts of
             Some ls \<Rightarrow> if ls \<noteq> [] then ls else defaultBridgeLines transport
           | None \<Rightarrow> defaultBridgeLines transport),
          sc_socksPort = or_default (op_socksPort opts) DEFAULT_SOCKS_PORT,
          sc_dataDir = op_dataDir opts,
          sc_onionAuth = op_onionAuth opts,
          sc_relayOnion = (if truthy (op_relayOnion opts) then op_relayOnion opts else None),
          sc_onionAuthExtra = or_default (op_onionAuthExtra opts) [],
          sc_dormancy = (op_dormancy opts = Some True)\<rparr>)"

section \<open>Onion addresses\<close>

lemma lower_base32 [simp]: "base32_lower c \<Longrightarrow> lower_char c = c"
  by (auto simp: base32_lower_def lower_char_def less_eq_char_def Let_def)

lemma toLower_host: "list_all base32_lower h \<Longrightarrow> toLowerCase h = h"
  unfolding toLowerCase_def by (induction h) auto

lemma toLower_append [simp]: "toLowerCase (a @ b) = toLowerCase a @ toLowerCase b"
  by (simp add: toLowerCase_def)

lemma toLower_onion [simp]: "toLowerCase ''.onion'' = ''.onion''"
  by (simp add: toLowerCase_def lower_char_def Let_def)

lemma base32_not:
  assumes "base32_lower c"
  shows "\<not> js_space c" "c \<noteq> CHR '':''" "c \<noteq> CHR ''/''" "c \<noteq> CHR ''?''" "c \<noteq> CHR ''#''" "c \<noteq> CHR ''.''"
  using assms by (auto simp: base32_lower_def js_space_def less_eq_char_def)

lemma onionHostOf_v3: "onionHostOf u = Some h \<Longrightarrow> v3_host h"
  by (auto simp: onionHostOf_def Let_def split: if_splits)

lemma relayOnionHostOf_v3: "relayOnionHostOf u = Some h \<Longrightarrow> v3_host h"
  by (auto simp: relayOnionHostOf_def Let_def onionHostOf_v3 split: option.splits if_splits)

lemma indexOf_skip:
  assumes "p \<notin> set a"
  shows "indexOf (p # ps) (a @ p # ps @ b) = int (length a)"
  using assms by (induction a) auto

lemma indexOf_absent: "p \<notin> set a \<Longrightarrow> indexOf (p # ps) a = - 1"
  by (induction a) auto

lemma takeWhile_base32: "list_all base32_lower h \<Longrightarrow> list_all (\<lambda>c. \<not> base32_lower c \<longrightarrow> P c) h \<Longrightarrow>
    (\<And>c. base32_lower c \<Longrightarrow> P c) \<Longrightarrow> takeWhile P (h @ t) = h @ takeWhile P t"
  by (induction h) auto

lemma endsWith_append [simp]: "endsWith (a @ b) b"
  by (simp add: endsWith_def)

lemma drop_onion_append [simp]: "drop_onion (a @ ''.onion'') = a"
  by (simp add: drop_onion_def)

lemma v3_not:
  assumes "v3_host h"
  shows "h \<noteq> []" "set h \<inter> {CHR '':'', CHR ''/'', CHR ''?'', CHR ''#'', CHR ''.''} = {}"
    "\<forall>c \<in> set h. \<not> js_space c" "toLowerCase h = h"
proof -
  have all: "\<forall>c \<in> set h. base32_lower c" and l: "length h = 56"
    using assms by (simp_all add: v3_host_def list_all_iff)
  from l show "h \<noteq> []" by auto
  from all show "\<forall>c \<in> set h. \<not> js_space c" by (blast dest: base32_not)
  from all show "toLowerCase h = h" by (simp add: toLower_host list_all_iff)
  from all show "set h \<inter> {CHR '':'', CHR ''/'', CHR ''?'', CHR ''#'', CHR ''.''} = {}"
    by (blast dest: base32_not)
qed

lemma v3_not_onion: "v3_host h \<Longrightarrow> \<not> endsWith h ''.onion''"
proof
  assume h: "v3_host h" and e: "endsWith h ''.onion''"
  from e have "CHR ''.'' \<in> set (drop (length h - length ''.onion'') h)" by (simp add: endsWith_def)
  then have "CHR ''.'' \<in> set h" by (rule in_set_dropD)
  with v3_not(2)[OF h] show False by auto
qed

lemma onionHostOf_url:
  assumes h: "v3_host h" and sc: "scheme = '''' \<or> (scheme = sn @ ''://'' \<and> sn \<noteq> [] \<and> CHR '':'' \<notin> set sn
      \<and> \<not> js_space (hd sn))"
    and t: "t = [] \<or> (scheme \<noteq> '''' \<and> hd t \<in> {CHR '':'', CHR ''/'', CHR ''?'', CHR ''#''} \<and> \<not> js_space (last t))"
  shows "onionHostOf (scheme @ h @ ''.onion'' @ t) = Some h"
proof -
  let ?u = "scheme @ h @ ''.onion'' @ t"
  let ?P = "\<lambda>c. c \<notin> {CHR ''/'', CHR ''?'', CHR ''#''}"
  have first: "\<not> js_space (hd ?u)"
    using sc v3_not(1,3)[OF h] by (cases h; cases sn) auto
  have last: "\<not> js_space (last ?u)"
    using t by (auto simp: js_space_def)
  have trim: "js_trim ?u = ?u" by (rule js_trim_id) (use first last in auto)
  have cut: "(if indexOf ''://'' ?u \<ge> 0 then drop (nat (indexOf ''://'' ?u + 3)) ?u else ?u)
      = h @ ''.onion'' @ t"
  proof (cases "scheme = ''''")
    case True
    with t have "t = []" by auto
    with True have "CHR '':'' \<notin> set ?u" using v3_not(2)[OF h] by auto
    then have "indexOf ''://'' ?u = - 1" by (rule indexOf_absent)
    with True show ?thesis by simp
  next
    case False
    with sc have s: "scheme = sn @ ''://''" "CHR '':'' \<notin> set sn" by auto
    then have "indexOf ''://'' ?u = int (length sn)"
      using indexOf_skip[of "CHR '':''" sn "''//''" "h @ ''.onion'' @ t"] by simp
    with s show ?thesis by (simp add: nat_add_distrib)
  qed
  have tw: "takeWhile ?P (h @ ''.onion'' @ t) = h @ ''.onion'' @ takeWhile ?P t"
    using v3_not(2)[OF h] by (subst takeWhile_append2) auto
  define r where "r = takeWhile ?P t"
  have colon: "(if indexOf '':'' (h @ ''.onion'' @ r) \<ge> 0
      then take (nat (indexOf '':'' (h @ ''.onion'' @ r))) (h @ ''.onion'' @ r) else h @ ''.onion'' @ r)
      = h @ ''.onion''"
  proof (cases "r = []")
    case True
    then have "CHR '':'' \<notin> set (h @ ''.onion'' @ r)" using v3_not(2)[OF h] by auto
    with True show ?thesis by (simp add: indexOf_absent)
  next
    case False
    then have "t \<noteq> []" by (auto simp: r_def)
    with t False have "hd t = CHR '':''" by (cases t) (auto simp: r_def)
    with False \<open>t \<noteq> []\<close> obtain r' where r: "r = CHR '':'' # r'" by (cases t) (auto simp: r_def)
    have "CHR '':'' \<notin> set (h @ ''.onion'')" using v3_not(2)[OF h] by auto
    from indexOf_skip[OF this, of "[]" r'] have "indexOf '':'' (h @ ''.onion'' @ r) = int (length h + 6)"
      by (simp add: r)
    then show ?thesis by (simp add: r nat_add_distrib)
  qed
  have "toLowerCase (h @ ''.onion'') = h @ ''.onion''"
    using v3_not(4)[OF h] by simp
  then show ?thesis
    unfolding onionHostOf_def Let_def trim cut tw r_def[symmetric] colon
    using h endsWith_append[of h "''.onion''"] drop_onion_append[of h] by simp
qed

lemma relayOnion_spellings:
  assumes h: "v3_host h"
  shows "relayOnionHostOf (Some h) = Some h"
    and "relayOnionHostOf (Some (h @ ''.onion'')) = Some h"
    and "sn \<noteq> [] \<Longrightarrow> CHR '':'' \<notin> set sn \<Longrightarrow> \<not> js_space (hd sn) \<Longrightarrow>
      t = [] \<or> (hd t \<in> {CHR '':'', CHR ''/'', CHR ''?'', CHR ''#''} \<and> \<not> js_space (last t)) \<Longrightarrow>
      relayOnionHostOf (Some (sn @ ''://'' @ h @ ''.onion'' @ t)) = Some h"
proof -
  have trim: "js_trim h = h" by (rule js_trim_id) (use v3_not(1,3)[OF h] in auto)
  have "takeWhile (\<lambda>c. c \<noteq> CHR ''/'' \<and> c \<noteq> CHR ''?'' \<and> c \<noteq> CHR ''#'') h = h"
    using v3_not(2)[OF h] by (intro takeWhile_eq_all_conv[THEN iffD2]) auto
  moreover have "CHR '':'' \<notin> set h" using v3_not(2)[OF h] by auto
  ultimately have "onionHostOf h = None"
    using v3_not(4)[OF h] v3_not_onion[OF h]
    by (simp add: onionHostOf_def Let_def trim indexOf_absent del: takeWhile_eq_all_conv)
  then show "relayOnionHostOf (Some h) = Some h"
    using h v3_not(4)[OF h] v3_not_onion[OF h] by (simp add: relayOnionHostOf_def Let_def trim)
  show "relayOnionHostOf (Some (h @ ''.onion'')) = Some h"
    using onionHostOf_url[OF h, of "''''" "[]" "[]"] by (simp add: relayOnionHostOf_def)
  assume "sn \<noteq> []" "CHR '':'' \<notin> set sn" "\<not> js_space (hd sn)"
    "t = [] \<or> (hd t \<in> {CHR '':'', CHR ''/'', CHR ''?'', CHR ''#''} \<and> \<not> js_space (last t))"
  then show "relayOnionHostOf (Some (sn @ ''://'' @ h @ ''.onion'' @ t)) = Some h"
    using onionHostOf_url[OF h, of "sn @ ''://''" sn t] by (auto simp: relayOnionHostOf_def)
qed

section \<open>The credential set of the mirrors\<close>

definition auth_ok :: "onion_auth \<Rightarrow> bool" where
  "auth_ok a \<longleftrightarrow> v3_host (onionHost a) \<and> isValidAuthKeyBase32 (Some (privKeyBase32 a))"

lemma deriveOnionAuth_ok: "deriveOnionAuth u k = Some a \<Longrightarrow> auth_ok a"
  by (auto simp: deriveOnionAuth_def auth_ok_def isValidAuthKeyBase32_def
      dest: onionHostOf_v3 split: if_splits option.splits)

definition derivable :: "(string \<times> string option) list \<Rightarrow> onion_auth set" where
  "derivable ms = {a. \<exists>m \<in> set ms. deriveOnionAuth (fst m) (snd m) = Some a}"

lemma derivable_Cons:
  "derivable (m # ms) = set_option (deriveOnionAuth (fst m) (snd m)) \<union> derivable ms"
  by (cases "deriveOnionAuth (fst m) (snd m)") (auto simp: derivable_def)

lemma deriveSet_foldl:
  fixes f
  defines "f \<equiv> \<lambda>(seen, out) m. case deriveOnionAuth (fst m) (snd m) of
         None \<Rightarrow> (seen, out)
       | Some auth \<Rightarrow> if onionHost auth \<in> set seen then (seen, out)
           else (seen @ [onionHost auth], out @ [auth])"
  assumes "foldl f (seen, out) ms = (seen', out')"
    and "seen = map onionHost out" "distinct seen" "\<forall>a \<in> set out. auth_ok a"
  shows "seen' = map onionHost out' \<and> distinct seen' \<and> (\<forall>a \<in> set out'. auth_ok a)
    \<and> set seen' = set seen \<union> onionHost ` derivable ms"
  using assms(2-)
proof (induction ms arbitrary: seen out)
  case Nil
  then show ?case by (auto simp: derivable_def)
next
  case (Cons m ms)
  obtain s o' where fm: "f (seen, out) m = (s, o')" by fastforce
  have inv: "s = map onionHost o'" "distinct s" "\<forall>a \<in> set o'. auth_ok a"
    and st: "set s = set seen \<union> onionHost ` set_option (deriveOnionAuth (fst m) (snd m))"
    using fm Cons.prems
    by (auto simp: f_def split: option.splits if_splits intro: deriveOnionAuth_ok)
  from Cons.prems(1) fm have "foldl f (s, o') ms = (seen', out')" by simp
  from Cons.IH[OF this inv] show ?case unfolding derivable_Cons image_Un st by blast
qed

lemma deriveOnionAuthSet_spec:
  "distinct (map onionHost (deriveOnionAuthSet ms)) \<and> list_all auth_ok (deriveOnionAuthSet ms)
   \<and> onionHost ` set (deriveOnionAuthSet ms) = onionHost ` derivable ms"
proof -
  obtain s out where r: "foldl (\<lambda>(seen, out) m. case deriveOnionAuth (fst m) (snd m) of
         None \<Rightarrow> (seen, out)
       | Some auth \<Rightarrow> if onionHost auth \<in> set seen then (seen, out)
           else (seen @ [onionHost auth], out @ [auth])) ([], []) ms = (s, out)" by fastforce
  then have d: "deriveOnionAuthSet ms = out" by (simp add: deriveOnionAuthSet_def)
  from deriveSet_foldl[OF r] show ?thesis unfolding d by (auto simp: list_all_iff)
qed

section \<open>The bridge subset\<close>

lemma shuffle_length [simp]: "length (shuffle_from js i xs) = length xs"
  by (induction js i xs rule: shuffle_from.induct) auto

lemma shuffle_mset:
  "i < length xs \<or> i = 0 \<Longrightarrow> \<forall>j \<in> set js. j < length xs \<Longrightarrow> mset (shuffle_from js i xs) = mset xs"
proof (induction js i xs rule: shuffle_from.induct)
  case (3 j js i copy)
  then show ?case
    by (simp add: mset_swap)
qed auto

lemma pickRandom_subset:
  assumes "\<forall>j \<in> set js. j < length arr"
  shows "length (pickRandom js arr n) = min n (length arr) \<and> mset (pickRandom js arr n) \<subseteq># mset arr"
proof -
  have "mset (shuffle_from js (length arr - 1) arr) = mset arr"
    by (rule shuffle_mset) (use assms in \<open>cases arr; auto\<close>)+
  then have "mset (pickRandom js arr n) \<subseteq># mset arr"
    by (metis pickRandom_def append_take_drop_id mset_append mset_subset_eq_add_left)
  then show ?thesis by (simp add: pickRandom_def)
qed

lemma startConfig_bridges:
  "op_bridgeLines opts = Some ls \<Longrightarrow> ls \<noteq> [] \<Longrightarrow> sc_bridgeLines (buildStartConfig opts) = ls"
  "\<not> (\<exists>ls. op_bridgeLines opts = Some ls \<and> ls \<noteq> []) \<Longrightarrow>
     sc_bridgeLines (buildStartConfig opts) = defaultBridgeLines (sc_transport (buildStartConfig opts))"
  by (auto simp: buildStartConfig_def Let_def split: option.splits)

end
