(* ===== verification/Timeline.thy ===== *)
theory Timeline
  imports Prelude
begin

text \<open>
  \<open>client/src/tor/bootstrapTiming.ts\<close>, the attribution of the time of a connect attempt to the phases
  of a Tor bootstrap, and \<open>client/src/tor/bootstrapCoalescer.ts\<close>, the throttle between the progress
  events and the screen.  Both are called with every instant as an argument.

  A timeline is the record \<open>timeline\<close> of the closure's variables.  The log line \<open>format()\<close> is left out:
  it renders the same data as text.
\<close>

section \<open>Phases of a bootstrap\<close>

datatype phase_id = PConnect | PConsensus | PCerts | PDescriptors | PFinalize

record phase =
  ph_id :: phase_id
  upTo :: int
  ph_label :: string

definition FINALIZE_PHASE :: phase where
  "FINALIZE_PHASE = \<lparr>ph_id = PFinalize, upTo = 100, ph_label = ''Finishing up''\<rparr>"

definition BOOTSTRAP_PHASES :: "phase list" where
  "BOOTSTRAP_PHASES =
    [\<lparr>ph_id = PConnect, upTo = 14, ph_label = ''Connecting to the Tor network''\<rparr>,
     \<lparr>ph_id = PConsensus, upTo = 20, ph_label = ''Fetching the consensus''\<rparr>,
     \<lparr>ph_id = PCerts, upTo = 30, ph_label = ''Fetching authority certificates''\<rparr>,
     \<lparr>ph_id = PDescriptors, upTo = 89, ph_label = ''Fetching relay descriptors''\<rparr>,
     FINALIZE_PHASE]"

definition phaseForPercent :: "int \<Rightarrow> phase" where
  "phaseForPercent percent =
     (case find (\<lambda>p. percent \<le> upTo p) BOOTSTRAP_PHASES of Some p \<Rightarrow> p | None \<Rightarrow> FINALIZE_PHASE)"

definition phaseAt :: "nat \<Rightarrow> phase" where
  "phaseAt index = (case at BOOTSTRAP_PHASES index of Some p \<Rightarrow> p | None \<Rightarrow> FINALIZE_PHASE)"

fun findIndex :: "('a \<Rightarrow> bool) \<Rightarrow> 'a list \<Rightarrow> int" where
  "findIndex P [] = - 1"
| "findIndex P (x # xs) = (if P x then 0 else let i = findIndex P xs in if i = - 1 then - 1 else i + 1)"

definition phaseIndexForPercent :: "int \<Rightarrow> int" where
  "phaseIndexForPercent percent =
     (let target = phaseForPercent percent in findIndex (\<lambda>p. ph_id p = ph_id target) BOOTSTRAP_PHASES)"

section \<open>A timeline\<close>

record timeline =
  tl_start :: int
  accum :: "(phase_id \<times> int) list"
  summaries :: "(phase_id \<times> string) list"
  marked :: "(string \<times> int) list"
  cursor :: nat
  lastTsMs :: int
  tl_done :: bool

record phase_timing =
  pt_id :: phase_id
  pt_label :: string
  pt_ms :: int
  pt_summary :: "string option"

definition createBootstrapTimeline :: "int \<Rightarrow> timeline" where
  "createBootstrapTimeline startMs = \<lparr>tl_start = startMs, accum = [], summaries = [], marked = [],
     cursor = 0, lastTsMs = startMs, tl_done = False\<rparr>"

definition charged :: "timeline \<Rightarrow> phase_id \<Rightarrow> int" where
  \<comment> \<open>\<open>accum.get(id) ?? 0\<close>\<close>
  "charged t i = (case map_of (accum t) i of Some ms \<Rightarrow> ms | None \<Rightarrow> 0)"

definition chargeElapsed :: "int \<Rightarrow> timeline \<Rightarrow> timeline" where
  "chargeElapsed nowMs t =
     (let delta = max 0 (nowMs - lastTsMs t); i = ph_id (phaseAt (cursor t))
      in t\<lparr>accum := AList.update i (charged t i + delta) (accum t), lastTsMs := nowMs\<rparr>)"

definition tl_sample :: "int \<Rightarrow> int \<Rightarrow> string option \<Rightarrow> timeline \<Rightarrow> timeline" where
  "tl_sample percent nowMs summary t =
     (if tl_done t then t
      else let t = chargeElapsed nowMs t;
               t = (if truthy summary
                    then t\<lparr>summaries := AList.update (ph_id (phaseAt (cursor t))) (the summary) (summaries t)\<rparr>
                    else t);
               next = phaseIndexForPercent percent
           in if next > int (cursor t) then t\<lparr>cursor := nat next\<rparr> else t)"

definition tl_mark :: "string \<Rightarrow> int \<Rightarrow> timeline \<Rightarrow> timeline" where
  "tl_mark name nowMs t =
     (if tl_done t \<or> map_of (marked t) name \<noteq> None then t
      else t\<lparr>marked := AList.update name (max 0 (nowMs - tl_start t)) (marked t)\<rparr>)"

definition tl_finish :: "int \<Rightarrow> timeline \<Rightarrow> timeline" where
  "tl_finish nowMs t = (if tl_done t then t else (chargeElapsed nowMs t)\<lparr>tl_done := True\<rparr>)"

definition breakdown :: "timeline \<Rightarrow> phase_timing list" where
  "breakdown t =
     concat (map (\<lambda>p. let ms = charged t (ph_id p) in
       if ms \<le> 0 then []
       else [\<lparr>pt_id = ph_id p, pt_label = ph_label p, pt_ms = ms,
              pt_summary = (case map_of (summaries t) (ph_id p) of
                 Some s \<Rightarrow> if s = '''' then None else Some s | None \<Rightarrow> None)\<rparr>]) BOOTSTRAP_PHASES)"

definition slowest :: "timeline \<Rightarrow> phase_timing option" where
  "slowest t = foldl (\<lambda>best timing. case best of
       None \<Rightarrow> Some timing
     | Some b \<Rightarrow> if pt_ms timing > pt_ms b then Some timing else Some b) None (breakdown t)"

definition totalMs :: "timeline \<Rightarrow> int" where
  "totalMs t = sum_list (map snd (accum t))"

datatype tl_op = Sample int int "string option" | Mark string int

primrec tl_apply :: "tl_op \<Rightarrow> timeline \<Rightarrow> timeline" where
  "tl_apply (Sample p n s) = tl_sample p n s"
| "tl_apply (Mark s n) = tl_mark s n"

section \<open>The coalescer\<close>

record 'a coalescer =
  co_timer :: bool \<comment> \<open>a trailing flush is scheduled\<close>
  co_pending :: "'a option"
  hasFlushed :: bool

definition createBootstrapCoalescer :: "'a coalescer" where
  "createBootstrapCoalescer = \<lparr>co_timer = False, co_pending = None, hasFlushed = False\<rparr>"

definition co_clear :: "'a coalescer \<Rightarrow> 'a coalescer" where
  "co_clear c = c\<lparr>co_timer := False, co_pending := None\<rparr>"

definition co_push :: "('a \<Rightarrow> int) \<Rightarrow> 'a \<Rightarrow> 'a coalescer \<Rightarrow> 'a coalescer \<times> 'a list" where
  \<comment> \<open>the new state and what is flushed at once\<close>
  "co_push percent p c =
     (if \<not> hasFlushed c \<or> percent p \<ge> 100 then ((co_clear c)\<lparr>hasFlushed := True\<rparr>, [p])
      else (c\<lparr>co_pending := Some p, co_timer := True\<rparr>, []))"

definition co_fire :: "'a coalescer \<Rightarrow> 'a coalescer \<times> 'a list" where
  \<comment> \<open>the timer's callback; it exists only while a flush is scheduled\<close>
  "co_fire c =
     (if co_timer c
      then (c\<lparr>co_timer := False, co_pending := None\<rparr>, case co_pending c of Some p \<Rightarrow> [p] | None \<Rightarrow> [])
      else (c, []))"

definition co_reset :: "'a coalescer \<Rightarrow> 'a coalescer" where
  "co_reset c = (co_clear c)\<lparr>hasFlushed := False\<rparr>"

definition co_dispose :: "'a coalescer \<Rightarrow> 'a coalescer" where
  "co_dispose = co_clear"

section \<open>Phases\<close>

lemma phaseIndex_cases:
  "phaseIndexForPercent p =
     (if p \<le> 14 then 0 else if p \<le> 20 then 1 else if p \<le> 30 then 2 else if p \<le> 89 then 3 else 4)"
  by (simp add: phaseIndexForPercent_def phaseForPercent_def BOOTSTRAP_PHASES_def FINALIZE_PHASE_def)

lemma phaseIndex_bounds: "0 \<le> phaseIndexForPercent p" "phaseIndexForPercent p \<le> 4"
  by (simp_all add: phaseIndex_cases)

lemma phaseIndex_mono: "p \<le> q \<Longrightarrow> phaseIndexForPercent p \<le> phaseIndexForPercent q"
  by (simp add: phaseIndex_cases)

lemma phaseAt_index: "phaseAt (nat (phaseIndexForPercent p)) = phaseForPercent p"
  by (simp add: phaseIndex_cases phaseAt_def phaseForPercent_def BOOTSTRAP_PHASES_def FINALIZE_PHASE_def
      at_def)

section \<open>The time is charged exactly once\<close>

definition tl_wf :: "timeline \<Rightarrow> bool" where
  "tl_wf t \<longleftrightarrow> distinct (map fst (accum t)) \<and> (\<forall>(i, ms) \<in> set (accum t). 0 \<le> ms) \<and> cursor t \<le> 4"

lemma tl_wf_create: "tl_wf (createBootstrapTimeline s)"
  by (simp add: tl_wf_def createBootstrapTimeline_def)

lemma charged_nonneg: "tl_wf t \<Longrightarrow> 0 \<le> charged t i"
  by (auto simp: charged_def tl_wf_def split: option.split dest: map_of_SomeD)

lemma tl_wf_charge: "tl_wf t \<Longrightarrow> tl_wf (chargeElapsed n t)"
  using charged_nonneg[of t]
  by (auto simp: tl_wf_def chargeElapsed_def Let_def js_map_simps dest!: set_update_bucket)

lemma tl_wf_sample: "tl_wf t \<Longrightarrow> tl_wf (tl_sample p n s t)"
  using tl_wf_charge[of t n] phaseIndex_bounds[of p]
  by (auto simp: tl_sample_def Let_def tl_wf_def)

lemma tl_wf_apply: "tl_wf t \<Longrightarrow> tl_wf (tl_apply x t)"
  by (cases x) (simp_all add: tl_wf_sample, simp add: tl_mark_def tl_wf_def)

lemma tl_wf_finish: "tl_wf t \<Longrightarrow> tl_wf (tl_finish n t)"
  using tl_wf_charge[of t n] by (simp add: tl_finish_def tl_wf_def)

lemma sum_list_update:
  fixes m :: "('k \<times> int) list"
  assumes "distinct (map fst m)"
  shows "sum_list (map snd (AList.update k v m)) =
           sum_list (map snd m) + v - (case map_of m k of Some w \<Rightarrow> w | None \<Rightarrow> 0)"
  using assms by (induction m) (auto split: option.split)

lemma total_charge:
  "tl_wf t \<Longrightarrow> totalMs (chargeElapsed n t) = totalMs t + max 0 (n - lastTsMs t)"
  by (simp add: totalMs_def chargeElapsed_def Let_def tl_wf_def sum_list_update charged_def)

lemma sample_fields:
  assumes "\<not> tl_done t" "tl_wf t"
  shows "lastTsMs (tl_sample p n s t) = n" "\<not> tl_done (tl_sample p n s t)"
    "totalMs (tl_sample p n s t) = totalMs t + max 0 (n - lastTsMs t)"
    "tl_start (tl_sample p n s t) = tl_start t"
  using assms total_charge[of t n]
  by (simp_all add: tl_sample_def Let_def chargeElapsed_def totalMs_def)

lemma mark_fields [simp]:
  "lastTsMs (tl_mark s n t) = lastTsMs t" "tl_done (tl_mark s n t) = tl_done t"
  "totalMs (tl_mark s n t) = totalMs t" "tl_start (tl_mark s n t) = tl_start t"
  by (simp_all add: tl_mark_def totalMs_def)

primrec sample_time :: "tl_op \<Rightarrow> int list" where
  "sample_time (Sample p n s) = [n]"
| "sample_time (Mark s n) = []"

lemma total_is_elapsed:
  assumes "tl_wf t" "\<not> tl_done t" "totalMs t = lastTsMs t - s"
    and "sorted (lastTsMs t # concat (map sample_time ops) @ [e])"
  shows "totalMs (tl_finish e (fold tl_apply ops t)) = e - s"
  using assms
proof (induction ops arbitrary: t)
  case Nil
  then show ?case
    using total_charge[of t e] by (simp add: tl_finish_def totalMs_def)
next
  case (Cons x ops)
  show ?case
  proof (cases x)
    case (Sample p n sm)
    have "tl_wf (tl_sample p n sm t)" by (rule tl_wf_sample[OF Cons.prems(1)])
    from Cons.IH[OF this] show ?thesis
      using Sample Cons.prems sample_fields[OF Cons.prems(2,1)] by simp
  next
    case (Mark nm n)
    have "tl_wf (tl_mark nm n t)" using tl_wf_apply[of t "Mark nm n"] Cons.prems(1) by simp
    from Cons.IH[OF this] show ?thesis using Mark Cons.prems by simp
  qed
qed

lemma done_frozen: "tl_done t \<Longrightarrow> tl_apply x t = t"
  by (cases x) (simp_all add: tl_sample_def tl_mark_def)

section \<open>The slowest phase\<close>

lemma slowest_fold:
  "(case foldl (\<lambda>best timing. case best of None \<Rightarrow> Some timing
       | Some b \<Rightarrow> if pt_ms timing > pt_ms b then Some timing else Some b) b0 xs of
     None \<Rightarrow> b0 = None \<and> xs = []
   | Some b \<Rightarrow> (b0 = Some b \<or> b \<in> set xs) \<and> (\<forall>x \<in> set xs. pt_ms x \<le> pt_ms b)
       \<and> (\<forall>c. b0 = Some c \<longrightarrow> pt_ms c \<le> pt_ms b))"
proof (induction xs arbitrary: b0)
  case Nil
  then show ?case by (cases b0) auto
next
  case (Cons x xs)
  show ?case
    using Cons.IH[of "case b0 of None \<Rightarrow> Some x
       | Some b \<Rightarrow> if pt_ms x > pt_ms b then Some x else Some b"]
    by (fastforce split: option.splits if_splits)
qed

lemma slowest_max:
  assumes "slowest t = Some b"
  shows "b \<in> set (breakdown t) \<and> (\<forall>x \<in> set (breakdown t). pt_ms x \<le> pt_ms b)"
  using slowest_fold[of None "breakdown t"] assms unfolding slowest_def by simp

lemma slowest_None: "slowest t = None \<longleftrightarrow> breakdown t = []"
  using slowest_fold[of None "breakdown t"] unfolding slowest_def by (auto split: option.splits)

section \<open>The coalescer never loses the last value\<close>

datatype 'a co_op = Push 'a | Fire

fun co_run :: "('a \<Rightarrow> int) \<Rightarrow> 'a co_op list \<Rightarrow> 'a coalescer \<times> 'a list \<Rightarrow> 'a coalescer \<times> 'a list" where
  "co_run f [] cs = cs"
| "co_run f (Push p # xs) (c, shown) = (let (c, out) = co_push f p c in co_run f xs (c, shown @ out))"
| "co_run f (Fire # xs) (c, shown) = (let (c, out) = co_fire c in co_run f xs (c, shown @ out))"

definition pushed :: "'a co_op list \<Rightarrow> 'a list" where
  "pushed xs = concat (map (\<lambda>x. case x of Push p \<Rightarrow> [p] | Fire \<Rightarrow> []) xs)"

definition up_to_date :: "'a list \<Rightarrow> 'a coalescer \<times> 'a list \<Rightarrow> bool" where
  \<comment> \<open>the last value is on the screen, or a timer will put it there\<close>
  "up_to_date ps = (\<lambda>(c, shown). co_timer c = (co_pending c \<noteq> None)
     \<and> (case co_pending c of Some p \<Rightarrow> ps \<noteq> [] \<and> last ps = p
        | None \<Rightarrow> ps \<noteq> [] \<longrightarrow> shown \<noteq> [] \<and> last shown = last ps))"

lemma co_run_up_to_date:
  "up_to_date ps (c, shown) \<Longrightarrow> up_to_date (ps @ pushed xs) (co_run f xs (c, shown))"
proof (induction xs arbitrary: ps c shown)
  case Nil
  then show ?case by (simp add: pushed_def)
next
  case (Cons x xs)
  show ?case
  proof (cases x)
    case (Push p)
    obtain c' out where r: "co_push f p c = (c', out)" by fastforce
    have "up_to_date (ps @ [p]) (c', shown @ out)"
      using r Cons.prems by (auto simp: co_push_def co_clear_def up_to_date_def split: if_splits)
    from Cons.IH[OF this] show ?thesis using Push r by (simp add: pushed_def)
  next
    case Fire
    obtain c' out where r: "co_fire c = (c', out)" by fastforce
    have "up_to_date ps (c', shown @ out)"
      using r Cons.prems by (auto simp: co_fire_def up_to_date_def split: if_splits option.splits)
    from Cons.IH[OF this] show ?thesis using Fire r by (simp add: pushed_def)
  qed
qed

lemma co_flush_shows_last:
  assumes "pushed xs \<noteq> []"
  shows "last (snd (co_run f (xs @ [Fire]) (createBootstrapCoalescer, []))) = last (pushed xs)"
proof -
  have "up_to_date ([] @ pushed (xs @ [Fire])) (co_run f (xs @ [Fire]) (createBootstrapCoalescer, []))"
    by (rule co_run_up_to_date) (simp add: up_to_date_def createBootstrapCoalescer_def)
  moreover have "co_run f (xs @ [Fire]) cs = (let (c, s) = co_run f xs cs; (c, out) = co_fire c in (c, s @ out))"
    for cs by (induction f xs cs rule: co_run.induct) (auto split: prod.splits)
  ultimately show ?thesis
    using assms
    by (auto simp: up_to_date_def pushed_def co_fire_def split: prod.splits option.splits if_splits)
qed

end
