(* ===== verification/TorManager.thy ===== *)
theory TorManager
  imports TorConfig Timeline
begin

text \<open>
  \<open>client/src/tor/TorManager.ts\<close>, the only source of a transport.

  The fields of the class are the record \<open>manager\<close>.  What lives outside of the object is in
  \<open>tor_sys\<close>: the listeners registered with the backend, the closures of the attempts, the calls of
  \<open>connect\<close>, \<open>disconnect\<close> and \<open>installReach\<close> that await a promise of the backend, and the log of what
  the manager did.  One \<^emph>\<open>input\<close> is one turn of the event loop: a call, a backend event, a timer, or the
  continuation of a suspended call.  Every interleaving of inputs is a run.

  An attempt is named by its generation, which is unique.  A promise can be resolved once;
  \<open>resolved\<close> lists the attempts whose promise is.  Observers do not call back into the manager in
  the same turn.
\<close>

section \<open>State\<close>

datatype conn_state = Disconnected | StartingTor | ConnectingBridge | Connected | Offline

record 'w tm_options =
  mo_transport :: "transport option"
  mo_bridgeLines :: "string list option"
  mo_socksPort :: "int option"
  mo_dataDir :: "string option"
  mo_timeout :: "int option"
  mo_onionAuth :: "onion_auth option"
  mo_resolveOnionAuth :: "('w \<Rightarrow> onion_auth option) option"
  mo_relayOnion :: "string option"
  mo_resolveRelayOnion :: "('w \<Rightarrow> string option) option"
  mo_onionAuthExtra :: "onion_auth list option"
  mo_resolveOnionAuthExtra :: "('w \<Rightarrow> onion_auth list option) option"
  mo_dormancy :: "bool option"

record overrides =
  ov_transport :: "transport option"
  ov_bridgeLines :: "string list option"
  ov_timeout :: "int option"

record manager =
  tm_state :: conn_state
  tm_socks :: "socks_proxy option"
  torVersion :: "string option"
  lastTransport :: "transport option"
  bootstrap :: "(int \<times> string option) option"
  lastTiming :: "timeline option"
  unsubscribeBackend :: "nat option" \<comment> \<open>the subscription it would remove\<close>
  timeoutHandle :: "(nat \<times> int) option" \<comment> \<open>the armed deadline: its attempt and budget\<close>
  generation :: nat
  releaseInFlight :: "nat option" \<comment> \<open>the attempt whose promise it resolves\<close>
  configuredOnionAuth :: "onion_auth option"
  configuredOnionAuthSet :: "onion_auth list"
  backendMaybeRunning :: bool

record attempt =
  at_last :: int \<comment> \<open>\<open>lastPercent\<close>\<close>
  at_timeout :: int \<comment> \<open>\<open>timeoutMs\<close>\<close>
  at_timeline :: timeline

datatype tm_output =
    CallStart nat start_config
  | CallStop
  | CallInstall "onion_auth option" "onion_auth list option" "string option"
  | StateChange conn_state
  | ReachVerdict bool "transport option" "string option"
  | Progress int "string option"
  | Timed timeline bool
  | Resolved nat conn_state

record tor_sys =
  mgr :: manager
  attempts :: "(nat \<times> attempt) list"
  listening :: "nat list" \<comment> \<open>attempts subscribed to the backend\<close>
  awaiting :: "(nat \<times> overrides \<times> timeline) list" \<comment> \<open>connects that await a stop\<close>
  disconnecting :: nat \<comment> \<open>disconnects that await a stop\<close>
  starting :: "nat list" \<comment> \<open>attempts whose \<open>start()\<close> has not settled\<close>
  installing :: "(onion_auth option \<times> onion_auth list option) list"
  resolved :: "nat list"
  outputs :: "tm_output list"

definition DEFAULT_BOOTSTRAP_TIMEOUT_MS :: int where
  "DEFAULT_BOOTSTRAP_TIMEOUT_MS = 60000"

definition FIRST_PROGRESS_GRACE_MS :: int where
  "FIRST_PROGRESS_GRACE_MS = 3000"

definition new_manager :: manager where
  "new_manager = \<lparr>tm_state = Disconnected, tm_socks = None, torVersion = None, lastTransport = None,
     bootstrap = None, lastTiming = None, unsubscribeBackend = None, timeoutHandle = None,
     generation = 0, releaseInFlight = None, configuredOnionAuth = None, configuredOnionAuthSet = [],
     backendMaybeRunning = True\<rparr>"

definition tor_init :: tor_sys where
  "tor_init = \<lparr>mgr = new_manager, attempts = [], listening = [], awaiting = [], disconnecting = 0,
     starting = [], installing = [], resolved = [], outputs = []\<rparr>"

definition upd :: "(manager \<Rightarrow> manager) \<Rightarrow> tor_sys \<Rightarrow> tor_sys" where
  "upd f s = s\<lparr>mgr := f (mgr s)\<rparr>"

definition emit :: "tm_output \<Rightarrow> tor_sys \<Rightarrow> tor_sys" where
  "emit x s = s\<lparr>outputs := outputs s @ [x]\<rparr>"

section \<open>Queries\<close>

definition sameOnionAuth :: "onion_auth option \<Rightarrow> onion_auth option \<Rightarrow> bool" where
  "sameOnionAuth a b = (case (a, b) of
       (Some x, Some y) \<Rightarrow> onionHost x = onionHost y \<and> privKeyBase32 x = privKeyBase32 y
     | _ \<Rightarrow> a = None \<and> b = None)"

fun eventToState :: "backend_event \<Rightarrow> conn_state" where
  "eventToState Stopped = Disconnected"
| "eventToState Starting = StartingTor"
| "eventToState (Bootstrapping _ _) = ConnectingBridge"
| "eventToState (BConnected _ _) = Connected"
| "eventToState Verified = Connected"
| "eventToState (TransportDead _) = Offline"
| "eventToState (BError _) = Offline"

definition isOnionAuthActive :: "manager \<Rightarrow> onion_auth option \<Rightarrow> bool" where
  "isOnionAuthActive m auth =
     (if tm_state m \<noteq> Connected then False
      else case auth of
        None \<Rightarrow> configuredOnionAuth m = None
      | Some _ \<Rightarrow> list_ex (\<lambda>x. sameOnionAuth (Some x) auth) (configuredOnionAuthSet m))"

definition getSocksProxy :: "manager \<Rightarrow> socks_proxy option" where
  "getSocksProxy m = (if tm_state m = Connected then tm_socks m else None)"

definition isLive :: "manager \<Rightarrow> bool" where
  "isLive m \<longleftrightarrow> tm_state m = Connected \<and> tm_socks m \<noteq> None"

datatype transport_error = OfflineNoCircuit

definition requireTorTransport :: "manager \<Rightarrow> transport_error + socks_proxy" where
  "requireTorTransport m = (case getSocksProxy m of None \<Rightarrow> Inl OfflineNoCircuit | Some p \<Rightarrow> Inr p)"

section \<open>Helpers of the class\<close>

definition setState :: "conn_state \<Rightarrow> tor_sys \<Rightarrow> tor_sys" where
  "setState next s = (if next = tm_state (mgr s) then s
     else emit (StateChange next) (upd (\<lambda>m. m\<lparr>tm_state := next\<rparr>) s))"

definition setBootstrap :: "int \<Rightarrow> string option \<Rightarrow> tor_sys \<Rightarrow> tor_sys" where
  "setBootstrap p summary s =
     emit (Progress p summary) (upd (\<lambda>m. m\<lparr>bootstrap := Some (p, summary)\<rparr>) s)"

definition clearTimeout :: "tor_sys \<Rightarrow> tor_sys" where
  "clearTimeout = upd (\<lambda>m. m\<lparr>timeoutHandle := None\<rparr>)"

definition setSocks :: "socks_proxy option \<Rightarrow> tor_sys \<Rightarrow> tor_sys" where
  "setSocks p = upd (\<lambda>m. m\<lparr>tm_socks := p\<rparr>)"

definition notifyReach :: "bool \<Rightarrow> string option \<Rightarrow> tor_sys \<Rightarrow> tor_sys" where
  "notifyReach ok message s = emit (ReachVerdict ok (lastTransport (mgr s)) message) s"

definition stopBackendIfRunning :: "tor_sys \<Rightarrow> tor_sys" where
  "stopBackendIfRunning s =
     (if \<not> backendMaybeRunning (mgr s) then s
      else emit CallStop (upd (\<lambda>m. m\<lparr>backendMaybeRunning := False\<rparr>) s))"

definition resolve :: "nat \<Rightarrow> conn_state \<Rightarrow> tor_sys \<Rightarrow> tor_sys" where
  \<comment> \<open>only the first resolution of a promise counts\<close>
  "resolve a final s =
     (if a \<in> set (resolved s) then s
      else emit (Resolved a final) (s\<lparr>resolved := resolved s @ [a]\<rparr>))"

definition supersede :: "conn_state \<Rightarrow> tor_sys \<Rightarrow> tor_sys" where
  "supersede release s =
     (let s = clearTimeout s;
          s = (case unsubscribeBackend (mgr s) of
                 Some a \<Rightarrow> s\<lparr>listening := filter (\<lambda>b. b \<noteq> a) (listening s)\<rparr> | None \<Rightarrow> s);
          rel = releaseInFlight (mgr s);
          s = upd (\<lambda>m. m\<lparr>unsubscribeBackend := None, bootstrap := None, releaseInFlight := None,
                generation := generation m + 1\<rparr>) s
      in (case rel of Some a \<Rightarrow> resolve a release s | None \<Rightarrow> s))"

definition isCurrent :: "nat \<Rightarrow> tor_sys \<Rightarrow> bool" where
  "isCurrent a s \<longleftrightarrow> generation (mgr s) = a"

definition attempt_of :: "nat \<Rightarrow> tor_sys \<Rightarrow> attempt" where
  "attempt_of a s = (case map_of (attempts s) a of Some x \<Rightarrow> x
     | None \<Rightarrow> \<lparr>at_last = 0, at_timeout = 0, at_timeline = createBootstrapTimeline 0\<rparr>)"

definition upd_attempt :: "nat \<Rightarrow> (attempt \<Rightarrow> attempt) \<Rightarrow> tor_sys \<Rightarrow> tor_sys" where
  "upd_attempt a f s = s\<lparr>attempts := AList.update a (f (attempt_of a s)) (attempts s)\<rparr>"

section \<open>An attempt\<close>

definition settle :: "nat \<Rightarrow> conn_state \<Rightarrow> int \<Rightarrow> tor_sys \<Rightarrow> tor_sys" where
  "settle a final now s =
     (if \<not> isCurrent a s then s
      else let s = clearTimeout s;
               s = upd (\<lambda>m. m\<lparr>releaseInFlight := None\<rparr>) s;
               s = upd_attempt a (\<lambda>x. x\<lparr>at_timeline := tl_finish now (at_timeline x)\<rparr>) s;
               tl = at_timeline (attempt_of a s);
               s = upd (\<lambda>m. m\<lparr>lastTiming := Some tl\<rparr>) s;
               s = emit (Timed tl (final = Connected)) s
           in resolve a final s)"

definition armTimeout :: "nat \<Rightarrow> tor_sys \<Rightarrow> tor_sys" where
  "armTimeout a s =
     (let s = clearTimeout s; x = attempt_of a s;
          budget = (if at_last x = 0 then at_timeout x + FIRST_PROGRESS_GRACE_MS else at_timeout x)
      in upd (\<lambda>m. m\<lparr>timeoutHandle := Some (a, budget)\<rparr>) s)"

definition onTimeout :: "nat \<Rightarrow> int \<Rightarrow> tor_sys \<Rightarrow> tor_sys" where
  "onTimeout a now s =
     (if \<not> isCurrent a s then s
      else settle a Offline now (stopBackendIfRunning (setState Offline (setSocks None s))))"

definition onBootstrapping :: "nat \<Rightarrow> int \<Rightarrow> string option \<Rightarrow> int \<Rightarrow> tor_sys \<Rightarrow> tor_sys" where
  "onBootstrapping a percent summary now s =
     (let s = upd_attempt a (\<lambda>x. x\<lparr>at_timeline :=
            tl_sample percent now summary (tl_mark ''first-progress'' now (at_timeline x))\<rparr>) s;
          s = setBootstrap percent summary s
      in if percent > at_last (attempt_of a s)
         then armTimeout a (upd_attempt a (\<lambda>x. x\<lparr>at_last := percent\<rparr>) s)
         else s)"

definition onConnected :: "socks_proxy \<Rightarrow> string option \<Rightarrow> tor_sys \<Rightarrow> tor_sys" where
  "onConnected p ver s =
     (let s = upd (\<lambda>m. m\<lparr>tm_socks := Some p, torVersion := ver\<rparr>) s
      in setBootstrap 100 (case bootstrap (mgr s) of Some (_, sm) \<Rightarrow> sm | None \<Rightarrow> None) s)"

fun onEvent :: "backend_event \<Rightarrow> int \<Rightarrow> nat \<Rightarrow> tor_sys \<Rightarrow> tor_sys" where
  \<comment> \<open>the listener of attempt \<open>a\<close>\<close>
  "onEvent Verified now a s = (if \<not> isCurrent a s then s else notifyReach True None s)"
| "onEvent (TransportDead msg) now a s =
     (if \<not> isCurrent a s then s
      else setState Offline (stopBackendIfRunning (setSocks None (notifyReach False (Some msg) s))))"
| "onEvent (Bootstrapping percent summary) now a s =
     (if \<not> isCurrent a s \<or> tm_state (mgr s) = Connected then s
      else setState ConnectingBridge (onBootstrapping a percent summary now s))"
| "onEvent (BConnected p ver) now a s =
     (if \<not> isCurrent a s then s
      else settle a Connected now (setState Connected (onConnected p ver s)))"
| "onEvent (BError msg) now a s =
     (if \<not> isCurrent a s then s
      else settle a Offline now (setSocks None (setState Offline s)))"
| "onEvent Stopped now a s = (if \<not> isCurrent a s then s else setState Disconnected s)"
| "onEvent Starting now a s = (if \<not> isCurrent a s then s else setState StartingTor s)"

section \<open>Operations\<close>

definition resolved_auth :: "'w tm_options \<Rightarrow> 'w \<Rightarrow> onion_auth option" where
  "resolved_auth mo w = (case mo_resolveOnionAuth mo of Some f \<Rightarrow> f w | None \<Rightarrow> mo_onionAuth mo)"

definition resolved_extra :: "'w tm_options \<Rightarrow> 'w \<Rightarrow> onion_auth list option" where
  "resolved_extra mo w = (case mo_resolveOnionAuthExtra mo of Some f \<Rightarrow> f w | None \<Rightarrow> mo_onionAuthExtra mo)"

definition resolved_relay :: "'w tm_options \<Rightarrow> 'w \<Rightarrow> reach \<Rightarrow> string option" where
  "resolved_relay mo w r =
     orElse (relayOnionHostOf (case mo_resolveRelayOnion mo of Some f \<Rightarrow> f w | None \<Rightarrow> None))
       (orElse (relayOnionHostOf (mo_relayOnion mo))
         (orElse (activeRelayOnion r) (map_option onionHost (resolved_auth mo w))))"

definition merged_opts :: "'w tm_options \<Rightarrow> overrides \<Rightarrow> 'w \<Rightarrow> reach \<Rightarrow> start_opts" where
  "merged_opts mo ov w r =
     \<lparr>op_transport = orElse (ov_transport ov) (mo_transport mo),
      op_bridgeLines = (case ov_bridgeLines ov of
          Some ls \<Rightarrow> if ls \<noteq> [] then Some ls else mo_bridgeLines mo | None \<Rightarrow> mo_bridgeLines mo),
      op_socksPort = mo_socksPort mo, op_dataDir = mo_dataDir mo,
      op_onionAuth = resolved_auth mo w, op_relayOnion = resolved_relay mo w r,
      op_onionAuthExtra = resolved_extra mo w, op_dormancy = mo_dormancy mo\<rparr>"

definition attempt_timeout :: "'w tm_options \<Rightarrow> overrides \<Rightarrow> int" where
  "attempt_timeout mo ov = or_default (orElse (ov_timeout ov) (mo_timeout mo)) DEFAULT_BOOTSTRAP_TIMEOUT_MS"

definition startAttempt ::
    "'w tm_options \<Rightarrow> 'w \<Rightarrow> reach \<Rightarrow> int \<Rightarrow> nat \<times> overrides \<times> timeline \<Rightarrow> tor_sys \<Rightarrow> tor_sys" where
  \<comment> \<open>\<open>connect\<close> from the merge of the options on; the generation is not compared again\<close>
  "startAttempt mo w r now = (\<lambda>(gen, ov, tl) s.
     let merged = merged_opts mo ov w r;
         config = buildStartConfig merged;
         s = upd (\<lambda>m. m\<lparr>lastTransport := op_transport merged, configuredOnionAuth := op_onionAuth merged,
               configuredOnionAuthSet := (case op_onionAuth merged of Some x \<Rightarrow> [x] | None \<Rightarrow> [])
                  @ or_default (op_onionAuthExtra merged) [],
               releaseInFlight := Some gen, unsubscribeBackend := Some gen\<rparr>) s;
         s = s\<lparr>attempts := AList.update gen
               \<lparr>at_last = 0, at_timeout = attempt_timeout mo ov, at_timeline = tl\<rparr> (attempts s),
               listening := listening s @ [gen]\<rparr>;
         s = armTimeout gen s;
         s = setState StartingTor s;
         s = upd (\<lambda>m. m\<lparr>backendMaybeRunning := True\<rparr>) s;
         s = upd_attempt gen (\<lambda>x. x\<lparr>at_timeline := tl_mark ''native-start'' now (at_timeline x)\<rparr>) s;
         s = s\<lparr>starting := starting s @ [gen]\<rparr>
     in emit (CallStart gen config) s)"

definition tm_connect :: "'w tm_options \<Rightarrow> overrides \<Rightarrow> 'w \<Rightarrow> reach \<Rightarrow> int \<Rightarrow> tor_sys \<Rightarrow> tor_sys" where
  "tm_connect mo ov w r now s =
     (if tm_state (mgr s) = Connected then s
      else let hadInFlightAttempt = releaseInFlight (mgr s) \<noteq> None;
               s = supersede Disconnected s;
               call = (generation (mgr s), ov, createBootstrapTimeline now)
           in if hadInFlightAttempt
              then (stopBackendIfRunning s)\<lparr>awaiting := awaiting s @ [call]\<rparr>
              else startAttempt mo w r now call s)"

definition tm_resume :: "'w tm_options \<Rightarrow> nat \<Rightarrow> 'w \<Rightarrow> reach \<Rightarrow> int \<Rightarrow> tor_sys \<Rightarrow> tor_sys" where
  \<comment> \<open>the stop that the \<open>i\<close>-th suspended connect awaits has settled\<close>
  "tm_resume mo i w r now s = (case at (awaiting s) i of
       None \<Rightarrow> s
     | Some call \<Rightarrow>
         startAttempt mo w r now call (s\<lparr>awaiting := take i (awaiting s) @ drop (i + 1) (awaiting s)\<rparr>))"

definition tm_disconnect :: "tor_sys \<Rightarrow> tor_sys" where
  "tm_disconnect s =
     (let s = supersede Disconnected s;
          s = upd (\<lambda>m. m\<lparr>tm_socks := None, torVersion := None\<rparr>) s
      in (stopBackendIfRunning s)\<lparr>disconnecting := disconnecting s + 1\<rparr>)"

definition tm_disconnected :: "tor_sys \<Rightarrow> tor_sys" where
  "tm_disconnected s =
     (if disconnecting s = 0 then s
      else setState Disconnected (s\<lparr>disconnecting := disconnecting s - 1\<rparr>))"

definition installReach :: "'w tm_options \<Rightarrow> bool \<Rightarrow> 'w \<Rightarrow> reach \<Rightarrow> tor_sys \<Rightarrow> tor_sys" where
  \<comment> \<open>\<open>supported\<close>: the backend has the optional method\<close>
  "installReach mo supported w r s =
     (if tm_state (mgr s) \<noteq> Connected \<or> \<not> supported then s
      else emit (CallInstall (resolved_auth mo w) (resolved_extra mo w) (resolved_relay mo w r))
             (s\<lparr>installing := installing s @ [(resolved_auth mo w, resolved_extra mo w)]\<rparr>))"

definition installed :: "nat \<Rightarrow> bool \<Rightarrow> tor_sys \<Rightarrow> tor_sys" where
  "installed i ok s = (case at (installing s) i of
       None \<Rightarrow> s
     | Some (auth, extra) \<Rightarrow>
         let s = s\<lparr>installing := take i (installing s) @ drop (i + 1) (installing s)\<rparr>
         in if \<not> ok then s
            else upd (\<lambda>m. m\<lparr>configuredOnionAuth := auth,
                   configuredOnionAuthSet := (case auth of Some x \<Rightarrow> [x] | None \<Rightarrow> []) @ or_default extra []\<rparr>) s)"

section \<open>Runs\<close>

datatype 'w tm_input =
    Connect overrides 'w reach int
  | Resume nat 'w reach int
  | Disconnect
  | DisconnectDone
  | BackendEvent backend_event int
  | Deadline int
  | StartSettled nat bool int
  | InstallReach bool 'w reach
  | InstallSettled nat bool

definition startSettled :: "nat \<Rightarrow> bool \<Rightarrow> int \<Rightarrow> tor_sys \<Rightarrow> tor_sys" where
  "startSettled a ok now s =
     (if a \<notin> set (starting s) then s
      else let s = s\<lparr>starting := filter (\<lambda>b. b \<noteq> a) (starting s)\<rparr>;
               s = upd_attempt a (\<lambda>x. x\<lparr>at_timeline := tl_mark ''native-ready'' now (at_timeline x)\<rparr>) s
           in if ok \<or> \<not> isCurrent a s then s
              else settle a Offline now (setState Offline (setSocks None s)))"

definition fireDeadline :: "int \<Rightarrow> tor_sys \<Rightarrow> tor_sys" where
  "fireDeadline now s = (case timeoutHandle (mgr s) of
       None \<Rightarrow> s | Some (a, _) \<Rightarrow> onTimeout a now (clearTimeout s))"

primrec tm_step :: "'w tm_options \<Rightarrow> 'w tm_input \<Rightarrow> tor_sys \<Rightarrow> tor_sys" where
  "tm_step mo (Connect ov w r now) = tm_connect mo ov w r now"
| "tm_step mo (Resume i w r now) = tm_resume mo i w r now"
| "tm_step mo Disconnect = tm_disconnect"
| "tm_step mo DisconnectDone = tm_disconnected"
| "tm_step mo (BackendEvent ev now) = (\<lambda>s. fold (onEvent ev now) (listening s) s)"
| "tm_step mo (Deadline now) = fireDeadline now"
| "tm_step mo (StartSettled a ok now) = startSettled a ok now"
| "tm_step mo (InstallReach b w r) = installReach mo b w r"
| "tm_step mo (InstallSettled i ok) = installed i ok"

definition tm_run :: "'w tm_options \<Rightarrow> 'w tm_input list \<Rightarrow> tor_sys \<Rightarrow> tor_sys" where
  "tm_run mo = fold (tm_step mo)"

section \<open>What the operations touch\<close>

lemmas tm_defs = upd_def emit_def setState_def setBootstrap_def clearTimeout_def setSocks_def
  notifyReach_def stopBackendIfRunning_def resolve_def upd_attempt_def settle_def armTimeout_def
  onBootstrapping_def onConnected_def Let_def

lemma frame_setState [simp]:
  "listening (setState c s) = listening s" "awaiting (setState c s) = awaiting s"
  "generation (mgr (setState c s)) = generation (mgr s)"
  by (simp_all add: tm_defs)

lemma frame_setSocks [simp]:
  "listening (setSocks p s) = listening s" "awaiting (setSocks p s) = awaiting s"
  "generation (mgr (setSocks p s)) = generation (mgr s)"
  by (simp_all add: tm_defs)

lemma frame_stop [simp]:
  "listening (stopBackendIfRunning s) = listening s" "awaiting (stopBackendIfRunning s) = awaiting s"
  "generation (mgr (stopBackendIfRunning s)) = generation (mgr s)"
  by (simp_all add: tm_defs)

lemma frame_settle [simp]:
  "listening (settle a c now s) = listening s" "awaiting (settle a c now s) = awaiting s"
  "generation (mgr (settle a c now s)) = generation (mgr s)"
  by (simp_all add: tm_defs)

lemma frame_arm [simp]:
  "listening (armTimeout a s) = listening s" "awaiting (armTimeout a s) = awaiting s"
  "generation (mgr (armTimeout a s)) = generation (mgr s)"
  by (simp_all add: tm_defs)

lemma frame_notify [simp]:
  "listening (notifyReach ok m s) = listening s" "awaiting (notifyReach ok m s) = awaiting s"
  "generation (mgr (notifyReach ok m s)) = generation (mgr s)"
  by (simp_all add: tm_defs)

lemma frame_boots [simp]:
  "listening (onBootstrapping a pc sm now s) = listening s" "awaiting (onBootstrapping a pc sm now s) = awaiting s"
  "generation (mgr (onBootstrapping a pc sm now s)) = generation (mgr s)"
  by (simp_all add: tm_defs)

lemma frame_conn [simp]:
  "listening (onConnected p v s) = listening s" "awaiting (onConnected p v s) = awaiting s"
  "generation (mgr (onConnected p v s)) = generation (mgr s)"
  by (simp_all add: tm_defs)

lemma frame_clear [simp]:
  "listening (clearTimeout s) = listening s" "awaiting (clearTimeout s) = awaiting s"
  "generation (mgr (clearTimeout s)) = generation (mgr s)"
  by (simp_all add: tm_defs)

lemma frame_timeout [simp]:
  "listening (onTimeout a now s) = listening s" "awaiting (onTimeout a now s) = awaiting s"
  "generation (mgr (onTimeout a now s)) = generation (mgr s)"
  by (simp_all add: onTimeout_def)

lemma frame_event [simp]:
  "listening (onEvent ev now a s) = listening s" "awaiting (onEvent ev now a s) = awaiting s"
  "generation (mgr (onEvent ev now a s)) = generation (mgr s)"
  by (cases ev; simp)+

lemma event_fold_frame [simp]:
  "listening (fold (onEvent ev now) ls s) = listening s"
  "awaiting (fold (onEvent ev now) ls s) = awaiting s"
  "generation (mgr (fold (onEvent ev now) ls s)) = generation (mgr s)"
  by (induction ls arbitrary: s) simp_all

lemma onEvent_stale: "generation (mgr s) \<noteq> a \<Longrightarrow> onEvent ev now a s = s"
  by (cases ev) (simp_all add: isCurrent_def)

lemma event_fold_stale: "generation (mgr s) \<notin> set ls \<Longrightarrow> fold (onEvent ev now) ls s = s"
  by (induction ls) (auto simp: onEvent_stale)

lemma event_fold_current:
  assumes "distinct ls" "generation (mgr s) \<in> set ls"
  shows "fold (onEvent ev now) ls s = onEvent ev now (generation (mgr s)) s"
  using assms
proof (induction ls arbitrary: s)
  case (Cons a ls)
  show ?case
  proof (cases "a = generation (mgr s)")
    case True
    with Cons.prems have "generation (mgr (onEvent ev now a s)) \<notin> set ls" by simp
    with True show ?thesis by (simp add: event_fold_stale)
  next
    case False
    with Cons show ?thesis by (simp add: onEvent_stale)
  qed
qed simp

lemma frame_supersede [simp]:
  "listening (supersede r s) = (case unsubscribeBackend (mgr s) of
     Some a \<Rightarrow> filter (\<lambda>b. b \<noteq> a) (listening s) | None \<Rightarrow> listening s)"
  "awaiting (supersede r s) = awaiting s"
  "generation (mgr (supersede r s)) = generation (mgr s) + 1"
  by (simp_all add: supersede_def tm_defs split: option.split)

lemma frame_start [simp]:
  "listening (startAttempt mo w r now call s) = listening s @ [fst call]"
  "awaiting (startAttempt mo w r now call s) = awaiting s"
  "generation (mgr (startAttempt mo w r now call s)) = generation (mgr s)"
  by (cases call; simp add: startAttempt_def tm_defs)+

lemma frame_other [simp]:
  "listening (tm_disconnected s) = listening s" "awaiting (tm_disconnected s) = awaiting s"
  "generation (mgr (tm_disconnected s)) = generation (mgr s)"
  "listening (fireDeadline now s) = listening s" "awaiting (fireDeadline now s) = awaiting s"
  "generation (mgr (fireDeadline now s)) = generation (mgr s)"
  "listening (startSettled a ok now s) = listening s" "awaiting (startSettled a ok now s) = awaiting s"
  "generation (mgr (startSettled a ok now s)) = generation (mgr s)"
  "listening (installReach mo ok w r s) = listening s" "awaiting (installReach mo ok w r s) = awaiting s"
  "generation (mgr (installReach mo ok w r s)) = generation (mgr s)"
  "listening (installed i ok s) = listening s" "awaiting (installed i ok s) = awaiting s"
  "generation (mgr (installed i ok s)) = generation (mgr s)"
  by (simp_all add: tm_disconnected_def fireDeadline_def startSettled_def installReach_def installed_def
      upd_attempt_def upd_def emit_def Let_def split: option.split prod.split)

section \<open>Attempts have one name and one listener\<close>

definition names_inv :: "tor_sys \<Rightarrow> bool" where
  "names_inv s \<longleftrightarrow> distinct (listening s @ map fst (awaiting s))
     \<and> (\<forall>a \<in> set (listening s @ map fst (awaiting s)). a \<le> generation (mgr s))"

lemma names_supersede:
  assumes "names_inv s"
  shows "names_inv (supersede r s)"
    "generation (mgr (supersede r s)) \<notin> set (listening (supersede r s) @ map fst (awaiting (supersede r s)))"
  using assms by (simp_all add: names_inv_def split: option.split) force+

lemma names_start:
  assumes "names_inv s" "fst call \<notin> set (listening s @ map fst (awaiting s))" "fst call \<le> generation (mgr s)"
  shows "names_inv (startAttempt mo w r now call s)"
  using assms by (auto simp: names_inv_def)

lemma names_frame:
  "names_inv s \<Longrightarrow> listening s' = listening s \<Longrightarrow> awaiting s' = awaiting s \<Longrightarrow>
    generation (mgr s') = generation (mgr s) \<Longrightarrow> names_inv s'"
  by (simp add: names_inv_def)

lemma awaiting_split:
  "at xs i = Some x \<Longrightarrow> xs = take i xs @ x # drop (i + 1) xs"
  by (auto simp: at_def id_take_nth_drop split: if_splits)

lemma names_connect: "names_inv s \<Longrightarrow> names_inv (tm_connect mo ov w r now s)"
  using names_supersede[of s Disconnected]
  by (auto simp: tm_connect_def Let_def names_inv_def intro!: names_start)

lemma names_resume:
  assumes "names_inv s"
  shows "names_inv (tm_resume mo i w r now s)"
proof (cases "at (awaiting s) i")
  case (Some call)
  let ?rest = "take i (awaiting s) @ drop (i + 1) (awaiting s)"
  have "names_inv (s\<lparr>awaiting := take i (awaiting s) @ call # drop (i + 1) (awaiting s)\<rparr>)"
    using assms awaiting_split[OF Some] by simp
  then have "names_inv (s\<lparr>awaiting := ?rest\<rparr>)" "fst call \<notin> set (listening s @ map fst ?rest)"
    "fst call \<le> generation (mgr s)"
    unfolding names_inv_def by auto
  then show ?thesis using Some by (simp add: tm_resume_def names_start)
qed (simp add: tm_resume_def assms)

lemma names_disconnect: "names_inv s \<Longrightarrow> names_inv (tm_disconnect s)"
  using names_supersede(1)[of s Disconnected] by (simp add: tm_disconnect_def names_inv_def upd_def Let_def)

lemma names_step: "names_inv s \<Longrightarrow> names_inv (tm_step mo x s)"
  by (cases x) (auto simp: names_connect names_resume names_disconnect elim: names_frame)

lemma names_run: "names_inv s \<Longrightarrow> names_inv (tm_run mo xs s)"
  unfolding tm_run_def by (induction xs arbitrary: s) (simp_all add: names_step)

lemma names_init: "names_inv tor_init"
  by (simp add: names_inv_def tor_init_def)

lemma event_step:
  assumes "names_inv s"
  shows "tm_step mo (BackendEvent ev now) s =
    (if generation (mgr s) \<in> set (listening s) then onEvent ev now (generation (mgr s)) s else s)"
  using assms by (simp add: names_inv_def event_fold_current event_fold_stale)

section \<open>Where the proxy comes from\<close>

fun kills :: "'w tm_input \<Rightarrow> bool" where
  "kills Disconnect = True"
| "kills (BackendEvent Stopped _) = True"
| "kills (BackendEvent Starting _) = True"
| "kills (BackendEvent (TransportDead _) _) = True"
| "kills (BackendEvent (BError _) _) = True"
| "kills _ = False"

definition live_inv :: "tor_sys \<Rightarrow> bool" where
  "live_inv s \<longleftrightarrow> (getSocksProxy (mgr s) \<noteq> None \<longrightarrow> generation (mgr s) \<in> set (listening s))"

lemma proxy_simps [simp]:
  "getSocksProxy (mgr (setState c s)) = (if c = Connected then tm_socks (mgr s) else None)"
  "getSocksProxy (mgr (setSocks p s)) = (if tm_state (mgr s) = Connected then p else None)"
  "getSocksProxy (mgr (stopBackendIfRunning s)) = getSocksProxy (mgr s)"
  "getSocksProxy (mgr (settle a c now s)) = getSocksProxy (mgr s)"
  "getSocksProxy (mgr (notifyReach ok m s)) = getSocksProxy (mgr s)"
  "getSocksProxy (mgr (clearTimeout s)) = getSocksProxy (mgr s)"
  "getSocksProxy (mgr (upd_attempt a f s)) = getSocksProxy (mgr s)"
  "getSocksProxy (mgr (s\<lparr>starting := l\<rparr>)) = getSocksProxy (mgr s)"
  "tm_state (mgr (setState c s)) = c"
  "tm_socks (mgr (onConnected q v s)) = Some q"
  by (simp_all add: getSocksProxy_def tm_defs)

lemma proxy_supersede [simp]:
  "tm_state (mgr (supersede r s)) = tm_state (mgr s)" "tm_socks (mgr (supersede r s)) = tm_socks (mgr s)"
  by (simp_all add: supersede_def tm_defs split: option.split)

lemma proxy_start [simp]: "getSocksProxy (mgr (startAttempt mo w r now call s)) = None"
  by (cases call) (simp add: startAttempt_def getSocksProxy_def tm_defs)

lemma proxy_connect:
  "getSocksProxy (mgr (tm_connect mo ov w r now s)) = Some p \<Longrightarrow>
     tm_connect mo ov w r now s = s"
  by (auto simp: tm_connect_def Let_def getSocksProxy_def stopBackendIfRunning_def upd_def emit_def
      split: if_splits) (auto simp: startAttempt_def tm_defs split: prod.splits)

lemma proxy_event:
  assumes "getSocksProxy (mgr (onEvent ev now a s)) = Some p"
  shows "(\<exists>v. ev = BConnected p v) \<or> (getSocksProxy (mgr s) = Some p
     \<and> (kills (BackendEvent ev now :: 'w tm_input) \<longrightarrow> generation (mgr s) \<noteq> a))"
  using assms by (cases ev) (auto simp: isCurrent_def split: if_splits)

lemma proxy_step:
  assumes inv: "names_inv s" "live_inv s"
    and p: "getSocksProxy (mgr (tm_step mo x s)) = Some p"
  shows "generation (mgr (tm_step mo x s)) \<in> set (listening (tm_step mo x s))
    \<and> ((\<exists>v now. x = BackendEvent (BConnected p v) now) \<or> (getSocksProxy (mgr s) = Some p \<and> \<not> kills x))"
proof (cases x)
  case (Connect ov w r now)
  then show ?thesis using p inv proxy_connect[of mo ov w r now s p] by (auto simp: live_inv_def)
next
  case (Resume i w r now)
  then show ?thesis using p inv by (auto simp: tm_resume_def live_inv_def split: option.splits)
next
  case Disconnect
  then show ?thesis using p
    by (simp add: tm_disconnect_def Let_def getSocksProxy_def stopBackendIfRunning_def upd_def emit_def
        split: if_splits)
next
  case DisconnectDone
  then show ?thesis using p inv by (auto simp: tm_disconnected_def live_inv_def split: if_splits)
next
  case (BackendEvent ev now)
  show ?thesis
  proof (cases "generation (mgr s) \<in> set (listening s)")
    case True
    with p have "getSocksProxy (mgr (onEvent ev now (generation (mgr s)) s)) = Some p"
      unfolding BackendEvent event_step[OF inv(1)] by simp
    with proxy_event[OF this] True show ?thesis
      unfolding BackendEvent event_step[OF inv(1)] by auto
  next
    case False
    with p inv show ?thesis unfolding BackendEvent event_step[OF inv(1)] by (simp add: live_inv_def)
  qed
next
  case (Deadline now)
  then show ?thesis using p inv
    by (auto simp: fireDeadline_def onTimeout_def live_inv_def split: option.splits if_splits)
next
  case (StartSettled a ok now)
  then have "getSocksProxy (mgr s) = Some p"
    using p by (auto simp: startSettled_def Let_def split: if_splits)
  with StartSettled inv show ?thesis by (simp add: live_inv_def)
next
  case (InstallReach b w r)
  then have "getSocksProxy (mgr s) = Some p"
    using p by (auto simp: installReach_def emit_def split: if_splits)
  with InstallReach inv show ?thesis by (simp add: live_inv_def)
next
  case (InstallSettled i ok)
  then have "getSocksProxy (mgr s) = Some p"
    using p by (auto simp: installed_def upd_def getSocksProxy_def Let_def
        split: option.splits if_splits prod.splits)
  with InstallSettled inv show ?thesis by (simp add: live_inv_def)
qed

lemma proxy_run:
  assumes "getSocksProxy (mgr (tm_run mo xs tor_init)) = Some p"
  shows "generation (mgr (tm_run mo xs tor_init)) \<in> set (listening (tm_run mo xs tor_init))
    \<and> (\<exists>ys v now zs. xs = ys @ BackendEvent (BConnected p v) now # zs \<and> \<not> list_ex kills zs)"
  using assms
proof (induction xs arbitrary: p rule: rev_induct)
  case Nil
  then show ?case by (simp add: tm_run_def tor_init_def new_manager_def getSocksProxy_def)
next
  case (snoc x xs)
  let ?s = "tm_run mo xs tor_init"
  have run: "tm_run mo (xs @ [x]) tor_init = tm_step mo x ?s" by (simp add: tm_run_def)
  have "live_inv ?s" using snoc.IH by (auto simp: live_inv_def)
  from proxy_step[OF names_run[OF names_init] this snoc.prems[unfolded run]]
  have gen: "generation (mgr (tm_step mo x ?s)) \<in> set (listening (tm_step mo x ?s))"
    and "(\<exists>v now. x = BackendEvent (BConnected p v) now) \<or> (getSocksProxy (mgr ?s) = Some p \<and> \<not> kills x)"
    by auto
  then consider (now) v now where "x = BackendEvent (BConnected p v) now"
    | (before) "getSocksProxy (mgr ?s) = Some p" "\<not> kills x" by auto
  then show ?case
  proof cases
    case now
    with gen run show ?thesis
      by (intro conjI exI[of _ xs] exI[of _ v] exI[of _ now] exI[of _ "[]"]) simp_all
  next
    case before
    from snoc.IH[OF before(1)] obtain ys v now zs
      where "xs = ys @ BackendEvent (BConnected p v) now # zs" "\<not> list_ex kills zs" by auto
    with before gen run show ?thesis
      by (intro conjI exI[of _ ys] exI[of _ v] exI[of _ now] exI[of _ "zs @ [x]"]) simp_all
  qed
qed

section \<open>Every connect settles\<close>

fun is_call :: "'w tm_input \<Rightarrow> bool" where
  "is_call (Connect _ _ _ _) = True"
| "is_call Disconnect = True"
| "is_call _ = False"

primrec orderly :: "'w tm_options \<Rightarrow> 'w tm_input list \<Rightarrow> tor_sys \<Rightarrow> bool" where
  \<comment> \<open>no call arrives while an earlier connect awaits the stop of its predecessor\<close>
  "orderly mo [] s = True"
| "orderly mo (x # xs) s \<longleftrightarrow> (awaiting s = [] \<or> \<not> is_call x) \<and> orderly mo xs (tm_step mo x s)"

definition unsettled :: "tor_sys \<Rightarrow> nat list" where
  \<comment> \<open>attempts whose \<open>connect()\<close> promise is pending\<close>
  "unsettled s = map fst (awaiting s) @ filter (\<lambda>a. a \<notin> set (resolved s)) (map fst (attempts s))"

definition keys_of :: "tor_sys \<Rightarrow> nat set" where
  "keys_of s = fst ` set (attempts s)"

definition pinv ::
    "nat option \<Rightarrow> (nat \<times> int) option \<Rightarrow> nat option \<Rightarrow> nat \<Rightarrow> nat set \<Rightarrow> nat set \<Rightarrow> nat set \<Rightarrow> nat set \<Rightarrow> nat list \<Rightarrow> bool" where
  \<comment> \<open>release, deadline, unsubscribe, generation; attempts listening, starting, resolved, created; awaiting\<close>
  "pinv rel t u g L S R K W \<longleftrightarrow>
     (rel = None \<or> rel = Some g \<and> g \<in> K) \<and> (\<forall>a \<in> K. a \<in> R \<or> rel = Some a)
     \<and> (t = None \<or> fst (the t) = g \<and> g \<in> K) \<and> (rel = None \<or> t \<noteq> None)
     \<and> (L = {} \<or> L = {g} \<and> u = Some g) \<and> L \<subseteq> K \<and> S \<subseteq> K \<and> R \<subseteq> K \<and> (\<forall>a \<in> K. a \<le> g)
     \<and> (W = [] \<or> W = [g] \<and> g \<notin> K)"

type_synonym promise_view =
  "nat option \<times> (nat \<times> int) option \<times> nat option \<times> nat \<times> nat set \<times> nat set \<times> nat set \<times> nat set \<times> nat list"

definition pview :: "tor_sys \<Rightarrow> promise_view" where
  "pview s = (releaseInFlight (mgr s), timeoutHandle (mgr s), unsubscribeBackend (mgr s),
     generation (mgr s), set (listening s), set (starting s), set (resolved s), keys_of s,
     map fst (awaiting s))"

definition promise_inv :: "tor_sys \<Rightarrow> bool" where
  "promise_inv s \<longleftrightarrow> (case pview s of (rel, t, u, g, L, S, R, K, W) \<Rightarrow> pinv rel t u g L S R K W)"

lemma promise_init: "promise_inv tor_init"
  by (simp add: promise_inv_def pview_def pinv_def tor_init_def new_manager_def keys_of_def)

lemma pinv_settle: "pinv rel t u g L S R K W \<Longrightarrow> g \<in> K \<Longrightarrow> pinv None None u g L S (insert g R) K W"
  unfolding pinv_def by auto

lemma pinv_timeout: "pinv rel t u g L S R K W \<Longrightarrow> g \<in> K \<Longrightarrow> pinv rel (Some (g, b)) u g L S R K W"
  unfolding pinv_def by auto

lemma pinv_starting: "pinv rel t u g L S R K W \<Longrightarrow> S' \<subseteq> S \<Longrightarrow> pinv rel t u g L S' R K W"
  unfolding pinv_def by auto

lemma pinv_supersede:
  "pinv rel t u g L S R K [] \<Longrightarrow> pinv None None None (g + 1) {} S (R \<union> set_option rel) K []"
  unfolding pinv_def by auto

lemma pinv_await:
  "pinv None None None g {} S R K [] \<Longrightarrow> g \<notin> K \<Longrightarrow> pinv None None None g {} S R K [g]"
  unfolding pinv_def by auto

lemma pinv_start:
  "pinv None None None g {} S R K [] \<Longrightarrow> g \<notin> K \<Longrightarrow>
     pinv (Some g) (Some (g, b)) (Some g) g {g} (insert g S) R (insert g K) []"
  unfolding pinv_def by auto

lemma keys_update_img: "fst ` set (AList.update k v m) = insert k (fst ` set m)"
  using keys_update[of k v m] by simp

lemma pview_helpers [simp]:
  "pview (setState c s) = pview s" "pview (setSocks p s) = pview s"
  "pview (stopBackendIfRunning s) = pview s" "pview (notifyReach ok m s) = pview s"
  "pview (emit x s) = pview s" "pview (setBootstrap pc sm s) = pview s"
  "pview (onConnected q v s) = pview s" "pview (s\<lparr>disconnecting := n\<rparr>) = pview s"
  "pview (s\<lparr>installing := l\<rparr>) = pview s"
  by (simp_all add: pview_def keys_of_def tm_defs)

lemma pview_attempt [simp]: "a \<in> keys_of s \<Longrightarrow> pview (upd_attempt a f s) = pview s"
  by (simp add: pview_def keys_of_def tm_defs keys_update_img insert_absorb)

lemma keys_helpers [simp]:
  "keys_of (setState c s) = keys_of s" "keys_of (setSocks p s) = keys_of s"
  "keys_of (stopBackendIfRunning s) = keys_of s" "keys_of (notifyReach ok m s) = keys_of s"
  "keys_of (onConnected q v s) = keys_of s" "keys_of (setBootstrap pc sm s) = keys_of s"
  "keys_of (clearTimeout s) = keys_of s"
  "keys_of (upd_attempt a f s) = insert a (keys_of s)"
  by (simp_all add: keys_of_def tm_defs keys_update_img)

lemma current_helpers [simp]:
  "isCurrent a (setState c s) = isCurrent a s" "isCurrent a (setSocks p s) = isCurrent a s"
  "isCurrent a (stopBackendIfRunning s) = isCurrent a s" "isCurrent a (onConnected q v s) = isCurrent a s"
  "isCurrent a (clearTimeout s) = isCurrent a s" "isCurrent a (upd_attempt b f s) = isCurrent a s"
  by (simp_all add: isCurrent_def) (simp add: tm_defs)

lemma pview_settle:
  assumes "isCurrent a s" "a \<in> keys_of s" "pview s = (rel, t, u, g, L, S, R, K, W)"
  shows "pview (settle a c now s) = (None, None, u, g, L, S, insert g R, K, W)"
  using assms by (auto simp: settle_def isCurrent_def tm_defs pview_def keys_of_def keys_update_img)

lemma promise_settle:
  assumes inv: "promise_inv s" and a: "isCurrent a s" "a \<in> keys_of s"
    and v: "pview s' = (case pview s of (rel, t, rest) \<Rightarrow> (rel, t', rest))"
    and s': "isCurrent a s'" "a \<in> keys_of s'"
  shows "promise_inv (settle a c now s')"
proof -
  obtain rel t u g L S R K W where p: "pview s = (rel, t, u, g, L, S, R, K, W)"
    by (auto simp: pview_def)
  with v have p': "pview s' = (rel, t', u, g, L, S, R, K, W)" by simp
  have "g = a" "K = keys_of s" using p a(1) by (auto simp: pview_def isCurrent_def)
  with pinv_settle[of rel t u g L S R K W] inv p a(2)
  show ?thesis by (simp add: promise_inv_def pview_settle[OF s' p'])
qed

lemma promise_view: "pview s' = pview s \<Longrightarrow> promise_inv s \<Longrightarrow> promise_inv s'"
  by (simp add: promise_inv_def)

lemma promise_arm:
  assumes inv: "promise_inv s" and a: "isCurrent a s" "a \<in> keys_of s" and v: "pview s' = pview s"
  shows "promise_inv (armTimeout a s')"
proof -
  obtain rel t u g L S R K W where p: "pview s = (rel, t, u, g, L, S, R, K, W)"
    by (auto simp: pview_def)
  have g: "g = a" "K = keys_of s" using p a(1) by (auto simp: pview_def isCurrent_def)
  obtain b where "pview (armTimeout a s') = (rel, Some (a, b), u, g, L, S, R, K, W)"
    using v p by (auto simp: pview_def keys_of_def armTimeout_def Let_def upd_def clearTimeout_def)
  with pinv_timeout[of rel t u g L S R K W b] inv p a(2) g show ?thesis
    by (simp add: promise_inv_def)
qed

lemma promise_listening:
  "promise_inv s \<Longrightarrow> a \<in> set (listening s) \<Longrightarrow> a \<in> keys_of s"
  "promise_inv s \<Longrightarrow> a \<in> set (starting s) \<Longrightarrow> a \<in> keys_of s"
  "promise_inv s \<Longrightarrow> timeoutHandle (mgr s) = Some (a, b) \<Longrightarrow> isCurrent a s \<and> a \<in> keys_of s"
  by (auto simp: promise_inv_def pview_def pinv_def isCurrent_def)

lemma promise_helpers [simp]:
  "promise_inv (setState c s) = promise_inv s" "promise_inv (setSocks p s) = promise_inv s"
  "promise_inv (stopBackendIfRunning s) = promise_inv s" "promise_inv (notifyReach ok m s) = promise_inv s"
  "promise_inv (emit x s) = promise_inv s" "promise_inv (setBootstrap pc sm s) = promise_inv s"
  "promise_inv (onConnected q v s) = promise_inv s" "promise_inv (s\<lparr>disconnecting := n\<rparr>) = promise_inv s"
  "promise_inv (s\<lparr>installing := l\<rparr>) = promise_inv s"
  by (simp_all add: promise_inv_def)

lemma promise_bootstrapping:
  assumes "promise_inv s" "isCurrent a s" "a \<in> keys_of s"
  shows "promise_inv (onBootstrapping a pc sm now s)"
  unfolding onBootstrapping_def Let_def
  by (simp only: split: if_split, intro conjI impI)
    (rule promise_arm[OF assms] promise_view[OF _ assms(1)], simp add: assms(3))+

lemma promise_settle_same:
  assumes "promise_inv s" "isCurrent a s" "a \<in> keys_of s"
  shows "promise_inv (settle a c now s)"
proof -
  obtain rel t rest where "pview s = (rel, t, rest)" by (auto simp: pview_def)
  with promise_settle[OF assms, of s t] assms(2,3) show ?thesis by simp
qed

lemma promise_event:
  assumes inv: "promise_inv s" and a: "a \<in> set (listening s)"
  shows "promise_inv (onEvent ev now a s)"
proof (cases "isCurrent a s")
  case True
  note k = promise_listening(1)[OF inv a]
  show ?thesis
    by (cases ev) (use inv True k in \<open>auto intro!: promise_bootstrapping promise_settle_same\<close>)
next
  case False
  then show ?thesis using inv by (simp add: onEvent_stale isCurrent_def)
qed

lemma pview_supersede:
  assumes "pview s = (rel, t, u, g, L, S, R, K, W)" "L = {} \<or> L = {g} \<and> u = Some g"
  shows "pview (supersede r s) = (None, None, None, g + 1, {}, S, R \<union> set_option rel, K, W)"
proof -
  have "set (listening (supersede r s)) = {}"
    using assms by (auto simp: pview_def split: option.split)
  then show ?thesis using assms(1)
    by (auto simp: pview_def supersede_def tm_defs keys_of_def split: option.split)
qed

lemma promise_supersede:
  assumes "promise_inv s" "awaiting s = []"
  shows "promise_inv (supersede r s)" "generation (mgr (supersede r s)) \<notin> keys_of (supersede r s)"
    "\<exists>g S R K. pview (supersede r s) = (None, None, None, g, {}, S, R, K, []) \<and> g \<notin> K"
proof -
  obtain rel t u g L S R K W where p: "pview s = (rel, t, u, g, L, S, R, K, W)" by (auto simp: pview_def)
  have W: "W = []" using p assms(2) by (simp add: pview_def)
  have i: "pinv rel t u g L S R K []" using assms(1) p W by (simp add: promise_inv_def)
  then have "L = {} \<or> L = {g} \<and> u = Some g" "\<forall>a \<in> K. a \<le> g" by (simp_all add: pinv_def)
  from pview_supersede[OF p this(1), of r] this(2)
  have q: "pview (supersede r s) = (None, None, None, g + 1, {}, S, R \<union> set_option rel, K, [])" "g + 1 \<notin> K"
    using W by auto
  show "promise_inv (supersede r s)" using pinv_supersede[OF i] q by (simp add: promise_inv_def)
  show "\<exists>g S R K. pview (supersede r s) = (None, None, None, g, {}, S, R, K, []) \<and> g \<notin> K"
    using q by blast
  show "generation (mgr (supersede r s)) \<notin> keys_of (supersede r s)" using q by (simp add: pview_def)
qed

lemma pview_start:
  assumes "pview s = (rel, t, u, g, {}, S, R, K, W)"
  shows "\<exists>b. pview (startAttempt mo w r now (g, ov, tml) s)
     = (Some g, Some (g, b), Some g, g, {g}, insert g S, R, insert g K, W)"
  using assms by (auto simp: pview_def startAttempt_def tm_defs keys_of_def keys_update_img)

lemma promise_start:
  assumes "pview s = (None, None, None, g, {}, S, R, K, [])" "g \<notin> K" "promise_inv s" "fst call = g"
  shows "promise_inv (startAttempt mo w r now call s)"
proof -
  obtain ov tml where c: "call = (g, ov, tml)" using assms(4) by (cases call) auto
  obtain b where "pview (startAttempt mo w r now call s)
     = (Some g, Some (g, b), Some g, g, {g}, insert g S, R, insert g K, [])"
    using pview_start[OF assms(1), of mo w r now ov tml] c by blast
  with pinv_start[of g S R K b] assms show ?thesis by (simp add: promise_inv_def)
qed

lemma promise_connect:
  assumes "promise_inv s" "awaiting s = []"
  shows "promise_inv (tm_connect mo ov w r now s)"
proof (cases "tm_state (mgr s) = Connected")
  case False
  let ?s = "supersede Disconnected s"
  let ?call = "(generation (mgr ?s), ov, createBootstrapTimeline now)"
  obtain g S R K where p: "pview ?s = (None, None, None, g, {}, S, R, K, [])" "g \<notin> K"
    using promise_supersede(3)[OF assms] by blast
  have g: "generation (mgr ?s) = g" using p by (simp add: pview_def)
  have "promise_inv (startAttempt mo w r now ?call ?s)"
    by (rule promise_start[OF p promise_supersede(1)[OF assms]]) (use g in simp)
  moreover have "pview ((stopBackendIfRunning ?s)\<lparr>awaiting := awaiting ?s @ [?call]\<rparr>)
      = (None, None, None, g, {}, S, R, K, [g])"
    using p(1) assms(2) by (simp add: pview_def tm_defs keys_of_def)
  then have "promise_inv ((stopBackendIfRunning ?s)\<lparr>awaiting := awaiting ?s @ [?call]\<rparr>)"
    using pinv_await[of g S R K] p promise_supersede(1)[OF assms, of Disconnected]
    by (simp add: promise_inv_def)
  ultimately show ?thesis using False by (simp add: tm_connect_def Let_def)
qed (use assms in \<open>simp add: tm_connect_def\<close>)

lemma promise_resume:
  assumes inv: "promise_inv s"
  shows "promise_inv (tm_resume mo i w r now s)"
proof (cases "at (awaiting s) i")
  case (Some call)
  then have ne: "awaiting s \<noteq> []" by (auto simp: at_def)
  obtain rel t u g L S R K W where p: "pview s = (rel, t, u, g, L, S, R, K, W)" by (auto simp: pview_def)
  with ne inv have "W = [g]" "g \<notin> K" and pi: "pinv rel t u g L S R K W"
    by (auto simp: promise_inv_def pinv_def pview_def)
  then have e: "rel = None" "t = None" "L = {}" by (auto simp: pinv_def)
  have "length (awaiting s) = 1" using p \<open>W = [g]\<close> by (auto simp: pview_def)
  with Some p \<open>W = [g]\<close> have aw: "awaiting s = [call]" "i = 0" "fst call = g"
    by (auto simp: at_def pview_def length_Suc_conv split: if_splits)
  let ?s = "s\<lparr>awaiting := []\<rparr>"
  have v: "pview ?s = (None, None, u, g, {}, S, R, K, [])"
    using p e by (simp add: pview_def keys_of_def)
  obtain ov tml where c: "call = (g, ov, tml)" using aw(3) by (cases call) auto
  obtain b where w: "pview (startAttempt mo w r now call ?s)
     = (Some g, Some (g, b), Some g, g, {g}, insert g S, R, insert g K, [])"
    using pview_start[OF v, of mo w r now ov tml] c by blast
  have "pinv None None None g {} S R K []" using pi e \<open>W = [g]\<close> by (auto simp: pinv_def)
  from pinv_start[OF this \<open>g \<notin> K\<close>, of b] w
  have "promise_inv (startAttempt mo w r now call ?s)" by (simp add: promise_inv_def)
  then show ?thesis using aw Some by (simp add: tm_resume_def)
qed (simp add: tm_resume_def inv)

lemma promise_disconnect:
  assumes "promise_inv s" "awaiting s = []"
  shows "promise_inv (tm_disconnect s)"
proof -
  have "pview (upd (\<lambda>m. m\<lparr>tm_socks := None, torVersion := None\<rparr>) t) = pview t" for t
    by (simp add: pview_def upd_def keys_of_def)
  then show ?thesis
    using promise_supersede(1)[OF assms, of Disconnected]
    by (simp add: tm_disconnect_def Let_def promise_inv_def)
qed

lemma promise_settled:
  assumes inv: "promise_inv s"
  shows "promise_inv (startSettled a ok now s)"
proof (cases "a \<in> set (starting s)")
  case True
  have k: "a \<in> keys_of s" by (rule promise_listening(2)[OF inv True])
  let ?t = "s\<lparr>starting := filter (\<lambda>b. b \<noteq> a) (starting s)\<rparr>"
  obtain rel t u g L S R K W where p: "pview s = (rel, t, u, g, L, S, R, K, W)" by (auto simp: pview_def)
  have "pview ?t = (rel, t, u, g, L, S - {a}, R, K, W)"
    using p by (auto simp: pview_def keys_of_def)
  with pinv_starting[of rel t u g L S R K W "S - {a}"] inv p
  have i: "promise_inv ?t" by (auto simp: promise_inv_def)
  have kt: "a \<in> keys_of ?t" using k by (simp add: keys_of_def)
  define t' where "t' = upd_attempt a (\<lambda>x. x\<lparr>at_timeline := tl_mark ''native-ready'' now (at_timeline x)\<rparr>) ?t"
  have i': "promise_inv t'" unfolding t'_def by (rule promise_view[OF pview_attempt[OF kt] i])
  have kt': "a \<in> keys_of t'" unfolding t'_def by simp
  then have fin: "isCurrent a t' \<Longrightarrow> promise_inv (settle a Offline now (setState Offline (setSocks None t')))"
    using i' kt' by (simp add: promise_settle_same)
  show ?thesis
    using True i' fin by (auto simp: startSettled_def Let_def t'_def[symmetric] simp del: current_helpers)
qed (simp add: startSettled_def inv)

lemma promise_deadline:
  assumes inv: "promise_inv s"
  shows "promise_inv (fireDeadline now s)"
proof (cases "timeoutHandle (mgr s)")
  case (Some h)
  then obtain a b where h: "timeoutHandle (mgr s) = Some (a, b)" by (cases h) auto
  note c = promise_listening(3)[OF inv h]
  have "promise_inv (settle a Offline now (stopBackendIfRunning (setState Offline (setSocks None (clearTimeout s)))))"
    by (rule promise_settle[OF inv c[THEN conjunct1] c[THEN conjunct2], where t' = None])
      (use c in \<open>simp_all\<close>, simp add: pview_def keys_of_def clearTimeout_def upd_def)
  with h c show ?thesis by (simp add: fireDeadline_def onTimeout_def)
qed (simp add: fireDeadline_def inv)

lemma promise_event_step:
  assumes "promise_inv s" "names_inv s"
  shows "promise_inv (tm_step mo (BackendEvent ev now) s)"
  unfolding event_step[OF assms(2)] using assms(1) by (auto intro: promise_event)

lemma promise_step:
  assumes "promise_inv s" "names_inv s" "awaiting s = [] \<or> \<not> is_call x"
  shows "promise_inv (tm_step mo x s)"
proof (cases x)
  case DisconnectDone
  then show ?thesis using assms by (simp add: tm_disconnected_def)
next
  case (InstallSettled i ok)
  have "pview (upd (\<lambda>m. m\<lparr>configuredOnionAuth := a, configuredOnionAuthSet := l\<rparr>) t) = pview t" for a l t
    by (simp add: pview_def upd_def keys_of_def)
  then show ?thesis using assms InstallSettled
    by (auto simp: installed_def Let_def promise_inv_def split: option.split)
next
  case (BackendEvent ev now)
  then show ?thesis using promise_event_step[OF assms(1,2)] by simp
qed (use assms in \<open>auto simp: promise_connect promise_resume promise_disconnect promise_settled
    promise_deadline installReach_def\<close>)

lemma promise_run:
  "orderly mo xs s \<Longrightarrow> promise_inv s \<Longrightarrow> names_inv s \<Longrightarrow> promise_inv (tm_run mo xs s)"
  unfolding tm_run_def by (induction xs arbitrary: s) (simp_all add: promise_step names_step)

section \<open>Budgets\<close>

definition budget_inv :: "tor_sys \<Rightarrow> bool" where
  "budget_inv s \<longleftrightarrow> (\<forall>a b. timeoutHandle (mgr s) = Some (a, b) \<longrightarrow>
     b \<le> at_timeout (attempt_of a s) + FIRST_PROGRESS_GRACE_MS)"

definition bview :: "tor_sys \<Rightarrow> (nat \<times> int) option \<times> (nat \<Rightarrow> int)" where
  "bview s = (timeoutHandle (mgr s), \<lambda>a. at_timeout (attempt_of a s))"

lemma budget_view:
  "budget_inv s \<Longrightarrow> bview s' = bview s \<or> (timeoutHandle (mgr s') = None) \<Longrightarrow> budget_inv s'"
  unfolding budget_inv_def bview_def by (auto simp: fun_eq_iff)

lemma attempt_of_upd [simp]:
  "attempt_of a (upd_attempt b f s) = (if a = b then f (attempt_of b s) else attempt_of a s)"
  by (simp add: attempt_of_def upd_attempt_def js_map_simps)

lemma bview_upd_attempt [simp]:
  "(\<And>x. at_timeout (f x) = at_timeout x) \<Longrightarrow> bview (upd_attempt a f s) = bview s"
  by (auto simp: bview_def) (simp add: upd_attempt_def)

lemma bview_helpers [simp]:
  "bview (setState c s) = bview s" "bview (setSocks p s) = bview s"
  "bview (stopBackendIfRunning s) = bview s" "bview (notifyReach ok m s) = bview s"
  "bview (emit x s) = bview s" "bview (setBootstrap pc sm s) = bview s"
  "bview (onConnected q v s) = bview s" "bview (s\<lparr>starting := l\<rparr>) = bview s"
  "bview (s\<lparr>installing := is\<rparr>) = bview s" "bview (s\<lparr>disconnecting := n\<rparr>) = bview s"
  by (simp_all add: bview_def attempt_of_def tm_defs)

lemma settle_timer: "isCurrent a s \<Longrightarrow> timeoutHandle (mgr (settle a c now s)) = None"
  by (simp add: settle_def isCurrent_def tm_defs)

lemma budget_arm: "budget_inv (armTimeout a s)"
  by (simp add: budget_inv_def armTimeout_def Let_def upd_def attempt_of_def clearTimeout_def
      FIRST_PROGRESS_GRACE_MS_def)

lemma budget_bootstrapping: "budget_inv s \<Longrightarrow> budget_inv (onBootstrapping a pc sm now s)"
  by (auto simp: onBootstrapping_def Let_def budget_arm elim!: budget_view)

lemma budget_event: "budget_inv s \<Longrightarrow> budget_inv (onEvent ev now a s)"
  by (cases ev) (auto simp: settle_timer budget_bootstrapping elim!: budget_view[rotated]
      intro: budget_view[OF budget_bootstrapping] elim: budget_view)

lemma budget_no_timer: "timeoutHandle (mgr s) = None \<Longrightarrow> budget_inv s"
  by (simp add: budget_inv_def)

lemma budget_supersede: "budget_inv (supersede r s)"
  by (rule budget_no_timer) (simp add: supersede_def tm_defs split: option.split)

lemma supersede_timer: "timeoutHandle (mgr (supersede r s)) = None"
  by (simp add: supersede_def tm_defs split: option.split)

lemma budget_start: "budget_inv (startAttempt mo w r now call s)"
  by (cases call) (simp add: startAttempt_def tm_defs budget_inv_def attempt_of_def js_map_simps
      FIRST_PROGRESS_GRACE_MS_def)

lemma budget_step: "budget_inv s \<Longrightarrow> budget_inv (tm_step mo x s)"
proof (cases x)
  case (Connect ov w r now)
  assume "budget_inv s"
  then show ?thesis using Connect
    by (auto simp: tm_connect_def Let_def budget_start supersede_timer intro!: budget_no_timer)
      (simp_all add: stopBackendIfRunning_def emit_def upd_def supersede_timer)
next
  case Disconnect
  then show ?thesis
    by (auto simp: tm_disconnect_def Let_def intro!: budget_no_timer)
      (simp add: stopBackendIfRunning_def emit_def upd_def supersede_timer)
next
  case (BackendEvent ev now)
  have "budget_inv s \<Longrightarrow> budget_inv (fold (onEvent ev now) ls s)" for ls
    by (induction ls arbitrary: s) (simp_all add: budget_event)
  moreover assume "budget_inv s"
  ultimately show ?thesis using BackendEvent by simp
next
  case (Resume i w r now)
  assume "budget_inv s"
  then show ?thesis using Resume by (simp add: tm_resume_def budget_start split: option.split)
next
  case DisconnectDone
  assume "budget_inv s"
  then show ?thesis using DisconnectDone by (auto simp: tm_disconnected_def elim!: budget_view)
next
  case (Deadline now)
  assume "budget_inv s"
  then have c: "budget_inv (clearTimeout s)"
    by (auto intro: budget_no_timer simp: clearTimeout_def upd_def)
  show ?thesis
  proof (cases "timeoutHandle (mgr s)")
    case None
    then show ?thesis using Deadline \<open>budget_inv s\<close> by (simp add: fireDeadline_def)
  next
    case (Some h)
    then show ?thesis using Deadline c
      by (cases h) (simp add: fireDeadline_def onTimeout_def budget_no_timer settle_timer)
  qed
next
  case (StartSettled a ok now)
  assume "budget_inv s"
  then have "budget_inv (upd_attempt a (\<lambda>x. x\<lparr>at_timeline := tl_mark ''native-ready'' now (at_timeline x)\<rparr>)
      (s\<lparr>starting := filter (\<lambda>b. b \<noteq> a) (starting s)\<rparr>))"
    by (rule budget_view) simp
  then show ?thesis using StartSettled \<open>budget_inv s\<close>
    by (simp add: startSettled_def Let_def budget_no_timer settle_timer)
next
  case (InstallReach b w r)
  assume "budget_inv s"
  then show ?thesis using InstallReach by (auto simp: installReach_def elim!: budget_view)
next
  case (InstallSettled i ok)
  assume "budget_inv s"
  then show ?thesis using InstallSettled
    by (auto simp: installed_def Let_def upd_def bview_def attempt_of_def split: option.split prod.split
        elim!: budget_view)
qed

lemma budget_run: "budget_inv s \<Longrightarrow> budget_inv (tm_run mo xs s)"
  unfolding tm_run_def by (induction xs arbitrary: s) (simp_all add: budget_step)

lemma budget_init: "budget_inv tor_init"
  by (simp add: budget_inv_def tor_init_def new_manager_def)

section \<open>The promises at rest\<close>

lemma pending_deadline:
  assumes "promise_inv s" "a \<in> set (unsettled s)" "awaiting s = []"
  shows "\<exists>b. timeoutHandle (mgr s) = Some (a, b) \<and> isCurrent a s"
proof -
  from assms(2,3) have "a \<in> keys_of s" "a \<notin> set (resolved s)" by (auto simp: unsettled_def keys_of_def)
  with assms(1) show ?thesis
    by (auto simp: promise_inv_def pview_def pinv_def isCurrent_def)
qed

lemma resume_none_awaiting:
  assumes "promise_inv s"
  shows "awaiting (tm_resume mo 0 w r now s) = []"
  using assms by (cases "awaiting s")
    (auto simp: tm_resume_def at_def promise_inv_def pview_def pinv_def)

lemma deadline_settles:
  assumes inv: "promise_inv s" and aw: "awaiting s = []"
  shows "unsettled (fireDeadline now s) = []"
proof (rule ccontr)
  assume ne: "unsettled (fireDeadline now s) \<noteq> []"
  then obtain a where a: "a \<in> set (unsettled (fireDeadline now s))" by (cases "unsettled (fireDeadline now s)") auto
  from pending_deadline[OF promise_deadline[OF inv] this] aw obtain b
    where t: "timeoutHandle (mgr (fireDeadline now s)) = Some (a, b)" by auto
  show False
  proof (cases "timeoutHandle (mgr s)")
    case None
    with t show False by (simp add: fireDeadline_def)
  next
    case (Some h)
    then obtain c d where h: "timeoutHandle (mgr s) = Some (c, d)" by (cases h) auto
    with promise_listening(3)[OF inv h] t show False
      by (simp add: fireDeadline_def onTimeout_def settle_timer)
  qed
qed

section \<open>Properties\<close>

definition ex_options :: "unit tm_options" where
  "ex_options = \<lparr>mo_transport = Some Direct, mo_bridgeLines = None, mo_socksPort = None, mo_dataDir = None,
     mo_timeout = None, mo_onionAuth = None, mo_resolveOnionAuth = None, mo_relayOnion = None,
     mo_resolveRelayOnion = None, mo_onionAuthExtra = None, mo_resolveOnionAuthExtra = None,
     mo_dormancy = None\<rparr>"

definition ex_reach :: reach where
  "ex_reach = \<lparr>activeRelayOnion = None, activeOnionAuth = None, activeOnionAuthExtra = []\<rparr>"

definition no_overrides :: overrides where
  "no_overrides = \<lparr>ov_transport = None, ov_bridgeLines = None, ov_timeout = None\<rparr>"

definition ex_connect :: "int \<Rightarrow> unit tm_input" where
  "ex_connect = Connect no_overrides () ex_reach"

definition ex_proxy :: socks_proxy where
  "ex_proxy = \<lparr>sp_host = ''127.0.0.1'', sp_port = 9050\<rparr>"

text \<open>
  C5. No transport but Tor's, whatever the interleaving.  When the manager hands out a proxy, the
  daemon reported exactly this proxy in a \<open>connected\<close> event, and since that event there was no
  \<open>disconnect\<close> and no \<open>stopped\<close>, \<open>starting\<close>, \<open>error\<close> or \<open>transport-dead\<close> event.
\<close>

theorem proxy_is_daemons:
  assumes "getSocksProxy (mgr (tm_run mo xs tor_init)) = Some p"
  shows "\<exists>ys v now zs. xs = ys @ BackendEvent (BConnected p v) now # zs \<and> \<not> list_ex kills zs"
  using proxy_run[OF assms] by blast

theorem proxy_is_daemons_witness:
  "\<exists>ys v now zs. [ex_connect 0, BackendEvent (BConnected ex_proxy None) 5, BackendEvent Verified 6]
     = ys @ BackendEvent (BConnected ex_proxy v) now # zs \<and> \<not> list_ex kills zs"
  by (rule proxy_is_daemons[of ex_options]) code_simp

text \<open>
  C6. Every \<open>connect()\<close> settles, as long as no call is made while an earlier connect awaits the stop
  of its predecessor.  In every such state each pending promise awaits that stop or has an armed
  deadline, whose budget is at most the attempt's timeout and the grace for the first progress;
  and once the suspended connect has resumed and the deadline has fired, no promise is pending.
\<close>

theorem connect_settles:
  assumes "orderly mo xs tor_init"
  shows "(let s = tm_run mo xs tor_init in
      (\<forall>a \<in> set (unsettled s). a \<in> fst ` set (awaiting s) \<or>
         (\<exists>b. timeoutHandle (mgr s) = Some (a, b) \<and> b \<le> at_timeout (attempt_of a s) + FIRST_PROGRESS_GRACE_MS))
      \<and> unsettled (tm_run mo [Resume 0 w r t1, Deadline t2] s) = [])"
proof -
  let ?s = "tm_run mo xs tor_init"
  have inv: "promise_inv ?s" by (rule promise_run[OF assms promise_init names_init])
  have resume: "promise_inv (tm_resume mo 0 w r t1 ?s)" by (rule promise_resume[OF inv])
  have "unsettled (tm_run mo [Resume 0 w r t1, Deadline t2] ?s) = []"
    using deadline_settles[OF resume resume_none_awaiting[OF inv]] by (simp add: tm_run_def)
  moreover have "a \<in> fst ` set (awaiting ?s) \<or> (\<exists>b. timeoutHandle (mgr ?s) = Some (a, b)
      \<and> b \<le> at_timeout (attempt_of a ?s) + FIRST_PROGRESS_GRACE_MS)" if a: "a \<in> set (unsettled ?s)" for a
  proof (cases "a \<in> fst ` set (awaiting ?s)")
    case False
    with a have "a \<in> keys_of ?s" "a \<notin> set (resolved ?s)" by (auto simp: unsettled_def keys_of_def)
    with inv obtain b where "timeoutHandle (mgr ?s) = Some (a, b)"
      by (auto simp: promise_inv_def pview_def pinv_def)
    with budget_run[OF budget_init, of mo xs] show ?thesis by (auto simp: budget_inv_def)
  qed simp
  ultimately show ?thesis unfolding Let_def by blast
qed

theorem connect_settles_witness:
  "(let s = tm_run ex_options [ex_connect 0, BackendEvent (Bootstrapping 20 None) 9, ex_connect 10] tor_init in
      (\<forall>a \<in> set (unsettled s). a \<in> fst ` set (awaiting s) \<or>
         (\<exists>b. timeoutHandle (mgr s) = Some (a, b) \<and> b \<le> at_timeout (attempt_of a s) + FIRST_PROGRESS_GRACE_MS))
      \<and> unsettled (tm_run ex_options [Resume 0 () ex_reach 11, Deadline 70000] s) = [])"
  by (rule connect_settles) code_simp

section \<open>Where the guarantees end\<close>

text \<open>
  The continuation of \<open>connect\<close> after the stop does not compare its generation.  A third call while the
  second one is suspended is overtaken by it: the second attempt replaces the deadline, the
  subscription and the resolver of the third.  The third connects, a second daemon has been
  started, and the promise of the second call is pending with no deadline armed.
\<close>

lemma overlapping_connects_stuck:
  "let s = tm_run ex_options [ex_connect 0, ex_connect 1, ex_connect 2, Resume 0 () ex_reach 3,
       BackendEvent (BConnected ex_proxy None) 4] tor_init
   in unsettled s = [2] \<and> timeoutHandle (mgr s) = None \<and> awaiting s = []
      \<and> length (filter (\<lambda>x. case x of CallStart a c \<Rightarrow> a > 1 | _ \<Rightarrow> False) (outputs s)) = 2"
  by code_simp

text \<open>
  In the same way a connect that is suspended during a \<open>disconnect()\<close> starts the daemon after it: the
  state is \<open>starting-tor\<close>, no event is listened to and no deadline ends it.
\<close>

lemma disconnect_undone_by_suspended_connect:
  "let s = tm_run ex_options [ex_connect 0, ex_connect 1, Disconnect, DisconnectDone, Resume 0 () ex_reach 3,
       Deadline 70000] tor_init
   in tm_state (mgr s) = StartingTor \<and> backendMaybeRunning (mgr s) \<and> unsettled s = [2]
      \<and> timeoutHandle (mgr s) = None \<and> generation (mgr s) \<notin> set (listening s)"
  by code_simp

text \<open>
  A timed-out attempt is stopped but not superseded.  A \<open>connected\<close> event that was under way flips the
  manager to connected, with the proxy of a daemon that was told to stop, and a later
  \<open>disconnect()\<close> does not call the backend.
\<close>

lemma late_connected_after_timeout:
  "let s = tm_run ex_options [ex_connect 0, Deadline 63000, BackendEvent (BConnected ex_proxy None) 63001] tor_init
   in getSocksProxy (mgr s) = Some ex_proxy \<and> \<not> backendMaybeRunning (mgr s)
      \<and> resolved s = [1] \<and> Resolved 1 Offline \<in> set (outputs s)
      \<and> outputs (tm_disconnect s) = outputs s"
  by code_simp

end
