(* ===== verification/Connectivity.thy ===== *)
theory Connectivity
  imports TorManager Complex_Main
begin

text \<open>
  The policies around the transport: \<open>client/src/tor/ladder.ts\<close>, the walk over it in
  \<open>connectGuided\<close> of \<open>client/App.tsx\<close>, \<open>client/src/nostr/reconnectBackoff.ts\<close>,
  \<open>client/src/nostr/inboundBudget.ts\<close>, \<open>client/src/nostr/syncWatermark.ts\<close> and the labels of
  \<open>client/src/connection.ts\<close>.

  Texts with characters above 255 are lists of 16-bit units.  The walk suspends at every \<open>await\<close>; what
  it reads after one (whether a connection is still wanted, the condemned transports, the fetched
  bridges, the outcome of the race) is an argument, a function of the rung.
\<close>

section \<open>The ladder\<close>

datatype rung_id = RDirect | RObfs4 | RFetched | RSnowflake

record rung =
  rg_id :: rung_id
  rg_transport :: transport
  useFetchedBridges :: bool
  noProgressMs :: int
  hardCeilingMs :: int
  rg_label :: string

definition AUTO_LADDER :: "rung list" where
  "AUTO_LADDER =
    [\<lparr>rg_id = RDirect, rg_transport = Direct, useFetchedBridges = False, noProgressMs = 120000,
      hardCeilingMs = 180000, rg_label = ''Connecting directly through Tor''\<rparr>,
     \<lparr>rg_id = RObfs4, rg_transport = Obfs4, useFetchedBridges = False, noProgressMs = 120000,
      hardCeilingMs = 240000, rg_label = ''Trying obfs4 bridges''\<rparr>,
     \<lparr>rg_id = RFetched, rg_transport = Webtunnel, useFetchedBridges = True, noProgressMs = 120000,
      hardCeilingMs = 240000, rg_label = ''Fetching fresh bridges and connecting''\<rparr>,
     \<lparr>rg_id = RSnowflake, rg_transport = Snowflake, useFetchedBridges = False, noProgressMs = 180000,
      hardCeilingMs = 300000, rg_label = ''Reaching through Snowflake''\<rparr>]"

definition nextRungIndex :: "int \<Rightarrow> int \<Rightarrow> int" where
  "nextRungIndex current rungs = (if current + 1 < rungs then current + 1 else - 1)"

datatype phase_kind = KStarting | KBootstrapping | KCeilingExceeded | KEscalating | KConnected | KExhausted

record connection_phase =
  cp_rungId :: rung_id
  cp_rungIndex :: int
  cp_totalRungs :: nat
  cp_kind :: phase_kind
  cp_percent :: "nat option"
  plainLabel :: "int list"

definition CEILING_EXHAUSTED_LABEL :: "int list" where
  "CEILING_EXHAUSTED_LABEL = units ''Still trying every path to reach your community over Tor'' @ [0x2026]"

definition describePhase :: "rung \<Rightarrow> phase_kind \<Rightarrow> nat option \<Rightarrow> connection_phase" where
  "describePhase r k percent =
     (let progress = (case percent of
            Some p \<Rightarrow> if p > 0 then units (rg_label r) @ units '' '' @ [0xb7] @ units ('' '' @ js_dec p @ ''%'')
                      else units (rg_label r)
          | None \<Rightarrow> units (rg_label r));
          lab = (case k of
              KStarting \<Rightarrow> progress
            | KBootstrapping \<Rightarrow> progress
            | KCeilingExceeded \<Rightarrow> units (rg_label r @ '' is taking too long'')
            | KEscalating \<Rightarrow> units ''Switching to a harder-to-block path'' @ [0x2026]
            | KConnected \<Rightarrow> units ''Connected via Tor''
            | KExhausted \<Rightarrow> CEILING_EXHAUSTED_LABEL)
      in \<lparr>cp_rungId = rg_id r, cp_rungIndex = findIndex (\<lambda>q. rg_id q = rg_id r) AUTO_LADDER,
          cp_totalRungs = length AUTO_LADDER, cp_kind = k, cp_percent = percent, plainLabel = lab\<rparr>)"

fun describeConnection :: "conn_state \<Rightarrow> int list" where
  "describeConnection Disconnected = units ''Disconnected''"
| "describeConnection StartingTor = units ''Starting Tor'' @ [0x2026]"
| "describeConnection ConnectingBridge = units ''Connecting through bridge'' @ [0x2026]"
| "describeConnection Connected = units ''Connected via Tor''"
| "describeConnection Offline = units ''Offline '' @ [0x2014] @ units '' Tor unavailable''"

definition connectionLabel :: "conn_state \<Rightarrow> nat option \<Rightarrow> int list" where
  "connectionLabel st percent =
     (case percent of
        Some p \<Rightarrow>
          if (st = StartingTor \<or> st = ConnectingBridge) \<and> p > 0
          then units ''Connecting through Tor '' @ [0xb7] @ units ('' '' @ js_dec (min 100 p) @ ''%'')
          else describeConnection st
      | None \<Rightarrow> describeConnection st)"

definition isOnline :: "conn_state \<Rightarrow> bool" where
  "isOnline st \<longleftrightarrow> st = Connected"

definition phaseAwareLabel :: "conn_state \<Rightarrow> connection_phase option \<Rightarrow> nat option \<Rightarrow> int list" where
  "phaseAwareLabel st ph percent =
     (case ph of
        Some p \<Rightarrow> if st \<in> {StartingTor, ConnectingBridge, Offline} then plainLabel p
                  else connectionLabel st percent
      | None \<Rightarrow> connectionLabel st percent)"

section \<open>The walk\<close>

definition CEILING_GRACE_MS :: int where "CEILING_GRACE_MS = 3000"

definition bridgeStartTierToRungIndex :: "int \<Rightarrow> int" where
  "bridgeStartTierToRungIndex bridgeStartTier = (if bridgeStartTier < 0 then 0 else 1)"

datatype race_result = RaceState conn_state | RaceCeiling

record walk_env =
  wanted :: "int \<Rightarrow> nat \<Rightarrow> bool" \<comment> \<open>\<open>desiredConnected\<close> at the n-th check of a rung\<close>
  deadRung :: "int \<Rightarrow> bool" \<comment> \<open>the rung's transport is in \<open>deadRungs\<close>\<close>
  resolvedBridges :: "int \<Rightarrow> string list"
  race :: "int \<Rightarrow> race_result"

datatype walk_step =
    WPhase connection_phase
  | WDial transport "string list" int int \<comment> \<open>bridges, inner deadline, outer ceiling (0: none)\<close>
  | WTeardown
  | WClearWarm

datatype walk_end = WConnected int | WAbandoned | WExhausted

definition rung_at :: "int \<Rightarrow> rung" where
  "rung_at i = AUTO_LADDER ! nat i"

definition rung_lines :: "walk_env \<Rightarrow> int \<Rightarrow> string list" where
  "rung_lines env i =
     (if useFetchedBridges (rung_at i) then resolvedBridges env i
      else defaultBridgeLines (rg_transport (rung_at i)))"

function coldWalk :: "walk_env \<Rightarrow> int \<Rightarrow> walk_step list \<times> walk_end" where
  \<comment> \<open>the loop of \<open>connectGuided\<close> from rung \<open>i\<close>; an index outside of the ladder ends it\<close>
  "coldWalk env i =
    (if i < 0 \<or> i \<ge> int (length AUTO_LADDER)
     then ([WPhase (describePhase (last AUTO_LADDER) KExhausted None)], WExhausted)
     else
       let r = rung_at i; next = nextRungIndex i (int (length AUTO_LADDER)) in
       if \<not> wanted env i 0 then ([], WAbandoned)
       else if deadRung env i then coldWalk env next
       else
         let start = [WPhase (describePhase r KStarting None)] in
         if \<not> wanted env i 1 then (start, WAbandoned)
         else if rg_transport r \<noteq> Direct \<and> rung_lines env i = []
         then let (ss, e) = coldWalk env next in (start @ ss, e)
         else
           let dial = start @ [WDial (rg_transport r) (rung_lines env i) (noProgressMs r)
                 (hardCeilingMs r + CEILING_GRACE_MS)] in
           if race env i = RaceState Connected
           then (dial @ [WPhase (describePhase r KConnected None)], WConnected i)
           else if \<not> wanted env i 2 then (dial, WAbandoned)
           else
             let down = dial @ [WPhase (describePhase r KCeilingExceeded None), WTeardown] in
             if \<not> wanted env i 3 then (down, WAbandoned)
             else let esc = (if next \<noteq> - 1 then [WPhase (describePhase r KEscalating None)] else []);
                      (ss, e) = coldWalk env next in (down @ esc @ ss, e))"
  by pat_completeness auto
termination
  by (relation "measure (\<lambda>(env, i). if i < 0 then 0 else nat (int (length AUTO_LADDER) - i))")
    (auto simp: nextRungIndex_def)

declare coldWalk.simps [simp del]

definition WARM_BOOTSTRAP_TIMEOUT_MS :: int where "WARM_BOOTSTRAP_TIMEOUT_MS = 120000"

definition rungForTransport :: "transport \<Rightarrow> rung" where
  "rungForTransport t =
     (case find (\<lambda>r. rg_transport r = t) AUTO_LADDER of Some r \<Rightarrow> r | None \<Rightarrow> hd AUTO_LADDER)"

record guided_env =
  startTier :: int \<comment> \<open>\<open>bridgeStartTier\<close>\<close>
  cachedWarm :: "(transport \<times> string list) option"
  deadTransports :: "transport list"
  warmState :: conn_state \<comment> \<open>what the warm \<open>connect\<close> returned\<close>
  g_wanted :: "nat \<Rightarrow> bool"
  cold :: walk_env

definition usable_warm :: "guided_env \<Rightarrow> (transport \<times> string list) option" where
  "usable_warm g =
     (let warm = (case cachedWarm g of
            Some (t, ls) \<Rightarrow> if startTier g \<ge> 0 \<and> t = Direct then None else Some (t, ls) | None \<Rightarrow> None)
      in (case warm of
            Some (t, ls) \<Rightarrow> if t \<in> set (deadTransports g) then None else Some (t, ls) | None \<Rightarrow> None))"

definition connectGuided :: "guided_env \<Rightarrow> walk_step list \<times> walk_end" where
  \<comment> \<open>in mode \<open>auto\<close>; every other mode delegates to \<open>connectByMode\<close>\<close>
  "connectGuided g =
     (let walk = coldWalk (cold g) (bridgeStartTierToRungIndex (startTier g)) in
      if \<not> g_wanted g 0 then ([], WAbandoned)
      else case usable_warm g of
        None \<Rightarrow> walk
      | Some (t, ls) \<Rightarrow>
          if \<not> g_wanted g 1 then walk
          else
            let r = rungForTransport t;
                dial = [WPhase (describePhase r KStarting None), WDial t ls WARM_BOOTSTRAP_TIMEOUT_MS 0] in
            if warmState g = Connected
            then (dial @ [WPhase (describePhase r KConnected None)], WConnected (- 1))
            else if \<not> g_wanted g 2 then (dial, WAbandoned)
            else let down = dial @ [WClearWarm, WTeardown] in
              if \<not> g_wanted g 3 then (down, WAbandoned)
              else let (ss, e) = walk in (down @ ss, e))"

section \<open>Reconnect backoff\<close>

definition RELAY_BACKOFF_BASE_MS :: real where "RELAY_BACKOFF_BASE_MS = 5000"
definition RELAY_BACKOFF_MAX_MS :: real where "RELAY_BACKOFF_MAX_MS = 60000"
definition RELAY_NEWNYM_EVERY :: int where "RELAY_NEWNYM_EVERY = 2"
definition RELAY_NEWNYM_AFTER :: int where "RELAY_NEWNYM_AFTER = 2"
definition ESCALATE_MIN_STREAK :: int where "ESCALATE_MIN_STREAK = 4"
definition ESCALATE_MIN_SETTLED_MS :: int where "ESCALATE_MIN_SETTLED_MS = 90000"

definition relayBackoffMs :: "int \<Rightarrow> real \<Rightarrow> real" where
  \<comment> \<open>\<open>rng\<close> is the drawn random number\<close>
  "relayBackoffMs streak rng =
     (let base = min RELAY_BACKOFF_MAX_MS (RELAY_BACKOFF_BASE_MS * 2 ^ nat (max 0 (streak - 1)))
      in min RELAY_BACKOFF_MAX_MS (base * (8 / 10 + 4 / 10 * rng)))"

definition shouldRotateCircuit :: "int \<Rightarrow> bool" where
  "shouldRotateCircuit streak =
     (if streak \<le> RELAY_NEWNYM_AFTER then False
      else (streak - RELAY_NEWNYM_AFTER) mod RELAY_NEWNYM_EVERY = 1)"

definition isTransportCondemned :: "int \<Rightarrow> int \<Rightarrow> bool \<Rightarrow> bool" where
  "isTransportCondemned streak transportSettledMs torConnected \<longleftrightarrow>
     torConnected \<and> streak \<ge> ESCALATE_MIN_STREAK \<and> transportSettledMs \<ge> ESCALATE_MIN_SETTLED_MS"

section \<open>Inbound budget\<close>

record inbound_budget =
  windowMs :: int
  budgetMs :: int
  windowStart :: int
  spent :: int

definition new_budget :: "int \<Rightarrow> int \<Rightarrow> inbound_budget" where
  "new_budget w b = \<lparr>windowMs = w, budgetMs = b, windowStart = 0, spent = 0\<rparr>"

definition sharedInboundBudget :: inbound_budget where
  "sharedInboundBudget = new_budget 16 10"

definition remaining :: "int \<Rightarrow> inbound_budget \<Rightarrow> int \<times> inbound_budget" where
  "remaining now b =
     (let b = (if now - windowStart b \<ge> windowMs b then b\<lparr>windowStart := now, spent := 0\<rparr> else b)
      in (max 0 (budgetMs b - spent b), b))"

definition charge :: "int \<Rightarrow> inbound_budget \<Rightarrow> inbound_budget" where
  "charge ms b = (if ms > 0 then b\<lparr>spent := spent b + ms\<rparr> else b)"

section \<open>Sync watermark\<close>

definition WATERMARK_PREFIX :: string where "WATERMARK_PREFIX = ''stiq.sync.watermark.''"

definition loadWatermark :: "storage \<Rightarrow> string \<Rightarrow> int option" where
  "loadWatermark st cid = (case getItem st (WATERMARK_PREFIX @ cid) of
       Some (Json v) \<Rightarrow> (case js_prop v ''reconciledThrough'' of Some (JNum n) \<Rightarrow> Some n | _ \<Rightarrow> None)
     | _ \<Rightarrow> None)"

definition saveWatermark :: "string \<Rightarrow> int \<Rightarrow> int \<Rightarrow> storage \<Rightarrow> storage" where
  "saveWatermark cid t now st =
     (case loadWatermark st cid of
        Some existing \<Rightarrow> if t \<le> existing then st
          else setItem (WATERMARK_PREFIX @ cid)
            (Json (JObj [(''reconciledThrough'', JNum t), (''savedAt'', JNum now)])) st
      | None \<Rightarrow> setItem (WATERMARK_PREFIX @ cid)
            (Json (JObj [(''reconciledThrough'', JNum t), (''savedAt'', JNum now)])) st)"

definition clearWatermark :: "string \<Rightarrow> storage \<Rightarrow> storage" where
  "clearWatermark cid st = removeItem (WATERMARK_PREFIX @ cid) st"

type_synonym watermarks = "(string \<times> int) list"

definition setWatermarkRuntime :: "string \<Rightarrow> int \<Rightarrow> watermarks \<Rightarrow> watermarks" where
  "setWatermarkRuntime cid t ws = (case map_of ws cid of
       Some existing \<Rightarrow> if t > existing then AList.update cid t ws else ws
     | None \<Rightarrow> AList.update cid t ws)"

definition getWatermarkRuntime :: "watermarks \<Rightarrow> string \<Rightarrow> int option" where
  "getWatermarkRuntime ws cid = map_of ws cid"

definition clearWatermarkRuntime :: "string option \<Rightarrow> watermarks \<Rightarrow> watermarks" where
  "clearWatermarkRuntime cid ws = (case cid of None \<Rightarrow> [] | Some c \<Rightarrow> AList.delete c ws)"

section \<open>The ladder\<close>

lemma ladder_length [simp]: "length AUTO_LADDER = 4"
  by (simp add: AUTO_LADDER_def)

lemma ladder_guards:
  "list_all (\<lambda>r. noProgressMs r < hardCeilingMs r
     \<and> noProgressMs r + FIRST_PROGRESS_GRACE_MS < hardCeilingMs r + CEILING_GRACE_MS) AUTO_LADDER"
  by (simp add: AUTO_LADDER_def FIRST_PROGRESS_GRACE_MS_def CEILING_GRACE_MS_def)

lemma rung_cases:
  fixes i :: int
  assumes "0 \<le> i" "i < 4"
  obtains "i = 0" | "i = 1" | "i = 2" | "i = 3"
  using assms by linarith

lemma describePhase_index:
  "0 \<le> i \<Longrightarrow> i < 4 \<Longrightarrow> cp_rungIndex (describePhase (rung_at i) k p) = i"
  by (erule (1) rung_cases)
    (simp_all add: describePhase_def rung_at_def AUTO_LADDER_def Let_def nth_Cons' numeral_2_eq_2)

section \<open>The walk\<close>

definition candidate :: "walk_env \<Rightarrow> int \<Rightarrow> bool" where
  "candidate env i \<longleftrightarrow> \<not> deadRung env i \<and> (rg_transport (rung_at i) = Direct \<or> rung_lines env i \<noteq> [])"

definition dialled :: "walk_step list \<Rightarrow> transport list" where
  "dialled ss = concat (map (\<lambda>x. case x of WDial t _ _ _ \<Rightarrow> [t] | _ \<Rightarrow> []) ss)"

fun up_to :: "('a \<Rightarrow> bool) \<Rightarrow> 'a list \<Rightarrow> 'a list" where
  \<comment> \<open>the prefix that ends with the first element satisfying \<open>P\<close>\<close>
  "up_to P [] = []"
| "up_to P (x # xs) = (if P x then [x] else x # up_to P xs)"

lemma dialled_simps [simp]:
  "dialled [] = []" "dialled (a @ b) = dialled a @ dialled b"
  "dialled (WPhase p # ss) = dialled ss" "dialled (WTeardown # ss) = dialled ss"
  "dialled (WClearWarm # ss) = dialled ss" "dialled (WDial t l m n # ss) = t # dialled ss"
  by (simp_all add: dialled_def)

lemma coldWalk_over: "coldWalk env (- 1) = ([WPhase (describePhase (last AUTO_LADDER) KExhausted None)], WExhausted)"
  by (simp add: coldWalk.simps)

lemma upto_step: "i < 4 \<Longrightarrow> [i..3] = i # [i + 1..3]" for i :: int
  by (simp add: upto_rec1)

lemma next_rung: "i < 4 \<Longrightarrow> nextRungIndex i 4 = (if i = 3 then - 1 else i + 1)"
  by (auto simp: nextRungIndex_def)

lemma coldWalk_step:
  assumes "\<forall>i k. wanted env i k" "0 \<le> i" "i < 4"
  shows "dialled (fst (coldWalk env i)) =
      (if candidate env i then rg_transport (rung_at i) #
         (if race env i = RaceState Connected then [] else dialled (fst (coldWalk env (nextRungIndex i 4))))
       else dialled (fst (coldWalk env (nextRungIndex i 4))))"
    "snd (coldWalk env i) =
      (if candidate env i \<and> race env i = RaceState Connected then WConnected i
       else snd (coldWalk env (nextRungIndex i 4)))"
  using assms coldWalk.simps[of env i]
  by (auto simp: candidate_def Let_def split: prod.split)

lemma coldWalk_exact:
  assumes "\<forall>i k. wanted env i k" "0 \<le> i" "i \<le> 4"
  shows "dialled (fst (coldWalk env (if i = 4 then - 1 else i))) =
      map (\<lambda>j. rg_transport (rung_at j)) (up_to (\<lambda>j. race env j = RaceState Connected) (filter (candidate env) [i..3]))"
    "snd (coldWalk env (if i = 4 then - 1 else i)) =
      (case find (\<lambda>j. race env j = RaceState Connected) (filter (candidate env) [i..3]) of
        Some j \<Rightarrow> WConnected j | None \<Rightarrow> WExhausted)"
proof -
  have "dialled (fst (coldWalk env (if i = 4 then - 1 else i))) =
      map (\<lambda>j. rg_transport (rung_at j)) (up_to (\<lambda>j. race env j = RaceState Connected) (filter (candidate env) [i..3]))
    \<and> snd (coldWalk env (if i = 4 then - 1 else i)) =
      (case find (\<lambda>j. race env j = RaceState Connected) (filter (candidate env) [i..3]) of
        Some j \<Rightarrow> WConnected j | None \<Rightarrow> WExhausted)"
    using assms(2,3)
  proof (induction "nat (4 - i)" arbitrary: i)
    case 0
    then show ?case by (simp add: coldWalk_over)
  next
    case (Suc n)
    then have i: "0 \<le> i" "i < 4" by auto
    have "nextRungIndex i 4 = (if i + 1 = 4 then - 1 else i + 1)" using i by (simp add: nextRungIndex_def)
    with Suc.hyps(1)[of "i + 1"] Suc.hyps(2) i show ?case
      by (simp add: coldWalk_step[OF assms(1) i] upto_step)
  qed
  then show "dialled (fst (coldWalk env (if i = 4 then - 1 else i))) =
      map (\<lambda>j. rg_transport (rung_at j)) (up_to (\<lambda>j. race env j = RaceState Connected) (filter (candidate env) [i..3]))"
    and "snd (coldWalk env (if i = 4 then - 1 else i)) =
      (case find (\<lambda>j. race env j = RaceState Connected) (filter (candidate env) [i..3]) of
        Some j \<Rightarrow> WConnected j | None \<Rightarrow> WExhausted)"
    by blast+
qed

fun one_at_a_time :: "bool \<Rightarrow> walk_step list \<Rightarrow> bool" where
  \<comment> \<open>no dial while an earlier one has not been torn down\<close>
  "one_at_a_time up [] = True"
| "one_at_a_time up (WDial t l m n # ss) = (\<not> up \<and> one_at_a_time True ss)"
| "one_at_a_time up (WTeardown # ss) = one_at_a_time False ss"
| "one_at_a_time up (WPhase p # ss) = one_at_a_time up ss"
| "one_at_a_time up (WClearWarm # ss) = one_at_a_time up ss"

lemma coldWalk_one: "one_at_a_time False (fst (coldWalk env i))"
proof (induction env i rule: coldWalk.induct)
  case (1 env i)
  show ?case
    by (subst coldWalk.simps) (use 1 in \<open>auto simp: Let_def split: prod.split\<close>)
qed

section \<open>Backoff\<close>

lemma base_bounds:
  "5000 \<le> min RELAY_BACKOFF_MAX_MS (RELAY_BACKOFF_BASE_MS * 2 ^ n)"
  "min RELAY_BACKOFF_MAX_MS (RELAY_BACKOFF_BASE_MS * 2 ^ n) \<le> 60000"
  by (simp_all add: RELAY_BACKOFF_MAX_MS_def RELAY_BACKOFF_BASE_MS_def)

lemma backoff_range:
  assumes "0 \<le> rng" "rng < 1"
  shows "4000 \<le> relayBackoffMs streak rng \<and> relayBackoffMs streak rng \<le> 60000"
proof -
  define b where "b = min RELAY_BACKOFF_MAX_MS (RELAY_BACKOFF_BASE_MS * 2 ^ nat (max 0 (streak - 1)))"
  have b: "5000 \<le> b" unfolding b_def by (rule base_bounds)
  then have "5000 * (8 / 10) \<le> b * (8 / 10 + 4 / 10 * rng)"
    by (intro mult_mono) (use assms in auto)
  moreover have "relayBackoffMs streak rng = min 60000 (b * (8 / 10 + 4 / 10 * rng))"
    by (simp add: relayBackoffMs_def Let_def b_def RELAY_BACKOFF_MAX_MS_def)
  ultimately show ?thesis by simp
qed

lemma rotate_exact: "shouldRotateCircuit streak \<longleftrightarrow> 3 \<le> streak \<and> odd streak"
  by (auto simp: shouldRotateCircuit_def RELAY_NEWNYM_AFTER_def RELAY_NEWNYM_EVERY_def) presburger+

lemma streak_four_before_gate:
  assumes "0 \<le> r1" "r1 < 1" "0 \<le> r2" "r2 < 1" "0 \<le> r3" "r3 < 1"
  shows "relayBackoffMs 1 r1 + relayBackoffMs 2 r2 + relayBackoffMs 3 r3 < real_of_int ESCALATE_MIN_SETTLED_MS"
  using assms by (simp add: relayBackoffMs_def Let_def RELAY_BACKOFF_MAX_MS_def RELAY_BACKOFF_BASE_MS_def
      ESCALATE_MIN_SETTLED_MS_def)

section \<open>Watermarks and the budget\<close>

lemma load_save:
  "loadWatermark (saveWatermark cid t now st) cid =
     Some (case loadWatermark st cid of Some w \<Rightarrow> max w t | None \<Rightarrow> t)"
  by (auto simp: saveWatermark_def split: option.split)
    (auto simp: loadWatermark_def getItem_def setItem_def js_prop_def js_map_simps)

lemma load_save_other:
  "cid \<noteq> cid' \<Longrightarrow> loadWatermark (saveWatermark cid t now st) cid' = loadWatermark st cid'"
  by (auto simp: saveWatermark_def loadWatermark_def getItem_def setItem_def js_map_simps split: option.split)

lemma get_set_runtime:
  "getWatermarkRuntime (setWatermarkRuntime cid t ws) cid' =
     (if cid = cid' then Some (case getWatermarkRuntime ws cid of Some w \<Rightarrow> max w t | None \<Rightarrow> t)
      else getWatermarkRuntime ws cid')"
  by (auto simp: setWatermarkRuntime_def getWatermarkRuntime_def js_map_simps split: option.split)

lemma budget_window:
  assumes "fst (remaining now b) = r" "snd (remaining now b) = b1" "now \<le> now'" "now' < windowStart b1 + windowMs b1"
    and "0 \<le> ms"
  shows "fst (remaining now' (charge ms b1)) = max 0 (budgetMs b - spent b1 - ms)"
  using assms by (auto simp: remaining_def charge_def Let_def split: if_splits)

section \<open>Properties\<close>

text \<open>
  C40. The guided walk ends for every outcome of its races, and it dials in order and once every rung
  that is not condemned and has bridges, up to the first that connects; it reports exhaustion
  exactly when none of them connects.
\<close>

theorem cold_walk_exact:
  assumes "\<forall>i k. wanted env i k" "0 \<le> i" "i < 4"
  shows "dialled (fst (coldWalk env i)) = map (\<lambda>j. rg_transport (rung_at j))
      (up_to (\<lambda>j. race env j = RaceState Connected) (filter (candidate env) [i..3]))
    \<and> snd (coldWalk env i) = (case find (\<lambda>j. race env j = RaceState Connected) (filter (candidate env) [i..3]) of
        Some j \<Rightarrow> WConnected j | None \<Rightarrow> WExhausted)"
  using coldWalk_exact[OF assms(1,2)] assms(3) by simp

definition ex_walk :: walk_env where
  "ex_walk = \<lparr>wanted = (\<lambda>i k. True), deadRung = (\<lambda>i. i = 0), resolvedBridges = (\<lambda>i. []),
     race = (\<lambda>i. if i = 3 then RaceState Connected else RaceCeiling)\<rparr>"

theorem cold_walk_exact_witness:
  "dialled (fst (coldWalk ex_walk 0)) = [Obfs4, Snowflake] \<and> snd (coldWalk ex_walk 0) = WConnected 3"
proof -
  have "[0..3] = [0, 1, 2, 3 :: int]" by (simp add: upto_rec1)
  then show ?thesis
    using cold_walk_exact[of ex_walk 0]
    by (simp add: ex_walk_def candidate_def rung_lines_def rung_at_def AUTO_LADDER_def
        DEFAULT_OBFS4_BRIDGES_def DEFAULT_SNOWFLAKE_BRIDGES_def defaultBridgeLines_def nth_Cons' numeral_2_eq_2)
qed

text \<open>
  Never two daemons: whatever the warm cache holds and whenever the user stops wanting a
  connection, the guided connect tears every dialled transport down before it dials the next.
\<close>

theorem guided_one_at_a_time: "one_at_a_time False (fst (connectGuided g))"
  using coldWalk_one
  by (auto simp: connectGuided_def Let_def split: option.split prod.split)
    (metis fst_conv)+

text \<open>
  The reconnect delay stays between four seconds and one minute for every streak and every draw of
  the jitter, and the wait before a streak of four is always shorter than the settled time that a
  transport must have before it is condemned.
\<close>

theorem relay_backoff_bounds:
  assumes "0 \<le> r1" "r1 < 1" "0 \<le> r2" "r2 < 1" "0 \<le> r3" "r3 < 1"
  shows "4000 \<le> relayBackoffMs streak r1 \<and> relayBackoffMs streak r1 \<le> 60000
    \<and> relayBackoffMs 1 r1 + relayBackoffMs 2 r2 + relayBackoffMs 3 r3 < real_of_int ESCALATE_MIN_SETTLED_MS"
  using backoff_range[OF assms(1,2)] streak_four_before_gate[OF assms] by blast

theorem relay_backoff_bounds_witness:
  "4000 \<le> relayBackoffMs 7 0 \<and> relayBackoffMs 7 0 \<le> 60000
    \<and> relayBackoffMs 1 0 + relayBackoffMs 2 0 + relayBackoffMs 3 0 < real_of_int ESCALATE_MIN_SETTLED_MS"
  using relay_backoff_bounds[of 0 0 0 7] by simp

end
