(* ===== verification/Protocol.thy ===== *)
theory Protocol
  imports Encoding
begin

text \<open>
  \<open>client/src/nostr/protocol.ts\<close>, the frames between the client and a relay, the kind lists of
  \<open>client/src/contracts/index.ts\<close> that the ingest gate uses, and the classification of refusals in
  \<open>client/src/nostr/rejection.ts\<close>.

  A frame is the text of a socket message: \<^const>\<open>Json\<close> of what \<open>JSON.parse\<close> returns, or a \<^const>\<open>Text\<close>
  on which it throws.  An event on the wire, \<open>wire_event\<close>, still carries its signature, and its kind
  is any integer.  The numbers scraped from the prose of a refusal (\<open>extractParams\<close>) are left out.
\<close>

section \<open>Kinds\<close>

definition FEED_KINDS :: "int list" where
  "FEED_KINDS = [1, 7, 1111, 1984, 1986, 1987, 30023, 1068, 1018, 1222, 1244, 1311, 30311, 31923, 31925]"

definition SUBSCRIBED_KINDS :: "int list" where
  "SUBSCRIBED_KINDS = FEED_KINDS @ [1059, 30078, 30079, 30500]"

definition isSubscribedKind :: "int \<Rightarrow> bool" where
  "isSubscribedKind k \<longleftrightarrow> k \<in> set SUBSCRIBED_KINDS"

definition FETCH_ONLY_KINDS :: "int list" where
  "FETCH_ONLY_KINDS = [30351]"

definition GROUP_KINDS :: "int list" where
  "GROUP_KINDS = [9, 11, 12, 39000, 39001, 39002, 39003, 39004, 9021, 7, 9009, 39005]"

section \<open>Events and filters on the wire\<close>

record wire_event =
  w_id :: string
  w_pubkey :: string
  w_created_at :: int
  w_kind :: int
  w_tags :: "string list list"
  w_content :: string
  w_sig :: string

record req_filter =
  f_ids :: "string list option"
  f_authors :: "string list option"
  f_kinds :: "int list option"
  f_since :: "int option"
  f_until :: "int option"
  f_limit :: "int option"
  f_tags :: "(string \<times> string list) list" \<comment> \<open>keys with their \<open>#\<close>\<close>

definition no_filter :: req_filter where
  "no_filter = \<lparr>f_ids = None, f_authors = None, f_kinds = None, f_since = None, f_until = None,
     f_limit = None, f_tags = []\<rparr>"

definition json_field :: "string \<Rightarrow> ('a \<Rightarrow> jsval) \<Rightarrow> 'a option \<Rightarrow> (string \<times> jsval) list" where
  \<comment> \<open>an undefined field is not written\<close>
  "json_field k f v = (case v of None \<Rightarrow> [] | Some x \<Rightarrow> [(k, f x)])"

definition strings_json :: "string list \<Rightarrow> jsval" where
  "strings_json xs = JArr (map JStr xs)"

definition filter_json :: "req_filter \<Rightarrow> jsval" where
  "filter_json f = JObj (json_field ''ids'' strings_json (f_ids f)
     @ json_field ''authors'' strings_json (f_authors f)
     @ json_field ''kinds'' (\<lambda>ks. JArr (map JNum ks)) (f_kinds f)
     @ json_field ''since'' JNum (f_since f) @ json_field ''until'' JNum (f_until f)
     @ json_field ''limit'' JNum (f_limit f) @ map (\<lambda>(k, vs). (k, strings_json vs)) (f_tags f))"

definition event_json :: "wire_event \<Rightarrow> jsval" where
  "event_json e = JObj [(''id'', JStr (w_id e)), (''pubkey'', JStr (w_pubkey e)),
     (''created_at'', JNum (w_created_at e)), (''kind'', JNum (w_kind e)),
     (''tags'', JArr (map strings_json (w_tags e))), (''content'', JStr (w_content e)),
     (''sig'', JStr (w_sig e))]"

definition reqMessage :: "string \<Rightarrow> req_filter list \<Rightarrow> stext" where
  "reqMessage subId filters = Json (JArr (JStr ''REQ'' # JStr subId # map filter_json filters))"

definition closeMessage :: "string \<Rightarrow> stext" where
  "closeMessage subId = Json (JArr [JStr ''CLOSE'', JStr subId])"

definition eventMessage :: "wire_event \<Rightarrow> stext" where
  "eventMessage e = Json (JArr [JStr ''EVENT'', event_json e])"

definition countMessage :: "string \<Rightarrow> req_filter list \<Rightarrow> stext" where
  "countMessage subId filters = Json (JArr (JStr ''COUNT'' # JStr subId # map filter_json filters))"

definition negOpenMessage :: "string \<Rightarrow> req_filter \<Rightarrow> string \<Rightarrow> stext" where
  "negOpenMessage subId f message = Json (JArr [JStr ''NEG-OPEN'', JStr subId, filter_json f, JStr message])"

definition negMsgMessage :: "string \<Rightarrow> string \<Rightarrow> stext" where
  "negMsgMessage subId message = Json (JArr [JStr ''NEG-MSG'', JStr subId, JStr message])"

definition negCloseMessage :: "string \<Rightarrow> stext" where
  "negCloseMessage subId = Json (JArr [JStr ''NEG-CLOSE'', JStr subId])"

section \<open>Parsing\<close>

datatype relay_message =
    MEvent string wire_event
  | MEose string
  | MOk string bool string
  | MNotice string
  | MClosed string string
  | MCount string "jsval option" \<comment> \<open>what \<open>Number\<close> is applied to; \<^const>\<open>None\<close> for the default 0\<close>
  | MNegMsg string string
  | MNegErr string string
  | MUnknown

definition js_int :: "int \<Rightarrow> string" where
  "js_int n = (if n < 0 then CHR ''-'' # js_dec (nat (- n)) else js_dec (nat n))"

fun join :: "string \<Rightarrow> string list \<Rightarrow> string" where
  "join sep [] = ''''"
| "join sep [x] = x"
| "join sep (x # y # ys) = x @ sep @ join sep (y # ys)"

fun js_str :: "jsval \<Rightarrow> string" where
  \<comment> \<open>\<open>String(v)\<close>; \<open>null\<close> inside an array is the empty string\<close>
  "js_str JNull = ''null''"
| "js_str (JBool b) = (if b then ''true'' else ''false'')"
| "js_str (JNum n) = js_int n"
| "js_str (JStr s) = s"
| "js_str (JArr xs) = join '','' (map (\<lambda>x. if x = JNull then '''' else js_str x) xs)"
| "js_str (JObj kvs) = ''[object Object]''"

definition str_at :: "jsval list \<Rightarrow> nat \<Rightarrow> string" where
  "str_at arr i = (case at arr i of None \<Rightarrow> ''undefined'' | Some v \<Rightarrow> js_str v)"

definition str_or_empty :: "jsval list \<Rightarrow> nat \<Rightarrow> string" where
  \<comment> \<open>\<open>String(arr[i] ?? '')\<close>\<close>
  "str_or_empty arr i = (case at arr i of None \<Rightarrow> '''' | Some JNull \<Rightarrow> '''' | Some v \<Rightarrow> js_str v)"

definition hex_lower :: "char \<Rightarrow> bool" where
  "hex_lower c \<longleftrightarrow> (CHR ''0'' \<le> c \<and> c \<le> CHR ''9'') \<or> (CHR ''a'' \<le> c \<and> c \<le> CHR ''f'')"

definition hex_any :: "char \<Rightarrow> bool" where
  "hex_any c \<longleftrightarrow> hex_lower c \<or> (CHR ''A'' \<le> c \<and> c \<le> CHR ''F'')"

definition HEX64_LOWER :: "string \<Rightarrow> bool" where
  "HEX64_LOWER s \<longleftrightarrow> length s = 64 \<and> list_all hex_lower s"

definition HEX64 :: "string \<Rightarrow> bool" where
  "HEX64 s \<longleftrightarrow> length s = 64 \<and> list_all hex_any s"

fun as_string :: "jsval \<Rightarrow> string option" where
  "as_string (JStr s) = Some s"
| "as_string _ = None"

fun as_strings :: "jsval \<Rightarrow> string list option" where
  "as_strings (JArr xs) = (if list_all (\<lambda>x. as_string x \<noteq> None) xs then Some (map (the \<circ> as_string) xs) else None)"
| "as_strings _ = None"

fun as_tags :: "jsval \<Rightarrow> string list list option" where
  "as_tags (JArr xs) = (if list_all (\<lambda>x. as_strings x \<noteq> None) xs then Some (map (the \<circ> as_strings) xs) else None)"
| "as_tags _ = None"

definition shapedEvent :: "jsval \<Rightarrow> wire_event option" where
  \<comment> \<open>\<open>isValidEventShape\<close>, with the event it lets through\<close>
  "shapedEvent x =
     (case (js_prop x ''id'', js_prop x ''pubkey'', js_prop x ''sig'', js_prop x ''kind'',
            js_prop x ''created_at'', js_prop x ''content'', js_prop x ''tags'') of
        (Some (JStr i), Some (JStr p), Some (JStr s), Some (JNum k), Some (JNum t), Some (JStr c), Some ts) \<Rightarrow>
          (case as_tags ts of
             Some tgs \<Rightarrow>
               if HEX64_LOWER i \<and> HEX64 p
               then Some \<lparr>w_id = i, w_pubkey = p, w_created_at = t, w_kind = k, w_tags = tgs,
                          w_content = c, w_sig = s\<rparr>
               else None
           | None \<Rightarrow> None)
      | _ \<Rightarrow> None)"

definition parseRelayMessage :: "stext \<Rightarrow> relay_message" where
  "parseRelayMessage raw =
     (case raw of
        Json (JArr (JStr label # rest)) \<Rightarrow>
          let arr = JStr label # rest in
          if label = ''EVENT'' then
            (case at arr 2 of
               Some x \<Rightarrow> (case shapedEvent x of Some e \<Rightarrow> MEvent (str_at arr 1) e | None \<Rightarrow> MUnknown)
             | None \<Rightarrow> MUnknown)
          else if label = ''EOSE'' then MEose (str_at arr 1)
          else if label = ''OK'' then MOk (str_at arr 1) (js_truthy (at arr 2)) (str_or_empty arr 3)
          else if label = ''NOTICE'' then MNotice (str_or_empty arr 1)
          else if label = ''CLOSED'' then MClosed (str_at arr 1) (str_or_empty arr 2)
          else if label = ''COUNT'' then
            MCount (str_at arr 1) (case at arr 2 of
                None \<Rightarrow> None
              | Some v \<Rightarrow> (case js_prop v ''count'' of Some JNull \<Rightarrow> None | c \<Rightarrow> c))
          else if label = ''NEG-MSG'' then MNegMsg (str_at arr 1) (str_or_empty arr 2)
          else if label = ''NEG-ERR'' \<or> label = ''NEG-ERROR''
          then MNegErr (str_at arr 1) (str_or_empty arr 2)
          else MUnknown
      | _ \<Rightarrow> MUnknown)"

section \<open>Refusals\<close>

definition code_char :: "char \<Rightarrow> bool" where
  "code_char c \<longleftrightarrow> (CHR ''a'' \<le> c \<and> c \<le> CHR ''z'') \<or> (CHR ''0'' \<le> c \<and> c \<le> CHR ''9'') \<or> c = CHR ''_''"

definition az :: "char \<Rightarrow> bool" where
  "az c \<longleftrightarrow> CHR ''a'' \<le> c \<and> c \<le> CHR ''z''"

definition one_line :: "string \<Rightarrow> bool" where
  \<comment> \<open>what \<open>.*$\<close> matches\<close>
  "one_line s \<longleftrightarrow> CHR 0x0A \<notin> set s \<and> CHR 0x0D \<notin> set s"

definition bracket_match :: "string \<Rightarrow> (string \<times> string) option" where
  "bracket_match s = (case s of
       c # cs \<Rightarrow>
         let code = takeWhile code_char cs; rest = dropWhile code_char cs in
         if c = CHR ''['' \<and> code \<noteq> [] \<and> rest \<noteq> [] \<and> hd rest = CHR '']''
           \<and> one_line (dropWhile js_space (tl rest))
         then Some (code, dropWhile js_space (tl rest)) else None
     | [] \<Rightarrow> None)"

definition prefix_match :: "string \<Rightarrow> string option" where
  \<comment> \<open>\<open>/^([a-z][a-z-]*):/\<close>\<close>
  "prefix_match s =
     (let code = takeWhile (\<lambda>c. az c \<or> c = CHR ''-'') s; rest = drop (length code) s in
      if code \<noteq> [] \<and> az (hd code) \<and> rest \<noteq> [] \<and> hd rest = CHR '':'' then Some code else None)"

record parsed_rejection =
  rj_code :: string
  prose :: string

definition parseRejection :: "string \<Rightarrow> parsed_rejection" where
  "parseRejection message =
     (let msg = js_trim message in
      case bracket_match msg of
        Some (code, rest) \<Rightarrow> \<lparr>rj_code = code, prose = rest\<rparr>
      | None \<Rightarrow>
          \<lparr>rj_code = (case prefix_match (toLowerCase msg) of
              Some code \<Rightarrow> if one_line (dropWhile js_space (drop (length code + 1) (toLowerCase msg))) then code else ''''
            | None \<Rightarrow> ''''),
           prose = msg\<rparr>)"

definition RETRYABLE_CODES :: "string list" where
  "RETRYABLE_CODES =
     [''rate_limited_dm'', ''rate_limited_mailbox'', ''record_token_error'', ''record_membership_error'']"

definition LEGACY_NON_RETRYABLE :: "string list" where
  "LEGACY_NON_RETRYABLE = [''blocked'', ''invalid'', ''auth-required'', ''restricted'', ''pow'']"

definition LEGACY_TRANSIENT_SUBSTRINGS :: "string list" where
  "LEGACY_TRANSIENT_SUBSTRINGS =
     [''rate-limit'', ''too many'', ''slow down'', ''try again'', ''temporarily'', ''duplicate'', ''could not record'']"

definition LEGACY_RETRYABLE :: "string list" where
  "LEGACY_RETRYABLE = [''record_token_error'', ''record_membership_error'']"

definition legacy_bracket :: "string \<Rightarrow> (string \<times> string) option" where
  \<comment> \<open>\<open>/^\[([a-z][a-z0-9_-]*)\]\s*/\<close> with the rest of the text\<close>
  "legacy_bracket s = (case s of
       c # cs \<Rightarrow>
         let p = (\<lambda>c. code_char c \<or> c = CHR ''-''); code = takeWhile p cs; rest = dropWhile p cs in
         if c = CHR ''['' \<and> code \<noteq> [] \<and> az (hd code) \<and> rest \<noteq> [] \<and> hd rest = CHR '']''
         then Some (code, dropWhile js_space (tl rest)) else None
     | [] \<Rightarrow> None)"

definition legacyRetryable :: "string \<Rightarrow> bool" where
  "legacyRetryable message =
     (let lower = toLowerCase (js_trim message);
          rest = (case legacy_bracket lower of Some (_, r) \<Rightarrow> r | None \<Rightarrow> lower);
          barePrefixCode = (case prefix_match rest of Some c \<Rightarrow> c | None \<Rightarrow> '''');
          code = (case legacy_bracket lower of Some (c, _) \<Rightarrow> c | None \<Rightarrow> barePrefixCode)
      in if code \<in> set LEGACY_NON_RETRYABLE \<or> barePrefixCode \<in> set LEGACY_NON_RETRYABLE then False
         else code \<in> set LEGACY_RETRYABLE \<or> barePrefixCode \<in> set LEGACY_RETRYABLE
           \<or> list_ex (\<lambda>t. indexOf t rest \<ge> 0) LEGACY_TRANSIENT_SUBSTRINGS)"

definition isRetryable :: "parsed_rejection \<Rightarrow> bool \<Rightarrow> bool" where
  "isRetryable p trustCodes =
     (if trustCodes \<and> rj_code p \<noteq> '''' then rj_code p \<in> set RETRYABLE_CODES else legacyRetryable (prose p))"

definition classifyRejection :: "string \<Rightarrow> string \<times> bool" where
  "classifyRejection message =
     ((if rj_code (parseRejection message) = '''' then ''unknown'' else rj_code (parseRejection message)),
      legacyRetryable message)"

section \<open>What the parser lets through\<close>

definition event_shaped :: "wire_event \<Rightarrow> bool" where
  "event_shaped e \<longleftrightarrow> HEX64_LOWER (w_id e) \<and> HEX64 (w_pubkey e)"

lemma shapedEvent_shaped: "shapedEvent x = Some e \<Longrightarrow> event_shaped e"
  by (auto simp: shapedEvent_def event_shaped_def split: option.splits jsval.splits if_splits)

lemma as_strings_json [simp]: "as_strings (strings_json xs) = Some xs"
  by (simp add: strings_json_def list_all_iff comp_def)

lemma as_tags_json [simp]: "as_tags (JArr (map strings_json ts)) = Some ts"
  by (simp add: list_all_iff comp_def)

lemma shapedEvent_json: "event_shaped e \<Longrightarrow> shapedEvent (event_json e) = Some e"
  by (simp add: shapedEvent_def event_json_def js_prop_def event_shaped_def del: as_tags.simps)

lemma parse_event_frame:
  "event_shaped e \<Longrightarrow> parseRelayMessage (Json (JArr [JStr ''EVENT'', JStr s, event_json e])) = MEvent s e"
  by (simp add: parseRelayMessage_def Let_def at_def shapedEvent_json str_at_def)

lemma parse_shaped: "parseRelayMessage raw = MEvent s e \<Longrightarrow> event_shaped e"
  by (auto simp: parseRelayMessage_def Let_def split: stext.splits jsval.splits list.splits if_splits option.splits
      intro: shapedEvent_shaped)

text \<open>
  C22. The parser is the trust boundary: whatever a relay sends, an EVENT that comes out of it has a
  64-digit lower-case id and a 64-digit key and string tags, and every event of that shape gets
  through unchanged, with its subscription id.
\<close>

theorem parse_event_typed:
  "(\<forall>raw s e. parseRelayMessage raw = MEvent s e \<longrightarrow> HEX64_LOWER (w_id e) \<and> HEX64 (w_pubkey e))
   \<and> (\<forall>s e. HEX64_LOWER (w_id e) \<longrightarrow> HEX64 (w_pubkey e) \<longrightarrow>
        parseRelayMessage (Json (JArr [JStr ''EVENT'', JStr s, event_json e])) = MEvent s e)"
  using parse_shaped parse_event_frame by (auto simp: event_shaped_def)

definition ex_wire :: wire_event where
  "ex_wire = \<lparr>w_id = replicate 64 (CHR ''a''), w_pubkey = replicate 64 (CHR ''B''), w_created_at = 5,
     w_kind = 1, w_tags = [[''t'', ''news'']], w_content = ''hi'', w_sig = ''s''\<rparr>"

theorem parse_event_typed_witness:
  "parseRelayMessage (Json (JArr [JStr ''EVENT'', JStr ''feed'', event_json ex_wire])) = MEvent ''feed'' ex_wire
   \<and> HEX64_LOWER (w_id ex_wire) \<and> HEX64 (w_pubkey ex_wire)"
proof -
  have h: "HEX64_LOWER (w_id ex_wire)" "HEX64 (w_pubkey ex_wire)"
    by (simp_all add: ex_wire_def HEX64_LOWER_def HEX64_def hex_any_def hex_lower_def less_eq_char_def list_all_iff)
  show ?thesis using parse_event_typed h by blast
qed

lemma refusal_permanent:
  "parseRejection ''blocked: you are banned'' = \<lparr>rj_code = ''blocked'', prose = ''blocked: you are banned''\<rparr>
   \<and> \<not> legacyRetryable ''blocked: you are banned''"
  by code_simp

end
