(* ===== verification/Backfill.thy ===== *)
theory Backfill
  imports Protocol
begin

text \<open>
  The paged backfill of \<open>client/src/nostr/RelayClient.ts\<close> (\<open>PagedBackfillState\<close>, \<open>recordPagedEvent\<close>,
  the decision of \<open>handlePagedEose\<close>): stored history is asked for page by page, from the newest
  event back.  \<open>RelayClient\<close> drives it with frames and timers; here is its arithmetic, with the
  relay as a function that may answer anything, and then with a relay that keeps to NIP-01.
\<close>

section \<open>Definitions\<close>

definition MAX_PAGINATION_PAGE_SIZE :: nat where
  "MAX_PAGINATION_PAGE_SIZE = 500"

record paged =
  rootSubId :: string
  baseFilter :: req_filter
  pageSize :: nat
  currentLimit :: nat
  delayMs :: nat
  pageIndex :: nat
  currentSubId :: string
  currentUntil :: "int option"
  received :: nat
  oldestCreatedAt :: "int option"
  pg_timer :: bool

definition new_paged :: "string \<Rightarrow> req_filter \<Rightarrow> nat \<Rightarrow> nat \<Rightarrow> paged" where
  \<comment> \<open>\<open>pageSize\<close> at least 1\<close>
  "new_paged subId f sz delay =
     (let sz = max 1 sz; bounded = f\<lparr>f_limit := Some (int sz)\<rparr>
      in \<lparr>rootSubId = subId, baseFilter = bounded, pageSize = sz, currentLimit = sz, delayMs = delay,
          pageIndex = 0, currentSubId = subId, currentUntil = f_until bounded, received = 0,
          oldestCreatedAt = None, pg_timer = False\<rparr>)"

definition record_event :: "int \<Rightarrow> paged \<Rightarrow> paged" where
  "record_event t st = st\<lparr>received := received st + 1,
     oldestCreatedAt := (case oldestCreatedAt st of
        None \<Rightarrow> Some t | Some m \<Rightarrow> if t < m then Some t else Some m)\<rparr>"

definition next_page :: "paged \<Rightarrow> (int \<times> nat) option" where
  \<comment> \<open>the cursor and the limit of the next page, or the end of the backfill\<close>
  "next_page st =
     (case oldestCreatedAt st of
        None \<Rightarrow> None
      | Some oldest \<Rightarrow>
          if received st < currentLimit st then None
          else
            let nextUntil = (case f_until (baseFilter st) of None \<Rightarrow> oldest | Some b \<Rightarrow> min oldest b);
                moved = (case currentUntil st of
                    None \<Rightarrow> Some (pageSize st)
                  | Some u \<Rightarrow>
                      if nextUntil < u then Some (pageSize st)
                      else if nextUntil = u \<and> currentLimit st < MAX_PAGINATION_PAGE_SIZE
                      then Some (min MAX_PAGINATION_PAGE_SIZE (currentLimit st * 2))
                      else None)
            in (case moved of
                  None \<Rightarrow> None
                | Some nextLimit \<Rightarrow>
                    if nextUntil < 0
                      \<or> (case f_since (baseFilter st) of None \<Rightarrow> False | Some s \<Rightarrow> nextUntil < s)
                    then None else Some (nextUntil, nextLimit)))"

definition page_name :: "string \<Rightarrow> nat \<Rightarrow> string" where
  "page_name root i = ''page:'' @ root @ '':'' @ js_dec i"

definition advance :: "int \<Rightarrow> nat \<Rightarrow> paged \<Rightarrow> paged" where
  "advance nextUntil nextLimit st =
     st\<lparr>pageIndex := pageIndex st + 1, currentSubId := page_name (rootSubId st) (pageIndex st + 1),
        currentUntil := Some nextUntil, currentLimit := nextLimit, received := 0,
        oldestCreatedAt := None\<rparr>"

definition page_filter :: "paged \<Rightarrow> req_filter" where
  \<comment> \<open>the filter of the page that is asked for\<close>
  "page_filter st = (baseFilter st)\<lparr>f_until := currentUntil st, f_limit := Some (int (currentLimit st))\<rparr>"

section \<open>The whole backfill\<close>

definition after_page :: "int list \<Rightarrow> paged \<Rightarrow> paged" where
  "after_page ts st = fold record_event ts st"

lemma after_page_fields [simp]:
  "currentUntil (after_page ts st) = currentUntil st" "currentLimit (after_page ts st) = currentLimit st"
  "pageSize (after_page ts st) = pageSize st" "baseFilter (after_page ts st) = baseFilter st"
  "pageIndex (after_page ts st) = pageIndex st" "received (after_page ts st) = received st + length ts"
  by (induction ts arbitrary: st) (simp_all add: after_page_def record_event_def)

lemma oldest_after:
  "oldestCreatedAt (after_page ts st) = (case oldestCreatedAt st of
     None \<Rightarrow> if ts = [] then None else Some (Min (set ts))
   | Some m \<Rightarrow> Some (Min (insert m (set ts))))"
proof (induction ts arbitrary: st)
  case Nil
  then show ?case by (simp add: after_page_def split: option.split)
next
  case (Cons t ts)
  have "oldestCreatedAt (record_event t st) = (case oldestCreatedAt st of None \<Rightarrow> Some t | Some m \<Rightarrow> Some (min m t))"
    by (auto simp: record_event_def split: option.split)
  with Cons[of "record_event t st"] show ?case
    by (auto simp: after_page_def insert_commute split: option.split)
qed

lemma next_page_less:
  assumes "next_page st = Some (u, l)" "1 \<le> currentLimit st"
  shows "0 \<le> u \<and> (currentUntil st = None \<or> u < the (currentUntil st)
    \<or> (u = the (currentUntil st) \<and> currentLimit st < l \<and> l \<le> 500))"
  using assms
  by (auto simp: next_page_def Let_def MAX_PAGINATION_PAGE_SIZE_def split: option.splits if_splits)

type_synonym answers = "nat \<Rightarrow> int option \<Rightarrow> nat \<Rightarrow> wire_event list"

definition ask :: "answers \<Rightarrow> paged \<Rightarrow> wire_event list" where
  \<comment> \<open>the accepted events that the relay sends for the current page\<close>
  "ask relay st = relay (pageIndex st) (currentUntil st) (currentLimit st)"

definition page_end :: "answers \<Rightarrow> paged \<Rightarrow> paged" where
  \<comment> \<open>the state at the EOSE of the page\<close>
  "page_end relay st = after_page (map w_created_at (ask relay st)) (st\<lparr>received := 0, oldestCreatedAt := None\<rparr>)"

function backfill :: "answers \<Rightarrow> paged \<Rightarrow> ((int option \<times> nat) \<times> wire_event list) list" where
  \<comment> \<open>the requests with their answers; a limit is never 0\<close>
  "backfill relay st =
     (if currentLimit st = 0 then []
      else ((currentUntil st, currentLimit st), ask relay st) #
        (case next_page (page_end relay st) of
           None \<Rightarrow> []
         | Some (u, l) \<Rightarrow> backfill relay (advance u l st)))"
  by pat_completeness auto
termination
proof (relation "inv_image (less_than <*lex*> less_than <*lex*> less_than)
    (\<lambda>(relay, st). ((case currentUntil st of None \<Rightarrow> (1 :: nat) | Some u \<Rightarrow> 0),
       (case currentUntil st of None \<Rightarrow> 0 | Some u \<Rightarrow> nat (u + 1)), 500 - currentLimit st))", goal_cases)
  case 1
  show ?case by (intro wf_inv_image wf_lex_prod wf_less_than)
next
  case (2 relay st x u l)
  then show ?case
    using next_page_less[of "page_end relay st" u l]
    by (cases "currentUntil st") (auto simp: advance_def page_end_def)
qed

lemma advance_fields [simp]:
  "currentUntil (advance u l st) = Some u" "currentLimit (advance u l st) = l"
  "pageSize (advance u l st) = pageSize st" "baseFilter (advance u l st) = baseFilter st"
  by (simp_all add: advance_def)

declare backfill.simps [simp del]

definition later_request :: "int option \<times> nat \<Rightarrow> int option \<times> nat \<Rightarrow> bool" where
  \<comment> \<open>the second asks for older events, or for a wider page at the same second\<close>
  "later_request q r \<longleftrightarrow> (case (q, r) of ((None, _), (Some _, _)) \<Rightarrow> True
     | ((Some u, l), (Some u', l')) \<Rightarrow> u' < u \<or> (u' = u \<and> l < l') | _ \<Rightarrow> False)"

lemma later_trans: "later_request a b \<Longrightarrow> later_request b c \<Longrightarrow> later_request a c"
  by (auto simp: later_request_def split: prod.splits option.splits)

lemma later_irrefl: "\<not> later_request a a"
  by (auto simp: later_request_def split: prod.splits option.splits)

lemma backfill_hd:
  "currentLimit st \<noteq> 0 \<Longrightarrow> \<exists>rest. map fst (backfill relay st) = (currentUntil st, currentLimit st) # rest"
  by (subst backfill.simps) simp

lemma backfill_sorted: "sorted_wrt later_request (map fst (backfill relay st))"
proof (induction relay st rule: backfill.induct)
  case (1 relay st)
  show ?case
  proof (cases "currentLimit st = 0 \<or> next_page (page_end relay st) = None")
    case True
    then show ?thesis by (subst backfill.simps) auto
  next
    case False
    then obtain u l where n: "next_page (page_end relay st) = Some (u, l)" "currentLimit st \<noteq> 0" by auto
    have later: "later_request (currentUntil st, currentLimit st) (Some u, l)"
      using next_page_less[OF n(1)] n(2)
      by (auto simp: later_request_def page_end_def split: option.split)
    have ih: "sorted_wrt later_request (map fst (backfill relay (advance u l st)))"
      using 1[OF n(2) n(1)] by simp
    have "later_request (currentUntil st, currentLimit st) r"
      if r: "r \<in> set (map fst (backfill relay (advance u l st)))" for r
    proof (cases "l = 0")
      case True
      then show ?thesis using r by (subst (asm) backfill.simps) simp
    next
      case False
      then obtain rest where "map fst (backfill relay (advance u l st)) = (Some u, l) # rest"
        using backfill_hd[of "advance u l st" relay] by auto
      with ih r later show ?thesis by (auto intro: later_trans)
    qed
    with ih n show ?thesis by (subst backfill.simps) auto
  qed
qed

lemma sorted_later_distinct: "sorted_wrt later_request xs \<Longrightarrow> distinct xs"
  by (induction xs) (auto simp: later_irrefl)

section \<open>A relay that keeps to NIP-01\<close>

definition window :: "int option \<Rightarrow> wire_event set \<Rightarrow> wire_event set" where
  "window u E = {e \<in> E. case u of None \<Rightarrow> True | Some v \<Rightarrow> w_created_at e \<le> v}"

definition nip01 :: "wire_event set \<Rightarrow> answers \<Rightarrow> bool" where
  \<comment> \<open>each page holds the newest \<open>limit\<close> of the stored events up to \<open>until\<close>, in any order\<close>
  "nip01 E relay \<longleftrightarrow> (\<forall>k u n. distinct (relay k u n) \<and> set (relay k u n) \<subseteq> window u E
     \<and> length (relay k u n) = min n (card (window u E))
     \<and> (\<forall>x \<in> set (relay k u n). \<forall>y \<in> window u E - set (relay k u n). w_created_at y \<le> w_created_at x))"

definition in_filter :: "req_filter \<Rightarrow> wire_event \<Rightarrow> bool" where
  "in_filter f e \<longleftrightarrow> 0 \<le> w_created_at e
     \<and> (case f_until f of None \<Rightarrow> True | Some b \<Rightarrow> w_created_at e \<le> b)
     \<and> (case f_since f of None \<Rightarrow> True | Some s \<Rightarrow> s \<le> w_created_at e)"

definition fetched :: "((int option \<times> nat) \<times> wire_event list) list \<Rightarrow> wire_event set" where
  "fetched pages = (\<Union>(q, evs) \<in> set pages. set evs)"

lemma oldest_page:
  "oldestCreatedAt (page_end relay st) =
     (if ask relay st = [] then None else Some (Min (w_created_at ` set (ask relay st))))"
  by (simp add: page_end_def oldest_after)

lemma page_end_fields [simp]:
  "currentUntil (page_end relay st) = currentUntil st" "currentLimit (page_end relay st) = currentLimit st"
  "pageSize (page_end relay st) = pageSize st" "baseFilter (page_end relay st) = baseFilter st"
  "received (page_end relay st) = length (ask relay st)"
  by (simp_all add: page_end_def)

lemma nip01_oldest:
  assumes relay: "nip01 E relay" and fin: "finite E" and n: "n \<le> length (relay k u n)" "1 \<le> n"
    and o: "oldest = Min (w_created_at ` set (relay k u n))"
  shows "oldest \<in> w_created_at ` set (relay k u n)"
    and "e \<in> window u E \<Longrightarrow> oldest < w_created_at e \<Longrightarrow> e \<in> set (relay k u n)"
proof -
  have ne: "set (relay k u n) \<noteq> {}" using n by auto
  then show "oldest \<in> w_created_at ` set (relay k u n)" unfolding o by (intro Min_in) auto
  then obtain x where x: "x \<in> set (relay k u n)" "w_created_at x = oldest" by auto
  show "e \<in> set (relay k u n)" if "e \<in> window u E" "oldest < w_created_at e"
  proof (rule ccontr)
    assume "e \<notin> set (relay k u n)"
    with that(1) x(1) relay have "w_created_at e \<le> w_created_at x"
      unfolding nip01_def by (meson DiffI)
    with x(2) that(2) show False by simp
  qed
qed

lemma nip01_short:
  assumes "nip01 E relay" "finite E" "length (relay k u n) < n"
  shows "set (relay k u n) = window u E"
proof (rule card_subset_eq)
  show "finite (window u E)" using assms(2) by (simp add: window_def)
  show "set (relay k u n) \<subseteq> window u E" using assms(1) by (simp add: nip01_def)
  have "length (relay k u n) = card (window u E)" using assms(1,3) by (auto simp: nip01_def)
  then show "card (set (relay k u n)) = card (window u E)"
    using assms(1) by (metis nip01_def distinct_card)
qed

lemma one_second:
  \<comment> \<open>a full page within one second means that the second holds a whole page\<close>
  assumes relay: "nip01 E relay" and fin: "finite E" and n: "n \<le> length (relay k (Some u) n)" "1 \<le> n"
    and o: "Min (w_created_at ` set (relay k (Some u) n)) = u"
  shows "n \<le> card {e \<in> E. w_created_at e = u}"
proof -
  let ?p = "relay k (Some u) n"
  have "set ?p \<subseteq> {e \<in> E. w_created_at e = u}"
  proof
    fix e
    assume e: "e \<in> set ?p"
    then have "e \<in> E" "w_created_at e \<le> u" using relay by (fastforce simp: nip01_def window_def)+
    moreover have "Min (w_created_at ` set ?p) \<le> w_created_at e" using e by (intro Min_le) auto
    then have "u \<le> w_created_at e" using o by simp
    ultimately show "e \<in> {e \<in> E. w_created_at e = u}" by simp
  qed
  then have "card (set ?p) \<le> card {e \<in> E. w_created_at e = u}" using fin by (intro card_mono) auto
  moreover have "card (set ?p) = length ?p" using relay by (simp add: nip01_def distinct_card)
  ultimately show ?thesis using n by simp
qed

lemma next_page_honest:
  assumes relay: "nip01 E relay" and fin: "finite E" and E: "\<forall>e \<in> E. in_filter (baseFilter st) e"
    and sparse: "\<forall>t. card {e \<in> E. w_created_at e = t} < 500"
    and lim: "1 \<le> currentLimit st" "1 \<le> pageSize st"
    and full: "currentLimit st \<le> length (ask relay st)"
    and o: "oldest = Min (w_created_at ` set (ask relay st))"
  shows "\<exists>l \<ge> 1. next_page (page_end relay st) = Some (oldest, l)"
proof -
  have ne: "ask relay st \<noteq> []" using full lim by auto
  have old: "oldestCreatedAt (page_end relay st) = Some oldest" using ne o by (simp add: oldest_page)
  obtain x where x: "x \<in> set (ask relay st)" "w_created_at x = oldest"
    using nip01_oldest(1)[OF relay fin, of "currentLimit st" "pageIndex st" "currentUntil st" oldest] full lim o
    unfolding ask_def by auto
  have xE: "x \<in> window (currentUntil st) E" using x(1) relay unfolding ask_def nip01_def by blast
  then have inf: "in_filter (baseFilter st) x" using E by (simp add: window_def)
  have until: "(case f_until (baseFilter st) of None \<Rightarrow> oldest | Some b \<Rightarrow> min oldest b) = oldest"
    using inf x(2) by (auto simp: in_filter_def split: option.splits)
  have range: "\<not> (oldest < 0 \<or> (case f_since (baseFilter st) of None \<Rightarrow> False | Some s \<Rightarrow> oldest < s))"
    using inf x(2) by (auto simp: in_filter_def split: option.splits)
  have le: "currentUntil st = Some u \<Longrightarrow> oldest \<le> u" for u
    using xE x(2) by (auto simp: window_def)
  have wide: "currentUntil st = Some oldest \<Longrightarrow> currentLimit st < 500"
    using one_second[OF relay fin, of "currentLimit st" "pageIndex st" oldest] full lim o sparse
    unfolding ask_def by (metis leD le_less_trans linorder_not_less)
  have np: "next_page (page_end relay st) =
      (case (case currentUntil st of
            None \<Rightarrow> Some (pageSize st)
          | Some u \<Rightarrow> if oldest < u then Some (pageSize st)
              else if oldest = u \<and> currentLimit st < MAX_PAGINATION_PAGE_SIZE
              then Some (min MAX_PAGINATION_PAGE_SIZE (currentLimit st * 2)) else None) of
         None \<Rightarrow> None | Some nextLimit \<Rightarrow> Some (oldest, nextLimit))"
  proof -
    have r: "(oldest < 0 \<or> (case f_since (baseFilter st) of None \<Rightarrow> False | Some s \<Rightarrow> oldest < s)) = False"
      using range by blast
    have f: "(length (ask relay st) < currentLimit st) = False" using full by simp
    show ?thesis
      unfolding next_page_def old option.case page_end_fields until Let_def r f if_False ..
  qed
  show ?thesis
  proof (cases "currentUntil st")
    case None
    then show ?thesis using np lim(2) by simp
  next
    case (Some u)
    with le[OF Some] wide lim show ?thesis
      unfolding np by (cases "oldest = u") (auto simp: MAX_PAGINATION_PAGE_SIZE_def)
  qed
qed

lemma backfill_complete:
  assumes fin: "finite E" and relay: "nip01 E relay"
    and sparse: "\<forall>t. card {e \<in> E. w_created_at e = t} < 500"
    and E: "\<forall>e \<in> E. in_filter (baseFilter st) e" and lim: "1 \<le> currentLimit st" "1 \<le> pageSize st"
  shows "window (currentUntil st) E \<subseteq> fetched (backfill relay st)"
  using relay E lim
proof (induction relay st rule: backfill.induct)
  case (1 relay st)
  have step: "backfill relay st = ((currentUntil st, currentLimit st), ask relay st) #
      (case next_page (page_end relay st) of None \<Rightarrow> [] | Some (u, l) \<Rightarrow> backfill relay (advance u l st))"
    using 1(4) by (subst backfill.simps) simp
  then have page: "set (ask relay st) \<subseteq> fetched (backfill relay st)" by (auto simp: fetched_def)
  show ?case
  proof (cases "length (ask relay st) < currentLimit st")
    case True
    with nip01_short[OF 1(2) fin] page show ?thesis by (simp add: ask_def)
  next
    case False
    define oldest where "oldest = Min (w_created_at ` set (ask relay st))"
    obtain l where l: "1 \<le> l" "next_page (page_end relay st) = Some (oldest, l)"
      using next_page_honest[OF 1(2) fin 1(3) sparse 1(4,5) _ oldest_def] False by auto
    have ih: "window (Some oldest) E \<subseteq> fetched (backfill relay (advance oldest l st))"
      using 1(1)[OF _ l(2) refl] 1(2-5) l(1) by simp
    have "fetched (backfill relay (advance oldest l st)) \<subseteq> fetched (backfill relay st)"
      using step l(2) by (auto simp: fetched_def)
    moreover have "e \<in> set (ask relay st)" if "e \<in> window (currentUntil st) E" "oldest < w_created_at e" for e
      using nip01_oldest(2)[OF 1(2) fin, of "currentLimit st" "pageIndex st" "currentUntil st" oldest e]
        False 1(4) that oldest_def unfolding ask_def by simp
    ultimately show ?thesis
      using ih page unfolding window_def by (smt (verit) mem_Collect_eq option.simps(5) subset_iff)
  qed
qed

lemma dense_second_stops:
  \<comment> \<open>a second that fills the widest page ends the backfill, whatever is older\<close>
  assumes "currentUntil st = Some u" "500 \<le> currentLimit st" "ask relay st \<noteq> []"
    "\<forall>e \<in> set (ask relay st). w_created_at e = u"
    "case f_until (baseFilter st) of None \<Rightarrow> True | Some b \<Rightarrow> u \<le> b"
  shows "next_page (page_end relay st) = None"
proof -
  have "w_created_at ` set (ask relay st) = {u}" using assms(3,4) by (cases "ask relay st") auto
  then have "oldestCreatedAt (page_end relay st) = Some u" using assms(3) by (simp add: oldest_page)
  then show ?thesis
    using assms(1,2,5)
    by (auto simp: next_page_def Let_def MAX_PAGINATION_PAGE_SIZE_def min_def split: option.split)
qed

section \<open>Properties\<close>

text \<open>
  C21. The backfill ends against every relay, also one that answers with anything at any length: each
  request asks for strictly older events than the one before, or for a wider page at the same
  second, and the width is bounded; so no request is ever repeated.
\<close>

theorem backfill_terminates:
  "sorted_wrt later_request (map fst (backfill relay st)) \<and> distinct (map fst (backfill relay st))"
  using backfill_sorted sorted_later_distinct by blast

text \<open>
  C20. Against a relay that answers each page with the newest events up to its limit, the backfill
  fetches the whole stored history of the filter, provided that no second holds 500 events.
\<close>

theorem backfill_fetches_history:
  assumes "finite E" "nip01 E relay" "\<forall>t. card {e \<in> E. w_created_at e = t} < 500"
    "\<forall>e \<in> E. in_filter f e"
  shows "E \<subseteq> fetched (backfill relay (new_paged subId f sz delay))"
proof -
  let ?st = "new_paged subId f sz delay"
  have filter: "\<forall>e \<in> E. in_filter (baseFilter ?st) e"
    using assms(4) by (simp add: new_paged_def Let_def in_filter_def)
  have "window (currentUntil ?st) E = E"
    using assms(4) by (auto simp: new_paged_def Let_def window_def in_filter_def split: option.split)
  then show ?thesis
    using backfill_complete[OF assms(1-3) filter] by (simp add: new_paged_def Let_def)
qed

definition ex_relay :: answers where
  "ex_relay k u n = (if n = 0 \<or> (case u of None \<Rightarrow> False | Some v \<Rightarrow> v < 5) then [] else [ex_wire])"

theorem backfill_fetches_history_witness:
  "{ex_wire} \<subseteq> fetched (backfill ex_relay (new_paged ''feed'' no_filter 200 50))"
proof (rule backfill_fetches_history)
  have w: "window u {ex_wire} = (case u of None \<Rightarrow> {ex_wire} | Some v \<Rightarrow> if v < 5 then {} else {ex_wire})" for u
    by (auto simp: window_def ex_wire_def split: option.split)
  show "nip01 {ex_wire} ex_relay"
    unfolding nip01_def w by (auto simp: ex_relay_def split: option.split)
  have "{e \<in> {ex_wire}. w_created_at e = t} \<subseteq> {ex_wire}" for t by auto
  then have le: "card {e \<in> {ex_wire}. w_created_at e = t} \<le> card {ex_wire}" for t
    by (intro card_mono) auto
  show "\<forall>t. card {e \<in> {ex_wire}. w_created_at e = t} < 500"
    by (intro allI le_less_trans[OF le]) simp
  show "\<forall>e \<in> {ex_wire}. in_filter no_filter e" by (simp add: in_filter_def no_filter_def ex_wire_def)
qed simp

end
