(* ===== verification/RelayClient.thy ===== *)
theory RelayClient
  imports Backfill EventStore Negentropy
begin

text \<open>
  \<open>client/src/nostr/RelayClient.ts\<close>: subscriptions, ingest, publishing, one-shot fetches, paged backfill
  and reconciliation over one socket.

  The fields of the class are the record \<open>client\<close>.  An \<^emph>\<open>input\<close> is a call of the owner, a frame of
  the relay, a timer or the opening and closing of the socket; a run is any sequence of them.  What
  the client does is appended to \<open>outs\<close>: frames sent, listeners called, promises resolved.  The
  cache is the in-memory store of \<open>EventStore\<close>, whose \<open>save\<close> is what \<open>storeIndividually\<close> calls.

  A JavaScript \<open>Set\<close> or \<open>Map\<close> is a distinct or association list.  \<open>socket.send\<close> throws exactly
  when the socket is not open.  The consumed prefix of \<open>inboundQueue\<close> is dropped at once; the number
  of frames that fit into a tick (batch size, byte cap and time budget) is an argument of the drain,
  at least 1.  Signature verification is a parameter.  Listeners do not throw and do not call back
  into the client in the same turn.  The warnings of \<open>warnKindDrift\<close> and the wall-clock fields of
  the reconciliation statistics are left out.
\<close>

section \<open>Configuration and state\<close>

record subscription =
  s_subId :: string
  s_filter :: req_filter
  s_pagination :: "(nat \<times> nat) option" \<comment> \<open>\<open>pageSize\<close> and \<open>delayMs\<close>\<close>

record neg_options =
  no_filter_of :: "mstore \<Rightarrow> req_filter"
  no_items :: "mstore \<Rightarrow> req_filter \<Rightarrow> item list"
  no_fallback :: "mstore \<Rightarrow> req_filter"
  no_frameSizeLimit :: nat
  no_buckets :: nat

record rc_config =
  rc_subId :: string
  rc_kinds :: "int list"
  rc_verify :: "wire_event \<Rightarrow> bool"
  rc_limit :: "int option"
  rc_overlap :: int
  rc_neg :: "neg_options option"
  rc_negSubId :: string
  rc_batched :: bool \<comment> \<open>\<open>inboundBatchSize > 0\<close>\<close>
  rc_isolates :: bool \<comment> \<open>the socket has \<open>openPublishCircuit\<close>\<close>
  rc_hx :: "string \<Rightarrow> u8 list"
  rc_fph :: "u8 list \<Rightarrow> string"

datatype fetch =
    FById "string list"
  | FFilter "req_filter list" bool \<comment> \<open>dedupe key; a matching event has arrived\<close>
  | FOlder string

record publish_result =
  pr_accepted :: bool
  pr_message :: string
  pr_offline :: bool

datatype rc_output =
    Sent stext
  | SocketClosed
  | OnSeen wire_event
  | OnEvent wire_event
  | OnIngest wire_event
  | OnSynced
  | OnSubscribed
  | OnSubError string string
  | OnNotice string
  | OnScopedEose string
  | PublishDone nat publish_result
  | PublishThrew nat
  | CountDone string "jsval option" \<comment> \<open>\<^const>\<open>None\<close> is the default 0\<close>
  | CountNull string
  | CountThrew string
  | CircuitOpen nat nat \<comment> \<open>isolated publish and attempt\<close>
  | CircuitSent nat wire_event
  | CircuitClose nat
  | Reconciled nat nat nat nat bool \<comment> \<open>rounds, need, have, bytes out, fell back\<close>
  | ResyncDone nat

record isolated =
  is_event :: wire_event
  is_attempt :: nat
  is_live :: bool \<comment> \<open>a circuit is open and not settled; otherwise a retry timer is armed\<close>

record client =
  store :: mstore
  knownSubIds :: "string list"
  pendingSubs :: "string list"
  pendingPublishes :: "(string \<times> nat) list"
  publishTimers :: "(nat \<times> wire_event) list"
  publishSeq :: nat
  isolatedPubs :: "(nat \<times> isolated) list"
  sharedPublishStallStreak :: nat
  pendingCounts :: "string list"
  countSeq :: nat
  fetchSubs :: "(string \<times> fetch) list"
  fetchSeq :: nat
  fetchQueue :: "string list list"
  activeIdFetchSubId :: "string option"
  pumpTimers :: nat
  fetchedIds :: "string list"
  fetchedFilters :: "req_filter list list"
  inboundQueue :: "stext list"
  inboundTimer :: bool
  scopedSubRetries :: "(string \<times> req_filter list \<times> nat) list"
  pagedSubs :: "(string \<times> string) list" \<comment> \<open>subscription to the root that owns the state\<close>
  pagedStates :: "(string \<times> paged) list"
  olderPageInFlight :: "(string \<times> string) list"
  olderPageSeq :: nat
  synced :: bool
  rc_ng :: "ng option"
  negActive :: bool
  negNeed :: "string list"
  negFetchPending :: bool
  negTimer :: bool
  negRounds :: nat
  negFrameBytesOut :: nat
  negHaveCount :: nat
  resyncWaiters :: "nat list" \<comment> \<open>\<open>resyncResolve\<close>: the promises it resolves\<close>
  resyncTimer :: bool
  resyncEoseSubId :: "string option"
  resyncSeq :: nat
  resyncCalls :: nat
  sockOpen :: bool
  outs :: "rc_output list"

definition new_client :: "mstore \<Rightarrow> client" where
  "new_client st = \<lparr>store = st, knownSubIds = [], pendingSubs = [], pendingPublishes = [], publishTimers = [],
     publishSeq = 0, isolatedPubs = [], sharedPublishStallStreak = 0, pendingCounts = [], countSeq = 0,
     fetchSubs = [], fetchSeq = 0, fetchQueue = [], activeIdFetchSubId = None, pumpTimers = 0,
     fetchedIds = [], fetchedFilters = [], inboundQueue = [], inboundTimer = False,
     scopedSubRetries = [], pagedSubs = [], pagedStates = [], olderPageInFlight = [], olderPageSeq = 0,
     synced = False, rc_ng = None, negActive = False, negNeed = [], negFetchPending = False,
     negTimer = False, negRounds = 0, negFrameBytesOut = 0, negHaveCount = 0, resyncWaiters = [],
     resyncTimer = False, resyncEoseSubId = None, resyncSeq = 0, resyncCalls = 0, sockOpen = False,
     outs = []\<rparr>"

definition did :: "rc_output \<Rightarrow> client \<Rightarrow> client" where
  "did x c = c\<lparr>outs := outs c @ [x]\<rparr>"

definition send_try :: "stext \<Rightarrow> client \<Rightarrow> client" where
  \<comment> \<open>\<open>try { send } catch {}\<close>\<close>
  "send_try m c = (if sockOpen c then did (Sent m) c else c)"

definition set_del :: "'a \<Rightarrow> 'a list \<Rightarrow> 'a list" where
  "set_del x xs = filter (\<lambda>y. y \<noteq> x) xs"

definition DEDUPE_SET_CAP :: nat where "DEDUPE_SET_CAP = 4096"
definition DEDUPE_SET_EVICT_BATCH :: nat where "DEDUPE_SET_EVICT_BATCH = 512"
definition FETCH_CHUNK_SIZE :: nat where "FETCH_CHUNK_SIZE = 25"
definition SHARED_PUBLISH_STALL_STREAK :: nat where "SHARED_PUBLISH_STALL_STREAK = 2"
definition MAX_PUBLISH_CIRCUIT_ATTEMPTS :: nat where "MAX_PUBLISH_CIRCUIT_ATTEMPTS = 3"
definition SCOPED_SUB_RETRIES :: nat where
  \<comment> \<open>the length of \<open>SCOPED_SUB_RETRY_BACKOFF_MS\<close>\<close>
  "SCOPED_SUB_RETRIES = 2"

definition addBoundedDedupe :: "'a \<Rightarrow> 'a list \<Rightarrow> 'a list" where
  "addBoundedDedupe v xs =
     (let xs = set_add v xs in
      if length xs \<le> DEDUPE_SET_CAP then xs else drop DEDUPE_SET_EVICT_BATCH xs)"

definition stableFilterKey :: "req_filter list \<Rightarrow> req_filter list" where
  \<comment> \<open>the fields of the record are ordered; the tag fields are sorted by name\<close>
  "stableFilterKey fs =
     map (\<lambda>f. f\<lparr>f_tags := js_sort (\<lambda>a b. str_cmp (fst a) (fst b)) (f_tags f)\<rparr>) fs"

section \<open>Ingest\<close>

datatype ingest_result = Stored | Known | RejectedEvent

definition to_event :: "wire_event \<Rightarrow> event" where
  "to_event e = \<lparr>eid = w_id e, pubkey = w_pubkey e, created_at = w_created_at e, kind = nat (w_kind e),
     tags = w_tags e, content = w_content e\<rparr>"

definition accepts :: "rc_config \<Rightarrow> wire_event \<Rightarrow> bool" where
  "accepts cfg e \<longleftrightarrow> w_kind e \<in> set (rc_kinds cfg) \<or> w_kind e \<in> set GROUP_KINDS \<or> w_kind e \<in> set FETCH_ONLY_KINDS"

definition save_now :: "wire_event \<Rightarrow> client \<Rightarrow> client \<times> bool" where
  "save_now e c = (let (st, ok) = save (to_event e) (store c) in (c\<lparr>store := st\<rparr>, ok))"

definition ingestEvent ::
    "rc_config \<Rightarrow> wire_event list option \<Rightarrow> wire_event \<Rightarrow> client \<Rightarrow> ingest_result \<times> wire_event list option \<times> client" where
  \<comment> \<open>the batch of the tick, if the frame is drained in one\<close>
  "ingestEvent cfg batch e c =
     (if \<not> accepts cfg e then (RejectedEvent, batch, c)
      else if has (store c) (w_id e) \<or> (case batch of Some b \<Rightarrow> w_id e \<in> set (map w_id b) | None \<Rightarrow> False)
      then (Known, batch, did (OnIngest e) (did (OnSeen e) c))
      else if \<not> rc_verify cfg e then (RejectedEvent, batch, c)
      else let c = did (OnSeen e) c in
        case batch of
          Some b \<Rightarrow> (Stored, Some (b @ [e]), c)
        | None \<Rightarrow>
            let (c, ok) = save_now e c in
            if ok then (Stored, None, did (OnIngest e) (did (OnEvent e) c))
            else (Known, None, did (OnIngest e) c))"

definition ingest :: "rc_config \<Rightarrow> wire_event \<Rightarrow> client \<Rightarrow> client" where
  "ingest cfg e c = snd (snd (ingestEvent cfg None e c))"

fun storeIndividually :: "wire_event list \<Rightarrow> client \<Rightarrow> client \<times> wire_event list" where
  "storeIndividually [] c = (c, [])"
| "storeIndividually (e # es) c =
     (let (c, ok) = save_now e c; (c, rest) = storeIndividually es c
      in (c, if ok then e # rest else rest))"

definition flushPendingIngest :: "wire_event list \<Rightarrow> client \<Rightarrow> client" where
  "flushPendingIngest batch c =
     (let (c, stored) = storeIndividually batch c
      in fold (\<lambda>e c. did (OnIngest e) (did (OnEvent e) c)) stored c)"

section \<open>Sync state and resync\<close>

definition markSynced :: "client \<Rightarrow> client" where
  "markSynced c = (if synced c then c else did OnSynced (c\<lparr>synced := True\<rparr>))"

definition pending_done :: "string \<Rightarrow> client \<Rightarrow> client" where
  \<comment> \<open>\<open>if (pendingSubs.delete(subId) && pendingSubs.size === 0) markSynced()\<close>\<close>
  "pending_done subId c =
     (let c' = c\<lparr>pendingSubs := set_del subId (pendingSubs c)\<rparr>
      in if subId \<in> set (pendingSubs c) \<and> pendingSubs c' = [] then markSynced c' else c')"

definition settleResync :: "client \<Rightarrow> client" where
  "settleResync c =
     (let eoseSub = resyncEoseSubId c;
          c = c\<lparr>resyncTimer := False, resyncEoseSubId := None\<rparr>;
          c = (case eoseSub of None \<Rightarrow> c
             | Some s \<Rightarrow> send_try (closeMessage s) (c\<lparr>knownSubIds := set_del s (knownSubIds c)\<rparr>));
          ws = resyncWaiters c
      in fold (\<lambda>w. did (ResyncDone w)) ws (c\<lparr>resyncWaiters := []\<rparr>))"

definition completeNegentropySlot :: "rc_config \<Rightarrow> client \<Rightarrow> client" where
  "completeNegentropySlot cfg c = settleResync (pending_done (rc_negSubId cfg) c)"

definition completeNegentropyFetch :: "rc_config \<Rightarrow> client \<Rightarrow> client" where
  "completeNegentropyFetch cfg c =
     (if \<not> negFetchPending c \<or> activeIdFetchSubId c \<noteq> None \<or> fetchQueue c \<noteq> [] then c
      else completeNegentropySlot cfg (c\<lparr>negFetchPending := False\<rparr>))"

section \<open>One-shot fetches\<close>

definition fetch_cleanup :: "rc_config \<Rightarrow> string \<Rightarrow> client \<Rightarrow> client" where
  "fetch_cleanup cfg subId c =
     (case map_of (fetchSubs c) subId of
        None \<Rightarrow> c
      | Some f \<Rightarrow>
          let c = c\<lparr>fetchSubs := AList.delete subId (fetchSubs c), knownSubIds := set_del subId (knownSubIds c)\<rparr>
          in (case f of
                FById want \<Rightarrow>
                  let c = c\<lparr>fetchedIds := filter (\<lambda>i. \<not> (i \<in> set want \<and> \<not> has (store c) i)) (fetchedIds c)\<rparr>;
                      c = send_try (closeMessage subId) c
                  in if activeIdFetchSubId c = Some subId
                     then let c = c\<lparr>activeIdFetchSubId := None\<rparr>
                          in if fetchQueue c = [] then completeNegentropyFetch cfg c
                             else c\<lparr>pumpTimers := pumpTimers c + 1\<rparr>
                     else c
              | FFilter key matched \<Rightarrow>
                  send_try (closeMessage subId)
                    (if matched then c else c\<lparr>fetchedFilters := set_del key (fetchedFilters c)\<rparr>)
              | FOlder subKey \<Rightarrow>
                  send_try (closeMessage subId)
                    (if map_of (olderPageInFlight c) subKey = Some subId
                     then c\<lparr>olderPageInFlight := AList.delete subKey (olderPageInFlight c)\<rparr> else c)))"

definition open_fetch :: "rc_config \<Rightarrow> string \<Rightarrow> fetch \<Rightarrow> req_filter list \<Rightarrow> client \<Rightarrow> client" where
  \<comment> \<open>register the cleanup, arm its timer, send the REQ or clean up at once\<close>
  "open_fetch cfg subId f filters c =
     (let c = c\<lparr>fetchSubs := AList.update subId f (fetchSubs c)\<rparr>
      in if sockOpen c then did (Sent (reqMessage subId filters)) c else fetch_cleanup cfg subId c)"

definition fetch_name :: "nat \<Rightarrow> string" where
  "fetch_name n = ''fetch:'' @ js_dec n"

definition pumpFetchQueue :: "rc_config \<Rightarrow> client \<Rightarrow> client" where
  "pumpFetchQueue cfg c =
     (if activeIdFetchSubId c \<noteq> None then c
      else case fetchQueue c of
        [] \<Rightarrow> c
      | want # rest \<Rightarrow>
          let subId = fetch_name (fetchSeq c);
              c = c\<lparr>fetchQueue := rest, fetchSeq := fetchSeq c + 1, activeIdFetchSubId := Some subId,
                    knownSubIds := set_add subId (knownSubIds c)\<rparr>
          in open_fetch cfg subId (FById want) [no_filter\<lparr>f_ids := Some want\<rparr>] c)"

function chunks :: "'a list \<Rightarrow> 'a list list" where
  "chunks xs = (if xs = [] then [] else take FETCH_CHUNK_SIZE xs # chunks (drop FETCH_CHUNK_SIZE xs))"
  by pat_completeness auto
termination
  by (relation "measure length") (auto simp: FETCH_CHUNK_SIZE_def)

declare chunks.simps [simp del]

definition fetchById :: "rc_config \<Rightarrow> string list \<Rightarrow> client \<Rightarrow> client" where
  "fetchById cfg ids c =
     (let want = filter (\<lambda>i. i \<noteq> '''' \<and> i \<notin> set (fetchedIds c)) ids
      in if want = [] then c
         else pumpFetchQueue cfg
           (c\<lparr>fetchedIds := fold addBoundedDedupe want (fetchedIds c), fetchQueue := fetchQueue c @ chunks want\<rparr>))"

definition fetchByFilter :: "rc_config \<Rightarrow> req_filter list \<Rightarrow> client \<Rightarrow> client" where
  "fetchByFilter cfg filters c =
     (let key = stableFilterKey filters in
      if filters = [] \<or> key \<in> set (fetchedFilters c) then c
      else let subId = fetch_name (fetchSeq c)
           in open_fetch cfg subId (FFilter key False) filters
                (c\<lparr>fetchedFilters := addBoundedDedupe key (fetchedFilters c), fetchSeq := fetchSeq c + 1,
                   knownSubIds := set_add subId (knownSubIds c)\<rparr>))"

definition older_name :: "string \<Rightarrow> nat \<Rightarrow> string" where
  "older_name subKey n = ''older:'' @ subKey @ '':'' @ js_dec n"

definition requestOlder :: "rc_config \<Rightarrow> string \<Rightarrow> req_filter \<Rightarrow> int \<Rightarrow> int \<Rightarrow> client \<Rightarrow> client" where
  \<comment> \<open>\<open>limit\<close> with its default filled in\<close>
  "requestOlder cfg subKey f before lim c =
     (if map_of (olderPageInFlight c) subKey \<noteq> None then c
      else let subId = older_name subKey (olderPageSeq c)
           in open_fetch cfg subId (FOlder subKey) [f\<lparr>f_until := Some before, f_limit := Some (max 1 lim)\<rparr>]
                (c\<lparr>olderPageSeq := olderPageSeq c + 1, knownSubIds := set_add subId (knownSubIds c),
                   olderPageInFlight := AList.update subKey subId (olderPageInFlight c)\<rparr>))"

section \<open>Reconciliation\<close>

definition negFallback :: "rc_config \<Rightarrow> client \<Rightarrow> client" where
  "negFallback cfg c =
     (if \<not> negActive c then c
      else
        let need = length (negNeed c);
            c = c\<lparr>negActive := False, negFetchPending := False, negTimer := False, rc_ng := None\<rparr>;
            c = did (Reconciled (negRounds c) need (negHaveCount c) (negFrameBytesOut c) True) c;
            c = c\<lparr>negNeed := []\<rparr>
        in (case rc_neg cfg of
              Some opts \<Rightarrow>
                if sockOpen c
                then did (Sent (reqMessage (rc_negSubId cfg) [no_fallback opts (store c)]))
                       (did (Sent (negCloseMessage (rc_negSubId cfg))) c)
                else settleResync (pending_done (rc_negSubId cfg) c)
            | None \<Rightarrow> settleResync (pending_done (rc_negSubId cfg) (send_try (negCloseMessage (rc_negSubId cfg)) c))))"

definition finishNegentropy :: "rc_config \<Rightarrow> client \<Rightarrow> client" where
  "finishNegentropy cfg c =
     (if \<not> negActive c then c
      else
        let c = c\<lparr>negActive := False, negFetchPending := False, negTimer := False, rc_ng := None\<rparr>;
            c = did (Reconciled (negRounds c) (length (negNeed c)) (negHaveCount c) (negFrameBytesOut c) False) c;
            c = send_try (negCloseMessage (rc_negSubId cfg)) c;
            need = negNeed c
        in if need \<noteq> []
           then completeNegentropyFetch cfg
                  ((fetchById cfg need (c\<lparr>negFetchPending := True\<rparr>))\<lparr>negNeed := []\<rparr>)
           else completeNegentropySlot cfg c)"

definition clearNegentropy :: "client \<Rightarrow> client" where
  "clearNegentropy c =
     c\<lparr>negActive := False, negFetchPending := False, negTimer := False, rc_ng := None, negNeed := []\<rparr>"

definition startNegentropy :: "rc_config \<Rightarrow> client \<Rightarrow> client" where
  "startNegentropy cfg c =
     (case rc_neg cfg of
        None \<Rightarrow> c
      | Some opts \<Rightarrow>
          let c = c\<lparr>negNeed := [], negActive := True, negRounds := 0, negFrameBytesOut := 0, negHaveCount := 0\<rparr>;
              f = no_filter_of opts (store c)
          in (case new_negentropy (fromItems (no_items opts (store c) f)) (no_frameSizeLimit opts) (no_buckets opts) of
                Inl _ \<Rightarrow> negFallback cfg c
              | Inr ng \<Rightarrow> (case initiate (rc_hx cfg) (rc_fph cfg) ng of
                    Inl _ \<Rightarrow> negFallback cfg (c\<lparr>rc_ng := Some ng\<rparr>)
                  | Inr (ng, msg) \<Rightarrow>
                      let c = c\<lparr>rc_ng := Some ng, negFrameBytesOut := length msg div 2\<rparr>
                      in if sockOpen c
                         then (did (Sent (negOpenMessage (rc_negSubId cfg) f msg)) c)\<lparr>negTimer := True\<rparr>
                         else negFallback cfg c)))"

definition handleNegMsg :: "rc_config \<Rightarrow> string \<Rightarrow> client \<Rightarrow> client" where
  "handleNegMsg cfg message c =
     (case rc_ng c of
        None \<Rightarrow> c
      | Some ng \<Rightarrow>
          let c = c\<lparr>negRounds := negRounds c + 1\<rparr>
          in (case reconcile (rc_hx cfg) (rc_fph cfg) ng message of
                Inl _ \<Rightarrow> negFallback cfg c
              | Inr r \<Rightarrow>
                  let c = c\<lparr>negNeed := negNeed c @ res_need r, negHaveCount := negHaveCount c + length (res_have r)\<rparr>
                  in (case res_output r of
                        None \<Rightarrow> finishNegentropy cfg c
                      | Some out \<Rightarrow>
                          let c = c\<lparr>negFrameBytesOut := negFrameBytesOut c + length out div 2\<rparr>
                          in if sockOpen c then did (Sent (negMsgMessage (rc_negSubId cfg) out)) c
                             else negFallback cfg c)))"

section \<open>Subscriptions\<close>

definition incrementalSince :: "rc_config \<Rightarrow> client \<Rightarrow> int option" where
  "incrementalSince cfg c = map_option (\<lambda>latest. max 0 (latest - rc_overlap cfg))
     (latestCreatedAt (store c) (Some (map nat (rc_kinds cfg))))"

definition defaultPlan :: "rc_config \<Rightarrow> client \<Rightarrow> subscription list" where
  "defaultPlan cfg c = [\<lparr>s_subId = rc_subId cfg,
     s_filter = no_filter\<lparr>f_kinds := Some (rc_kinds cfg), f_since := incrementalSince cfg c, f_limit := rc_limit cfg\<rparr>,
     s_pagination = None\<rparr>]"

definition open_sub :: "subscription \<Rightarrow> client \<Rightarrow> client" where
  "open_sub s c =
     (case s_pagination s of
        Some (sz, delay) \<Rightarrow>
          let pg = new_paged (s_subId s) (s_filter s) sz delay
          in did (Sent (reqMessage (s_subId s) [baseFilter pg]))
               (c\<lparr>pagedSubs := AList.update (s_subId s) (s_subId s) (pagedSubs c),
                  pagedStates := AList.update (s_subId s) pg (pagedStates c)\<rparr>)
      | None \<Rightarrow> did (Sent (reqMessage (s_subId s) [s_filter s])) c)"

definition sendSubscribe :: "rc_config \<Rightarrow> subscription list \<Rightarrow> client \<Rightarrow> client" where
  \<comment> \<open>with the plan's subscriptions; it runs when the socket has just opened\<close>
  "sendSubscribe cfg subs c =
     (let c = (clearNegentropy (c\<lparr>synced := False\<rparr>))\<lparr>pagedSubs := [], pagedStates := []\<rparr>;
          ids = map s_subId subs @ (if rc_neg cfg \<noteq> None then [rc_negSubId cfg] else []);
          c = c\<lparr>knownSubIds := remdups ids, pendingSubs := remdups ids\<rparr>
      in if ids = [] then did OnSubscribed (markSynced c)
         else did OnSubscribed (startNegentropy cfg (fold open_sub subs c)))"

definition cancelScopedSubRetry :: "string \<Rightarrow> client \<Rightarrow> client" where
  "cancelScopedSubRetry subId c = c\<lparr>scopedSubRetries := AList.delete subId (scopedSubRetries c)\<rparr>"

definition subscribeScopedAttempt :: "string \<Rightarrow> req_filter list \<Rightarrow> nat \<Rightarrow> client \<Rightarrow> client" where
  "subscribeScopedAttempt subId filters att c =
     (let c = cancelScopedSubRetry subId c
      in if sockOpen c
         then did (Sent (reqMessage subId filters)) (c\<lparr>knownSubIds := set_add subId (knownSubIds c)\<rparr>)
         else let c = c\<lparr>knownSubIds := set_del subId (knownSubIds c)\<rparr>
              in if att \<ge> SCOPED_SUB_RETRIES then c
                 else c\<lparr>scopedSubRetries := AList.update subId (filters, att) (scopedSubRetries c)\<rparr>)"

definition closeSub :: "string \<Rightarrow> client \<Rightarrow> client" where
  "closeSub subId c =
     (let c = cancelScopedSubRetry subId c
      in if subId \<notin> set (knownSubIds c) then c
         else send_try (closeMessage subId) (c\<lparr>knownSubIds := set_del subId (knownSubIds c)\<rparr>))"

definition resync_name :: "nat \<Rightarrow> string" where
  "resync_name n = ''resync:'' @ js_dec n"

definition resyncFeed :: "rc_config \<Rightarrow> subscription list \<Rightarrow> client \<Rightarrow> client" where
  \<comment> \<open>with the current plan; the promise is named by \<open>resyncCalls\<close>\<close>
  "resyncFeed cfg plan c =
     (let w = resyncCalls c; c = c\<lparr>resyncCalls := w + 1\<rparr>
      in if resyncWaiters c \<noteq> [] then c\<lparr>resyncWaiters := resyncWaiters c @ [w]\<rparr>
         else
           let c = c\<lparr>resyncWaiters := [w], resyncTimer := True\<rparr>
           in if rc_neg cfg \<noteq> None
              then if \<not> negActive c \<and> \<not> negFetchPending c
                   then startNegentropy cfg (clearNegentropy
                     (c\<lparr>knownSubIds := set_add (rc_negSubId cfg) (knownSubIds c),
                        pendingSubs := set_add (rc_negSubId cfg) (pendingSubs c)\<rparr>))
                   else c
              else
                let subId = resync_name (resyncSeq c);
                    c = c\<lparr>resyncSeq := resyncSeq c + 1, resyncEoseSubId := Some subId,
                          knownSubIds := set_add subId (knownSubIds c)\<rparr>;
                    f = (case find (\<lambda>s. s_subId s = ''feed'') plan of
                           Some s \<Rightarrow> s_filter s | None \<Rightarrow> s_filter (hd (defaultPlan cfg c)))
                in if sockOpen c then did (Sent (reqMessage subId [f])) c else settleResync c)"

section \<open>Paged backfill\<close>

definition paged_state :: "string \<Rightarrow> client \<Rightarrow> paged option" where
  \<comment> \<open>\<open>pagedSubs.get(subId)\<close>\<close>
  "paged_state subId c = (case map_of (pagedSubs c) subId of None \<Rightarrow> None | Some root \<Rightarrow> map_of (pagedStates c) root)"

definition upd_paged :: "paged \<Rightarrow> client \<Rightarrow> client" where
  "upd_paged st c = c\<lparr>pagedStates := AList.update (rootSubId st) st (pagedStates c)\<rparr>"

definition recordPagedEvent :: "string \<Rightarrow> wire_event \<Rightarrow> ingest_result \<Rightarrow> client \<Rightarrow> client" where
  "recordPagedEvent subId e r c =
     (if r = RejectedEvent then c
      else case paged_state subId c of
        None \<Rightarrow> c
      | Some st \<Rightarrow> if currentSubId st \<noteq> subId then c else upd_paged (record_event (w_created_at e) st) c)"

definition recordFetchFilterEvent :: "string \<Rightarrow> ingest_result \<Rightarrow> client \<Rightarrow> client" where
  "recordFetchFilterEvent subId r c =
     (if r = RejectedEvent then c
      else case map_of (fetchSubs c) subId of
        Some (FFilter key m) \<Rightarrow> c\<lparr>fetchSubs := AList.update subId (FFilter key True) (fetchSubs c)\<rparr>
      | _ \<Rightarrow> c)"

definition mark_if_done :: "client \<Rightarrow> client" where
  "mark_if_done c = (if pendingSubs c = [] then markSynced c else c)"

definition handlePagedEose :: "string \<Rightarrow> paged \<Rightarrow> client \<Rightarrow> client" where
  \<comment> \<open>for the state's current subscription\<close>
  "handlePagedEose subId st c =
     (let c = c\<lparr>pendingSubs := set_del subId (pendingSubs c)\<rparr>;
          c = (if subId \<noteq> rootSubId st
               then send_try (closeMessage subId)
                 (c\<lparr>pagedSubs := AList.delete subId (pagedSubs c), knownSubIds := set_del subId (knownSubIds c)\<rparr>)
               else c)
      in case next_page st of
           None \<Rightarrow> mark_if_done (c\<lparr>pagedSubs := AList.delete (rootSubId st) (pagedSubs c)\<rparr>)
         | Some (u, l) \<Rightarrow>
             let st = (advance u l st)\<lparr>pg_timer := True\<rparr>; page = currentSubId st
             in upd_paged st (c\<lparr>pagedSubs := AList.update page (rootSubId st) (pagedSubs c),
                  knownSubIds := set_add page (knownSubIds c), pendingSubs := set_add page (pendingSubs c)\<rparr>))"

definition page_timer :: "string \<Rightarrow> client \<Rightarrow> client" where
  \<comment> \<open>the delay before a page has passed\<close>
  "page_timer root c =
     (case map_of (pagedStates c) root of
        None \<Rightarrow> c
      | Some st \<Rightarrow>
          if \<not> pg_timer st then c
          else
            let c = upd_paged (st\<lparr>pg_timer := False\<rparr>) c; page = currentSubId st
            in if page \<notin> set (pendingSubs c) then c
               else if sockOpen c then did (Sent (reqMessage page [page_filter st])) c
               else mark_if_done (c\<lparr>pagedSubs := AList.delete root (AList.delete page (pagedSubs c)),
                      knownSubIds := set_del page (knownSubIds c), pendingSubs := set_del page (pendingSubs c)\<rparr>))"

section \<open>Publishing and counting\<close>

definition isBlindPublish :: "wire_event \<Rightarrow> bool" where
  "isBlindPublish e \<longleftrightarrow> list_ex (\<lambda>t. at t 0 = Some ''stiq_token'' \<and> truthy (at t 1)) (w_tags e)"

definition isDmPublish :: "wire_event \<Rightarrow> bool" where
  "isDmPublish e \<longleftrightarrow> w_kind e = 1059"

definition noteSharedPublishTimeout :: "client \<Rightarrow> client" where
  "noteSharedPublishTimeout c =
     (let c = c\<lparr>sharedPublishStallStreak := sharedPublishStallStreak c + 1\<rparr>
      in if sharedPublishStallStreak c < SHARED_PUBLISH_STALL_STREAK then c
         else did SocketClosed (c\<lparr>sharedPublishStallStreak := 0\<rparr>))"

definition noteSharedSocketActivity :: "client \<Rightarrow> client" where
  "noteSharedSocketActivity c = c\<lparr>sharedPublishStallStreak := 0\<rparr>"

definition timeout_result :: "bool \<Rightarrow> publish_result" where
  "timeout_result off = \<lparr>pr_accepted = False, pr_message = ''timeout'', pr_offline = off\<rparr>"

definition finish_publish :: "nat \<Rightarrow> publish_result \<Rightarrow> client \<Rightarrow> client" where
  \<comment> \<open>\<open>resolve\<close>, without effect on a promise that the throwing \<open>send\<close> has rejected\<close>
  "finish_publish n r c = (if PublishThrew n \<in> set (outs c) then c else did (PublishDone n r) c)"

definition publishShared :: "wire_event \<Rightarrow> client \<Rightarrow> client" where
  "publishShared e c =
     (let n = publishSeq c;
          c = c\<lparr>publishSeq := n + 1, publishTimers := AList.update n e (publishTimers c),
                pendingPublishes := AList.update (w_id e) n (pendingPublishes c)\<rparr>
      in if sockOpen c then did (Sent (eventMessage e)) c else did (PublishThrew n) c)"

definition publish_timeout :: "nat \<Rightarrow> client \<Rightarrow> client" where
  "publish_timeout n c =
     (case map_of (publishTimers c) n of
        None \<Rightarrow> c
      | Some e \<Rightarrow>
          finish_publish n (timeout_result False)
            (noteSharedPublishTimeout
              (c\<lparr>publishTimers := AList.delete n (publishTimers c),
                 pendingPublishes := AList.delete (w_id e) (pendingPublishes c)\<rparr>)))"

definition handleOk :: "rc_config \<Rightarrow> string \<Rightarrow> bool \<Rightarrow> string \<Rightarrow> client \<Rightarrow> client" where
  "handleOk cfg i accepted message c =
     (let c = noteSharedSocketActivity c
      in case map_of (pendingPublishes c) i of
           None \<Rightarrow> c
         | Some n \<Rightarrow>
             let ev = map_of (publishTimers c) n;
                 c = c\<lparr>pendingPublishes := AList.delete i (pendingPublishes c),
                       publishTimers := AList.delete n (publishTimers c)\<rparr>;
                 c = (case ev of Some e \<Rightarrow> if accepted then ingest cfg e c else c | None \<Rightarrow> c)
             in finish_publish n \<lparr>pr_accepted = accepted, pr_message = message, pr_offline = False\<rparr> c)"

definition isolated_attempt :: "rc_config \<Rightarrow> bool \<Rightarrow> nat \<Rightarrow> isolated \<Rightarrow> client \<Rightarrow> client" where
  \<comment> \<open>\<open>publishIsolatedOnce\<close>; \<open>circuit\<close> tells whether one could be opened\<close>
  "isolated_attempt cfg circuit n p c =
     (if circuit
      then did (CircuitOpen n (is_attempt p)) (c\<lparr>isolatedPubs := AList.update n (p\<lparr>is_live := True\<rparr>) (isolatedPubs c)\<rparr>)
      else if is_attempt p + 1 \<ge> MAX_PUBLISH_CIRCUIT_ATTEMPTS
      then did (PublishDone n \<lparr>pr_accepted = False, pr_message = ''publish circuit unavailable'', pr_offline = True\<rparr>)
             (c\<lparr>isolatedPubs := AList.delete n (isolatedPubs c)\<rparr>)
      else c\<lparr>isolatedPubs := AList.update n (p\<lparr>is_live := False\<rparr>) (isolatedPubs c)\<rparr>)"

definition isolated_finish :: "rc_config \<Rightarrow> nat \<Rightarrow> publish_result \<Rightarrow> client \<Rightarrow> client" where
  \<comment> \<open>\<open>finish\<close> of the open circuit, and the retry of \<open>publishIsolated\<close> after it\<close>
  "isolated_finish cfg n r c =
     (case map_of (isolatedPubs c) n of
        None \<Rightarrow> c
      | Some p \<Rightarrow>
          if \<not> is_live p then c
          else
            let c = did (CircuitClose n) c;
                c = (if pr_accepted r then ingest cfg (is_event p) c else c)
            in if pr_accepted r \<or> \<not> pr_offline r \<or> is_attempt p + 1 \<ge> MAX_PUBLISH_CIRCUIT_ATTEMPTS
               then did (PublishDone n r) (c\<lparr>isolatedPubs := AList.delete n (isolatedPubs c)\<rparr>)
               else c\<lparr>isolatedPubs := AList.update n (p\<lparr>is_live := False\<rparr>) (isolatedPubs c)\<rparr>)"

definition isolated_retry :: "rc_config \<Rightarrow> bool \<Rightarrow> nat \<Rightarrow> client \<Rightarrow> client" where
  "isolated_retry cfg circuit n c =
     (case map_of (isolatedPubs c) n of
        None \<Rightarrow> c
      | Some p \<Rightarrow> if is_live p then c
          else isolated_attempt cfg circuit n (p\<lparr>is_attempt := is_attempt p + 1\<rparr>) c)"

definition rc_publish :: "rc_config \<Rightarrow> bool \<Rightarrow> wire_event \<Rightarrow> client \<Rightarrow> client" where
  "rc_publish cfg circuit e c =
     (if (isBlindPublish e \<or> isDmPublish e) \<and> rc_isolates cfg
      then isolated_attempt cfg circuit (publishSeq c) \<lparr>is_event = e, is_attempt = 0, is_live = False\<rparr>
             (c\<lparr>publishSeq := publishSeq c + 1\<rparr>)
      else publishShared e c)"

definition count_name :: "nat \<Rightarrow> string" where
  "count_name n = ''count:'' @ js_dec n"

definition rc_count :: "req_filter \<Rightarrow> client \<Rightarrow> client" where
  "rc_count f c =
     (let subId = count_name (countSeq c);
          c = c\<lparr>countSeq := countSeq c + 1, pendingCounts := set_add subId (pendingCounts c)\<rparr>
      in if sockOpen c then did (Sent (countMessage subId [f])) c else did (CountThrew subId) c)"

definition finish_count :: "string \<Rightarrow> rc_output \<Rightarrow> client \<Rightarrow> client" where
  "finish_count subId x c = (if CountThrew subId \<in> set (outs c) then c else did x c)"

definition count_timeout :: "string \<Rightarrow> client \<Rightarrow> client" where
  "count_timeout subId c =
     (if subId \<notin> set (pendingCounts c) then c
      else finish_count subId (CountNull subId) (c\<lparr>pendingCounts := set_del subId (pendingCounts c)\<rparr>))"

section \<open>Frames\<close>

definition handleClosed :: "string \<Rightarrow> string \<Rightarrow> client \<Rightarrow> client" where
  "handleClosed subId message c =
     did (OnSubError subId message) (pending_done subId (c\<lparr>knownSubIds := set_del subId (knownSubIds c)\<rparr>))"

definition handleEose :: "rc_config \<Rightarrow> string \<Rightarrow> client \<Rightarrow> client" where
  "handleEose cfg subId c =
     (if subId \<in> set (pendingSubs c)
      then (case paged_state subId c of
              Some st \<Rightarrow> if currentSubId st = subId then handlePagedEose subId st c else pending_done subId c
            | None \<Rightarrow> pending_done subId c)
      else if map_of (fetchSubs c) subId \<noteq> None then fetch_cleanup cfg subId c
      else if resyncEoseSubId c = Some subId then settleResync c
      else if subId \<in> set (knownSubIds c) then did (OnScopedEose subId) c
      else c)"

definition handleMessage ::
    "rc_config \<Rightarrow> stext \<Rightarrow> wire_event list option \<times> client \<Rightarrow> wire_event list option \<times> client" where
  "handleMessage cfg data = (\<lambda>(batch, c).
     case parseRelayMessage data of
       MEvent subId e \<Rightarrow>
         if subId \<notin> set (knownSubIds c) then (batch, c)
         else
           let (r, batch, c) = ingestEvent cfg batch e (noteSharedSocketActivity c)
           in (batch, recordFetchFilterEvent subId r (recordPagedEvent subId e r c))
     | MEose subId \<Rightarrow> (batch, handleEose cfg subId c)
     | MClosed subId message \<Rightarrow> (batch, handleClosed subId message c)
     | MNotice message \<Rightarrow> (batch, did (OnNotice message) c)
     | MOk i accepted message \<Rightarrow> (batch, handleOk cfg i accepted message c)
     | MCount subId n \<Rightarrow>
         (batch, if subId \<in> set (pendingCounts c)
           then finish_count subId (CountDone subId n) (c\<lparr>pendingCounts := set_del subId (pendingCounts c)\<rparr>) else c)
     | MNegMsg subId message \<Rightarrow>
         (batch, if negActive c \<and> subId = rc_negSubId cfg then handleNegMsg cfg message c else c)
     | MNegErr subId reason \<Rightarrow>
         (batch, if negActive c \<and> subId = rc_negSubId cfg then negFallback cfg c else c)
     | MUnknown \<Rightarrow> (batch, c))"

definition receiveMessage :: "rc_config \<Rightarrow> stext \<Rightarrow> client \<Rightarrow> client" where
  "receiveMessage cfg data c =
     (if \<not> rc_batched cfg then snd (handleMessage cfg data (None, c))
      else c\<lparr>inboundQueue := inboundQueue c @ [data], inboundTimer := True\<rparr>)"

definition drainInboundQueue :: "rc_config \<Rightarrow> nat \<Rightarrow> client \<Rightarrow> client" where
  \<comment> \<open>one tick, in which \<open>n\<close> frames fit\<close>
  "drainInboundQueue cfg n c =
     (if \<not> inboundTimer c then c
      else
        let frames = take n (inboundQueue c);
            c = c\<lparr>inboundTimer := False, inboundQueue := drop n (inboundQueue c)\<rparr>;
            (batch, c) = fold (handleMessage cfg) frames (Some [], c);
            c = flushPendingIngest (case batch of Some b \<Rightarrow> b | None \<Rightarrow> []) c
        in if inboundQueue c = [] then c else c\<lparr>inboundTimer := True\<rparr>)"

definition rc_close :: "client \<Rightarrow> client" where
  "rc_close c = did SocketClosed (c\<lparr>inboundTimer := False, inboundQueue := [], fetchQueue := [], pagedSubs := [],
     pagedStates := []\<rparr>)"

definition rc_unsubscribe :: "client \<Rightarrow> client" where
  "rc_unsubscribe c = fold (\<lambda>s. send_try (closeMessage s)) (knownSubIds c) c"

section \<open>Runs\<close>

datatype rc_input =
    Opened "subscription list"
  | Dropped
  | Frame stext
  | Drain nat
  | Publish bool wire_event
  | PublishTimer nat
  | CircuitOpened nat
  | CircuitOk nat bool string
  | CircuitMiss nat string \<comment> \<open>timeout, closed or failed to send\<close>
  | CircuitRetry bool nat
  | Count req_filter
  | CountTimer string
  | SubscribeScoped string "req_filter list"
  | ScopedRetry string
  | CloseSub string
  | FetchById "string list"
  | FetchByFilter "req_filter list"
  | RequestOlder string req_filter int int
  | FetchTimer string
  | PumpTimer
  | PageTimer string
  | NegTimer
  | Resync "subscription list"
  | ResyncTimer
  | Unsubscribe
  | Close

definition circuit_send :: "nat \<Rightarrow> client \<Rightarrow> client" where
  "circuit_send n c = (case map_of (isolatedPubs c) n of
       Some p \<Rightarrow> if is_live p then did (CircuitSent n (is_event p)) c else c
     | None \<Rightarrow> c)"

definition scoped_retry :: "string \<Rightarrow> client \<Rightarrow> client" where
  "scoped_retry subId c = (case map_of (scopedSubRetries c) subId of
       None \<Rightarrow> c
     | Some (filters, att) \<Rightarrow> subscribeScopedAttempt subId filters (att + 1)
         (c\<lparr>scopedSubRetries := AList.delete subId (scopedSubRetries c)\<rparr>))"

primrec rc_step :: "rc_config \<Rightarrow> rc_input \<Rightarrow> client \<Rightarrow> client" where
  "rc_step cfg (Opened subs) = (\<lambda>c. sendSubscribe cfg subs (c\<lparr>sockOpen := True\<rparr>))"
| "rc_step cfg Dropped = (\<lambda>c. c\<lparr>sockOpen := False\<rparr>)"
| "rc_step cfg (Frame data) = receiveMessage cfg data"
| "rc_step cfg (Drain n) = drainInboundQueue cfg (max 1 n)"
| "rc_step cfg (Publish circuit e) = rc_publish cfg circuit e"
| "rc_step cfg (PublishTimer n) = publish_timeout n"
| "rc_step cfg (CircuitOpened n) = circuit_send n"
| "rc_step cfg (CircuitOk n accepted m) =
     isolated_finish cfg n \<lparr>pr_accepted = accepted, pr_message = m, pr_offline = False\<rparr>"
| "rc_step cfg (CircuitMiss n m) =
     isolated_finish cfg n \<lparr>pr_accepted = False, pr_message = m, pr_offline = True\<rparr>"
| "rc_step cfg (CircuitRetry circuit n) = isolated_retry cfg circuit n"
| "rc_step cfg (Count f) = rc_count f"
| "rc_step cfg (CountTimer s) = count_timeout s"
| "rc_step cfg (SubscribeScoped s fs) = subscribeScopedAttempt s fs 0"
| "rc_step cfg (ScopedRetry s) = scoped_retry s"
| "rc_step cfg (CloseSub s) = closeSub s"
| "rc_step cfg (FetchById ids) = fetchById cfg ids"
| "rc_step cfg (FetchByFilter fs) = fetchByFilter cfg fs"
| "rc_step cfg (RequestOlder k f u l) = requestOlder cfg k f u l"
| "rc_step cfg (FetchTimer s) = fetch_cleanup cfg s"
| "rc_step cfg PumpTimer =
     (\<lambda>c. if pumpTimers c = 0 then c else pumpFetchQueue cfg (c\<lparr>pumpTimers := pumpTimers c - 1\<rparr>))"
| "rc_step cfg (PageTimer root) = page_timer root"
| "rc_step cfg NegTimer = (\<lambda>c. if negTimer c then negFallback cfg c else c)"
| "rc_step cfg (Resync plan) = resyncFeed cfg plan"
| "rc_step cfg ResyncTimer = (\<lambda>c. if resyncTimer c then settleResync c else c)"
| "rc_step cfg Unsubscribe = rc_unsubscribe"
| "rc_step cfg Close = rc_close"

definition rc_run :: "rc_config \<Rightarrow> rc_input list \<Rightarrow> client \<Rightarrow> client" where
  "rc_run cfg = fold (rc_step cfg)"

section \<open>What reaches the store\<close>

lemma store_did [simp]: "store (did x c) = store c"
  by (simp add: did_def)

lemma store_send_try [simp]: "store (send_try m c) = store c"
  by (simp add: send_try_def)

lemma store_fold: "(\<And>x c. x \<in> set xs \<Longrightarrow> store (f x c) = store c) \<Longrightarrow> store (fold f xs c) = store c"
  by (induction xs arbitrary: c) simp_all

lemma store_sync [simp]:
  "store (markSynced c) = store c" "store (pending_done s c) = store c" "store (settleResync c) = store c"
  "store (completeNegentropySlot cfg c) = store c" "store (completeNegentropyFetch cfg c) = store c"
  "store (mark_if_done c) = store c"
  by (simp_all add: markSynced_def pending_done_def settleResync_def completeNegentropySlot_def
      completeNegentropyFetch_def mark_if_done_def Let_def store_fold split: option.split)

lemma store_fetch [simp]:
  "store (fetch_cleanup cfg s c) = store c" "store (open_fetch cfg s f fs c) = store c"
  "store (pumpFetchQueue cfg c) = store c" "store (fetchById cfg ids c) = store c"
  "store (fetchByFilter cfg fs c) = store c" "store (requestOlder cfg k flt u l c) = store c"
proof -
  show 1: "store (fetch_cleanup cfg s c) = store c" for s c
    by (auto simp: fetch_cleanup_def Let_def split: option.split fetch.split)
  show 2: "store (open_fetch cfg s f fs c) = store c" for s f fs c
    by (simp add: open_fetch_def Let_def 1)
  show 3: "store (pumpFetchQueue cfg c) = store c" for c
    by (simp add: pumpFetchQueue_def Let_def 2 split: list.split)
  show "store (fetchById cfg ids c) = store c" "store (fetchByFilter cfg fs c) = store c"
    "store (requestOlder cfg k flt u l c) = store c"
    by (simp_all add: fetchById_def fetchByFilter_def requestOlder_def Let_def 2 3)
qed

lemma store_neg [simp]:
  "store (negFallback cfg c) = store c" "store (finishNegentropy cfg c) = store c"
  "store (clearNegentropy c) = store c" "store (startNegentropy cfg c) = store c"
  "store (handleNegMsg cfg m c) = store c"
proof -
  show 1: "store (negFallback cfg c) = store c" for c
    by (simp add: negFallback_def Let_def split: option.split)
  show 2: "store (finishNegentropy cfg c) = store c" for c
    by (simp add: finishNegentropy_def Let_def)
  show "store (clearNegentropy c) = store c" by (simp add: clearNegentropy_def)
  show "store (startNegentropy cfg c) = store c"
    by (simp add: startNegentropy_def Let_def 1 split: option.split sum.split prod.split)
  show "store (handleNegMsg cfg m c) = store c"
    by (simp add: handleNegMsg_def Let_def 1 2 split: option.split sum.split)
qed

lemma store_subs [simp]:
  "store (open_sub s c) = store c" "store (sendSubscribe cfg subs c) = store c"
  "store (cancelScopedSubRetry i c) = store c" "store (subscribeScopedAttempt i fs n c) = store c"
  "store (closeSub i c) = store c" "store (resyncFeed cfg plan c) = store c"
  "store (scoped_retry i c) = store c"
proof -
  show 1: "store (open_sub s c) = store c" for s c
    by (simp add: open_sub_def Let_def split: option.split)
  show "store (sendSubscribe cfg subs c) = store c"
    by (simp add: sendSubscribe_def Let_def store_fold 1)
  show 2: "store (cancelScopedSubRetry i c) = store c" for i c by (simp add: cancelScopedSubRetry_def)
  show 3: "store (subscribeScopedAttempt i fs n c) = store c" for i fs n c
    by (simp add: subscribeScopedAttempt_def Let_def 2)
  show "store (closeSub i c) = store c" by (simp add: closeSub_def Let_def 2)
  show "store (resyncFeed cfg plan c) = store c"
    by (simp add: resyncFeed_def Let_def split: option.split)
  show "store (scoped_retry i c) = store c" by (simp add: scoped_retry_def 3 split: option.split)
qed

lemma store_paged [simp]:
  "store (upd_paged st c) = store c" "store (recordPagedEvent s e r c) = store c"
  "store (recordFetchFilterEvent s r c) = store c" "store (handlePagedEose s st c) = store c"
  "store (page_timer root c) = store c"
proof -
  show 1: "store (upd_paged st c) = store c" for st c by (simp add: upd_paged_def)
  show "store (recordPagedEvent s e r c) = store c"
    by (simp add: recordPagedEvent_def 1 split: option.split)
  show "store (recordFetchFilterEvent s r c) = store c"
    by (simp add: recordFetchFilterEvent_def split: option.split fetch.split)
  show "store (handlePagedEose s st c) = store c"
    by (simp add: handlePagedEose_def Let_def 1 split: option.split)
  show "store (page_timer root c) = store c"
    by (simp add: page_timer_def Let_def 1 split: option.split)
qed

lemma store_publish [simp]:
  "store (noteSharedPublishTimeout c) = store c" "store (noteSharedSocketActivity c) = store c"
  "store (finish_publish n r c) = store c" "store (publishShared e c) = store c"
  "store (publish_timeout n c) = store c" "store (isolated_attempt cfg b n p c) = store c"
  "store (isolated_retry cfg b n c) = store c" "store (rc_publish cfg b e c) = store c"
  "store (rc_count f c) = store c" "store (finish_count s x c) = store c" "store (count_timeout s c) = store c"
  "store (circuit_send n c) = store c"
  by (simp_all add: noteSharedPublishTimeout_def noteSharedSocketActivity_def finish_publish_def
      publishShared_def publish_timeout_def isolated_attempt_def isolated_retry_def rc_publish_def
      rc_count_def finish_count_def count_timeout_def circuit_send_def Let_def split: option.split)

lemma store_frames [simp]:
  "store (handleClosed s m c) = store c" "store (handleEose cfg s c) = store c"
  "store (rc_close c) = store c" "store (rc_unsubscribe c) = store c"
  by (simp_all add: handleClosed_def handleEose_def rc_close_def rc_unsubscribe_def store_fold
      split: option.split)

definition sound :: "rc_config \<Rightarrow> wire_event \<Rightarrow> bool" where
  "sound cfg e \<longleftrightarrow> rc_verify cfg e \<and> accepts cfg e"

definition grows :: "rc_config \<Rightarrow> mstore \<Rightarrow> mstore \<Rightarrow> bool" where
  "grows cfg st st' \<longleftrightarrow> (\<forall>ev \<in> set (cached st'). ev \<in> set (cached st) \<or> (\<exists>e. sound cfg e \<and> to_event e = ev))"

lemma grows_refl: "grows cfg st st"
  by (simp add: grows_def)

lemma grows_trans: "grows cfg a b \<Longrightarrow> grows cfg b c \<Longrightarrow> grows cfg a c"
  unfolding grows_def by blast

lemma in_update: "(a, b) \<in> set (AList.update k v xs) \<Longrightarrow> b = v \<or> (a, b) \<in> set xs"
  by (induction xs) (auto split: if_splits)

lemma grows_save: "sound cfg e \<Longrightarrow> grows cfg st (fst (save (to_event e) st))"
  by (force simp: grows_def cached_def save_def bumpKind_def index_def dest: in_update)

lemma save_now_store [simp]: "store (fst (save_now e c)) = fst (save (to_event e) (store c))"
  by (simp add: save_now_def split: prod.split)

lemma grows_save_now: "sound cfg e \<Longrightarrow> save_now e c = (c', ok) \<Longrightarrow> grows cfg (store c) (store c')"
  using grows_save[of cfg e "store c"] by (metis fst_conv save_now_store)

definition batch_sound :: "rc_config \<Rightarrow> wire_event list option \<Rightarrow> bool" where
  "batch_sound cfg b \<longleftrightarrow> (case b of Some es \<Rightarrow> list_all (sound cfg) es | None \<Rightarrow> True)"

lemma ingest_sound:
  assumes "ingestEvent cfg batch e c = (r, batch', c')" "batch_sound cfg batch"
  shows "batch_sound cfg batch' \<and> grows cfg (store c) (store c')"
  using assms grows_save_now[of cfg e "did (OnSeen e) c"]
  by (auto simp: ingestEvent_def Let_def sound_def batch_sound_def grows_refl split: if_splits option.splits prod.splits)

lemma grows_ingest: "grows cfg (store c) (store (ingest cfg e c))"
  using ingest_sound[of cfg None e c]
  by (cases "ingestEvent cfg None e c") (auto simp: ingest_def batch_sound_def)

lemma grows_ingest_of: "store c = st \<Longrightarrow> grows cfg st (store (ingest cfg e c))"
  using grows_ingest by blast

lemma grows_ok: "grows cfg (store c) (store (handleOk cfg i a m c))"
  by (auto simp: handleOk_def Let_def grows_refl intro: grows_ingest_of split: option.split)

lemma grows_isolated: "grows cfg (store c) (store (isolated_finish cfg n r c))"
  by (auto simp: isolated_finish_def Let_def grows_refl intro: grows_ingest_of split: option.split)

lemma handle_sound:
  assumes "handleMessage cfg data (batch, c) = (batch', c')" "batch_sound cfg batch"
  shows "batch_sound cfg batch' \<and> grows cfg (store c) (store c')"
proof (cases "parseRelayMessage data")
  case (MEvent s e)
  obtain r b2 c2 where i: "ingestEvent cfg batch e (noteSharedSocketActivity c) = (r, b2, c2)"
    by (metis prod_cases3)
  show ?thesis
    using assms MEvent i ingest_sound[OF i assms(2)]
    by (auto simp: handleMessage_def grows_refl split: if_splits)
qed (use assms grows_ok in \<open>auto simp: handleMessage_def grows_refl split: if_splits\<close>)

lemma handle_fold_sound:
  "fold (handleMessage cfg) frames (batch, c) = (batch', c') \<Longrightarrow> batch_sound cfg batch \<Longrightarrow>
    batch_sound cfg batch' \<and> grows cfg (store c) (store c')"
proof (induction frames arbitrary: batch c)
  case Nil
  then show ?case by (simp add: grows_refl)
next
  case (Cons f fs)
  obtain b1 c1 where h: "handleMessage cfg f (batch, c) = (b1, c1)" by fastforce
  note s = handle_sound[OF h Cons.prems(2)]
  have "fold (handleMessage cfg) fs (b1, c1) = (batch', c')" using Cons.prems(1) h by simp
  from Cons.IH[OF this] s show ?case by (blast intro: grows_trans)
qed

lemma storeIndividually_sound:
  "storeIndividually es c = (c', es') \<Longrightarrow> list_all (sound cfg) es \<Longrightarrow> grows cfg (store c) (store c')"
proof (induction es c arbitrary: c' es' rule: storeIndividually.induct)
  case (2 e es c)
  obtain c1 ok where s: "save_now e c = (c1, ok)" by fastforce
  obtain c2 rest where r: "storeIndividually es c1 = (c2, rest)" by fastforce
  with 2 s show ?case
    using grows_save_now[of cfg e c c1 ok] by (auto intro: grows_trans)
qed (simp add: grows_refl)

lemma flush_sound:
  assumes "list_all (sound cfg) es"
  shows "grows cfg (store c) (store (flushPendingIngest es c))"
proof -
  obtain c1 st where s: "storeIndividually es c = (c1, st)" by fastforce
  have "store (fold (\<lambda>e c. did (OnIngest e) (did (OnEvent e) c)) st c1) = store c1"
    by (rule store_fold) simp
  with storeIndividually_sound[OF s assms] s show ?thesis by (simp add: flushPendingIngest_def)
qed

lemma drain_sound: "grows cfg (store c) (store (drainInboundQueue cfg n c))"
proof (cases "inboundTimer c")
  case True
  let ?c = "c\<lparr>inboundTimer := False, inboundQueue := drop n (inboundQueue c)\<rparr>"
  obtain b c1 where f: "fold (handleMessage cfg) (take n (inboundQueue c)) (Some [], ?c) = (b, c1)" by fastforce
  have s: "batch_sound cfg b" "grows cfg (store c) (store c1)"
    using handle_fold_sound[OF f] by (simp_all add: batch_sound_def)
  have "grows cfg (store c1) (store (flushPendingIngest (case b of Some b \<Rightarrow> b | None \<Rightarrow> []) c1))"
    using s(1) by (intro flush_sound) (auto simp: batch_sound_def split: option.splits)
  with s(2) True f show ?thesis by (auto simp: drainInboundQueue_def Let_def intro: grows_trans)
qed (simp add: drainInboundQueue_def grows_refl)

lemma step_sound: "grows cfg (store c) (store (rc_step cfg x c))"
proof (cases x)
  case (Frame data)
  have "grows cfg (store c) (store (snd (handleMessage cfg data (None, c))))"
    using handle_sound[of cfg data None c] by (simp add: batch_sound_def split: prod.split) (metis prod.collapse)
  then show ?thesis using Frame by (simp add: receiveMessage_def grows_refl)
qed (simp_all add: grows_refl grows_isolated drain_sound)

lemma run_sound: "grows cfg (store c) (store (rc_run cfg xs c))"
  unfolding rc_run_def
  by (induction xs arbitrary: c) (auto simp: grows_refl intro: grows_trans[OF step_sound])


text \<open>
  C7. Whatever the relay sends, in whatever order, batched or not, an event that enters the cache
  has passed the signature check and is of a kind the client asked for.
\<close>

theorem only_verified_stored:
  assumes "ev \<in> set (cached (store (rc_run cfg xs c)))"
  shows "ev \<in> set (cached (store c)) \<or> (\<exists>e. rc_verify cfg e \<and> accepts cfg e \<and> to_event e = ev)"
  using run_sound assms by (auto simp: grows_def sound_def)

definition ex_cfg :: "(wire_event \<Rightarrow> bool) \<Rightarrow> bool \<Rightarrow> rc_config" where
  "ex_cfg v b = \<lparr>rc_subId = ''feed'', rc_kinds = [1, 7], rc_verify = v, rc_limit = Some 500, rc_overlap = 60,
     rc_neg = None, rc_negSubId = ''neg'', rc_batched = b, rc_isolates = False, rc_hx = (\<lambda>_. []), rc_fph = (\<lambda>_. '''')\<rparr>"

definition ex_sub :: "string \<Rightarrow> subscription" where
  "ex_sub i = \<lparr>s_subId = i, s_filter = no_filter\<lparr>f_kinds := Some [1]\<rparr>, s_pagination = None\<rparr>"

definition ex_frame :: "string \<Rightarrow> wire_event \<Rightarrow> stext" where
  "ex_frame i e = Json (JArr [JStr ''EVENT'', JStr i, event_json e])"

lemma parse_ex_frame: "parseRelayMessage (ex_frame i ex_wire) = MEvent i ex_wire"
  unfolding ex_frame_def
  by (rule parse_event_frame)
    (simp add: event_shaped_def ex_wire_def HEX64_LOWER_def HEX64_def hex_any_def hex_lower_def
      less_eq_char_def list_all_iff)

lemma ex_wire_is: "w_kind ex_wire = 1" "w_sig ex_wire = ''s''"
  by (simp_all add: ex_wire_def)

lemma ex_received:
  "to_event ex_wire \<in> set (cached (store (rc_run (ex_cfg (\<lambda>e. w_sig e = ''s'') False)
     [Opened [ex_sub ''feed''], Frame (ex_frame ''feed'' ex_wire)] (new_client empty_store))))"
  by (simp add: rc_run_def receiveMessage_def handleMessage_def parse_ex_frame sendSubscribe_def Let_def
      clearNegentropy_def open_sub_def startNegentropy_def ingestEvent_def ex_cfg_def ex_sub_def did_def
      noteSharedSocketActivity_def accepts_def recordFetchFilterEvent_def recordPagedEvent_def paged_state_def
      save_now_def save_def bumpKind_def index_def has_def cached_def empty_store_def new_client_def
      to_event_def ex_wire_is split: prod.split)

theorem only_verified_stored_witness:
  "\<exists>e. w_sig e = ''s'' \<and> accepts (ex_cfg (\<lambda>e. w_sig e = ''s'') False) e \<and> to_event e = to_event ex_wire"
  using only_verified_stored[OF ex_received] by (simp add: ex_cfg_def new_client_def cached_def empty_store_def)

end
