(* ===== verification/RelaySync.thy ===== *)
theory RelaySync
  imports RelayClient
begin

text \<open>
  What a run of the relay client reaches: synchronisation after a connection opens, the queue of
  one-shot fetches, the answers of published events.

  \<open>quiet c c'\<close> says that a step leaves the pending subscriptions alone or removes some of them, does
  not touch the queue of frames and reports the end of synchronisation when nothing is pending.
\<close>

section \<open>Synchronisation\<close>

definition settled :: "client \<Rightarrow> bool" where
  "settled c \<longleftrightarrow> (pendingSubs c = [] \<longrightarrow> synced c)"

definition credit :: "client \<Rightarrow> nat" where
  \<comment> \<open>how often \<open>onSynced\<close> has run, plus the run that is still due\<close>
  "credit c = count_list (outs c) OnSynced + (if synced c then 0 else 1)"

definition quiet :: "client \<Rightarrow> client \<Rightarrow> bool" where
  "quiet c c' \<longleftrightarrow> set (pendingSubs c') \<subseteq> set (pendingSubs c) \<and> pagedStates c' = pagedStates c
     \<and> inboundQueue c' = inboundQueue c \<and> inboundTimer c' = inboundTimer c
     \<and> credit c' = credit c \<and> (settled c \<longrightarrow> settled c')"

lemma quiet_refl [intro!, simp]: "quiet c c"
  by (simp add: quiet_def)

lemma quiet_trans: "quiet a b \<Longrightarrow> quiet b c \<Longrightarrow> quiet a c"
  by (auto simp: quiet_def)

lemma quiet_update [simp]:
  "quiet c0 (c\<lparr>store := x1\<rparr>) = quiet c0 c" "quiet c0 (c\<lparr>knownSubIds := x2\<rparr>) = quiet c0 c"
  "quiet c0 (c\<lparr>pendingPublishes := x3\<rparr>) = quiet c0 c" "quiet c0 (c\<lparr>publishTimers := x4\<rparr>) = quiet c0 c"
  "quiet c0 (c\<lparr>publishSeq := n1\<rparr>) = quiet c0 c" "quiet c0 (c\<lparr>isolatedPubs := x5\<rparr>) = quiet c0 c"
  "quiet c0 (c\<lparr>sharedPublishStallStreak := n2\<rparr>) = quiet c0 c" "quiet c0 (c\<lparr>pendingCounts := x6\<rparr>) = quiet c0 c"
  "quiet c0 (c\<lparr>countSeq := n3\<rparr>) = quiet c0 c" "quiet c0 (c\<lparr>fetchSubs := x7\<rparr>) = quiet c0 c"
  "quiet c0 (c\<lparr>fetchSeq := n4\<rparr>) = quiet c0 c" "quiet c0 (c\<lparr>fetchQueue := x8\<rparr>) = quiet c0 c"
  "quiet c0 (c\<lparr>activeIdFetchSubId := x9\<rparr>) = quiet c0 c" "quiet c0 (c\<lparr>pumpTimers := n5\<rparr>) = quiet c0 c"
  "quiet c0 (c\<lparr>fetchedIds := y1\<rparr>) = quiet c0 c" "quiet c0 (c\<lparr>fetchedFilters := y2\<rparr>) = quiet c0 c"
  "quiet c0 (c\<lparr>scopedSubRetries := y3\<rparr>) = quiet c0 c" "quiet c0 (c\<lparr>pagedSubs := y4\<rparr>) = quiet c0 c"
  "quiet c0 (c\<lparr>olderPageInFlight := y5\<rparr>) = quiet c0 c" "quiet c0 (c\<lparr>olderPageSeq := n6\<rparr>) = quiet c0 c"
  "quiet c0 (c\<lparr>rc_ng := y6\<rparr>) = quiet c0 c" "quiet c0 (c\<lparr>negActive := b1\<rparr>) = quiet c0 c"
  "quiet c0 (c\<lparr>negNeed := y7\<rparr>) = quiet c0 c" "quiet c0 (c\<lparr>negFetchPending := b2\<rparr>) = quiet c0 c"
  "quiet c0 (c\<lparr>negTimer := b3\<rparr>) = quiet c0 c" "quiet c0 (c\<lparr>negRounds := n7\<rparr>) = quiet c0 c"
  "quiet c0 (c\<lparr>negFrameBytesOut := n8\<rparr>) = quiet c0 c" "quiet c0 (c\<lparr>negHaveCount := n9\<rparr>) = quiet c0 c"
  "quiet c0 (c\<lparr>resyncWaiters := y8\<rparr>) = quiet c0 c" "quiet c0 (c\<lparr>resyncTimer := b4\<rparr>) = quiet c0 c"
  "quiet c0 (c\<lparr>resyncEoseSubId := y9\<rparr>) = quiet c0 c" "quiet c0 (c\<lparr>resyncSeq := m1\<rparr>) = quiet c0 c"
  "quiet c0 (c\<lparr>resyncCalls := m2\<rparr>) = quiet c0 c" "quiet c0 (c\<lparr>sockOpen := b5\<rparr>) = quiet c0 c"
  by (simp_all add: quiet_def settled_def credit_def)

lemma quiet_did [simp]: "x \<noteq> OnSynced \<Longrightarrow> quiet c0 (did x c) = quiet c0 c"
  by (simp add: quiet_def settled_def credit_def did_def)

lemma quiet_fold:
  assumes "quiet c0 c" "\<And>x c. x \<in> set xs \<Longrightarrow> quiet c0 c \<Longrightarrow> quiet c0 (f x c)"
  shows "quiet c0 (fold f xs c)"
  using assms by (induction xs arbitrary: c) simp_all

lemma quiet_pending_done [intro!]: "quiet c0 c \<Longrightarrow> quiet c0 (pending_done s c)"
  by (auto simp: quiet_def pending_done_def markSynced_def set_del_def settled_def credit_def did_def Let_def)
     (metis (mono_tags, lifting) filter_True)+

lemma quiet_send_try [intro!]: "quiet c0 c \<Longrightarrow> quiet c0 (send_try m c)"
  by (simp add: send_try_def)

lemma quiet_resync [intro!]: "quiet c0 c \<Longrightarrow> quiet c0 (settleResync c)"
  by (auto simp: settleResync_def Let_def intro!: quiet_fold split: option.split)

lemma quiet_slot [intro!]:
  "quiet c0 c \<Longrightarrow> quiet c0 (completeNegentropySlot cfg c)"
  "quiet c0 c \<Longrightarrow> quiet c0 (completeNegentropyFetch cfg c)"
  by (auto simp: completeNegentropySlot_def completeNegentropyFetch_def)

lemma quiet_cleanup [intro!]: "quiet c0 c \<Longrightarrow> quiet c0 (fetch_cleanup cfg s c)"
  by (auto simp: fetch_cleanup_def Let_def split: option.split fetch.split)

lemma quiet_open_fetch [intro!]: "quiet c0 c \<Longrightarrow> quiet c0 (open_fetch cfg s f fs c)"
  by (auto simp: open_fetch_def Let_def)

lemma quiet_pump [intro!]: "quiet c0 c \<Longrightarrow> quiet c0 (pumpFetchQueue cfg c)"
  by (auto simp: pumpFetchQueue_def Let_def split: list.split)

lemma quiet_fetches [intro!]:
  "quiet c0 c \<Longrightarrow> quiet c0 (fetchById cfg ids c)"
  "quiet c0 c \<Longrightarrow> quiet c0 (fetchByFilter cfg fs c)"
  "quiet c0 c \<Longrightarrow> quiet c0 (requestOlder cfg k flt u l c)"
  by (auto simp: fetchById_def fetchByFilter_def requestOlder_def Let_def)

lemma quiet_fallback [intro!]: "quiet c0 c \<Longrightarrow> quiet c0 (negFallback cfg c)"
  by (auto simp: negFallback_def Let_def split: option.split)

lemma quiet_neg [intro!]:
  "quiet c0 c \<Longrightarrow> quiet c0 (clearNegentropy c)"
  "quiet c0 c \<Longrightarrow> quiet c0 (finishNegentropy cfg c)"
  "quiet c0 c \<Longrightarrow> quiet c0 (startNegentropy cfg c)"
  by (auto simp: clearNegentropy_def finishNegentropy_def startNegentropy_def Let_def
      split: option.split sum.split prod.split)

lemma quiet_negmsg [intro!]: "quiet c0 c \<Longrightarrow> quiet c0 (handleNegMsg cfg m c)"
  by (auto simp: handleNegMsg_def Let_def split: option.split sum.split)

lemma quiet_scoped [intro!]:
  "quiet c0 c \<Longrightarrow> quiet c0 (cancelScopedSubRetry i c)"
  "quiet c0 c \<Longrightarrow> quiet c0 (subscribeScopedAttempt i fs n c)"
  "quiet c0 c \<Longrightarrow> quiet c0 (closeSub i c)"
  "quiet c0 c \<Longrightarrow> quiet c0 (scoped_retry i c)"
  by (auto simp: cancelScopedSubRetry_def subscribeScopedAttempt_def closeSub_def scoped_retry_def Let_def
      split: option.split)

lemma quiet_ingestEvent:
  assumes "ingestEvent cfg b e c = (r, b', c')" "quiet c0 c"
  shows "quiet c0 c'"
  using assms
  by (auto simp: ingestEvent_def save_now_def Let_def split: if_splits option.splits prod.splits)

lemma quiet_ingest [intro!]: "quiet c0 c \<Longrightarrow> quiet c0 (ingest cfg e c)"
  by (cases "ingestEvent cfg None e c") (auto simp: ingest_def intro: quiet_ingestEvent)

lemma quiet_publish [intro!]:
  "quiet c0 c \<Longrightarrow> quiet c0 (noteSharedSocketActivity c)"
  "quiet c0 c \<Longrightarrow> quiet c0 (noteSharedPublishTimeout c)"
  "quiet c0 c \<Longrightarrow> quiet c0 (finish_publish n r c)"
  "quiet c0 c \<Longrightarrow> quiet c0 (publishShared e c)"
  "quiet c0 c \<Longrightarrow> quiet c0 (isolated_attempt cfg b n p c)"
  "quiet c0 c \<Longrightarrow> quiet c0 (rc_count f c)"
  "x \<noteq> OnSynced \<Longrightarrow> quiet c0 c \<Longrightarrow> quiet c0 (finish_count s x c)"
  "quiet c0 c \<Longrightarrow> quiet c0 (circuit_send n c)"
  by (auto simp: noteSharedSocketActivity_def noteSharedPublishTimeout_def finish_publish_def publishShared_def
      isolated_attempt_def rc_count_def finish_count_def circuit_send_def Let_def split: option.split)

lemma quiet_publish2 [intro!]:
  "quiet c0 c \<Longrightarrow> quiet c0 (publish_timeout n c)"
  "quiet c0 c \<Longrightarrow> quiet c0 (handleOk cfg i a m c)"
  "quiet c0 c \<Longrightarrow> quiet c0 (isolated_finish cfg n r c)"
  "quiet c0 c \<Longrightarrow> quiet c0 (isolated_retry cfg b n c)"
  "quiet c0 c \<Longrightarrow> quiet c0 (rc_publish cfg b e c)"
  "quiet c0 c \<Longrightarrow> quiet c0 (count_timeout s c)"
  by (auto simp: publish_timeout_def handleOk_def isolated_finish_def isolated_retry_def rc_publish_def
      count_timeout_def Let_def split: option.split)

lemma quiet_closed [intro!]: "quiet c0 c \<Longrightarrow> quiet c0 (handleClosed s m c)"
  by (auto simp: handleClosed_def)

lemma quiet_unsubscribe [intro!]: "quiet c0 c \<Longrightarrow> quiet c0 (rc_unsubscribe c)"
  by (auto simp: rc_unsubscribe_def intro!: quiet_fold)

lemma quiet_resyncFeed: "rc_neg cfg = None \<Longrightarrow> quiet c0 c \<Longrightarrow> quiet c0 (resyncFeed cfg plan c)"
  by (auto simp: resyncFeed_def Let_def split: option.split)

text \<open>The steps that open a page add to the pending subscriptions; they still report the end once.\<close>

definition calm :: "client \<Rightarrow> client \<Rightarrow> bool" where
  "calm c c' \<longleftrightarrow> credit c' = credit c \<and> (settled c \<longrightarrow> settled c')
     \<and> inboundQueue c' = inboundQueue c \<and> inboundTimer c' = inboundTimer c"

lemma calm_trans: "calm a b \<Longrightarrow> calm b c \<Longrightarrow> calm a c"
  by (simp add: calm_def)

lemma quiet_calm: "quiet c c' \<Longrightarrow> calm c c'"
  by (simp add: quiet_def calm_def)

lemma set_add_nonempty [simp]: "set_add x xs \<noteq> []"
  by (cases xs) (auto simp: set_add_def)

lemma credit_fields [simp]:
  "credit (c\<lparr>pagedSubs := ps\<rparr>) = credit c" "credit (c\<lparr>pendingSubs := p\<rparr>) = credit c"
  "credit (c\<lparr>knownSubIds := k\<rparr>) = credit c" "credit (upd_paged st c) = credit c"
  "credit (send_try m c) = credit c" "credit (mark_if_done c) = credit c"
  "x \<noteq> OnSynced \<Longrightarrow> credit (did x c) = credit c"
  by (simp_all add: credit_def upd_paged_def send_try_def did_def mark_if_done_def markSynced_def)

lemma queue_fields [simp]:
  "inboundQueue (did x c) = inboundQueue c" "inboundTimer (did x c) = inboundTimer c"
  "inboundQueue (upd_paged st c) = inboundQueue c" "inboundTimer (upd_paged st c) = inboundTimer c"
  "inboundQueue (send_try m c) = inboundQueue c" "inboundTimer (send_try m c) = inboundTimer c"
  "inboundQueue (mark_if_done c) = inboundQueue c" "inboundTimer (mark_if_done c) = inboundTimer c"
  by (simp_all add: upd_paged_def send_try_def did_def mark_if_done_def markSynced_def)

lemma settled_fields [simp]:
  "settled (c\<lparr>pagedSubs := ps\<rparr>) = settled c" "settled (c\<lparr>knownSubIds := k\<rparr>) = settled c"
  "settled (upd_paged st c) = settled c" "settled (send_try m c) = settled c" "settled (mark_if_done c)"
  "settled (did x c) = settled c" "p \<noteq> [] \<Longrightarrow> settled (c\<lparr>pendingSubs := p\<rparr>)"
  by (simp_all add: settled_def upd_paged_def send_try_def did_def mark_if_done_def markSynced_def)

lemma calm_paged:
  "calm c (handlePagedEose s st c)" "calm c (recordPagedEvent s e r c)" "calm c (page_timer root c)"
  by (auto simp: calm_def handlePagedEose_def recordPagedEvent_def page_timer_def Let_def
      split: option.split)

lemma calm_resync: "calm c (resyncFeed cfg plan c)"
proof (cases "rc_neg cfg")
  case (Some opts)
  have start: "calm c (startNegentropy cfg (clearNegentropy
      (c\<lparr>resyncCalls := n, resyncWaiters := w, resyncTimer := b, knownSubIds := k, pendingSubs := set_add x p\<rparr>)))"
    for n w b k x p
  proof -
    let ?d = "c\<lparr>resyncCalls := n, resyncWaiters := w, resyncTimer := b, knownSubIds := k, pendingSubs := set_add x p\<rparr>"
    have "quiet ?d (startNegentropy cfg (clearNegentropy ?d))" by auto
    moreover have "calm c ?d" by (simp add: calm_def credit_def settled_def)
    ultimately show ?thesis by (blast intro: calm_trans quiet_calm)
  qed
  from Some show ?thesis
    by (auto simp: resyncFeed_def Let_def intro!: start) (auto intro: quiet_calm)
qed (blast intro: quiet_calm quiet_resyncFeed)

lemma quiet_recordFetch: "quiet c0 c \<Longrightarrow> quiet c0 (recordFetchFilterEvent s r c)"
  by (auto simp: recordFetchFilterEvent_def split: option.split fetch.split)

lemma calm_eose: "calm c (handleEose cfg s c)"
  by (auto simp: handleEose_def calm_paged intro!: quiet_calm split: option.split)

lemma quiet_eose: "pagedStates c = [] \<Longrightarrow> quiet c (handleEose cfg s c)"
  by (auto simp: handleEose_def paged_state_def split: option.split)

lemma handle_event:
  assumes "ingestEvent cfg b e (noteSharedSocketActivity c) = (r, b', c')"
  shows "calm c (recordFetchFilterEvent s r (recordPagedEvent s e r c'))"
    and "pagedStates c = [] \<Longrightarrow> quiet c (recordFetchFilterEvent s r (recordPagedEvent s e r c'))"
proof -
  have q: "quiet c c'" by (rule quiet_ingestEvent[OF assms]) auto
  have "calm c' (recordFetchFilterEvent s r (recordPagedEvent s e r c'))"
    by (rule calm_trans[OF calm_paged(2)]) (auto intro: quiet_calm quiet_recordFetch)
  then show "calm c (recordFetchFilterEvent s r (recordPagedEvent s e r c'))"
    using q by (blast intro: calm_trans quiet_calm)
  assume "pagedStates c = []"
  with q have "recordPagedEvent s e r c' = c'"
    by (simp add: recordPagedEvent_def paged_state_def quiet_def split: option.split)
  with q show "quiet c (recordFetchFilterEvent s r (recordPagedEvent s e r c'))"
    by (simp add: quiet_recordFetch)
qed

lemma handle_calm:
  assumes "handleMessage cfg data (b, c) = (b', c')"
  shows "calm c c'" and "pagedStates c = [] \<Longrightarrow> quiet c c'"
proof -
  have "calm c c' \<and> (pagedStates c = [] \<longrightarrow> quiet c c')"
  proof (cases "parseRelayMessage data")
    case (MEvent s e)
    obtain r b2 c2 where "ingestEvent cfg b e (noteSharedSocketActivity c) = (r, b2, c2)"
      by (metis prod_cases3)
    with assms MEvent handle_event[OF this] show ?thesis
      by (auto simp: handleMessage_def quiet_calm split: if_splits)
  next
    case (MEose s)
    with assms calm_eose[of c cfg s] quiet_eose[of c cfg s] show ?thesis by (simp add: handleMessage_def)
  qed (use assms in \<open>auto simp: handleMessage_def intro!: quiet_calm split: if_splits\<close>)
  then show "calm c c'" and "pagedStates c = [] \<Longrightarrow> quiet c c'" by auto
qed

lemma handle_fold_calm:
  assumes "fold (handleMessage cfg) fs (b, c) = (b', c')"
  shows "calm c c'" and "pagedStates c = [] \<Longrightarrow> quiet c c'"
  using assms
proof (induction fs arbitrary: b c)
  case (Cons f fs)
  case 1
  obtain b1 c1 where h: "handleMessage cfg f (b, c) = (b1, c1)" by fastforce
  with 1 Cons(1) handle_calm(1)[OF h] show ?case by (auto intro: calm_trans)
next
  case (Cons f fs)
  case 2
  obtain b1 c1 where h: "handleMessage cfg f (b, c) = (b1, c1)" by fastforce
  note q = handle_calm(2)[OF h 2(1)]
  with 2 have "pagedStates c1 = []" by (simp add: quiet_def)
  with 2 h Cons(2) q show ?case by (auto intro: quiet_trans)
qed (simp_all add: calm_def)

definition ends :: "string \<Rightarrow> stext \<Rightarrow> bool" where
  \<comment> \<open>the frame is an EOSE or CLOSED of the subscription\<close>
  "ends s d \<longleftrightarrow> (case parseRelayMessage d of MEose s' \<Rightarrow> s' = s | MClosed s' _ \<Rightarrow> s' = s | _ \<Rightarrow> False)"

lemma pending_done_gone: "s \<notin> set (pendingSubs (pending_done s c))"
  by (auto simp: pending_done_def markSynced_def set_del_def did_def Let_def)

lemma handle_ends:
  assumes "handleMessage cfg d (b, c) = (b', c')" "pagedStates c = []" "ends s d"
  shows "s \<notin> set (pendingSubs c')"
proof (cases "parseRelayMessage d")
  case (MEose s')
  have "s \<notin> set (pendingSubs (handleEose cfg s c))"
  proof (cases "s \<in> set (pendingSubs c)")
    case True
    with assms(2) show ?thesis by (simp add: handleEose_def paged_state_def pending_done_gone split: option.split)
  next
    case False
    with quiet_eose[OF assms(2), of cfg s] show ?thesis by (auto simp: quiet_def)
  qed
  with assms MEose show ?thesis by (simp add: handleMessage_def ends_def)
qed (use assms in \<open>auto simp: handleMessage_def ends_def handleClosed_def did_def pending_done_gone\<close>)

lemma handle_fold_ends:
  assumes "fold (handleMessage cfg) fs (b, c) = (b', c')" "pagedStates c = []" "d \<in> set fs" "ends s d"
  shows "s \<notin> set (pendingSubs c')"
  using assms
proof (induction fs arbitrary: b c)
  case (Cons f fs)
  obtain b1 c1 where h: "handleMessage cfg f (b, c) = (b1, c1)" by fastforce
  note q = handle_calm(2)[OF h Cons.prems(2)]
  then have p1: "pagedStates c1 = []" using Cons.prems(2) by (simp add: quiet_def)
  have r: "fold (handleMessage cfg) fs (b1, c1) = (b', c')" using Cons.prems(1) h by simp
  show ?case
  proof (cases "d = f")
    case True
    with handle_ends[OF h Cons.prems(2)] Cons.prems(4) have "s \<notin> set (pendingSubs c1)" by simp
    with handle_fold_calm(2)[OF r p1] show ?thesis by (auto simp: quiet_def)
  next
    case False
    with Cons r p1 show ?thesis by auto
  qed
qed simp

lemma quiet_storeIndividually: "storeIndividually es c = (c', rest) \<Longrightarrow> quiet c0 c \<Longrightarrow> quiet c0 c'"
  by (induction es c arbitrary: c' rest rule: storeIndividually.induct)
    (auto simp: save_now_def Let_def split: prod.splits)

lemma quiet_flush [intro!]: "quiet c0 c \<Longrightarrow> quiet c0 (flushPendingIngest es c)"
  by (cases "storeIndividually es c")
    (auto simp: flushPendingIngest_def intro!: quiet_fold intro: quiet_storeIndividually)

definition reports_once :: "client \<Rightarrow> client \<Rightarrow> bool" where
  "reports_once c c' \<longleftrightarrow> credit c' = credit c \<and> (settled c \<longrightarrow> settled c')"

lemma calm_once: "calm c c' \<Longrightarrow> reports_once c c'"
  by (simp add: calm_def reports_once_def)

lemma drain_calm:
  assumes "inboundTimer c"
  obtains c1 where "calm (c\<lparr>inboundTimer := False, inboundQueue := drop n (inboundQueue c)\<rparr>) c1"
    "drainInboundQueue cfg n c = (if inboundQueue c1 = [] then c1 else c1\<lparr>inboundTimer := True\<rparr>)"
    "pagedStates c = [] \<Longrightarrow> quiet (c\<lparr>inboundTimer := False, inboundQueue := drop n (inboundQueue c)\<rparr>) c1"
    "\<And>d s. pagedStates c = [] \<Longrightarrow> d \<in> set (take n (inboundQueue c)) \<Longrightarrow> ends s d \<Longrightarrow> s \<notin> set (pendingSubs c1)"
proof -
  let ?c = "c\<lparr>inboundTimer := False, inboundQueue := drop n (inboundQueue c)\<rparr>"
  obtain b c1 where f: "fold (handleMessage cfg) (take n (inboundQueue c)) (Some [], ?c) = (b, c1)" by fastforce
  let ?c2 = "flushPendingIngest (case b of Some b \<Rightarrow> b | None \<Rightarrow> []) c1"
  have q: "quiet c1 ?c2" by auto
  then have "set (pendingSubs ?c2) \<subseteq> set (pendingSubs c1)" by (simp add: quiet_def)
  with handle_fold_ends[OF f] have e: "s \<notin> set (pendingSubs ?c2)"
    if "pagedStates c = []" "d \<in> set (take n (inboundQueue c))" "ends s d" for d s
    using that by auto
  show ?thesis
  proof (rule that)
    show "calm ?c ?c2" using handle_fold_calm(1)[OF f] q by (blast intro: calm_trans quiet_calm)
    show "drainInboundQueue cfg n c = (if inboundQueue ?c2 = [] then ?c2 else ?c2\<lparr>inboundTimer := True\<rparr>)"
      using assms f by (simp add: drainInboundQueue_def Let_def)
    show "quiet ?c ?c2" if "pagedStates c = []"
      using handle_fold_calm(2)[OF f] q that by (auto intro: quiet_trans)
  qed (use e in blast)
qed

lemma drain_idle: "\<not> inboundTimer c \<Longrightarrow> drainInboundQueue cfg n c = c"
  by (simp add: drainInboundQueue_def)

lemma once_timer [simp]:
  "reports_once c0 (c\<lparr>inboundTimer := b\<rparr>) = reports_once c0 c"
  "reports_once (c\<lparr>inboundTimer := b, inboundQueue := q\<rparr>) c0 = reports_once c c0"
  "reports_once c0 (c\<lparr>inboundQueue := q, inboundTimer := b\<rparr>) = reports_once c0 c"
  by (simp_all add: reports_once_def credit_def settled_def)

lemma step_once:
  assumes "\<forall>subs. x \<noteq> Opened subs"
  shows "reports_once c (rc_step cfg x c)"
proof (cases x)
  case (Frame data)
  then show ?thesis
    using handle_calm(1)[of cfg data None c "fst (handleMessage cfg data (None, c))" "snd (handleMessage cfg data (None, c))"]
    by (simp add: receiveMessage_def calm_once) (simp add: reports_once_def credit_def settled_def)
next
  case (Drain n)
  show ?thesis
  proof (cases "inboundTimer c")
    case True
    then obtain c1 where "calm (c\<lparr>inboundTimer := False, inboundQueue := drop (max 1 n) (inboundQueue c)\<rparr>) c1"
      "drainInboundQueue cfg (max 1 n) c = (if inboundQueue c1 = [] then c1 else c1\<lparr>inboundTimer := True\<rparr>)"
      by (rule drain_calm)
    with Drain calm_once show ?thesis by fastforce
  qed (simp add: Drain drain_idle reports_once_def)
next
  case Close
  then show ?thesis by (simp add: rc_close_def reports_once_def credit_def settled_def did_def)
qed (use assms in \<open>auto intro!: calm_once quiet_calm calm_paged calm_resync\<close>)

lemma run_once:
  "\<forall>x \<in> set xs. \<forall>subs. x \<noteq> Opened subs \<Longrightarrow> reports_once c (rc_run cfg xs c)"
proof (induction xs arbitrary: c)
  case (Cons x xs)
  then have "reports_once c (rc_step cfg x c)" "reports_once (rc_step cfg x c) (rc_run cfg xs (rc_step cfg x c))"
    by (auto intro: step_once)
  then show ?case by (simp add: rc_run_def reports_once_def)
qed (simp add: rc_run_def reports_once_def)

lemma open_sub_sync:
  "pendingSubs (open_sub s c) = pendingSubs c" "credit (open_sub s c) = credit c"
  "synced (open_sub s c) = synced c" "inboundQueue (open_sub s c) = inboundQueue c"
  "inboundTimer (open_sub s c) = inboundTimer c"
  "s_pagination s = None \<Longrightarrow> pagedStates (open_sub s c) = pagedStates c"
  by (simp_all add: open_sub_def did_def credit_def Let_def split: option.split)

lemma open_subs_sync:
  "pendingSubs (fold open_sub ss c) = pendingSubs c \<and> credit (fold open_sub ss c) = credit c
   \<and> synced (fold open_sub ss c) = synced c \<and> inboundQueue (fold open_sub ss c) = inboundQueue c
   \<and> inboundTimer (fold open_sub ss c) = inboundTimer c"
  by (induction ss arbitrary: c) (simp_all add: open_sub_sync)

lemma open_subs_paged:
  "\<forall>s \<in> set ss. s_pagination s = None \<Longrightarrow> pagedStates (fold open_sub ss c) = pagedStates c"
  by (induction ss arbitrary: c) (simp_all add: open_sub_sync)

lemma opened_sync:
  fixes c subs cfg
  defines "c' \<equiv> rc_step cfg (Opened subs) c"
  shows "settled c'" "credit c' = count_list (outs c) OnSynced + 1"
    "inboundQueue c' = inboundQueue c" "inboundTimer c' = inboundTimer c"
    "rc_neg cfg = None \<Longrightarrow> set (pendingSubs c') \<subseteq> s_subId ` set subs"
    "\<forall>s \<in> set subs. s_pagination s = None \<Longrightarrow> pagedStates c' = []"
proof -
  let ?ids = "map s_subId subs @ (if rc_neg cfg \<noteq> None then [rc_negSubId cfg] else [])"
  let ?c0 = "((clearNegentropy (c\<lparr>sockOpen := True, synced := False\<rparr>))\<lparr>pagedSubs := [], pagedStates := []\<rparr>)
    \<lparr>knownSubIds := remdups ?ids, pendingSubs := remdups ?ids\<rparr>"
  have c0: "pendingSubs ?c0 = remdups ?ids" "credit ?c0 = count_list (outs c) OnSynced + 1"
    "inboundQueue ?c0 = inboundQueue c" "inboundTimer ?c0 = inboundTimer c" "pagedStates ?c0 = []"
    "\<not> synced ?c0"
    by (simp_all add: clearNegentropy_def credit_def)
  have all: "settled c' \<and> credit c' = count_list (outs c) OnSynced + 1 \<and> inboundQueue c' = inboundQueue c
    \<and> inboundTimer c' = inboundTimer c \<and> (rc_neg cfg = None \<longrightarrow> set (pendingSubs c') \<subseteq> s_subId ` set subs)
    \<and> ((\<forall>s \<in> set subs. s_pagination s = None) \<longrightarrow> pagedStates c' = [])"
  proof (cases "?ids = []")
    case True
    then have "c' = did OnSubscribed (markSynced ?c0)" by (simp add: c'_def sendSubscribe_def Let_def)
    with c0 show ?thesis by (simp add: markSynced_def settled_def credit_def did_def)
  next
    case False
    let ?c1 = "fold open_sub subs ?c0"
    have c': "c' = did OnSubscribed (startNegentropy cfg ?c1)"
      using False unfolding c'_def by (simp only: rc_step.simps sendSubscribe_def Let_def if_False)
    have "pendingSubs ?c1 \<noteq> []" using False c0(1) open_subs_sync[of subs ?c0] by auto
    then have "settled ?c1" by (simp add: settled_def)
    moreover have "quiet ?c1 c'" unfolding c' by auto
    ultimately show ?thesis
      using c0 open_subs_sync[of subs ?c0] open_subs_paged[of subs ?c0]
      by (auto simp: quiet_def split: if_splits)
  qed
  from all show "settled c'" "credit c' = count_list (outs c) OnSynced + 1"
    "inboundQueue c' = inboundQueue c" "inboundTimer c' = inboundTimer c"
    "rc_neg cfg = None \<Longrightarrow> set (pendingSubs c') \<subseteq> s_subId ` set subs"
    "\<forall>s \<in> set subs. s_pagination s = None \<Longrightarrow> pagedStates c' = []" by blast+
qed

lemma synced_once:
  assumes "\<forall>x \<in> set xs. \<forall>subs. x \<noteq> Opened subs"
  shows "settled (rc_run cfg xs (rc_step cfg (Opened subs) c))
    \<and> credit (rc_run cfg xs (rc_step cfg (Opened subs) c)) = count_list (outs c) OnSynced + 1"
  using run_once[OF assms, of "rc_step cfg (Opened subs) c" cfg] opened_sync(1,2)[of cfg subs c]
  by (simp add: reports_once_def)

section \<open>Synchronisation ends\<close>

definition buffered :: "client \<Rightarrow> bool" where
  "buffered c \<longleftrightarrow> (inboundQueue c \<noteq> [] \<longrightarrow> inboundTimer c)"

lemma calm_queue: "calm c c' \<Longrightarrow> buffered c \<Longrightarrow> buffered c' \<and> length (inboundQueue c') = length (inboundQueue c)"
  by (simp add: calm_def buffered_def)

definition queue_free :: "rc_input \<Rightarrow> bool" where
  "queue_free x \<longleftrightarrow> (case x of Opened _ \<Rightarrow> False | Frame _ \<Rightarrow> False | Drain _ \<Rightarrow> False | Close \<Rightarrow> False | _ \<Rightarrow> True)"

lemma free_calm: "queue_free x \<Longrightarrow> calm c (rc_step cfg x c)"
  by (cases x) (auto simp: queue_free_def intro!: quiet_calm calm_paged calm_resync)

lemma free_quiet:
  "queue_free x \<Longrightarrow> rc_neg cfg = None \<Longrightarrow> pagedStates c = [] \<Longrightarrow> quiet c (rc_step cfg x c)"
  by (cases x) (auto simp: queue_free_def page_timer_def intro!: quiet_resyncFeed)

lemma drain_queue:
  assumes "buffered c"
  shows "buffered (drainInboundQueue cfg n c) \<and> inboundQueue (drainInboundQueue cfg n c) = drop n (inboundQueue c)"
proof (cases "inboundTimer c")
  case True
  obtain c1 where "calm (c\<lparr>inboundTimer := False, inboundQueue := drop n (inboundQueue c)\<rparr>) c1"
    "drainInboundQueue cfg n c = (if inboundQueue c1 = [] then c1 else c1\<lparr>inboundTimer := True\<rparr>)"
    using drain_calm[OF True] by blast
  then show ?thesis by (auto simp: calm_def buffered_def)
next
  case False
  with assms show ?thesis by (auto simp: drain_idle buffered_def)
qed

lemma step_queue:
  assumes "buffered c"
  shows "buffered (rc_step cfg x c) \<and> length (inboundQueue (rc_step cfg x c)) \<le> length (inboundQueue c) + 1"
proof (cases x)
  case (Opened subs)
  with assms opened_sync(3,4)[of cfg subs c] show ?thesis by (simp add: buffered_def)
next
  case (Frame data)
  have "calm c (snd (handleMessage cfg data (None, c)))"
    by (rule handle_calm(1)[of cfg data None c "fst (handleMessage cfg data (None, c))"]) simp
  from Frame calm_queue[OF this assms] show ?thesis by (simp add: receiveMessage_def) (simp add: buffered_def)
next
  case (Drain n)
  with drain_queue[OF assms, of cfg "max 1 n"] show ?thesis by simp
next
  case Close
  then show ?thesis by (simp add: rc_close_def buffered_def did_def)
qed (use calm_queue[OF free_calm[of x c cfg] assms] in \<open>simp_all add: queue_free_def del: rc_step.simps\<close>)

lemma run_queue:
  "buffered c \<Longrightarrow> buffered (rc_run cfg xs c)
    \<and> length (inboundQueue (rc_run cfg xs c)) \<le> length (inboundQueue c) + length xs"
proof (induction xs arbitrary: c)
  case (Cons x xs)
  with step_queue[OF Cons.prems, of cfg x] show ?case by (fastforce simp: rc_run_def)
qed (simp add: rc_run_def)

lemma drains_empty:
  "buffered c \<Longrightarrow> length (inboundQueue c) \<le> k \<Longrightarrow> inboundQueue (rc_run cfg (replicate k (Drain n)) c) = []"
proof (induction k arbitrary: c)
  case (Suc k)
  with drain_queue[OF Suc.prems(1), of cfg "max 1 n"] show ?case by (simp add: rc_run_def)
qed (simp add: rc_run_def)

definition same_connection :: "rc_input \<Rightarrow> bool" where
  "same_connection x \<longleftrightarrow> (case x of Opened _ \<Rightarrow> False | Close \<Rightarrow> False | _ \<Rightarrow> True)"

definition answering :: "string set \<Rightarrow> client \<Rightarrow> bool" where
  \<comment> \<open>nothing is paged, and an open subscription of \<open>A\<close> has its last frame in the queue\<close>
  "answering A c \<longleftrightarrow> pagedStates c = [] \<and>
     (\<forall>s \<in> A. s \<in> set (pendingSubs c) \<longrightarrow> (\<exists>d \<in> set (inboundQueue c). ends s d))"

lemma answering_quiet: "quiet c c' \<Longrightarrow> answering A c \<Longrightarrow> answering A c' \<and> set (pendingSubs c') \<subseteq> set (pendingSubs c)"
  by (auto simp: quiet_def answering_def)

lemma step_answering:
  assumes "rc_neg cfg = None" "same_connection x" "answering A c"
  shows "answering A (rc_step cfg x c) \<and> set (pendingSubs (rc_step cfg x c)) \<subseteq> set (pendingSubs c)"
proof (cases x)
  case (Frame data)
  have "quiet c (snd (handleMessage cfg data (None, c)))"
    using assms(3) by (intro handle_calm(2)[of cfg data None c "fst (handleMessage cfg data (None, c))"])
      (simp_all add: answering_def)
  from answering_quiet[OF this assms(3)] Frame assms(3) show ?thesis
    by (simp add: receiveMessage_def) (auto simp: answering_def)
next
  case (Drain n)
  show ?thesis
  proof (cases "inboundTimer c")
    case True
    let ?n = "max 1 n"
    let ?c = "c\<lparr>inboundTimer := False, inboundQueue := drop ?n (inboundQueue c)\<rparr>"
    from True obtain c1 where c1: "drainInboundQueue cfg ?n c = (if inboundQueue c1 = [] then c1 else c1\<lparr>inboundTimer := True\<rparr>)"
      "quiet ?c c1" "\<And>d s. d \<in> set (take ?n (inboundQueue c)) \<Longrightarrow> ends s d \<Longrightarrow> s \<notin> set (pendingSubs c1)"
      using drain_calm[OF True] assms(3) unfolding answering_def by metis
    have sub: "set (pendingSubs c1) \<subseteq> set (pendingSubs c)" using c1(2) by (simp add: quiet_def)
    have "answering A c1"
      unfolding answering_def
    proof (intro conjI ballI impI)
      show "pagedStates c1 = []" using c1(2) assms(3) by (simp add: quiet_def answering_def)
      fix s assume s: "s \<in> A" "s \<in> set (pendingSubs c1)"
      with sub assms(3) obtain d where d: "d \<in> set (inboundQueue c)" "ends s d" by (auto simp: answering_def)
      have "set (inboundQueue c) = set (take ?n (inboundQueue c)) \<union> set (drop ?n (inboundQueue c))"
        by (metis append_take_drop_id set_append)
      with d c1(3) s(2) c1(2) show "\<exists>d \<in> set (inboundQueue c1). ends s d" by (auto simp: quiet_def)
    qed
    with Drain c1(1) sub show ?thesis by (auto simp: answering_def)
  qed (use assms Drain in \<open>simp add: drain_idle\<close>)
qed (use assms(2) answering_quiet[OF free_quiet[of x cfg c] assms(3)] assms(1,3) in
    \<open>simp_all add: queue_free_def same_connection_def answering_def del: rc_step.simps\<close>)

lemma run_answering:
  "rc_neg cfg = None \<Longrightarrow> \<forall>x \<in> set xs. same_connection x \<Longrightarrow> answering A c \<Longrightarrow>
    answering A (rc_run cfg xs c) \<and> set (pendingSubs (rc_run cfg xs c)) \<subseteq> set (pendingSubs c)"
proof (induction xs arbitrary: c)
  case (Cons x xs)
  with step_answering[OF Cons.prems(1), of x A c] Cons.IH[of "rc_step cfg x c"] show ?case
    by (auto simp: rc_run_def)
qed (simp add: rc_run_def)

lemma frame_answers:
  assumes "answering {} c" "ends s d"
  shows "answering {s} (rc_step cfg (Frame d) c)"
proof (cases "rc_batched cfg")
  case False
  have h: "handleMessage cfg d (None, c) = (fst (handleMessage cfg d (None, c)), snd (handleMessage cfg d (None, c)))"
    by simp
  from assms handle_ends[OF h _ assms(2)] handle_calm(2)[OF h] False show ?thesis
    by (simp add: receiveMessage_def answering_def quiet_def)
qed (use assms in \<open>auto simp: receiveMessage_def answering_def\<close>)

lemma run_answers:
  assumes "rc_neg cfg = None" "\<forall>x \<in> set xs. same_connection x" "answering {} c" "Frame d \<in> set xs" "ends s d"
  shows "answering {s} (rc_run cfg xs c)"
proof -
  obtain us vs where xs: "xs = us @ Frame d # vs" using assms(4) by (auto simp: in_set_conv_decomp)
  then have "answering {} (rc_run cfg us c)" using run_answering[OF assms(1) _ assms(3)] assms(2) by auto
  then have "answering {s} (rc_step cfg (Frame d) (rc_run cfg us c))" by (rule frame_answers[OF _ assms(5)])
  then have "answering {s} (rc_run cfg vs (rc_step cfg (Frame d) (rc_run cfg us c)))"
    using run_answering[OF assms(1), of vs "{s}"] assms(2) xs by auto
  then show ?thesis by (simp add: rc_run_def xs)
qed

lemma sync_completes_from:
  assumes "rc_neg cfg = None" "\<forall>s \<in> set subs. s_pagination s = None" "\<forall>x \<in> set xs. same_connection x"
    "\<forall>s \<in> set subs. \<exists>d. Frame d \<in> set xs \<and> ends (s_subId s) d" "buffered c"
    "length (inboundQueue c) + length xs \<le> k"
  shows "synced (rc_run cfg (xs @ replicate k (Drain n)) (rc_step cfg (Opened subs) c))"
proof -
  let ?c = "rc_step cfg (Opened subs) c"
  let ?k = k
  let ?d = "rc_run cfg xs ?c"
  let ?e = "rc_run cfg (replicate ?k (Drain n)) ?d"
  have paged: "pagedStates ?c = []" and pend: "set (pendingSubs ?c) \<subseteq> s_subId ` set subs"
    using opened_sync(5)[OF assms(1)] opened_sync(6)[OF assms(2)] by auto
  have buf: "buffered ?d \<and> length (inboundQueue ?d) \<le> ?k"
    using run_queue[of ?c cfg xs] assms(5,6) opened_sync(3,4)[of cfg subs c] by (simp add: buffered_def)
  have empty: "inboundQueue ?e = []" using drains_empty buf by blast
  have drains: "\<forall>x \<in> set (replicate ?k (Drain n)). same_connection x" by (simp add: same_connection_def)
  have none: "answering {} ?c" using paged by (simp add: answering_def)
  have "s \<notin> set (pendingSubs ?e)" for s
  proof
    assume s: "s \<in> set (pendingSubs ?e)"
    have "set (pendingSubs ?e) \<subseteq> set (pendingSubs ?c)"
      using run_answering[OF assms(1,3) none] run_answering[OF assms(1) drains, of "{}" ?d] by blast
    with s pend obtain b where "b \<in> set subs" "s = s_subId b" by auto
    with assms(4) obtain d where "Frame d \<in> set xs" "ends s d" by blast
    with run_answers[OF assms(1,3) none] have "answering {s} ?d" by blast
    then have "answering {s} ?e" using run_answering[OF assms(1) drains, of "{s}" ?d] by blast
    with s empty show False by (simp add: answering_def)
  qed
  then have "pendingSubs ?e = []" by (metis ex_in_conv set_empty)
  moreover have e: "?e = rc_run cfg (xs @ replicate ?k (Drain n)) ?c" by (simp add: rc_run_def)
  moreover have "\<forall>x \<in> set (xs @ replicate ?k (Drain n)). \<forall>subs. x \<noteq> Opened subs"
    using assms(3) by (auto simp: same_connection_def)
  then have "settled ?e"
    using run_once opened_sync(1)[of cfg subs c] unfolding e reports_once_def by blast
  ultimately show ?thesis unfolding settled_def by metis
qed

text \<open>
  C10. A connection opened with any plan of plain subscriptions synchronises: once the relay has
  answered every subscription with EOSE or CLOSED, in whatever order and between whatever other
  frames, calls and timers, and the buffered frames are drained, the client is synchronised and has
  told so exactly once, batched or not.
\<close>

theorem sync_completes:
  assumes "rc_neg cfg = None" "\<forall>s \<in> set subs. s_pagination s = None" "\<forall>x \<in> set xs. same_connection x"
    "\<forall>s \<in> set subs. \<exists>d. Frame d \<in> set xs \<and> ends (s_subId s) d"
  shows "let before = rc_run cfg ys (new_client st);
      c = rc_run cfg (xs @ replicate (length ys + length xs) (Drain n)) (rc_step cfg (Opened subs) before)
    in synced c \<and> count_list (outs c) OnSynced = count_list (outs before) OnSynced + 1"
proof -
  let ?b = "rc_run cfg ys (new_client st)"
  let ?xs = "xs @ replicate (length ys + length xs) (Drain n)"
  have b: "buffered ?b" "length (inboundQueue ?b) \<le> length ys"
    using run_queue[of "new_client st" cfg ys] by (simp_all add: buffered_def new_client_def)
  then have "synced (rc_run cfg ?xs (rc_step cfg (Opened subs) ?b))"
    by (intro sync_completes_from assms) simp_all
  moreover have "\<forall>x \<in> set ?xs. \<forall>subs. x \<noteq> Opened subs" using assms(3) by (auto simp: same_connection_def)
  then have "credit (rc_run cfg ?xs (rc_step cfg (Opened subs) ?b)) = count_list (outs ?b) OnSynced + 1"
    using synced_once by blast
  ultimately show ?thesis by (simp only: credit_def Let_def if_True) simp
qed

definition ex_eose :: "string \<Rightarrow> stext" where
  "ex_eose s = Json (JArr [JStr ''EOSE'', JStr s])"

lemma ends_ex_eose: "ends s (ex_eose s)"
  by (simp add: ends_def ex_eose_def parseRelayMessage_def at_def str_at_def str_or_empty_def Let_def)

definition ex_inputs :: "rc_input list" where
  "ex_inputs = [Frame (ex_eose ''dm''), Dropped, Frame (ex_eose ''feed'')]"

theorem sync_completes_witness:
  "let before = rc_run (ex_cfg (\<lambda>_. True) True) [Dropped] (new_client empty_store);
      c = rc_run (ex_cfg (\<lambda>_. True) True) (ex_inputs @ replicate (length [Dropped] + length ex_inputs) (Drain 7))
        (rc_step (ex_cfg (\<lambda>_. True) True) (Opened [ex_sub ''feed'', ex_sub ''dm'']) before)
    in synced c \<and> count_list (outs c) OnSynced = count_list (outs before) OnSynced + 1"
proof (rule sync_completes)
  show "\<forall>s \<in> set [ex_sub ''feed'', ex_sub ''dm'']. \<exists>d. Frame d \<in> set ex_inputs \<and> ends (s_subId s) d"
    using ends_ex_eose by (auto simp: ex_sub_def ex_inputs_def)
qed (simp_all add: ex_cfg_def ex_sub_def ex_inputs_def same_connection_def)

text \<open>
  C12. For every configuration, also with paged subscriptions and reconciliation: while a connection
  lasts the client is never left with nothing pending and no report, and it reports at most once.
\<close>

theorem synced_reported_once:
  assumes "\<forall>x \<in> set xs. \<forall>subs. x \<noteq> Opened subs"
  shows "let d = rc_run cfg xs (rc_step cfg (Opened subs) c)
    in (pendingSubs d = [] \<longrightarrow> synced d)
      \<and> count_list (outs d) OnSynced = count_list (outs c) OnSynced + (if synced d then 1 else 0)"
  using synced_once[OF assms, of cfg subs c] by (auto simp: Let_def settled_def credit_def split: if_splits)

theorem synced_reported_once_witness:
  "let d = rc_run (ex_cfg (\<lambda>_. True) False) [Frame (ex_eose ''feed''), Resync []]
       (rc_step (ex_cfg (\<lambda>_. True) False) (Opened [ex_sub ''feed'']) (new_client empty_store))
    in (pendingSubs d = [] \<longrightarrow> synced d)
      \<and> count_list (outs d) OnSynced = count_list (outs (new_client empty_store)) OnSynced + (if synced d then 1 else 0)"
  by (rule synced_reported_once) simp

section \<open>What a batch reorders\<close>

text \<open>
  A tick stores its accepted events when it ends.  When the EOSE of a subscription is drained in the
  same tick as the events before it, the client reports that it is synchronised before these events
  are in the store and before the listeners hear of them.  Without batching the events come first.
\<close>

definition before_synced :: "client \<Rightarrow> rc_output list" where
  "before_synced c = takeWhile (\<lambda>x. x \<noteq> OnSynced) (outs c)"

lemma batch_reports_synced_first:
  "let ins = [Opened [ex_sub ''feed''], Frame (ex_frame ''feed'' ex_wire), Frame (ex_eose ''feed''), Drain 2];
       batched = rc_run (ex_cfg (\<lambda>_. True) True) ins (new_client empty_store);
       direct = rc_run (ex_cfg (\<lambda>_. True) False) ins (new_client empty_store)
   in synced batched \<and> OnEvent ex_wire \<in> set (outs batched) \<and> OnEvent ex_wire \<notin> set (before_synced batched)
     \<and> OnEvent ex_wire \<in> set (before_synced direct)"
  by code_simp

text \<open>
  For the same reason a fetch by id whose event and EOSE arrive in one tick forgets that it has asked
  for the id: the cleanup looks the id up in the store before the tick has saved the event.
\<close>

lemma batch_forgets_fetched:
  "let ins = [Opened [], FetchById [w_id ex_wire], Frame (ex_frame (fetch_name 0) ex_wire), Frame (ex_eose (fetch_name 0)), Drain 2];
       batched = rc_run (ex_cfg (\<lambda>_. True) True) ins (new_client empty_store);
       direct = rc_run (ex_cfg (\<lambda>_. True) False) ins (new_client empty_store)
   in has (store batched) (w_id ex_wire) \<and> fetchedIds batched = [] \<and> fetchedIds direct = [w_id ex_wire]"
  by code_simp

end
