(* ===== verification/RelayFetch.thy ===== *)
theory RelayFetch
  imports RelayClient
begin

text \<open>
  The one-shot fetches of the relay client: at most one fetch by id is open, and the queue of the
  others drains.  \<open>fview\<close> collects the fields these depend on; an operation that leaves it alone keeps
  the invariant \<open>fok\<close>.
\<close>

section \<open>The queue of one-shot fetches\<close>

definition fetch_ids :: "client \<Rightarrow> string set" where
  \<comment> \<open>the open subscriptions that fetch by id\<close>
  "fetch_ids c = {s. \<exists>w. map_of (fetchSubs c) s = Some (FById w)}"

definition fetch_inv :: "client \<Rightarrow> bool" where
  "fetch_inv c \<longleftrightarrow> fetch_ids c = set_option (activeIdFetchSubId c)
     \<and> (\<forall>n. map_of (fetchSubs c) (fetch_name n) \<noteq> None \<longrightarrow> n < fetchSeq c)
     \<and> (\<forall>s. activeIdFetchSubId c = Some s \<longrightarrow> (\<exists>n. s = fetch_name n))"

definition driven :: "client \<Rightarrow> bool" where
  "driven c \<longleftrightarrow> (fetchQueue c \<noteq> [] \<longrightarrow> activeIdFetchSubId c \<noteq> None \<or> pumpTimers c > 0)"

definition awaited :: "client \<Rightarrow> bool" where
  "awaited c \<longleftrightarrow> (negFetchPending c \<longrightarrow> activeIdFetchSubId c \<noteq> None \<or> fetchQueue c \<noteq> [])"

definition fview where
  "fview c = (fetchSubs c, fetchSeq c, fetchQueue c, activeIdFetchSubId c, pumpTimers c, negFetchPending c)"

definition fok :: "client \<Rightarrow> bool" where
  "fok c \<longleftrightarrow> fetch_inv c \<and> driven c \<and> awaited c"

lemma fok_view: "fview c' = fview c \<Longrightarrow> fok c' = fok c"
  by (simp add: fok_def fview_def fetch_inv_def driven_def awaited_def fetch_ids_def)

lemma fview_fields [simp]:
  "fview (c\<lparr>store := x1\<rparr>) = fview c" "fview (c\<lparr>knownSubIds := x2\<rparr>) = fview c"
  "fview (c\<lparr>pendingPublishes := x3\<rparr>) = fview c" "fview (c\<lparr>publishTimers := x4\<rparr>) = fview c"
  "fview (c\<lparr>publishSeq := n1\<rparr>) = fview c" "fview (c\<lparr>isolatedPubs := x5\<rparr>) = fview c"
  "fview (c\<lparr>sharedPublishStallStreak := n2\<rparr>) = fview c" "fview (c\<lparr>pendingCounts := x6\<rparr>) = fview c"
  "fview (c\<lparr>countSeq := n3\<rparr>) = fview c" "fview (c\<lparr>fetchedIds := y1\<rparr>) = fview c"
  "fview (c\<lparr>fetchedFilters := y2\<rparr>) = fview c" "fview (c\<lparr>scopedSubRetries := y3\<rparr>) = fview c"
  "fview (c\<lparr>pagedSubs := y4\<rparr>) = fview c" "fview (c\<lparr>pagedStates := y10\<rparr>) = fview c"
  "fview (c\<lparr>pendingSubs := y11\<rparr>) = fview c" "fview (c\<lparr>synced := b6\<rparr>) = fview c"
  "fview (c\<lparr>inboundQueue := y12\<rparr>) = fview c" "fview (c\<lparr>inboundTimer := b7\<rparr>) = fview c"
  "fview (c\<lparr>olderPageInFlight := y5\<rparr>) = fview c" "fview (c\<lparr>olderPageSeq := n6\<rparr>) = fview c"
  "fview (c\<lparr>rc_ng := y6\<rparr>) = fview c" "fview (c\<lparr>negActive := b1\<rparr>) = fview c"
  "fview (c\<lparr>negNeed := y7\<rparr>) = fview c" "fview (c\<lparr>negTimer := b3\<rparr>) = fview c"
  "fview (c\<lparr>negRounds := n7\<rparr>) = fview c" "fview (c\<lparr>negFrameBytesOut := n8\<rparr>) = fview c"
  "fview (c\<lparr>negHaveCount := n9\<rparr>) = fview c" "fview (c\<lparr>resyncWaiters := y8\<rparr>) = fview c"
  "fview (c\<lparr>resyncTimer := b4\<rparr>) = fview c" "fview (c\<lparr>resyncEoseSubId := y9\<rparr>) = fview c"
  "fview (c\<lparr>resyncSeq := m1\<rparr>) = fview c" "fview (c\<lparr>resyncCalls := m2\<rparr>) = fview c"
  "fview (c\<lparr>sockOpen := b5\<rparr>) = fview c" "fview (c\<lparr>outs := y13\<rparr>) = fview c"
  by (simp_all add: fview_def)

lemma fview_ops [simp]:
  "fview (did x c) = fview c" "fview (send_try m c) = fview c" "fview (markSynced c) = fview c"
  "fview (pending_done s c) = fview c" "fview (mark_if_done c) = fview c" "fview (upd_paged st c) = fview c"
  by (simp_all add: did_def send_try_def markSynced_def pending_done_def mark_if_done_def upd_paged_def Let_def)

lemma fview_fold: "(\<And>x c. fview (f x c) = fview c) \<Longrightarrow> fview (fold f xs c) = fview c"
  by (induction xs arbitrary: c) simp_all

lemma fview_settle [simp]:
  "fview (settleResync c) = fview c" "fview (completeNegentropySlot cfg c) = fview c"
proof -
  show r: "fview (settleResync c) = fview c" for c
    by (simp add: settleResync_def Let_def fview_fold split: option.split)
  show "fview (completeNegentropySlot cfg c) = fview c" by (simp add: completeNegentropySlot_def r)
qed

lemma fview_same [simp]:
  "fview (noteSharedSocketActivity c) = fview c" "fview (noteSharedPublishTimeout c) = fview c"
  "fview (finish_publish n r c) = fview c" "fview (publishShared e c) = fview c"
  "fview (publish_timeout n c) = fview c" "fview (isolated_attempt cfg b n p c) = fview c"
  "fview (isolated_retry cfg b n c) = fview c" "fview (rc_publish cfg b e c) = fview c"
  "fview (rc_count flt c) = fview c" "fview (finish_count s x c) = fview c" "fview (count_timeout s c) = fview c"
  "fview (circuit_send n c) = fview c" "fview (cancelScopedSubRetry i c) = fview c"
  "fview (subscribeScopedAttempt i fs k c) = fview c" "fview (closeSub i c) = fview c"
  "fview (handleClosed s m c) = fview c" "fview (recordPagedEvent s e ir c) = fview c"
  "fview (handlePagedEose s st c) = fview c" "fview (page_timer s c) = fview c"
  "fview (rc_unsubscribe c) = fview c" "fview (open_sub sub c) = fview c"
proof -
  show 1: "fview (noteSharedSocketActivity c) = fview c" "fview (noteSharedPublishTimeout c) = fview c"
    "fview (finish_publish n r c) = fview c" for c n r
    by (simp_all add: noteSharedSocketActivity_def noteSharedPublishTimeout_def finish_publish_def Let_def)
  show 2: "fview (publishShared e c) = fview c" "fview (isolated_attempt cfg b n p c) = fview c" for e c b n p
    by (simp_all add: publishShared_def isolated_attempt_def Let_def)
  show "fview (publish_timeout n c) = fview c" by (simp add: publish_timeout_def 1 split: option.split)
  show "fview (isolated_retry cfg b n c) = fview c" by (simp add: isolated_retry_def 2 split: option.split)
  show "fview (rc_publish cfg b e c) = fview c" by (simp add: rc_publish_def 2)
  show 3: "fview (rc_count flt c) = fview c" "fview (finish_count s x c) = fview c" for flt s x c
    by (simp_all add: rc_count_def finish_count_def Let_def)
  show "fview (count_timeout s c) = fview c" by (simp add: count_timeout_def 3)
  show "fview (circuit_send n c) = fview c" by (simp add: circuit_send_def split: option.split)
  show 4: "fview (cancelScopedSubRetry i c) = fview c" for i c by (simp add: cancelScopedSubRetry_def)
  show "fview (subscribeScopedAttempt i fs k c) = fview c" by (simp add: subscribeScopedAttempt_def Let_def 4)
  show "fview (closeSub i c) = fview c" by (simp add: closeSub_def Let_def 4)
  show "fview (handleClosed s m c) = fview c" by (simp add: handleClosed_def)
  show "fview (recordPagedEvent s e ir c) = fview c" by (simp add: recordPagedEvent_def split: option.split)
  show "fview (handlePagedEose s st c) = fview c" by (simp add: handlePagedEose_def Let_def split: option.split)
  show "fview (page_timer s c) = fview c" by (simp add: page_timer_def Let_def split: option.split)
  show "fview (rc_unsubscribe c) = fview c" by (simp add: rc_unsubscribe_def fview_fold)
  show "fview (open_sub sub c) = fview c" by (simp add: open_sub_def Let_def split: option.split)
qed

lemma fview_ingestEvent: "ingestEvent cfg b e c = (r, b', c') \<Longrightarrow> fview c' = fview c"
  by (auto simp: ingestEvent_def save_now_def Let_def split: if_splits option.splits prod.splits)

lemma fview_ingest [simp]: "fview (ingest cfg e c) = fview c"
  by (cases "ingestEvent cfg None e c") (simp add: ingest_def fview_ingestEvent)

lemma fview_ok [simp]: "fview (handleOk cfg i a m c) = fview c" "fview (isolated_finish cfg n r c) = fview c"
  by (simp_all add: handleOk_def isolated_finish_def Let_def split: option.split)

lemma fview_scoped [simp]: "fview (scoped_retry i c) = fview c"
  by (simp add: scoped_retry_def split: option.split)

lemma fview_storeIndividually: "storeIndividually es c = (c', rest) \<Longrightarrow> fview c' = fview c"
  by (induction es c arbitrary: c' rest rule: storeIndividually.induct)
    (auto simp: save_now_def Let_def split: prod.splits)

lemma fview_flush [simp]: "fview (flushPendingIngest es c) = fview c"
  by (cases "storeIndividually es c") (simp add: flushPendingIngest_def fview_fold fview_storeIndividually)

lemma fetch_name_eq [simp]: "fetch_name m = fetch_name n \<longleftrightarrow> m = n"
  using js_dec_inject by (auto simp: fetch_name_def)

lemma older_not_fetch [simp]: "older_name k m \<noteq> fetch_name n"
  by (simp add: older_name_def fetch_name_def)

lemma fok_updates [simp]:
  "fok (c\<lparr>store := x1\<rparr>) = fok c" "fok (c\<lparr>knownSubIds := x2\<rparr>) = fok c"
  "fok (c\<lparr>pendingPublishes := x3\<rparr>) = fok c" "fok (c\<lparr>publishTimers := x4\<rparr>) = fok c"
  "fok (c\<lparr>publishSeq := n1\<rparr>) = fok c" "fok (c\<lparr>isolatedPubs := x5\<rparr>) = fok c"
  "fok (c\<lparr>sharedPublishStallStreak := n2\<rparr>) = fok c" "fok (c\<lparr>pendingCounts := x6\<rparr>) = fok c"
  "fok (c\<lparr>countSeq := n3\<rparr>) = fok c" "fok (c\<lparr>fetchedIds := y1\<rparr>) = fok c"
  "fok (c\<lparr>fetchedFilters := y2\<rparr>) = fok c" "fok (c\<lparr>scopedSubRetries := y3\<rparr>) = fok c"
  "fok (c\<lparr>pagedSubs := y4\<rparr>) = fok c" "fok (c\<lparr>pagedStates := y10\<rparr>) = fok c"
  "fok (c\<lparr>pendingSubs := y11\<rparr>) = fok c" "fok (c\<lparr>synced := b6\<rparr>) = fok c"
  "fok (c\<lparr>inboundQueue := y12\<rparr>) = fok c" "fok (c\<lparr>inboundTimer := b7\<rparr>) = fok c"
  "fok (c\<lparr>olderPageInFlight := y5\<rparr>) = fok c" "fok (c\<lparr>olderPageSeq := n6\<rparr>) = fok c"
  "fok (c\<lparr>rc_ng := y6\<rparr>) = fok c" "fok (c\<lparr>negActive := b1\<rparr>) = fok c"
  "fok (c\<lparr>negNeed := y7\<rparr>) = fok c" "fok (c\<lparr>negTimer := b3\<rparr>) = fok c"
  "fok (c\<lparr>negRounds := n7\<rparr>) = fok c" "fok (c\<lparr>negFrameBytesOut := n8\<rparr>) = fok c"
  "fok (c\<lparr>negHaveCount := n9\<rparr>) = fok c" "fok (c\<lparr>resyncWaiters := y8\<rparr>) = fok c"
  "fok (c\<lparr>resyncTimer := b4\<rparr>) = fok c" "fok (c\<lparr>resyncEoseSubId := y9\<rparr>) = fok c"
  "fok (c\<lparr>resyncSeq := m1\<rparr>) = fok c" "fok (c\<lparr>resyncCalls := m2\<rparr>) = fok c"
  "fok (c\<lparr>sockOpen := b5\<rparr>) = fok c" "fok (c\<lparr>outs := y13\<rparr>) = fok c"
  by (rule fok_view, simp)+

lemma fok_ops [simp]:
  "fok (did x c) = fok c" "fok (send_try m c) = fok c" "fok (markSynced c) = fok c"
  "fok (pending_done s c) = fok c" "fok (mark_if_done c) = fok c" "fok (upd_paged st c) = fok c"
  by (rule fok_view, simp)+

lemma fok_settle [simp]:
  "fok (settleResync c) = fok c" "fok (completeNegentropySlot cfg c) = fok c"
  by (rule fok_view, simp)+

lemma fok_same [simp]:
  "fok (noteSharedSocketActivity c) = fok c" "fok (noteSharedPublishTimeout c) = fok c"
  "fok (finish_publish n r c) = fok c" "fok (publishShared e c) = fok c"
  "fok (publish_timeout n c) = fok c" "fok (isolated_attempt cfg b n p c) = fok c"
  "fok (isolated_retry cfg b n c) = fok c" "fok (rc_publish cfg b e c) = fok c"
  "fok (rc_count flt c) = fok c" "fok (finish_count s x c) = fok c" "fok (count_timeout s c) = fok c"
  "fok (circuit_send n c) = fok c" "fok (cancelScopedSubRetry i c) = fok c"
  "fok (subscribeScopedAttempt i fs k c) = fok c" "fok (closeSub i c) = fok c"
  "fok (handleClosed s m c) = fok c" "fok (recordPagedEvent s e ir c) = fok c"
  "fok (handlePagedEose s st c) = fok c" "fok (page_timer s c) = fok c"
  "fok (rc_unsubscribe c) = fok c" "fok (open_sub sub c) = fok c"
  by (rule fok_view, simp)+

lemma fok_ok [simp]:
  "fok (handleOk cfg i a m c) = fok c" "fok (isolated_finish cfg n r c) = fok c"
  by (rule fok_view, simp)+

lemma fok_scoped [simp]:
  "fok (scoped_retry i c) = fok c"
  by (rule fok_view, simp)+

lemma fok_flush [simp]:
  "fok (flushPendingIngest es c) = fok c"
  by (rule fok_view, simp)+

lemma fok_ingest [simp]:
  "fok (ingest cfg e c) = fok c"
  by (rule fok_view, simp)+


lemmas fetch_defs = fetch_inv_def driven_def awaited_def fok_def fetch_ids_def

lemma fok_fields [simp]:
  "fetchQueue (did x c) = fetchQueue c" "fetchQueue (send_try m c) = fetchQueue c"
  "activeIdFetchSubId (did x c) = activeIdFetchSubId c" "activeIdFetchSubId (send_try m c) = activeIdFetchSubId c"
  "negFetchPending (did x c) = negFetchPending c" "negFetchPending (send_try m c) = negFetchPending c"
  "fetchSubs (did x c) = fetchSubs c" "fetchSubs (send_try m c) = fetchSubs c"
  "fetchSeq (did x c) = fetchSeq c" "fetchSeq (send_try m c) = fetchSeq c"
  "pumpTimers (did x c) = pumpTimers c" "pumpTimers (send_try m c) = pumpTimers c"
  by (simp_all add: did_def send_try_def)

lemma inv_view: "fview c' = fview c \<Longrightarrow> fetch_inv c' = fetch_inv c \<and> driven c' = driven c \<and> awaited c' = awaited c"
  by (simp add: fview_def fetch_inv_def driven_def awaited_def fetch_ids_def)

lemma complete_neg:
  assumes "fetch_inv c" "driven c"
  shows "fok (completeNegentropyFetch cfg c)"
proof (cases "\<not> negFetchPending c \<or> activeIdFetchSubId c \<noteq> None \<or> fetchQueue c \<noteq> []")
  case True
  with assms show ?thesis by (auto simp: completeNegentropyFetch_def fok_def awaited_def)
next
  case False
  have "fok (c\<lparr>negFetchPending := False\<rparr>)"
    using assms by (simp add: fetch_defs)
  with False show ?thesis
    using fok_view[OF fview_settle(2)] by (simp add: completeNegentropyFetch_def)
qed

lemma complete_neg_fields [simp]:
  "fetchQueue (completeNegentropyFetch cfg c) = fetchQueue c"
  "activeIdFetchSubId (completeNegentropyFetch cfg c) = activeIdFetchSubId c"
  "pumpTimers (completeNegentropyFetch cfg c) = pumpTimers c"
  using fview_settle(2)[of cfg "c\<lparr>negFetchPending := False\<rparr>"]
  by (simp_all add: completeNegentropyFetch_def fview_def)

lemma cleanup_ok:
  assumes "fetch_inv c" "fetchQueue c = [] \<or> activeIdFetchSubId c \<noteq> None \<or> pumpTimers c > 0"
    "awaited c \<or> map_of (fetchSubs c) s \<noteq> None \<and> activeIdFetchSubId c = Some s"
  shows "fok (fetch_cleanup cfg s c)"
proof (cases "map_of (fetchSubs c) s")
  case None
  then show ?thesis using assms by (auto simp: fetch_cleanup_def fok_def driven_def)
next
  case (Some f)
  let ?c = "c\<lparr>fetchSubs := AList.delete s (fetchSubs c), knownSubIds := set_del s (knownSubIds c)\<rparr>"
  show ?thesis
  proof (cases "activeIdFetchSubId c = Some s")
    case True
    then have "s \<in> fetch_ids c" using assms(1) by (simp add: fetch_inv_def)
    then obtain want where f: "f = FById want" using Some by (auto simp: fetch_ids_def)
    let ?d = "(send_try (closeMessage s) (?c\<lparr>fetchedIds := filter (\<lambda>i. \<not> (i \<in> set want \<and> \<not> has (store ?c) i)) (fetchedIds ?c)\<rparr>))\<lparr>activeIdFetchSubId := None\<rparr>"
    have inv: "fetch_inv ?d"
      using assms(1) True by (auto simp: fetch_inv_def fetch_ids_def map_of_delete)
    have d: "fetch_cleanup cfg s c = (if fetchQueue ?d = [] then completeNegentropyFetch cfg ?d
        else ?d\<lparr>pumpTimers := pumpTimers ?d + 1\<rparr>)"
      using Some f True by (simp add: fetch_cleanup_def Let_def)
    show ?thesis
    proof (cases "fetchQueue ?d = []")
      case True
      then have "driven ?d" by (simp add: driven_def)
      from complete_neg[OF inv this] True d show ?thesis by simp
    next
      case False
      with d inv show ?thesis by (simp add: fetch_defs)
    qed
  next
    case False
    then have "s \<notin> fetch_ids c" using assms(1) by (auto simp: fetch_inv_def)
    with Some have f: "\<forall>w. f \<noteq> FById w" by (auto simp: fetch_ids_def)
    have ids: "fetch_ids ?c = fetch_ids c" using Some f by (auto simp: fetch_ids_def map_of_delete)
    have "fok ?c"
      using assms False ids by (auto simp: fok_def fetch_inv_def driven_def awaited_def map_of_delete)
    moreover have "fview (fetch_cleanup cfg s c) = fview ?c"
      using Some f False by (cases f) (simp_all add: fetch_cleanup_def Let_def)
    ultimately show ?thesis using fok_view by blast
  qed
qed

lemma open_other:
  assumes "fok c" "\<And>w. f \<noteq> FById w" "map_of (fetchSubs c) s = None \<or> s \<notin> fetch_ids c"
    "\<And>n. s = fetch_name n \<Longrightarrow> n < fetchSeq c"
  shows "fok (open_fetch cfg s f fs c)"
proof -
  let ?c = "c\<lparr>fetchSubs := AList.update s f (fetchSubs c)\<rparr>"
  have ids: "fetch_ids ?c = fetch_ids c" using assms(2,3) by (auto simp: fetch_ids_def map_of_update)
  have ok: "fok ?c"
    using assms(1,4) ids by (auto simp: fok_def fetch_inv_def driven_def awaited_def map_of_update)
  then have "fok (fetch_cleanup cfg s ?c)" by (intro cleanup_ok) (auto simp: fok_def driven_def)
  with ok fok_view[of "did (Sent (reqMessage s fs)) ?c" ?c] show ?thesis
    by (simp add: open_fetch_def Let_def)
qed

lemma pump_ok:
  assumes "fetch_inv c" "fetchQueue c = [] \<Longrightarrow> awaited c"
  shows "fok (pumpFetchQueue cfg c)"
proof (cases "activeIdFetchSubId c \<noteq> None \<or> fetchQueue c = []")
  case True
  with assms show ?thesis by (auto simp: pumpFetchQueue_def fok_def driven_def awaited_def split: list.split)
next
  case False
  then obtain want rest where q: "fetchQueue c = want # rest" and none: "activeIdFetchSubId c = None"
    by (cases "fetchQueue c") auto
  let ?s = "fetch_name (fetchSeq c)"
  let ?c = "c\<lparr>fetchQueue := rest, fetchSeq := fetchSeq c + 1, activeIdFetchSubId := Some ?s,
     knownSubIds := set_add ?s (knownSubIds c)\<rparr>"
  let ?d = "?c\<lparr>fetchSubs := AList.update ?s (FById want) (fetchSubs ?c)\<rparr>"
  have p: "pumpFetchQueue cfg c = open_fetch cfg ?s (FById want) [no_filter\<lparr>f_ids := Some want\<rparr>] ?c"
    using q none by (simp add: pumpFetchQueue_def Let_def)
  have ids: "fetch_ids ?d = {?s}" using assms(1) none
    by (auto simp: fetch_inv_def fetch_ids_def map_of_update)
  have inv: "fetch_inv ?d"
    using assms(1) ids by (auto simp: fetch_inv_def map_of_update less_Suc_eq)
  have ok: "fok ?d" using inv by (simp add: fok_def driven_def awaited_def)
  have "fok (fetch_cleanup cfg ?s ?d)" by (rule cleanup_ok[OF inv]) (simp_all add: map_of_update)
  with ok p fok_view[of "did (Sent (reqMessage ?s [no_filter\<lparr>f_ids := Some want\<rparr>])) ?d" ?d] show ?thesis
    by (simp add: open_fetch_def Let_def)
qed

lemma inv_queue [simp]:
  "fetch_inv (c\<lparr>fetchedIds := x, fetchQueue := q\<rparr>) = fetch_inv c"
  "fetch_inv (c\<lparr>negFetchPending := b\<rparr>) = fetch_inv c" "driven (c\<lparr>negFetchPending := b\<rparr>) = driven c"
  "fetch_inv (c\<lparr>pumpTimers := n\<rparr>) = fetch_inv c" "fetch_inv (c\<lparr>negNeed := y\<rparr>) = fetch_inv c"
  "driven (c\<lparr>negNeed := y\<rparr>) = driven c"
  by (simp_all add: fetch_inv_def driven_def fetch_ids_def)

lemma chunks_nonempty: "xs \<noteq> [] \<Longrightarrow> chunks xs \<noteq> []"
  by (subst chunks.simps) simp

lemma fetchById_ok:
  assumes "fetch_inv c" "driven c"
  shows "fetch_inv (fetchById cfg ids c) \<and> driven (fetchById cfg ids c)"
    and "awaited c \<Longrightarrow> fok (fetchById cfg ids c)"
proof -
  let ?want = "filter (\<lambda>i. i \<noteq> '''' \<and> i \<notin> set (fetchedIds c)) ids"
  have *: "?want = [] \<and> fetchById cfg ids c = c \<or> fok (fetchById cfg ids c)"
  proof (cases "?want = []")
    case False
    let ?c = "c\<lparr>fetchedIds := fold addBoundedDedupe ?want (fetchedIds c), fetchQueue := fetchQueue c @ chunks ?want\<rparr>"
    have "fok (pumpFetchQueue cfg ?c)"
      using assms(1) chunks_nonempty[OF False] by (intro pump_ok) simp_all
    with False show ?thesis by (simp only: fetchById_def Let_def if_False) blast
  qed (simp only: fetchById_def Let_def if_True simp_thms)
  with assms show "fetch_inv (fetchById cfg ids c) \<and> driven (fetchById cfg ids c)"
    by (auto simp: fok_def)
  show "fok (fetchById cfg ids c)" if "awaited c"
    using * assms that by (auto simp: fok_def)
qed

lemma fok_neg_off: "fok c \<Longrightarrow> fok (c\<lparr>negFetchPending := False\<rparr>)"
  by (simp add: fok_def awaited_def)

lemma fetchers_ok:
  assumes "fok c"
  shows "fok (fetchByFilter cfg fs c)" "fok (requestOlder cfg k flt u l c)"
proof -
  let ?s = "fetch_name (fetchSeq c)"
  have "fok (open_fetch cfg ?s (FFilter key False) fs
      (c\<lparr>fetchedFilters := a, fetchSeq := fetchSeq c + 1, knownSubIds := b\<rparr>))" for key a b
  proof (rule open_other)
    show "fok (c\<lparr>fetchedFilters := a, fetchSeq := fetchSeq c + 1, knownSubIds := b\<rparr>)"
      using assms by (auto simp: fetch_defs intro: less_SucI)
    show "map_of (fetchSubs (c\<lparr>fetchedFilters := a, fetchSeq := fetchSeq c + 1, knownSubIds := b\<rparr>)) ?s = None
      \<or> ?s \<notin> fetch_ids (c\<lparr>fetchedFilters := a, fetchSeq := fetchSeq c + 1, knownSubIds := b\<rparr>)"
      using assms by (fastforce simp: fok_def fetch_inv_def)
  qed simp_all
  then show "fok (fetchByFilter cfg fs c)" using assms by (simp add: fetchByFilter_def Let_def)
  let ?o = "older_name k (olderPageSeq c)"
  have "fok (open_fetch cfg ?o (FOlder k) gs
      (c\<lparr>olderPageSeq := a, knownSubIds := b, olderPageInFlight := d\<rparr>))" for a b d gs
  proof (rule open_other)
    show "fok (c\<lparr>olderPageSeq := a, knownSubIds := b, olderPageInFlight := d\<rparr>)"
      using assms by (simp add: fetch_defs)
    have "\<exists>n. s = fetch_name n" if "s \<in> fetch_ids c" for s
      using assms that by (auto simp: fok_def fetch_inv_def)
    then have "?o \<notin> fetch_ids c" using older_not_fetch by metis
    then show "map_of (fetchSubs (c\<lparr>olderPageSeq := a, knownSubIds := b, olderPageInFlight := d\<rparr>)) ?o = None
      \<or> ?o \<notin> fetch_ids (c\<lparr>olderPageSeq := a, knownSubIds := b, olderPageInFlight := d\<rparr>)"
      by (simp add: fetch_ids_def)
  qed simp_all
  then show "fok (requestOlder cfg k flt u l c)" using assms by (simp add: requestOlder_def Let_def)
qed

lemma fok_neg_ops:
  assumes "fok c"
  shows "fok (negFallback cfg c)" "fok (finishNegentropy cfg c)" "fok (clearNegentropy c)"
    "fok (startNegentropy cfg c)" "fok (handleNegMsg cfg m c)"
proof -
  have view: "fview (negFallback cfg c) = fview (if negActive c then c\<lparr>negFetchPending := False\<rparr> else c)" for c
    by (simp add: negFallback_def Let_def split: option.split) (simp add: fview_def did_def)
  have fb: "fok (negFallback cfg c)" if "fok c" for c
    using fok_view[OF view] fok_neg_off[OF that] that by (cases "negActive c") auto
  show "fok (negFallback cfg c)" by (rule fb[OF assms])
  have fin: "fok (finishNegentropy cfg c)" if c: "fok c" for c
  proof (cases "negActive c")
    case True
    let ?d = "c\<lparr>negActive := False, negFetchPending := False, negTimer := False, rc_ng := None\<rparr>"
    let ?e = "send_try (negCloseMessage (rc_negSubId cfg))
      (did (Reconciled (negRounds ?d) (length (negNeed ?d)) (negHaveCount ?d) (negFrameBytesOut ?d) False) ?d)"
    have e: "fok ?e" using fok_neg_off[OF c] by (subst fok_view[of _ "c\<lparr>negFetchPending := False\<rparr>"]) (simp_all, simp add: fview_def)
    show ?thesis
    proof (cases "negNeed ?e = []")
      case False
      let ?f = "?e\<lparr>negFetchPending := True\<rparr>"
      have "fetch_inv ?f \<and> driven ?f" using e by (simp add: fok_def)
      then have "fetch_inv (fetchById cfg (negNeed ?e) ?f) \<and> driven (fetchById cfg (negNeed ?e) ?f)"
        using fetchById_ok(1) by blast
      then have "fok (completeNegentropyFetch cfg ((fetchById cfg (negNeed ?e) ?f)\<lparr>negNeed := []\<rparr>))"
        by (intro complete_neg) simp_all
      with True False show ?thesis by (simp add: finishNegentropy_def Let_def)
    next
      case nil: True
      with True e fok_view[OF fview_settle(2)[of cfg ?e]] show ?thesis by (simp add: finishNegentropy_def Let_def)
    qed
  qed (use c in \<open>simp add: finishNegentropy_def\<close>)
  show "fok (finishNegentropy cfg c)" by (rule fin[OF assms])
  show "fok (clearNegentropy c)"
    using fok_neg_off[OF assms] fok_view[of "clearNegentropy c" "c\<lparr>negFetchPending := False\<rparr>"]
    by (simp add: clearNegentropy_def fview_def)
  show "fok (startNegentropy cfg c)"
    using assms by (auto simp: startNegentropy_def Let_def intro!: fb split: option.split sum.split prod.split)
  show "fok (handleNegMsg cfg m c)"
    using assms by (auto simp: handleNegMsg_def Let_def intro!: fb fin split: option.split sum.split)
qed

lemma recordFetch_ok: "fok c \<Longrightarrow> fok (recordFetchFilterEvent s r c)"
proof -
  assume c: "fok c"
  have "fok (c\<lparr>fetchSubs := AList.update s (FFilter key True) (fetchSubs c)\<rparr>)" (is "fok ?d")
    if m: "map_of (fetchSubs c) s = Some (FFilter key mt)" for key mt
  proof -
    have "fetch_ids ?d = fetch_ids c" using m by (auto simp: fetch_ids_def map_of_update)
    with c m show ?thesis by (auto simp: fok_def fetch_inv_def driven_def awaited_def map_of_update)
  qed
  with c show ?thesis by (auto simp: recordFetchFilterEvent_def split: option.split fetch.split)
qed

lemma cleanup_fok: "fok c \<Longrightarrow> fok (fetch_cleanup cfg s c)"
  by (rule cleanup_ok) (auto simp: fok_def driven_def)

lemma eose_fok: "fok c \<Longrightarrow> fok (handleEose cfg s c)"
  by (auto simp: handleEose_def intro: cleanup_fok split: option.split)

lemma handle_fok: "handleMessage cfg data (b, c) = (b', c') \<Longrightarrow> fok c \<Longrightarrow> fok c'"
proof (cases "parseRelayMessage data")
  case (MEvent s e)
  assume h: "handleMessage cfg data (b, c) = (b', c')" and c: "fok c"
  obtain r b2 c2 where i: "ingestEvent cfg b e (noteSharedSocketActivity c) = (r, b2, c2)" by (metis prod_cases3)
  have "fok c2" using fok_view[OF fview_ingestEvent[OF i]] c by simp
  with h c MEvent i show ?thesis by (auto simp: handleMessage_def intro: recordFetch_ok split: if_splits)
qed (auto simp: handleMessage_def intro: eose_fok fok_neg_ops split: if_splits)

lemma handle_fold_fok: "fold (handleMessage cfg) fs (b, c) = (b', c') \<Longrightarrow> fok c \<Longrightarrow> fok c'"
proof (induction fs arbitrary: b c)
  case (Cons f fs)
  obtain b1 c1 where h: "handleMessage cfg f (b, c) = (b1, c1)" by fastforce
  with Cons handle_fok[OF h] show ?case by simp
qed simp

lemma drain_fok: "fok c \<Longrightarrow> fok (drainInboundQueue cfg n c)"
proof (cases "inboundTimer c")
  case True
  assume c: "fok c"
  let ?c = "c\<lparr>inboundTimer := False, inboundQueue := drop n (inboundQueue c)\<rparr>"
  obtain b c1 where f: "fold (handleMessage cfg) (take n (inboundQueue c)) (Some [], ?c) = (b, c1)" by fastforce
  from handle_fold_fok[OF f] c have "fok c1" by simp
  with True f show ?thesis by (simp add: drainInboundQueue_def Let_def)
qed (simp add: drainInboundQueue_def)

lemma resync_fok: "fok c \<Longrightarrow> fok (resyncFeed cfg plan c)"
  by (auto simp: resyncFeed_def Let_def intro!: fok_neg_ops)

lemma open_subs_fok [simp]: "fok (fold open_sub subs c) = fok c"
  by (rule fok_view) (rule fview_fold, simp)

lemma subscribe_fok: "fok c \<Longrightarrow> fok (sendSubscribe cfg subs c)"
  by (auto simp: sendSubscribe_def Let_def intro!: fok_neg_ops)

lemma step_fok: "x \<noteq> Close \<Longrightarrow> fok c \<Longrightarrow> fok (rc_step cfg x c)"
proof (cases x)
  case (Frame data)
  assume "fok c"
  with Frame handle_fok[of cfg data None c "fst (handleMessage cfg data (None, c))" "snd (handleMessage cfg data (None, c))"]
  show ?thesis by (auto simp: receiveMessage_def)
next
  case PumpTimer
  assume "fok c"
  then have "fok (pumpFetchQueue cfg (c\<lparr>pumpTimers := pumpTimers c - 1\<rparr>))"
    by (intro pump_ok) (simp_all add: fok_def awaited_def)
  with \<open>fok c\<close> PumpTimer show ?thesis by simp
next
  case (FetchById ids)
  assume "fok c"
  then have "fok (fetchById cfg ids c)" by (intro fetchById_ok(2)) (simp_all add: fok_def)
  with FetchById show ?thesis by simp
qed (auto intro: drain_fok fetchers_ok cleanup_fok fok_neg_ops resync_fok subscribe_fok)

lemma run_fok: "Close \<notin> set xs \<Longrightarrow> fok c \<Longrightarrow> fok (rc_run cfg xs c)"
proof (induction xs arbitrary: c)
  case (Cons x xs)
  then have "fok (rc_step cfg x c)" by (intro step_fok) auto
  with Cons show ?case by (simp add: rc_run_def)
qed (simp add: rc_run_def)

lemma new_fok: "fok (new_client st)"
  by (simp add: fetch_defs new_client_def)

definition next_timer :: "client \<Rightarrow> rc_input" where
  \<comment> \<open>the deadline of the open fetch, or the timer that opens the next one\<close>
  "next_timer c = (case activeIdFetchSubId c of Some s \<Rightarrow> FetchTimer s | None \<Rightarrow> PumpTimer)"

primrec fire_timers :: "rc_config \<Rightarrow> nat \<Rightarrow> client \<Rightarrow> client" where
  "fire_timers cfg 0 c = c"
| "fire_timers cfg (Suc n) c = fire_timers cfg n (rc_step cfg (next_timer c) c)"

definition backlog :: "client \<Rightarrow> nat" where
  "backlog c = 2 * length (fetchQueue c) + (if activeIdFetchSubId c = None then 0 else 1)"

lemma cleanup_active:
  assumes "fok c" "activeIdFetchSubId c = Some s"
  shows "fetchQueue (fetch_cleanup cfg s c) = fetchQueue c \<and> activeIdFetchSubId (fetch_cleanup cfg s c) = None"
proof -
  from assms obtain w where "map_of (fetchSubs c) s = Some (FById w)"
    by (auto simp: fok_def fetch_inv_def fetch_ids_def)
  with assms(2) show ?thesis by (simp add: fetch_cleanup_def Let_def)
qed

lemma pump_backlog:
  assumes "fetch_inv c" "activeIdFetchSubId c = None" "fetchQueue c \<noteq> []"
  shows "backlog (pumpFetchQueue cfg c) < backlog c"
proof -
  obtain want rest where q: "fetchQueue c = want # rest" using assms(3) by (cases "fetchQueue c") auto
  let ?s = "fetch_name (fetchSeq c)"
  let ?d = "(c\<lparr>fetchQueue := rest, fetchSeq := fetchSeq c + 1, activeIdFetchSubId := Some ?s,
     knownSubIds := set_add ?s (knownSubIds c)\<rparr>)\<lparr>fetchSubs := AList.update ?s (FById want) (fetchSubs c)\<rparr>"
  have p: "pumpFetchQueue cfg c = (if sockOpen c then did (Sent (reqMessage ?s [no_filter\<lparr>f_ids := Some want\<rparr>])) ?d
      else fetch_cleanup cfg ?s ?d)"
    using q assms(2) by (simp add: pumpFetchQueue_def open_fetch_def Let_def)
  have "map_of (fetchSubs ?d) ?s = Some (FById want)" by (simp add: map_of_update)
  then have "fetchQueue (fetch_cleanup cfg ?s ?d) = rest" "activeIdFetchSubId (fetch_cleanup cfg ?s ?d) = None"
    by (simp_all add: fetch_cleanup_def Let_def)
  with p q assms(2) show ?thesis by (simp add: backlog_def)
qed

lemma timer_backlog:
  assumes "fok c" "backlog c > 0"
  shows "backlog (rc_step cfg (next_timer c) c) < backlog c"
proof (cases "activeIdFetchSubId c")
  case (Some s)
  with cleanup_active[OF assms(1) Some, of cfg] show ?thesis by (simp add: next_timer_def backlog_def)
next
  case None
  with assms have q: "fetchQueue c \<noteq> []" "pumpTimers c > 0" by (auto simp: backlog_def fok_def driven_def)
  have "backlog (pumpFetchQueue cfg (c\<lparr>pumpTimers := pumpTimers c - 1\<rparr>)) < backlog (c\<lparr>pumpTimers := pumpTimers c - 1\<rparr>)"
    using assms(1) None q(1) by (intro pump_backlog) (simp_all add: fok_def)
  with None q(2) show ?thesis by (simp add: next_timer_def backlog_def)
qed

lemma next_timer_step: "next_timer c \<noteq> Close"
  by (simp add: next_timer_def split: option.split)

lemma fire_timers_done:
  "fok c \<Longrightarrow> backlog c \<le> n \<Longrightarrow> fok (fire_timers cfg n c) \<and> backlog (fire_timers cfg n c) = 0"
proof (induction n arbitrary: c)
  case (Suc n)
  have fok: "fok (rc_step cfg (next_timer c) c)" by (rule step_fok[OF next_timer_step Suc.prems(1)])
  have "backlog (rc_step cfg (next_timer c) c) \<le> n"
  proof (cases "backlog c = 0")
    case True
    then have "activeIdFetchSubId c = None" "fetchQueue c = []" by (auto simp: backlog_def split: if_splits)
    then show ?thesis by (simp add: next_timer_def pumpFetchQueue_def backlog_def)
  next
    case False
    with timer_backlog[OF Suc.prems(1), of cfg] Suc.prems(2) show ?thesis by linarith
  qed
  from Suc.IH[OF fok this] show ?case by (simp del: rc_step.simps)
qed simp

text \<open>
  C11. The queue of fetches by id drains.  In every state the client can reach, at most one fetch by
  id is open; and even when the relay never answers, the deadline of the open fetch and the timer
  that opens the next one, fired in turn, empty the queue within two timers per chunk and complete
  a reconciliation that was waiting for its missing events.
\<close>

theorem fetch_queue_drains:
  assumes "Close \<notin> set xs"
  shows "let c = rc_run cfg xs (new_client st);
      d = fire_timers cfg (2 * length (fetchQueue c) + 1) c
    in fetch_ids c = set_option (activeIdFetchSubId c)
      \<and> fetchQueue d = [] \<and> activeIdFetchSubId d = None \<and> \<not> negFetchPending d"
proof -
  let ?c = "rc_run cfg xs (new_client st)"
  let ?d = "fire_timers cfg (2 * length (fetchQueue ?c) + 1) ?c"
  have c: "fok ?c" by (rule run_fok[OF assms new_fok])
  have "backlog ?c \<le> 2 * length (fetchQueue ?c) + 1" by (simp add: backlog_def)
  from fire_timers_done[OF c this, of cfg] have "fok ?d" "backlog ?d = 0" by auto
  then have "fetchQueue ?d = []" "activeIdFetchSubId ?d = None" "awaited ?d"
    by (auto simp: backlog_def fok_def split: if_splits)
  with c show ?thesis by (simp add: Let_def fok_def fetch_inv_def awaited_def)
qed

theorem fetch_queue_drains_witness:
  "let c = rc_run (ex_cfg (\<lambda>_. True) False) [Opened [], FetchById (map fetch_name [0..<60])] (new_client empty_store);
      d = fire_timers (ex_cfg (\<lambda>_. True) False) (2 * length (fetchQueue c) + 1) c
    in fetch_ids c = set_option (activeIdFetchSubId c)
      \<and> fetchQueue d = [] \<and> activeIdFetchSubId d = None \<and> \<not> negFetchPending d"
  by (rule fetch_queue_drains) simp

end
