(* ===== verification/RelayPublish.thy ===== *)
theory RelayPublish
  imports RelayClient
begin

text \<open>
  Publishing with the relay client: every publish is answered exactly once, at the latest when its
  timers have fired.  \<open>pub_view\<close> collects the fields this depends on; an operation that leaves it alone
  keeps the invariant \<open>pok\<close>.
\<close>

section \<open>The invariant\<close>

definition answer_to :: "nat \<Rightarrow> rc_output \<Rightarrow> bool" where
  "answer_to n x \<longleftrightarrow> (case x of PublishDone m _ \<Rightarrow> m = n | PublishThrew m \<Rightarrow> m = n | _ \<Rightarrow> False)"

definition answers :: "nat \<Rightarrow> client \<Rightarrow> nat" where
  \<comment> \<open>how often publish \<open>n\<close> has been resolved or rejected\<close>
  "answers n c = length (filter (answer_to n) (outs c))"

definition threw :: "nat \<Rightarrow> client \<Rightarrow> bool" where
  "threw n c \<longleftrightarrow> PublishThrew n \<in> set (outs c)"

definition pub_view where
  "pub_view c = (pendingPublishes c, publishTimers c, publishSeq c, isolatedPubs c,
     filter (\<lambda>x. \<exists>n. answer_to n x) (outs c))"

definition attempts_ok :: "isolated \<Rightarrow> bool" where
  "attempts_ok p \<longleftrightarrow> is_attempt p < (if is_live p then 3 else 2)"

definition pub_ok :: "bool \<Rightarrow> wire_event option \<Rightarrow> isolated option \<Rightarrow> nat \<Rightarrow> bool \<Rightarrow> bool" where
  \<comment> \<open>a publish is armed on the shared or on an isolated circuit, or it has been answered once\<close>
  "pub_ok issued timer circ a th = (case (timer, circ) of
       (Some _, Some _) \<Rightarrow> False
     | (Some _, None) \<Rightarrow> issued \<and> a = (if th then 1 else 0)
     | (None, Some p) \<Rightarrow> issued \<and> a = 0 \<and> attempts_ok p
     | (None, None) \<Rightarrow> a = (if issued then 1 else 0))"

definition owned :: "client \<Rightarrow> bool" where
  "owned c \<longleftrightarrow> (\<forall>i n. map_of (pendingPublishes c) i = Some n \<longrightarrow> (\<exists>e. map_of (publishTimers c) n = Some e \<and> w_id e = i))"

definition pub_at :: "nat \<Rightarrow> client \<Rightarrow> bool" where
  "pub_at n c = pub_ok (n < publishSeq c) (map_of (publishTimers c) n) (map_of (isolatedPubs c) n) (answers n c) (threw n c)"

definition pok :: "client \<Rightarrow> bool" where
  "pok c \<longleftrightarrow> owned c \<and> (\<forall>n. pub_at n c)"

lemma threw_answers: "threw n c \<Longrightarrow> answers n c > 0"
  by (auto simp: threw_def answers_def answer_to_def filter_empty_conv intro!: bexI[of _ "PublishThrew n"])

lemma answers_filter: "answers n c = length (filter (answer_to n) (filter (\<lambda>x. \<exists>n. answer_to n x) (outs c)))"
  unfolding answers_def filter_filter by (rule arg_cong[of _ _ length]) (rule filter_cong, auto)

lemma threw_filter: "threw n c \<longleftrightarrow> PublishThrew n \<in> set (filter (\<lambda>x. \<exists>n. answer_to n x) (outs c))"
  by (auto simp: threw_def answer_to_def)

lemma pok_view: "pub_view c' = pub_view c \<Longrightarrow> pok c' = pok c"
proof -
  assume v: "pub_view c' = pub_view c"
  then have f: "filter (\<lambda>x. \<exists>n. answer_to n x) (outs c') = filter (\<lambda>x. \<exists>n. answer_to n x) (outs c)"
    by (simp add: pub_view_def)
  have "answers n c' = answers n c" "threw n c' = threw n c" for n
    using f by (simp_all add: answers_filter threw_filter)
  with v show ?thesis by (simp add: pok_def owned_def pub_at_def pub_view_def)
qed

lemma view_updates [simp]:
  "pub_view (c\<lparr>store := v0\<rparr>) = pub_view c" "pub_view (c\<lparr>knownSubIds := v1\<rparr>) = pub_view c"
  "pub_view (c\<lparr>sharedPublishStallStreak := v2\<rparr>) = pub_view c" "pub_view (c\<lparr>pendingCounts := v3\<rparr>) = pub_view c"
  "pub_view (c\<lparr>countSeq := v4\<rparr>) = pub_view c" "pub_view (c\<lparr>fetchSubs := v5\<rparr>) = pub_view c"
  "pub_view (c\<lparr>fetchSeq := v6\<rparr>) = pub_view c" "pub_view (c\<lparr>fetchQueue := v7\<rparr>) = pub_view c"
  "pub_view (c\<lparr>activeIdFetchSubId := v8\<rparr>) = pub_view c" "pub_view (c\<lparr>pumpTimers := v9\<rparr>) = pub_view c"
  "pub_view (c\<lparr>fetchedIds := v10\<rparr>) = pub_view c" "pub_view (c\<lparr>fetchedFilters := v11\<rparr>) = pub_view c"
  "pub_view (c\<lparr>scopedSubRetries := v12\<rparr>) = pub_view c" "pub_view (c\<lparr>pagedSubs := v13\<rparr>) = pub_view c"
  "pub_view (c\<lparr>olderPageInFlight := v14\<rparr>) = pub_view c" "pub_view (c\<lparr>olderPageSeq := v15\<rparr>) = pub_view c"
  "pub_view (c\<lparr>rc_ng := v16\<rparr>) = pub_view c" "pub_view (c\<lparr>negActive := v17\<rparr>) = pub_view c"
  "pub_view (c\<lparr>negNeed := v18\<rparr>) = pub_view c" "pub_view (c\<lparr>negFetchPending := v19\<rparr>) = pub_view c"
  "pub_view (c\<lparr>negTimer := v20\<rparr>) = pub_view c" "pub_view (c\<lparr>negRounds := v21\<rparr>) = pub_view c"
  "pub_view (c\<lparr>negFrameBytesOut := v22\<rparr>) = pub_view c" "pub_view (c\<lparr>negHaveCount := v23\<rparr>) = pub_view c"
  "pub_view (c\<lparr>resyncWaiters := v24\<rparr>) = pub_view c" "pub_view (c\<lparr>resyncTimer := v25\<rparr>) = pub_view c"
  "pub_view (c\<lparr>resyncEoseSubId := v26\<rparr>) = pub_view c" "pub_view (c\<lparr>resyncSeq := v27\<rparr>) = pub_view c"
  "pub_view (c\<lparr>resyncCalls := v28\<rparr>) = pub_view c" "pub_view (c\<lparr>sockOpen := v29\<rparr>) = pub_view c"
  "pub_view (c\<lparr>pagedStates := v30\<rparr>) = pub_view c" "pub_view (c\<lparr>pendingSubs := v31\<rparr>) = pub_view c"
  "pub_view (c\<lparr>synced := v32\<rparr>) = pub_view c" "pub_view (c\<lparr>inboundQueue := v33\<rparr>) = pub_view c"
  "pub_view (c\<lparr>inboundTimer := v34\<rparr>) = pub_view c"
  by (simp_all add: pub_view_def)

lemma view_did: "(\<forall>n. \<not> answer_to n x) \<Longrightarrow> pub_view (did x c) = pub_view c"
  by (simp add: pub_view_def did_def)

lemma view_did_simps [simp]:
  "pub_view (did (Sent m) c) = pub_view c" "pub_view (did SocketClosed c) = pub_view c"
  "pub_view (did (OnSeen e) c) = pub_view c" "pub_view (did (OnEvent e) c) = pub_view c"
  "pub_view (did (OnIngest e) c) = pub_view c" "pub_view (did OnSynced c) = pub_view c"
  "pub_view (did OnSubscribed c) = pub_view c" "pub_view (did (OnSubError s t) c) = pub_view c"
  "pub_view (did (OnNotice s) c) = pub_view c" "pub_view (did (OnScopedEose s) c) = pub_view c"
  "pub_view (did (CountDone s r) c) = pub_view c" "pub_view (did (CountNull s) c) = pub_view c"
  "pub_view (did (CountThrew s) c) = pub_view c" "pub_view (did (CircuitOpen n k) c) = pub_view c"
  "pub_view (did (CircuitSent n e) c) = pub_view c" "pub_view (did (CircuitClose n) c) = pub_view c"
  "pub_view (did (Reconciled a1 a2 a3 a4 b) c) = pub_view c" "pub_view (did (ResyncDone n) c) = pub_view c"
  by (rule view_did, simp add: answer_to_def)+

lemma view_fold: "(\<And>x c. pub_view (f x c) = pub_view c) \<Longrightarrow> pub_view (fold f xs c) = pub_view c"
  by (induction xs arbitrary: c) simp_all

lemma view_ops [simp]:
  "pub_view (send_try m c) = pub_view c" "pub_view (markSynced c) = pub_view c"
  "pub_view (pending_done s c) = pub_view c" "pub_view (mark_if_done c) = pub_view c"
  "pub_view (upd_paged st c) = pub_view c" "pub_view (noteSharedSocketActivity c) = pub_view c"
  "pub_view (noteSharedPublishTimeout c) = pub_view c"
  by (simp_all add: send_try_def markSynced_def pending_done_def mark_if_done_def upd_paged_def
      noteSharedSocketActivity_def noteSharedPublishTimeout_def Let_def)

lemma view_sync [simp]:
  "pub_view (settleResync c) = pub_view c" "pub_view (completeNegentropySlot cfg c) = pub_view c"
  "pub_view (completeNegentropyFetch cfg c) = pub_view c"
proof -
  show 1: "pub_view (settleResync c) = pub_view c" for c
    by (simp add: settleResync_def Let_def view_fold split: option.split)
  show 2: "pub_view (completeNegentropySlot cfg c) = pub_view c" for c
    by (simp add: completeNegentropySlot_def 1)
  show "pub_view (completeNegentropyFetch cfg c) = pub_view c" by (simp add: completeNegentropyFetch_def 2)
qed

lemma view_fetch [simp]:
  "pub_view (fetch_cleanup cfg s c) = pub_view c" "pub_view (open_fetch cfg s f fs c) = pub_view c"
  "pub_view (pumpFetchQueue cfg c) = pub_view c" "pub_view (fetchById cfg ids c) = pub_view c"
  "pub_view (fetchByFilter cfg fs c) = pub_view c" "pub_view (requestOlder cfg k flt u l c) = pub_view c"
proof -
  show 1: "pub_view (fetch_cleanup cfg s c) = pub_view c" for s c
    by (simp add: fetch_cleanup_def Let_def split: option.split fetch.split)
  show 2: "pub_view (open_fetch cfg s f fs c) = pub_view c" for s f fs c
    by (simp add: open_fetch_def Let_def 1)
  show 3: "pub_view (pumpFetchQueue cfg c) = pub_view c" for c
    by (simp add: pumpFetchQueue_def Let_def 2 split: list.split)
  show "pub_view (fetchById cfg ids c) = pub_view c" "pub_view (fetchByFilter cfg fs c) = pub_view c"
    "pub_view (requestOlder cfg k flt u l c) = pub_view c"
    by (simp_all add: fetchById_def fetchByFilter_def requestOlder_def Let_def 2 3)
qed

lemma view_neg [simp]:
  "pub_view (negFallback cfg c) = pub_view c" "pub_view (finishNegentropy cfg c) = pub_view c"
  "pub_view (clearNegentropy c) = pub_view c" "pub_view (startNegentropy cfg c) = pub_view c"
  "pub_view (handleNegMsg cfg m c) = pub_view c"
proof -
  show 1: "pub_view (negFallback cfg c) = pub_view c" for c
    by (simp add: negFallback_def Let_def split: option.split)
  show 2: "pub_view (finishNegentropy cfg c) = pub_view c" for c
    by (simp add: finishNegentropy_def Let_def)
  show "pub_view (clearNegentropy c) = pub_view c" by (simp add: clearNegentropy_def)
  show "pub_view (startNegentropy cfg c) = pub_view c"
    by (simp add: startNegentropy_def Let_def 1 split: option.split sum.split prod.split)
  show "pub_view (handleNegMsg cfg m c) = pub_view c"
    by (simp add: handleNegMsg_def Let_def 1 2 split: option.split sum.split)
qed

lemma view_subs [simp]:
  "pub_view (sendSubscribe cfg subs c) = pub_view c" "pub_view (cancelScopedSubRetry i c) = pub_view c"
  "pub_view (subscribeScopedAttempt i fs n c) = pub_view c" "pub_view (closeSub i c) = pub_view c"
  "pub_view (resyncFeed cfg plan c) = pub_view c" "pub_view (scoped_retry i c) = pub_view c"
proof -
  have 1: "pub_view (open_sub s c) = pub_view c" for s c
    by (simp add: open_sub_def Let_def split: option.split)
  show "pub_view (sendSubscribe cfg subs c) = pub_view c"
    by (simp add: sendSubscribe_def Let_def view_fold 1)
  show 2: "pub_view (cancelScopedSubRetry i c) = pub_view c" for i c by (simp add: cancelScopedSubRetry_def)
  show 3: "pub_view (subscribeScopedAttempt i fs n c) = pub_view c" for i fs n c
    by (simp add: subscribeScopedAttempt_def Let_def 2)
  show "pub_view (closeSub i c) = pub_view c" by (simp add: closeSub_def Let_def 2)
  show "pub_view (resyncFeed cfg plan c) = pub_view c" by (simp add: resyncFeed_def Let_def split: option.split)
  show "pub_view (scoped_retry i c) = pub_view c" by (simp add: scoped_retry_def 3 split: option.split)
qed

lemma view_frames [simp]:
  "pub_view (recordPagedEvent s e r c) = pub_view c" "pub_view (recordFetchFilterEvent s r c) = pub_view c"
  "pub_view (handlePagedEose s st c) = pub_view c" "pub_view (page_timer root c) = pub_view c"
  "pub_view (handleClosed s m c) = pub_view c" "pub_view (handleEose cfg s c) = pub_view c"
  "pub_view (rc_close c) = pub_view c" "pub_view (rc_unsubscribe c) = pub_view c"
  "pub_view (circuit_send n c) = pub_view c" "pub_view (rc_count flt c) = pub_view c"
  "pub_view (count_timeout s c) = pub_view c"
proof -
  show 1: "pub_view (recordPagedEvent s e r c) = pub_view c" "pub_view (recordFetchFilterEvent s r c) = pub_view c"
    "pub_view (handlePagedEose s st c) = pub_view c" "pub_view (page_timer root c) = pub_view c" for s st e r c root
    by (simp_all add: recordPagedEvent_def recordFetchFilterEvent_def handlePagedEose_def page_timer_def Let_def
        split: option.split fetch.split)
  show "pub_view (handleClosed s m c) = pub_view c" "pub_view (handleEose cfg s c) = pub_view c"
    "pub_view (rc_close c) = pub_view c" "pub_view (rc_unsubscribe c) = pub_view c"
    "pub_view (circuit_send n c) = pub_view c" "pub_view (rc_count flt c) = pub_view c"
    "pub_view (count_timeout s c) = pub_view c"
    by (simp_all add: handleClosed_def handleEose_def rc_close_def rc_unsubscribe_def circuit_send_def
        rc_count_def count_timeout_def finish_count_def Let_def view_fold 1 split: option.split)
qed

lemma view_ingestEvent: "ingestEvent cfg b e c = (r, b', c') \<Longrightarrow> pub_view c' = pub_view c"
  by (auto simp: ingestEvent_def save_now_def Let_def split: if_splits option.splits prod.splits)

lemma view_ingest [simp]: "pub_view (ingest cfg e c) = pub_view c"
  by (cases "ingestEvent cfg None e c") (simp add: ingest_def view_ingestEvent)

lemma view_storeIndividually: "storeIndividually es c = (c', rest) \<Longrightarrow> pub_view c' = pub_view c"
  by (induction es c arbitrary: c' rest rule: storeIndividually.induct)
    (auto simp: save_now_def Let_def split: prod.splits)

lemma view_flush [simp]: "pub_view (flushPendingIngest es c) = pub_view c"
  by (cases "storeIndividually es c") (simp add: flushPendingIngest_def view_fold view_storeIndividually)

section \<open>What the steps do to it\<close>

lemma answers_did [simp]: "answers n (did x c) = answers n c + (if answer_to n x then 1 else 0)"
  by (simp add: answers_def did_def)

lemma threw_did [simp]: "threw n (did x c) \<longleftrightarrow> threw n c \<or> x = PublishThrew n"
  by (auto simp: threw_def did_def)

lemma pub_fields [simp]:
  "pendingPublishes (did x c) = pendingPublishes c" "publishTimers (did x c) = publishTimers c"
  "publishSeq (did x c) = publishSeq c" "isolatedPubs (did x c) = isolatedPubs c"
  by (simp_all add: did_def)

lemma answers_updates [simp]:
  "answers n (c\<lparr>pendingPublishes := x1\<rparr>) = answers n c" "answers n (c\<lparr>publishTimers := x2\<rparr>) = answers n c"
  "answers n (c\<lparr>publishSeq := x3\<rparr>) = answers n c" "answers n (c\<lparr>isolatedPubs := x4\<rparr>) = answers n c"
  "threw n (c\<lparr>pendingPublishes := x1\<rparr>) = threw n c" "threw n (c\<lparr>publishTimers := x2\<rparr>) = threw n c"
  "threw n (c\<lparr>publishSeq := x3\<rparr>) = threw n c" "threw n (c\<lparr>isolatedPubs := x4\<rparr>) = threw n c"
  by (simp_all add: answers_def threw_def)

lemma answer_to_simps [simp]:
  "answer_to n (PublishDone m r) \<longleftrightarrow> m = n" "answer_to n (PublishThrew m) \<longleftrightarrow> m = n"
  "\<not> answer_to n (CircuitOpen i j)" "\<not> answer_to n (CircuitClose i)" "\<not> answer_to n (Sent t)"
  by (simp_all add: answer_to_def)

lemma shared_ok:
  assumes "pok c"
  shows "pok (publishShared e c)"
proof -
  let ?n = "publishSeq c"
  have at: "pub_at n c" for n using assms by (simp add: pok_def)
  from at[of ?n] have none: "map_of (publishTimers c) ?n = None" "map_of (isolatedPubs c) ?n = None" "answers ?n c = 0"
    by (auto simp: pub_at_def pub_ok_def split: option.splits)
  then have "\<not> threw ?n c" using threw_answers by fastforce
  with none have "pub_at n (publishShared e c)" for n
    using at[of n] by (cases "n = ?n") (auto simp: pub_at_def pub_ok_def publishShared_def Let_def map_of_update less_Suc_eq split: option.splits)
  moreover have "map_of (pendingPublishes c) i \<noteq> Some ?n" for i
    using assms none(1) unfolding pok_def owned_def by fastforce
  then have "owned (publishShared e c)"
    using assms by (auto simp: pok_def owned_def publishShared_def Let_def map_of_update)
  ultimately show ?thesis by (simp add: pok_def)
qed

definition drop_timer :: "nat \<Rightarrow> string \<Rightarrow> client \<Rightarrow> client" where
  "drop_timer n i c = c\<lparr>publishTimers := AList.delete n (publishTimers c),
     pendingPublishes := AList.delete i (pendingPublishes c)\<rparr>"

lemma settle_ok:
  assumes "pok c" "map_of (publishTimers c) n = Some e"
  shows "pok (finish_publish n r (drop_timer n (w_id e) c))"
proof -
  let ?d = "finish_publish n r (drop_timer n (w_id e) c)"
  have "pub_at m ?d" for m
  proof -
    from assms have "pub_at m c" by (simp add: pok_def)
    with assms(2) show ?thesis
      by (cases "m = n") (auto simp: pub_at_def pub_ok_def finish_publish_def drop_timer_def map_of_delete threw_def[symmetric] split: option.splits)
  qed
  moreover have "owned ?d"
    using assms by (auto simp: pok_def owned_def finish_publish_def drop_timer_def map_of_delete) (metis option.inject)
  ultimately show ?thesis by (simp add: pok_def)
qed

lemma finish_view: "pub_view c' = pub_view c \<Longrightarrow> pub_view (finish_publish n r c') = pub_view (finish_publish n r c)"
proof -
  assume v: "pub_view c' = pub_view c"
  then have "threw n c' = threw n c" by (simp add: threw_filter pub_view_def)
  with v show ?thesis by (simp add: finish_publish_def threw_def[symmetric]) (simp add: pub_view_def did_def)
qed

lemma timeout_ok: "pok c \<Longrightarrow> pok (publish_timeout n c)"
proof (cases "map_of (publishTimers c) n")
  case (Some e)
  assume "pok c"
  from settle_ok[OF this Some] have "pok (finish_publish n (timeout_result False) (drop_timer n (w_id e) c))" .
  moreover have h: "publish_timeout n c =
      finish_publish n (timeout_result False) (noteSharedPublishTimeout (drop_timer n (w_id e) c))"
    using Some by (simp add: publish_timeout_def drop_timer_def)
  have "pub_view (publish_timeout n c) = pub_view (finish_publish n (timeout_result False) (drop_timer n (w_id e) c))"
    unfolding h by (rule finish_view) simp
  ultimately show ?thesis using pok_view by blast
qed (simp add: publish_timeout_def)

lemma ok_ok: "pok c \<Longrightarrow> pok (handleOk cfg i a m c)"
proof (cases "map_of (pendingPublishes c) i")
  case None
  assume c: "pok c"
  have "pok (noteSharedSocketActivity c)" using c pok_view[of "noteSharedSocketActivity c" c] by simp
  with None show ?thesis by (simp add: handleOk_def Let_def noteSharedSocketActivity_def)
next
  case (Some n)
  assume c: "pok c"
  with Some obtain e where e: "map_of (publishTimers c) n = Some e" "w_id e = i" unfolding pok_def owned_def by blast
  let ?r = "\<lparr>pr_accepted = a, pr_message = m, pr_offline = False\<rparr>"
  let ?d = "(noteSharedSocketActivity c)\<lparr>pendingPublishes := AList.delete i (pendingPublishes c),
    publishTimers := AList.delete n (publishTimers c)\<rparr>"
  have d: "pub_view ?d = pub_view (drop_timer n i c)"
    by (simp add: pub_view_def drop_timer_def noteSharedSocketActivity_def)
  have h: "handleOk cfg i a m c = finish_publish n ?r (if a then ingest cfg e ?d else ?d)"
    using Some e by (simp add: handleOk_def Let_def noteSharedSocketActivity_def)
  have "pub_view (handleOk cfg i a m c) = pub_view (finish_publish n ?r (drop_timer n i c))"
    unfolding h by (rule finish_view) (simp add: d)
  then show ?thesis using settle_ok[OF c e(1)] e(2) pok_view by blast
qed

lemma isolated_view:
  "pub_view c' = pub_view c \<Longrightarrow> pub_view (isolated_attempt cfg b n p c') = pub_view (isolated_attempt cfg b n p c)"
  by (auto simp: isolated_attempt_def pub_view_def did_def)

lemma attempt_ok:
  assumes "pok c" "n < publishSeq c" "map_of (publishTimers c) n = None" "answers n c = 0" "is_attempt p < 3"
    "is_live p = False"
  shows "pok (isolated_attempt cfg b n p c)"
proof -
  have at: "pub_at m c" for m using assms(1) by (simp add: pok_def)
  have own: "owned c" using assms(1) by (simp add: pok_def)
  have "pok (c\<lparr>isolatedPubs := AList.update n q (isolatedPubs c)\<rparr>)" (is "pok ?d") if "attempts_ok q" for q
  proof -
    have "pub_at m ?d" for m
      using at[of m] assms(2-4) that by (cases "m = n") (auto simp: pub_at_def pub_ok_def map_of_update split: option.splits)
    with own show ?thesis by (simp add: pok_def owned_def)
  qed
  moreover have "pok (did (PublishDone n r) (c\<lparr>isolatedPubs := AList.delete n (isolatedPubs c)\<rparr>))" (is "pok ?d") for r
  proof -
    have "pub_at m ?d" for m
      using at[of m] assms(2-4) by (cases "m = n") (auto simp: pub_at_def pub_ok_def map_of_delete split: option.splits)
    with own show ?thesis by (simp add: pok_def owned_def)
  qed
  moreover have "pok (did (CircuitOpen i j) d) = pok d" for i j d by (rule pok_view) simp
  ultimately show ?thesis
    using assms(1,5,6) by (auto simp: isolated_attempt_def attempts_ok_def MAX_PUBLISH_CIRCUIT_ATTEMPTS_def)
qed

lemma isolated_at:
  assumes "pok c" "map_of (isolatedPubs c) n = Some p"
  shows "n < publishSeq c" "map_of (publishTimers c) n = None" "answers n c = 0" "attempts_ok p"
proof -
  have "pub_at n c" using assms(1) by (simp add: pok_def)
  with assms(2) show "n < publishSeq c" "map_of (publishTimers c) n = None" "answers n c = 0" "attempts_ok p"
    by (auto simp: pub_at_def pub_ok_def split: option.splits)
qed

lemma retry_ok: "pok c \<Longrightarrow> pok (isolated_retry cfg b n c)"
proof (cases "map_of (isolatedPubs c) n")
  case (Some p)
  assume c: "pok c"
  show ?thesis
  proof (cases "is_live p")
    case False
    have "pok (isolated_attempt cfg b n (p\<lparr>is_attempt := is_attempt p + 1\<rparr>) c)"
      using isolated_at[OF c Some] False by (intro attempt_ok[OF c]) (simp_all add: attempts_ok_def)
    with Some False show ?thesis by (simp add: isolated_retry_def)
  qed (use c Some in \<open>simp add: isolated_retry_def\<close>)
qed (simp add: isolated_retry_def)

lemma iso_put_ok:
  assumes "pok c" "map_of (isolatedPubs c) n = Some p" "attempts_ok q"
  shows "pok (c\<lparr>isolatedPubs := AList.update n q (isolatedPubs c)\<rparr>)"
proof -
  have "pub_at m (c\<lparr>isolatedPubs := AList.update n q (isolatedPubs c)\<rparr>)" for m
  proof -
    have "pub_at m c" using assms(1) by (simp add: pok_def)
    with isolated_at[OF assms(1,2)] assms(3) show ?thesis
      by (cases "m = n") (auto simp: pub_at_def pub_ok_def map_of_update split: option.splits)
  qed
  with assms(1) show ?thesis by (simp add: pok_def owned_def)
qed

lemma iso_done_ok:
  assumes "pok c" "map_of (isolatedPubs c) n = Some p"
  shows "pok (did (PublishDone n r) (c\<lparr>isolatedPubs := AList.delete n (isolatedPubs c)\<rparr>))" (is "pok ?d")
proof -
  have "pub_at m ?d" for m
  proof -
    have "pub_at m c" using assms(1) by (simp add: pok_def)
    with isolated_at[OF assms] show ?thesis
      by (cases "m = n") (auto simp: pub_at_def pub_ok_def map_of_delete split: option.splits)
  qed
  with assms(1) show ?thesis by (simp add: pok_def owned_def)
qed

lemma isolated_finish_cases:
  assumes "map_of (isolatedPubs c) n = Some p" "is_live p"
  obtains d where "pub_view d = pub_view c"
    "isolated_finish cfg n r c = (if pr_accepted r \<or> \<not> pr_offline r \<or> is_attempt p + 1 \<ge> MAX_PUBLISH_CIRCUIT_ATTEMPTS
       then did (PublishDone n r) (d\<lparr>isolatedPubs := AList.delete n (isolatedPubs d)\<rparr>)
       else d\<lparr>isolatedPubs := AList.update n (p\<lparr>is_live := False\<rparr>) (isolatedPubs d)\<rparr>)"
proof
  let ?d = "if pr_accepted r then ingest cfg (is_event p) (did (CircuitClose n) c) else did (CircuitClose n) c"
  show "pub_view ?d = pub_view c" by simp
  show "isolated_finish cfg n r c = (if pr_accepted r \<or> \<not> pr_offline r \<or> is_attempt p + 1 \<ge> MAX_PUBLISH_CIRCUIT_ATTEMPTS
       then did (PublishDone n r) (?d\<lparr>isolatedPubs := AList.delete n (isolatedPubs ?d)\<rparr>)
       else ?d\<lparr>isolatedPubs := AList.update n (p\<lparr>is_live := False\<rparr>) (isolatedPubs ?d)\<rparr>)"
    using assms by (simp only: isolated_finish_def option.case Let_def if_False not_True_eq_False simp_thms)
qed

lemma finish_ok: "pok c \<Longrightarrow> pok (isolated_finish cfg n r c)"
proof (cases "map_of (isolatedPubs c) n")
  case (Some p)
  assume c: "pok c"
  show ?thesis
  proof (cases "is_live p")
    case True
    from isolated_finish_cases[OF Some True, of cfg r] obtain d where d: "pub_view d = pub_view c"
      "isolated_finish cfg n r c = (if pr_accepted r \<or> \<not> pr_offline r \<or> is_attempt p + 1 \<ge> MAX_PUBLISH_CIRCUIT_ATTEMPTS
         then did (PublishDone n r) (d\<lparr>isolatedPubs := AList.delete n (isolatedPubs d)\<rparr>)
         else d\<lparr>isolatedPubs := AList.update n (p\<lparr>is_live := False\<rparr>) (isolatedPubs d)\<rparr>)" by metis
    have pd: "pok d" using c pok_view[OF d(1)] by simp
    have iso: "map_of (isolatedPubs d) n = Some p" using d(1) Some by (simp add: pub_view_def)
    from iso_done_ok[OF pd iso] iso_put_ok[OF pd iso, of "p\<lparr>is_live := False\<rparr>"] show ?thesis
      unfolding d(2) by (simp add: attempts_ok_def MAX_PUBLISH_CIRCUIT_ATTEMPTS_def)
  qed (use c Some in \<open>simp add: isolated_finish_def\<close>)
qed (simp add: isolated_finish_def)

lemma publish_ok:
  assumes c: "pok c"
  shows "pok (rc_publish cfg b e c)"
proof -
  let ?n = "publishSeq c"
  let ?p = "\<lparr>is_event = e, is_attempt = 0, is_live = False\<rparr>"
  let ?d = "c\<lparr>publishSeq := ?n + 1\<rparr>"
  have at: "pub_at n c" for n using c by (simp add: pok_def)
  from at[of ?n] have none: "map_of (publishTimers c) ?n = None" "map_of (isolatedPubs c) ?n = None" "answers ?n c = 0"
    by (auto simp: pub_at_def pub_ok_def split: option.splits)
  have "pok (isolated_attempt cfg b ?n ?p ?d)"
  proof -
    let ?e = "isolated_attempt cfg b ?n ?p ?d"
    have "pub_at n ?e" for n
      using at[of n] none by (cases "n = ?n")
        (auto simp: pub_at_def pub_ok_def isolated_attempt_def attempts_ok_def MAX_PUBLISH_CIRCUIT_ATTEMPTS_def
          map_of_update less_Suc_eq split: option.splits)
    moreover have "owned ?e"
      using c by (auto simp: pok_def owned_def isolated_attempt_def MAX_PUBLISH_CIRCUIT_ATTEMPTS_def)
    ultimately show ?thesis by (simp add: pok_def)
  qed
  with shared_ok[OF c] show ?thesis by (simp add: rc_publish_def)
qed

section \<open>Runs\<close>

lemma handle_pok: "handleMessage cfg data (b, c) = (b', c') \<Longrightarrow> pok c \<Longrightarrow> pok c'"
proof (cases "parseRelayMessage data")
  case (MOk i a m)
  assume "handleMessage cfg data (b, c) = (b', c')" "pok c"
  with MOk ok_ok show ?thesis by (auto simp: handleMessage_def)
next
  case (MEvent s e)
  assume h: "handleMessage cfg data (b, c) = (b', c')" and c: "pok c"
  obtain r b2 c2 where i: "ingestEvent cfg b e (noteSharedSocketActivity c) = (r, b2, c2)" by (metis prod_cases3)
  have "pub_view c' = pub_view c" using h MEvent i view_ingestEvent[OF i] by (auto simp: handleMessage_def split: if_splits)
  with c pok_view show ?thesis by blast
next
  case (MCount s n)
  assume h: "handleMessage cfg data (b, c) = (b', c')" and c: "pok c"
  have "pub_view c' = pub_view c" using h MCount by (auto simp: handleMessage_def finish_count_def split: if_splits)
  with c pok_view show ?thesis by blast
qed (simp_all add: handleMessage_def pok_view[OF view_frames(5)] pok_view[OF view_frames(6)]
      pok_view[OF view_did_simps(9)] pok_view[OF view_neg(1)] pok_view[OF view_neg(5)] split: if_splits,
    auto simp: pok_view[OF view_frames(5)] pok_view[OF view_frames(6)]
      pok_view[OF view_did_simps(9)] pok_view[OF view_neg(1)] pok_view[OF view_neg(5)])

lemma handle_fold_pok: "fold (handleMessage cfg) fs (b, c) = (b', c') \<Longrightarrow> pok c \<Longrightarrow> pok c'"
proof (induction fs arbitrary: b c)
  case (Cons f fs)
  obtain b1 c1 where h: "handleMessage cfg f (b, c) = (b1, c1)" by fastforce
  with Cons handle_pok[OF h] show ?case by simp
qed simp

lemma view_pok: "pub_view c' = pub_view c \<Longrightarrow> pok c \<Longrightarrow> pok c'"
  using pok_view by blast

lemma drain_pok: "pok c \<Longrightarrow> pok (drainInboundQueue cfg n c)"
proof (cases "inboundTimer c")
  case True
  assume c: "pok c"
  let ?c = "c\<lparr>inboundTimer := False, inboundQueue := drop n (inboundQueue c)\<rparr>"
  obtain b c1 where f: "fold (handleMessage cfg) (take n (inboundQueue c)) (Some [], ?c) = (b, c1)" by fastforce
  have "pok ?c" by (rule view_pok[OF _ c]) simp
  from handle_fold_pok[OF f this] have c1: "pok c1" .
  have "pub_view (drainInboundQueue cfg n c) = pub_view c1" using True f by (simp add: drainInboundQueue_def Let_def)
  with c1 show ?thesis by (rule view_pok[rotated])
qed (simp add: drainInboundQueue_def)

definition publishing :: "rc_input \<Rightarrow> bool" where
  "publishing x \<longleftrightarrow> (case x of Frame _ \<Rightarrow> True | Drain _ \<Rightarrow> True | Publish _ _ \<Rightarrow> True | PublishTimer _ \<Rightarrow> True
     | CircuitOk _ _ _ \<Rightarrow> True | CircuitMiss _ _ \<Rightarrow> True | CircuitRetry _ _ \<Rightarrow> True | _ \<Rightarrow> False)"

lemma other_view: "\<not> publishing x \<Longrightarrow> pub_view (rc_step cfg x c) = pub_view c"
  by (cases x) (simp_all add: publishing_def)

lemma step_pok:
  assumes "pok c"
  shows "pok (rc_step cfg x c)"
proof (cases "publishing x")
  case True
  show ?thesis
  proof (cases x)
    case (Frame data)
    have "pok (snd (handleMessage cfg data (None, c)))"
      by (rule handle_pok[OF _ assms, of cfg data None "fst (handleMessage cfg data (None, c))"]) simp
    moreover have "pok (c\<lparr>inboundQueue := q, inboundTimer := t\<rparr>)" for q t by (rule view_pok[OF _ assms]) simp
    ultimately show ?thesis using Frame by (simp add: receiveMessage_def)
  qed (use True assms in \<open>simp_all add: publishing_def drain_pok publish_ok timeout_ok finish_ok retry_ok\<close>)
qed (rule view_pok[OF other_view assms])

lemma run_pok: "pok c \<Longrightarrow> pok (rc_run cfg xs c)"
proof (induction xs arbitrary: c)
  case (Cons x xs)
  from Cons.IH[OF step_pok[OF Cons.prems]] show ?case by (simp add: rc_run_def)
qed (simp add: rc_run_def)

lemma new_pok: "pok (new_client st)"
  by (simp add: pok_def owned_def pub_at_def pub_ok_def new_client_def answers_def)

section \<open>Every publish is answered\<close>

definition attempts_used :: "nat \<Rightarrow> client \<Rightarrow> nat" where
  "attempts_used n c = (case map_of (isolatedPubs c) n of None \<Rightarrow> 3 | Some p \<Rightarrow> is_attempt p)"

definition a_round :: "bool \<Rightarrow> string \<Rightarrow> nat \<Rightarrow> rc_input list" where
  \<comment> \<open>the attempt in flight misses, and its retry timer fires\<close>
  "a_round b m n = [CircuitMiss n m, CircuitRetry b n]"

lemma miss_used:
  assumes "pok c"
  shows "publishTimers (rc_step cfg (CircuitMiss n m) c) = publishTimers c
    \<and> publishSeq (rc_step cfg (CircuitMiss n m) c) = publishSeq c
    \<and> (case map_of (isolatedPubs (rc_step cfg (CircuitMiss n m) c)) n of
         None \<Rightarrow> True | Some q \<Rightarrow> \<not> is_live q \<and> is_attempt q \<ge> attempts_used n c)"
proof (cases "map_of (isolatedPubs c) n")
  case (Some p)
  let ?r = "\<lparr>pr_accepted = False, pr_message = m, pr_offline = True\<rparr>"
  show ?thesis
  proof (cases "is_live p")
    case True
    from isolated_finish_cases[OF Some True, of cfg ?r] obtain d where d: "pub_view d = pub_view c"
      "isolated_finish cfg n ?r c = (if pr_accepted ?r \<or> \<not> pr_offline ?r \<or> is_attempt p + 1 \<ge> MAX_PUBLISH_CIRCUIT_ATTEMPTS
         then did (PublishDone n ?r) (d\<lparr>isolatedPubs := AList.delete n (isolatedPubs d)\<rparr>)
         else d\<lparr>isolatedPubs := AList.update n (p\<lparr>is_live := False\<rparr>) (isolatedPubs d)\<rparr>)" by metis
    have "publishTimers d = publishTimers c" "publishSeq d = publishSeq c" using d(1) by (simp_all add: pub_view_def)
    with d(2) Some show ?thesis by (simp add: attempts_used_def map_of_update map_of_delete)
  next
    case False
    with Some show ?thesis by (simp add: isolated_finish_def attempts_used_def)
  qed
qed (simp add: isolated_finish_def)

lemma retry_used:
  assumes "case map_of (isolatedPubs c) n of None \<Rightarrow> True | Some q \<Rightarrow> \<not> is_live q \<and> is_attempt q \<ge> k"
  shows "publishTimers (rc_step cfg (CircuitRetry b n) c) = publishTimers c
    \<and> publishSeq (rc_step cfg (CircuitRetry b n) c) = publishSeq c
    \<and> attempts_used n (rc_step cfg (CircuitRetry b n) c) \<ge> min 3 (k + 1)"
  using assms
  by (auto simp: isolated_retry_def isolated_attempt_def attempts_used_def map_of_update map_of_delete
      split: option.splits)

lemma round_used:
  assumes "pok c"
  shows "pok (rc_run cfg (a_round b m n) c) \<and> publishTimers (rc_run cfg (a_round b m n) c) = publishTimers c
    \<and> publishSeq (rc_run cfg (a_round b m n) c) = publishSeq c
    \<and> attempts_used n (rc_run cfg (a_round b m n) c) \<ge> min 3 (attempts_used n c + 1)"
proof -
  note miss = miss_used[OF assms, of cfg n m]
  then have "case map_of (isolatedPubs (rc_step cfg (CircuitMiss n m) c)) n of
      None \<Rightarrow> True | Some q \<Rightarrow> \<not> is_live q \<and> is_attempt q \<ge> attempts_used n c" by blast
  note retry = retry_used[OF this, of cfg b]
  have run: "rc_run cfg (a_round b m n) c = rc_step cfg (CircuitRetry b n) (rc_step cfg (CircuitMiss n m) c)"
    by (simp add: rc_run_def a_round_def)
  show ?thesis
    unfolding run using miss retry step_pok[OF step_pok[OF assms]] by (simp del: rc_step.simps)
qed

lemma three_rounds:
  assumes "pok c"
  shows "pok (rc_run cfg (a_round b m n @ a_round b m n @ a_round b m n) c)
    \<and> publishTimers (rc_run cfg (a_round b m n @ a_round b m n @ a_round b m n) c) = publishTimers c
    \<and> publishSeq (rc_run cfg (a_round b m n @ a_round b m n @ a_round b m n) c) = publishSeq c
    \<and> attempts_used n (rc_run cfg (a_round b m n @ a_round b m n @ a_round b m n) c) \<ge> 3"
proof -
  let ?r = "rc_run cfg (a_round b m n)"
  have run: "rc_run cfg (a_round b m n @ a_round b m n @ a_round b m n) c = ?r (?r (?r c))"
    by (simp add: rc_run_def)
  note 1 = round_used[OF assms, of cfg b m n]
  then have "pok (?r c)" by blast
  note 2 = round_used[OF this, of cfg b m n]
  then have "pok (?r (?r c))" by blast
  note 3 = round_used[OF this, of cfg b m n]
  show ?thesis unfolding run using 1 2 3 by auto
qed

text \<open>
  C9. Every publish is answered exactly once.  In every reachable state no publish has more than one
  answer; and once its own timer has fired, or three attempts on isolated circuits have missed, it
  has one, whatever the relay sent and whatever else was published.
\<close>

theorem publish_answered_once:
  assumes "n < publishSeq (rc_run cfg xs (new_client st))"
  shows "answers n (rc_run cfg xs (new_client st)) \<le> 1
    \<and> answers n (rc_run cfg (PublishTimer n # a_round b m n @ a_round b m n @ a_round b m n)
        (rc_run cfg xs (new_client st))) = 1"
proof -
  let ?c = "rc_run cfg xs (new_client st)"
  have c: "pok ?c" by (rule run_pok[OF new_pok])
  then have "pub_at n ?c" by (simp add: pok_def)
  then have le: "answers n ?c \<le> 1" by (auto simp: pub_at_def pub_ok_def split: option.splits if_splits)
  let ?t = "publish_timeout n ?c"
  have t: "pok ?t" by (rule timeout_ok[OF c])
  have timer: "map_of (publishTimers ?t) n = None" "publishSeq ?t = publishSeq ?c"
    by (simp_all add: publish_timeout_def finish_publish_def noteSharedPublishTimeout_def Let_def map_of_delete
        split: option.split)
  let ?d = "rc_run cfg (a_round b m n @ a_round b m n @ a_round b m n) ?t"
  note r = three_rounds[OF t, of cfg b m n]
  have d: "pok ?d" "map_of (publishTimers ?d) n = None" "publishSeq ?d = publishSeq ?c"
    using r timer by auto
  have "map_of (isolatedPubs ?d) n = None"
  proof (rule ccontr)
    assume "map_of (isolatedPubs ?d) n \<noteq> None"
    then obtain p where p: "map_of (isolatedPubs ?d) n = Some p" by blast
    with r have "is_attempt p \<ge> 3" by (simp add: attempts_used_def)
    with isolated_at(4)[OF d(1) p] show False by (simp add: attempts_ok_def split: if_splits)
  qed
  moreover have "pub_at n ?d" using d(1) by (simp add: pok_def)
  ultimately have "answers n ?d = 1" using d(2,3) assms by (simp add: pub_at_def pub_ok_def)
  moreover have "rc_run cfg (PublishTimer n # a_round b m n @ a_round b m n @ a_round b m n) ?c = ?d"
    by (simp add: rc_run_def)
  ultimately show ?thesis using le by simp
qed

theorem publish_answered_once_witness:
  "answers 0 (rc_run (ex_cfg (\<lambda>_. True) True) [Opened [], Publish True ex_wire] (new_client empty_store)) \<le> 1
    \<and> answers 0 (rc_run (ex_cfg (\<lambda>_. True) True) (PublishTimer 0 # a_round True ''closed'' 0 @ a_round True ''closed'' 0 @ a_round True ''closed'' 0)
        (rc_run (ex_cfg (\<lambda>_. True) True) [Opened [], Publish True ex_wire] (new_client empty_store))) = 1"
  by (rule publish_answered_once)
    (simp add: rc_run_def rc_publish_def ex_cfg_def publishShared_def sendSubscribe_def clearNegentropy_def
      markSynced_def did_def new_client_def Let_def)

section \<open>Where answers are lost\<close>

definition ex_ok :: "string \<Rightarrow> stext" where
  "ex_ok i = Json (JArr [JStr ''OK'', JStr i, JBool True, JStr ''''])"

text \<open>
  The pending publishes are keyed by event id.  When an event is published again while its first
  publish is pending, the deadline of the first removes the entry of the second: the relay's OK to
  the second is ignored and the second reports a timeout although the relay has accepted it.
\<close>

lemma republish_loses_ok:
  "let cfg = ex_cfg (\<lambda>_. True) False;
       before = rc_run cfg [Opened [], Publish True ex_wire, Publish True ex_wire, PublishTimer 0] (new_client empty_store);
       after = rc_run cfg [Frame (ex_ok (w_id ex_wire)), PublishTimer 1] before
   in answers 1 before = 0 \<and> PublishDone 1 (timeout_result False) \<in> set (outs after)"
  by code_simp

section \<open>What never goes over the shared socket\<close>

definition unlinkable :: "wire_event \<Rightarrow> bool" where
  "unlinkable e \<longleftrightarrow> isBlindPublish e \<or> isDmPublish e"

definition shared_clean :: "client \<Rightarrow> bool" where
  "shared_clean c \<longleftrightarrow> (\<forall>e. Sent (eventMessage e) \<in> set (outs c) \<longrightarrow> \<not> unlinkable e)"

lemma strings_json_inj: "strings_json a = strings_json b \<longleftrightarrow> a = b"
  by (metis as_strings_json option.inject)

lemma tags_json_inj: "map strings_json a = map strings_json b \<longleftrightarrow> a = b"
  by (metis as_tags_json option.inject)

lemma eventMessage_unlinkable: "eventMessage e = eventMessage f \<Longrightarrow> unlinkable e = unlinkable f"
  by (simp add: eventMessage_def event_json_def tags_json_inj unlinkable_def isBlindPublish_def isDmPublish_def)

lemma message_kinds [simp]:
  "reqMessage s fs \<noteq> eventMessage e" "closeMessage s \<noteq> eventMessage e" "countMessage s fs \<noteq> eventMessage e"
  "negOpenMessage s flt m \<noteq> eventMessage e" "negMsgMessage s m \<noteq> eventMessage e" "negCloseMessage s \<noteq> eventMessage e"
  by (simp_all add: reqMessage_def closeMessage_def countMessage_def negOpenMessage_def negMsgMessage_def
      negCloseMessage_def eventMessage_def)

lemma clean_update [simp]:
  "shared_clean (c\<lparr>store := v0\<rparr>) = shared_clean c" "shared_clean (c\<lparr>knownSubIds := v1\<rparr>) = shared_clean c"
  "shared_clean (c\<lparr>pendingPublishes := v2\<rparr>) = shared_clean c" "shared_clean (c\<lparr>publishTimers := v3\<rparr>) = shared_clean c"
  "shared_clean (c\<lparr>publishSeq := v4\<rparr>) = shared_clean c" "shared_clean (c\<lparr>isolatedPubs := v5\<rparr>) = shared_clean c"
  "shared_clean (c\<lparr>sharedPublishStallStreak := v6\<rparr>) = shared_clean c" "shared_clean (c\<lparr>pendingCounts := v7\<rparr>) = shared_clean c"
  "shared_clean (c\<lparr>countSeq := v8\<rparr>) = shared_clean c" "shared_clean (c\<lparr>fetchSubs := v9\<rparr>) = shared_clean c"
  "shared_clean (c\<lparr>fetchSeq := v10\<rparr>) = shared_clean c" "shared_clean (c\<lparr>fetchQueue := v11\<rparr>) = shared_clean c"
  "shared_clean (c\<lparr>activeIdFetchSubId := v12\<rparr>) = shared_clean c" "shared_clean (c\<lparr>pumpTimers := v13\<rparr>) = shared_clean c"
  "shared_clean (c\<lparr>fetchedIds := v14\<rparr>) = shared_clean c" "shared_clean (c\<lparr>fetchedFilters := v15\<rparr>) = shared_clean c"
  "shared_clean (c\<lparr>scopedSubRetries := v16\<rparr>) = shared_clean c" "shared_clean (c\<lparr>pagedSubs := v17\<rparr>) = shared_clean c"
  "shared_clean (c\<lparr>olderPageInFlight := v18\<rparr>) = shared_clean c" "shared_clean (c\<lparr>olderPageSeq := v19\<rparr>) = shared_clean c"
  "shared_clean (c\<lparr>rc_ng := v20\<rparr>) = shared_clean c" "shared_clean (c\<lparr>negActive := v21\<rparr>) = shared_clean c"
  "shared_clean (c\<lparr>negNeed := v22\<rparr>) = shared_clean c" "shared_clean (c\<lparr>negFetchPending := v23\<rparr>) = shared_clean c"
  "shared_clean (c\<lparr>negTimer := v24\<rparr>) = shared_clean c" "shared_clean (c\<lparr>negRounds := v25\<rparr>) = shared_clean c"
  "shared_clean (c\<lparr>negFrameBytesOut := v26\<rparr>) = shared_clean c" "shared_clean (c\<lparr>negHaveCount := v27\<rparr>) = shared_clean c"
  "shared_clean (c\<lparr>resyncWaiters := v28\<rparr>) = shared_clean c" "shared_clean (c\<lparr>resyncTimer := v29\<rparr>) = shared_clean c"
  "shared_clean (c\<lparr>resyncEoseSubId := v30\<rparr>) = shared_clean c" "shared_clean (c\<lparr>resyncSeq := v31\<rparr>) = shared_clean c"
  "shared_clean (c\<lparr>resyncCalls := v32\<rparr>) = shared_clean c" "shared_clean (c\<lparr>sockOpen := v33\<rparr>) = shared_clean c"
  "shared_clean (c\<lparr>pagedStates := v34\<rparr>) = shared_clean c" "shared_clean (c\<lparr>pendingSubs := v35\<rparr>) = shared_clean c"
  "shared_clean (c\<lparr>synced := v36\<rparr>) = shared_clean c" "shared_clean (c\<lparr>inboundQueue := v37\<rparr>) = shared_clean c"
  "shared_clean (c\<lparr>inboundTimer := v38\<rparr>) = shared_clean c"
  by (simp_all add: shared_clean_def)

lemma clean_fields [simp]:
  "shared_clean (c\<lparr>pendingPublishes := x1\<rparr>) = shared_clean c" "shared_clean (c\<lparr>publishTimers := x2\<rparr>) = shared_clean c"
  "shared_clean (c\<lparr>publishSeq := x3\<rparr>) = shared_clean c" "shared_clean (c\<lparr>isolatedPubs := x4\<rparr>) = shared_clean c"
  by (simp_all add: shared_clean_def)

lemma clean_did [simp]:
  "shared_clean (did x c) \<longleftrightarrow> shared_clean c \<and> (\<forall>e. x = Sent (eventMessage e) \<longrightarrow> \<not> unlinkable e)"
  by (auto simp: shared_clean_def did_def)

lemma clean_fold:
  assumes "shared_clean c" "\<And>x c. x \<in> set xs \<Longrightarrow> shared_clean c \<Longrightarrow> shared_clean (f x c)"
  shows "shared_clean (fold f xs c)"
  using assms by (induction xs arbitrary: c) simp_all

lemma clean_pending_done [intro!]: "shared_clean c \<Longrightarrow> shared_clean (pending_done s c)"
  by (auto simp: pending_done_def markSynced_def Let_def)

lemma clean_send_try [intro!]:
  "shared_clean c \<Longrightarrow> shared_clean (send_try (closeMessage s) c)"
  "shared_clean c \<Longrightarrow> shared_clean (send_try (negCloseMessage s) c)"
  by (simp_all add: send_try_def)

lemma clean_resync [intro!]: "shared_clean c \<Longrightarrow> shared_clean (settleResync c)"
  by (auto simp: settleResync_def Let_def intro!: clean_fold split: option.split)

lemma clean_slot [intro!]:
  "shared_clean c \<Longrightarrow> shared_clean (completeNegentropySlot cfg c)"
  "shared_clean c \<Longrightarrow> shared_clean (completeNegentropyFetch cfg c)"
  by (auto simp: completeNegentropySlot_def completeNegentropyFetch_def)

lemma clean_cleanup [intro!]: "shared_clean c \<Longrightarrow> shared_clean (fetch_cleanup cfg s c)"
  by (auto simp: fetch_cleanup_def Let_def split: option.split fetch.split)

lemma clean_open_fetch [intro!]: "shared_clean c \<Longrightarrow> shared_clean (open_fetch cfg s f fs c)"
  by (auto simp: open_fetch_def Let_def)

lemma clean_pump [intro!]: "shared_clean c \<Longrightarrow> shared_clean (pumpFetchQueue cfg c)"
  by (auto simp: pumpFetchQueue_def Let_def split: list.split)

lemma clean_fetches [intro!]:
  "shared_clean c \<Longrightarrow> shared_clean (fetchById cfg ids c)"
  "shared_clean c \<Longrightarrow> shared_clean (fetchByFilter cfg fs c)"
  "shared_clean c \<Longrightarrow> shared_clean (requestOlder cfg k flt u l c)"
  by (auto simp: fetchById_def fetchByFilter_def requestOlder_def Let_def)

lemma clean_fallback [intro!]: "shared_clean c \<Longrightarrow> shared_clean (negFallback cfg c)"
  by (auto simp: negFallback_def Let_def split: option.split)

lemma clean_neg [intro!]:
  "shared_clean c \<Longrightarrow> shared_clean (clearNegentropy c)"
  "shared_clean c \<Longrightarrow> shared_clean (finishNegentropy cfg c)"
  "shared_clean c \<Longrightarrow> shared_clean (startNegentropy cfg c)"
  by (auto simp: clearNegentropy_def finishNegentropy_def startNegentropy_def Let_def
      split: option.split sum.split prod.split)

lemma clean_negmsg [intro!]: "shared_clean c \<Longrightarrow> shared_clean (handleNegMsg cfg m c)"
  by (auto simp: handleNegMsg_def Let_def split: option.split sum.split)

lemma clean_scoped [intro!]:
  "shared_clean c \<Longrightarrow> shared_clean (cancelScopedSubRetry i c)"
  "shared_clean c \<Longrightarrow> shared_clean (subscribeScopedAttempt i fs n c)"
  "shared_clean c \<Longrightarrow> shared_clean (closeSub i c)"
  "shared_clean c \<Longrightarrow> shared_clean (scoped_retry i c)"
  by (auto simp: cancelScopedSubRetry_def subscribeScopedAttempt_def closeSub_def scoped_retry_def Let_def
      split: option.split)

lemma clean_ingestEvent:
  assumes "ingestEvent cfg b e c = (r, b', c')" "shared_clean c"
  shows "shared_clean c'"
  using assms
  by (auto simp: ingestEvent_def save_now_def Let_def split: if_splits option.splits prod.splits)

lemma clean_ingest [intro!]: "shared_clean c \<Longrightarrow> shared_clean (ingest cfg e c)"
  by (cases "ingestEvent cfg None e c") (auto simp: ingest_def intro: clean_ingestEvent)

lemma clean_publish [intro!]:
  "shared_clean c \<Longrightarrow> shared_clean (noteSharedSocketActivity c)"
  "shared_clean c \<Longrightarrow> shared_clean (noteSharedPublishTimeout c)"
  "shared_clean c \<Longrightarrow> shared_clean (finish_publish n r c)"
  "\<not> unlinkable e \<Longrightarrow> shared_clean c \<Longrightarrow> shared_clean (publishShared e c)"
  "shared_clean c \<Longrightarrow> shared_clean (isolated_attempt cfg b n p c)"
  "shared_clean c \<Longrightarrow> shared_clean (rc_count f c)"
  "(\<And>e. x \<noteq> Sent (eventMessage e)) \<Longrightarrow> shared_clean c \<Longrightarrow> shared_clean (finish_count s x c)"
  "shared_clean c \<Longrightarrow> shared_clean (circuit_send n c)"
  by (auto simp: noteSharedSocketActivity_def noteSharedPublishTimeout_def finish_publish_def publishShared_def
      isolated_attempt_def rc_count_def finish_count_def circuit_send_def Let_def split: option.split
      dest: eventMessage_unlinkable)

lemma clean_publish2 [intro!]:
  "shared_clean c \<Longrightarrow> shared_clean (publish_timeout n c)"
  "shared_clean c \<Longrightarrow> shared_clean (handleOk cfg i a m c)"
  "shared_clean c \<Longrightarrow> shared_clean (isolated_finish cfg n r c)"
  "shared_clean c \<Longrightarrow> shared_clean (isolated_retry cfg b n c)"
  "rc_isolates cfg \<Longrightarrow> shared_clean c \<Longrightarrow> shared_clean (rc_publish cfg b e c)"
  "shared_clean c \<Longrightarrow> shared_clean (count_timeout s c)"
  by (auto simp: publish_timeout_def handleOk_def isolated_finish_def isolated_retry_def rc_publish_def
      count_timeout_def unlinkable_def Let_def split: option.split)

lemma clean_closed [intro!]: "shared_clean c \<Longrightarrow> shared_clean (handleClosed s m c)"
  by (auto simp: handleClosed_def)

lemma clean_unsubscribe [intro!]: "shared_clean c \<Longrightarrow> shared_clean (rc_unsubscribe c)"
  by (auto simp: rc_unsubscribe_def intro!: clean_fold)

lemma clean_more [intro!]:
  "shared_clean c \<Longrightarrow> shared_clean (resyncFeed cfg plan c)"
  "shared_clean c \<Longrightarrow> shared_clean (upd_paged st c)"
  "shared_clean c \<Longrightarrow> shared_clean (mark_if_done c)"
  "shared_clean c \<Longrightarrow> shared_clean (open_sub s c)"
  "shared_clean c \<Longrightarrow> shared_clean (recordFetchFilterEvent i r c)"
  "shared_clean c \<Longrightarrow> shared_clean (rc_close c)"
  by (auto simp: resyncFeed_def upd_paged_def mark_if_done_def markSynced_def open_sub_def
      recordFetchFilterEvent_def rc_close_def Let_def split: option.split fetch.split)

lemma clean_paged [intro!]:
  "shared_clean c \<Longrightarrow> shared_clean (recordPagedEvent i e r c)"
  "shared_clean c \<Longrightarrow> shared_clean (handlePagedEose i st c)"
  "shared_clean c \<Longrightarrow> shared_clean (page_timer i c)"
  by (auto simp: recordPagedEvent_def handlePagedEose_def page_timer_def Let_def split: option.split)

lemma clean_frames [intro!]:
  "shared_clean c \<Longrightarrow> shared_clean (handleEose cfg i c)"
  "shared_clean c \<Longrightarrow> shared_clean (sendSubscribe cfg subs c)"
  by (auto simp: handleEose_def sendSubscribe_def markSynced_def Let_def intro!: clean_fold split: option.split)

lemma clean_handle: "handleMessage cfg data (b, c) = (b', c') \<Longrightarrow> shared_clean c \<Longrightarrow> shared_clean c'"
proof (cases "parseRelayMessage data")
  case (MEvent s e)
  assume h: "handleMessage cfg data (b, c) = (b', c')" and c: "shared_clean c"
  obtain r b2 c2 where i: "ingestEvent cfg b e (noteSharedSocketActivity c) = (r, b2, c2)" by (metis prod_cases3)
  have "shared_clean c2" by (rule clean_ingestEvent[OF i]) (use c in auto)
  with h c MEvent i show ?thesis by (auto simp: handleMessage_def split: if_splits)
qed (auto simp: handleMessage_def split: if_splits)

lemma clean_handle_fold: "fold (handleMessage cfg) fs (b, c) = (b', c') \<Longrightarrow> shared_clean c \<Longrightarrow> shared_clean c'"
proof (induction fs arbitrary: b c)
  case (Cons f fs)
  obtain b1 c1 where h: "handleMessage cfg f (b, c) = (b1, c1)" by fastforce
  with Cons clean_handle[OF h] show ?case by simp
qed simp

lemma clean_storeIndividually: "storeIndividually es c = (c', rest) \<Longrightarrow> shared_clean c \<Longrightarrow> shared_clean c'"
  by (induction es c arbitrary: c' rest rule: storeIndividually.induct)
    (auto simp: save_now_def Let_def split: prod.splits)

lemma clean_flush [intro!]: "shared_clean c \<Longrightarrow> shared_clean (flushPendingIngest es c)"
  by (cases "storeIndividually es c")
    (auto simp: flushPendingIngest_def intro!: clean_fold intro: clean_storeIndividually)

lemma clean_drain: "shared_clean c \<Longrightarrow> shared_clean (drainInboundQueue cfg n c)"
proof (cases "inboundTimer c")
  case True
  assume c: "shared_clean c"
  let ?c = "c\<lparr>inboundTimer := False, inboundQueue := drop n (inboundQueue c)\<rparr>"
  obtain b c1 where f: "fold (handleMessage cfg) (take n (inboundQueue c)) (Some [], ?c) = (b, c1)" by fastforce
  from clean_handle_fold[OF f] c have "shared_clean c1" by simp
  with True f show ?thesis by (auto simp: drainInboundQueue_def Let_def)
qed (simp add: drainInboundQueue_def)

lemma clean_step: "rc_isolates cfg \<Longrightarrow> shared_clean c \<Longrightarrow> shared_clean (rc_step cfg x c)"
proof (cases x)
  case (Frame data)
  assume "shared_clean c"
  with Frame clean_handle[of cfg data None c "fst (handleMessage cfg data (None, c))" "snd (handleMessage cfg data (None, c))"]
  show ?thesis by (simp add: receiveMessage_def)
qed (auto intro: clean_drain)

lemma clean_run: "rc_isolates cfg \<Longrightarrow> shared_clean c \<Longrightarrow> shared_clean (rc_run cfg xs c)"
proof (induction xs arbitrary: c)
  case (Cons x xs)
  from Cons.IH[OF Cons.prems(1) clean_step[OF Cons.prems]] show ?case by (simp add: rc_run_def)
qed (simp add: rc_run_def)

text \<open>
  C8. A blind post or a sealed direct message never travels over the shared socket of a client whose
  transport can isolate circuits, so the relay cannot link it with the subscriptions that the
  member's own key opened there: whatever happens, what is sent there is no such event.
\<close>

theorem unlinkable_never_shared:
  assumes "rc_isolates cfg" "Sent (eventMessage e) \<in> set (outs (rc_run cfg xs (new_client st)))"
  shows "\<not> isBlindPublish e \<and> \<not> isDmPublish e"
proof -
  have "shared_clean (new_client st)" by (simp add: shared_clean_def new_client_def)
  from clean_run[OF assms(1) this, of xs] assms(2) show ?thesis by (auto simp: shared_clean_def unlinkable_def)
qed

definition ex_isolating :: rc_config where
  "ex_isolating = (ex_cfg (\<lambda>_. True) True)\<lparr>rc_isolates := True\<rparr>"

lemma ex_sent:
  "Sent (eventMessage ex_wire) \<in> set (outs (rc_run ex_isolating [Opened [], Publish True (ex_wire\<lparr>w_kind := 1059\<rparr>), Publish True ex_wire] (new_client empty_store)))"
  by (simp add: rc_run_def rc_publish_def ex_isolating_def ex_cfg_def publishShared_def sendSubscribe_def
      clearNegentropy_def markSynced_def did_def new_client_def Let_def isBlindPublish_def isDmPublish_def
      isolated_attempt_def ex_wire_def at_def)

theorem unlinkable_never_shared_witness: "\<not> isBlindPublish ex_wire \<and> \<not> isDmPublish ex_wire"
  by (rule unlinkable_never_shared[OF _ ex_sent]) (simp add: ex_isolating_def)

end
