(* ===== verification/Gradient.thy ===== *)
theory Gradient
  imports Reports
begin

text \<open>
  The gradients of \<open>client/src/media/gradient.ts\<close> as data: colours are texts \<open>#rrggbb\<close>, and a
  gradient travels as a short text inside tags and headers.

  Angles are whole degrees, as every generator of the application draws them, so
  \<open>Math.round\<close> is the identity on them.  Painting a gradient (sampling, colour spaces) works on
  floating-point numbers and is not modelled.
\<close>

section \<open>Definitions\<close>

datatype GradientType = Linear | Radial

record GradientSpec =
  g_type :: GradientType
  g_angle :: int
  g_stops :: "string list"

definition MAX_GRADIENT_STOPS :: nat where "MAX_GRADIENT_STOPS = 3"
definition DEFAULT_LINEAR_ANGLE :: int where "DEFAULT_LINEAR_ANGLE = 135"
definition DEFAULT_RADIAL_ANGLE :: int where "DEFAULT_RADIAL_ANGLE = 315"

definition gradientSpecEqual :: "GradientSpec option \<Rightarrow> GradientSpec option \<Rightarrow> bool" where
  "gradientSpecEqual a b = (case (a, b) of
       (None, None) \<Rightarrow> True
     | (Some x, Some y) \<Rightarrow> g_type x = g_type y \<and> g_angle x = g_angle y \<and> length (g_stops x) = length (g_stops y)
         \<and> list_all (\<lambda>i. at (g_stops x) i = at (g_stops y) i) [0..<length (g_stops x)]
     | _ \<Rightarrow> False)"

definition hex_char :: "char \<Rightarrow> bool" where
  \<comment> \<open>\<open>[0-9a-fA-F]\<close>\<close>
  "hex_char c \<longleftrightarrow> hex_val c \<noteq> None"

definition drop_hash :: "string \<Rightarrow> string" where
  \<comment> \<open>\<open>hex.trim().replace(/^#/, '')\<close>\<close>
  "drop_hash hex = (let h = js_trim hex in if at h 0 = Some (CHR ''#'') then drop 1 h else h)"

definition parseHex :: "string \<Rightarrow> int \<times> int \<times> int" where
  "parseHex hex =
     (let h = drop_hash hex;
          h = (if length h = 3 then [h ! 0, h ! 0, h ! 1, h ! 1, h ! 2, h ! 2] else h);
          byte = (\<lambda>i. the (parseInt16 (js_slice i (i + 2) h)))
      in if length h \<noteq> 6 \<or> \<not> list_all hex_char h then (128, 128, 128) else (byte 0, byte 2, byte 4))"

definition toHex2 :: "int \<Rightarrow> string" where
  "toHex2 v = padStart 2 (CHR ''0'') (toString16 (nat (max 0 (min 255 v))))"

definition normalizeHex :: "string \<Rightarrow> string" where
  "normalizeHex hex = (let (r, g, b) = parseHex hex in ''#'' @ toHex2 r @ toHex2 g @ toHex2 b)"

definition isCompleteHex :: "string \<Rightarrow> bool" where
  "isCompleteHex hex = (let h = drop_hash hex in (length h = 3 \<or> length h = 6) \<and> list_all hex_char h)"

definition js_rem :: "int \<Rightarrow> int \<Rightarrow> int" where
  \<comment> \<open>\<open>a % m\<close> for a positive \<open>m\<close>: the sign of \<open>a\<close>\<close>
  "js_rem a m = (if a < 0 then - ((- a) mod m) else a mod m)"

definition encodeGradient :: "GradientSpec option \<Rightarrow> string" where
  "encodeGradient spec = (case spec of
       None \<Rightarrow> ''''
     | Some s \<Rightarrow>
         if length (g_stops s) < 2 then ''''
         else let stops = join_on (CHR '','') (map (\<lambda>h. drop 1 (normalizeHex h)) (take MAX_GRADIENT_STOPS (g_stops s)));
                  angle = js_rem (g_angle s) 360
              in (if g_type s = Radial then ''R'' else ''L'') @ js_int angle @ '':'' @ stops)"

definition gradient_fields :: "string \<Rightarrow> (char \<times> string \<times> string) option" where
  \<comment> \<open>\<open>/^([LR])(\d{0,3}):([0-9a-fA-F,]+)$/.exec(s)\<close>\<close>
  "gradient_fields s = (case s of
       [] \<Rightarrow> None
     | k # rest \<Rightarrow>
         let ds = takeWhile (\<lambda>c. dec_val c \<noteq> None) rest; after = drop (length ds) rest
         in if (k = CHR ''L'' \<or> k = CHR ''R'') \<and> length ds \<le> 3 \<and> at after 0 = Some (CHR '':'')
               \<and> drop 1 after \<noteq> [] \<and> list_all (\<lambda>c. hex_char c \<or> c = CHR '','') (drop 1 after)
            then Some (k, ds, drop 1 after) else None)"

definition decodeGradient :: "string \<Rightarrow> GradientSpec option" where
  "decodeGradient wire =
     (if wire = '''' then None
      else case gradient_fields (js_trim wire) of
        None \<Rightarrow> None
      | Some (k, ds, hexes) \<Rightarrow>
          let stops = map normalizeHex (filter (\<lambda>h. h \<noteq> '''') (split_on (CHR '','') hexes));
              isRadial = (k = CHR ''R'');
              rawAngle = (if ds \<noteq> '''' then the (parseInt10 ds)
                          else if isRadial then DEFAULT_RADIAL_ANGLE else DEFAULT_LINEAR_ANGLE)
          in if length stops < 2 \<or> length stops > MAX_GRADIENT_STOPS then None
             else Some \<lparr>g_type = (if isRadial then Radial else Linear),
                        g_angle = js_rem (js_rem rawAngle 360 + 360) 360, g_stops = stops\<rparr>)"

section \<open>Colours\<close>

definition plain_colour :: "string \<Rightarrow> bool" where
  \<comment> \<open>\<open>#rrggbb\<close> in lower case\<close>
  "plain_colour h \<longleftrightarrow> length h = 7 \<and> hd h = CHR ''#'' \<and> (\<forall>c \<in> set (tl h). \<exists>d < 16. c = hex_digit d)"

lemma toHex2_digits: "toHex2 v = [hex_digit (nat (max 0 (min 255 v)) div 16), hex_digit (nat (max 0 (min 255 v)) mod 16)]"
  unfolding toHex2_def by (rule padded_hex) simp

lemma toHex2_nibbles: "\<exists>a < 16. \<exists>b < 16. toHex2 v = [hex_digit a, hex_digit b]"
proof -
  have "nat (max 0 (min 255 v)) div 16 < 16" "nat (max 0 (min 255 v)) mod 16 < 16" by auto
  then show ?thesis unfolding toHex2_digits by blast
qed

lemma normalizeHex_plain: "plain_colour (normalizeHex h)"
proof -
  obtain r g b where p: "parseHex h = (r, g, b)" by (cases "parseHex h")
  show ?thesis
    using toHex2_nibbles[of r] toHex2_nibbles[of g] toHex2_nibbles[of b]
    by (auto simp: normalizeHex_def plain_colour_def p)
qed

lemma toHex2_byte:
  assumes "a < 16" and "b < 16"
  shows "toHex2 (int (16 * a + b)) = [hex_digit a, hex_digit b]"
proof -
  have "max 0 (min 255 (int (16 * a + b))) = int (16 * a + b)" using assms by auto
  with assms show ?thesis unfolding toHex2_digits by (simp only: nat_int) simp
qed

lemma hex_char_digit: "d < 16 \<Longrightarrow> hex_char (hex_digit d)"
  by (simp add: hex_char_def hex_val_digit)

lemma hex_digit_misc:
  assumes "n < 16"
  shows "hex_digit n \<noteq> CHR '',''" "hex_digit n \<noteq> CHR ''#''" "hex_digit n \<noteq> CHR '':''"
proof -
  have "\<forall>n \<in> set [0..<16]. hex_digit n \<noteq> CHR '','' \<and> hex_digit n \<noteq> CHR ''#'' \<and> hex_digit n \<noteq> CHR '':''"
    by (simp add: hex_digit_def upt_rec)
  with assms show "hex_digit n \<noteq> CHR '',''" "hex_digit n \<noteq> CHR ''#''" "hex_digit n \<noteq> CHR '':''" by auto
qed

lemma normalizeHex_six:
  assumes "length ds = 6" and "\<forall>c \<in> set ds. \<exists>d < 16. c = hex_digit d"
  shows "normalizeHex ds = CHR ''#'' # ds"
proof -
  obtain c0 c1 c2 c3 c4 c5 where ds: "ds = [c0, c1, c2, c3, c4, c5]"
    using assms(1) by (auto simp: eval_nat_numeral length_Suc_conv)
  from assms(2) obtain a0 a1 a2 a3 a4 a5 where lt: "a0 < 16" "a1 < 16" "a2 < 16" "a3 < 16" "a4 < 16" "a5 < 16"
    and c: "c0 = hex_digit a0" "c1 = hex_digit a1" "c2 = hex_digit a2" "c3 = hex_digit a3" "c4 = hex_digit a4"
      "c5 = hex_digit a5"
    unfolding ds by auto
  have "js_trim ds = ds" unfolding ds c by (rule js_trim_id) (use lt hex_digit_plain in auto)
  then have "parseHex ds = (int (16 * a0 + a1), int (16 * a2 + a3), int (16 * a4 + a5))"
    unfolding parseHex_def drop_hash_def Let_def ds c
    using lt by (simp add: hex_digit_misc hex_char_digit js_slice_def parseInt16_digits del: of_nat_add of_nat_mult)
  then show ?thesis
    unfolding normalizeHex_def ds c using lt by (simp add: toHex2_byte del: of_nat_add of_nat_mult)
qed

lemma normalizeHex_tail: "plain_colour h \<Longrightarrow> normalizeHex (drop 1 h) = h"
  using normalizeHex_six[of "tl h"] by (cases h) (auto simp: plain_colour_def)

section \<open>The wire form\<close>

lemma join_on_inject:
  assumes "\<forall>x \<in> set xs. x \<noteq> '''' \<and> d \<notin> set x" and "\<forall>y \<in> set ys. y \<noteq> '''' \<and> d \<notin> set y"
    and "join_on d xs = join_on d ys"
  shows "xs = ys"
proof (cases "xs = [] \<or> ys = []")
  case True
  with assms join_on_Nil[of d xs] join_on_Nil[of d ys] show ?thesis by auto
next
  case False
  then show ?thesis using assms split_join by metis
qed

lemma length_js_dec: "n < 1000 \<Longrightarrow> length (js_dec n) \<le> 3"
proof -
  have one: "m < 10 \<Longrightarrow> js_dec m = [hex_digit m]" for m by (subst js_dec.simps) simp
  have two: "m < 100 \<Longrightarrow> length (js_dec m) \<le> 2" for m
  proof -
    assume "m < 100"
    then have "m div 10 < 10" by simp
    then show ?thesis using one[of m] one[of "m div 10"] by (subst js_dec.simps) auto
  qed
  assume "n < 1000"
  then have "n div 10 < 100" by simp
  then show ?thesis using one[of n] two[of "n div 10"] by (subst js_dec.simps) auto
qed

lemma dec_val_colon: "dec_val (CHR '':'') = None"
  by (simp add: dec_val_def)

lemma js_dec_digits: "c \<in> set (js_dec n) \<Longrightarrow> dec_val c \<noteq> None"
  using js_dec_digit dec_val_digit by fastforce

lemma gradient_fields_wire:
  assumes "k = CHR ''L'' \<or> k = CHR ''R''" and "n < 1000" and "hs \<noteq> []"
    and "\<And>c. c \<in> set hs \<Longrightarrow> hex_char c \<or> c = CHR '',''"
  shows "gradient_fields (k # js_dec n @ CHR '':'' # hs) = Some (k, js_dec n, hs)"
proof -
  have "takeWhile (\<lambda>c. dec_val c \<noteq> None) (js_dec n @ CHR '':'' # hs) = js_dec n"
    using js_dec_digits by (subst takeWhile_append2) (auto simp: dec_val_colon)
  then show ?thesis
    using assms length_js_dec[OF assms(2)] by (auto simp: gradient_fields_def Let_def list_all_iff)
qed

lemma stop_digits:
  assumes "s \<in> set (map (\<lambda>h. drop 1 (normalizeHex h)) hs)"
  shows "length s = 6 \<and> (\<forall>c \<in> set s. \<exists>d < 16. c = hex_digit d)"
  using assms normalizeHex_plain by (auto simp: plain_colour_def drop_Suc)

text \<open>
  What \<open>decodeGradient\<close> reads back from \<open>encodeGradient\<close>: the kind, the angle modulo a full turn
  and the first three stops in normal form.
\<close>

lemma decode_encode:
  assumes "length (g_stops s) \<ge> 2" and "g_angle s \<ge> 0"
  shows "decodeGradient (encodeGradient (Some s)) = Some \<lparr>g_type = g_type s, g_angle = g_angle s mod 360,
    g_stops = map normalizeHex (take 3 (g_stops s))\<rparr>"
proof -
  define k where "k = (if g_type s = Radial then CHR ''R'' else CHR ''L'')"
  define n where "n = nat (g_angle s mod 360)"
  define ss where "ss = map (\<lambda>h. drop 1 (normalizeHex h)) (take 3 (g_stops s))"
  have n: "n < 360" "js_int (js_rem (g_angle s) 360) = js_dec n"
    using assms(2) by (auto simp: n_def js_rem_def js_int_def nat_less_iff)
  have digits: "length x = 6 \<and> (\<forall>c \<in> set x. \<exists>d < 16. c = hex_digit d)" if "x \<in> set ss" for x
    using stop_digits that unfolding ss_def by blast
  have nocomma: "\<forall>x \<in> set ss. CHR '','' \<notin> set x" using digits hex_digit_misc(1) by metis
  have ne: "ss \<noteq> []" "length ss = length (take 3 (g_stops s))" using assms(1) by (auto simp: ss_def)
  have enc: "encodeGradient (Some s) = k # js_dec n @ CHR '':'' # join_on (CHR '','') ss"
    using assms(1) n(2) by (auto simp: encodeGradient_def MAX_GRADIENT_STOPS_def ss_def k_def Let_def)
  have joined: "hex_char c \<or> c = CHR '',''" if "c \<in> set (join_on (CHR '','') ss)" for c
    using set_join_on[OF that] digits hex_char_digit by metis
  have "last ss \<in> set ss" using ne(1) by simp
  then have nonempty: "last ss \<noteq> ''''" using digits by fastforce
  then have last: "last ss \<noteq> ''''" "last (join_on (CHR '','') ss) = last (last ss)" "join_on (CHR '','') ss \<noteq> ''''"
    using ne(1) last_join_on[OF ne(1)] by (auto simp: join_on_Nil)
  have "last (last ss) \<in> set (last ss)" using last(1) by simp
  then obtain d where "d < 16" "last (join_on (CHR '','') ss) = hex_digit d"
    using digits[of "last ss"] ne(1) last(2) by auto
  then have trim: "js_trim (k # js_dec n @ CHR '':'' # join_on (CHR '','') ss) = k # js_dec n @ CHR '':'' # join_on (CHR '','') ss"
    using hex_digit_plain last(3) by (intro js_trim_id) (auto simp: k_def js_space_def)
  have fields: "gradient_fields (k # js_dec n @ CHR '':'' # join_on (CHR '','') ss) = Some (k, js_dec n, join_on (CHR '','') ss)"
    by (rule gradient_fields_wire) (use n(1) last(3) joined in \<open>auto simp: k_def\<close>)
  have again: "map normalizeHex ss = map normalizeHex (take 3 (g_stops s))"
    unfolding ss_def by (simp add: normalizeHex_tail normalizeHex_plain del: drop_0 One_nat_def)
  have full: "filter (\<lambda>h. h \<noteq> '''') ss = ss" using digits by (intro filter_True) fastforce
  have "js_dec n \<noteq> ''''" by (subst js_dec.simps) simp
  moreover have "js_rem (js_rem (int n) 360 + 360) 360 = g_angle s mod 360"
    using n(1) by (simp add: js_rem_def n_def)
  moreover have "2 \<le> length ss" "length ss \<le> 3" using assms(1) ne(2) by auto
  moreover have "(if g_type s = Radial then Radial else Linear) = g_type s" by (cases "g_type s") auto
  ultimately show ?thesis
    unfolding enc decodeGradient_def trim
    using fields by (simp add: split_join[OF ne(1) nocomma] full parseInt10_dec again MAX_GRADIENT_STOPS_def Let_def k_def split: if_splits)
qed

lemma encode_some: "length (g_stops s) \<ge> 2 \<Longrightarrow> encodeGradient (Some s) \<noteq> ''''"
  by (simp add: encodeGradient_def Let_def)

lemma drop_hash_colour:
  assumes "plain_colour h"
  shows "drop_hash h = drop 1 h" "drop_hash (drop 1 h) = drop 1 h"
proof -
  obtain ds where h: "h = CHR ''#'' # ds" "length ds = 6" and d: "\<forall>c \<in> set ds. \<exists>d < 16. c = hex_digit d"
    using assms by (cases h) (auto simp: plain_colour_def)
  have "ds \<noteq> []" using h(2) by auto
  then have ends: "ds \<noteq> []" "hd ds \<in> set ds" "last ds \<in> set ds" by auto
  then have sp: "\<not> js_space (hd ds)" "\<not> js_space (last ds)" "hd ds \<noteq> CHR ''#''"
    using d hex_digit_plain(1) hex_digit_misc(2) by metis+
  have "js_trim h = h" "js_trim ds = ds"
    unfolding h(1) using sp ends(1) by (auto intro!: js_trim_id simp: js_space_def)
  then show "drop_hash h = drop 1 h" "drop_hash (drop 1 h) = drop 1 h"
    using sp ends(1) by (auto simp: drop_hash_def h(1) at_def Let_def hd_conv_nth)
qed

lemma normalizeHex_colour: "plain_colour h \<Longrightarrow> normalizeHex h = h"
  using normalizeHex_tail[of h] by (simp add: normalizeHex_def parseHex_def drop_hash_colour del: One_nat_def length_drop)

lemma gradientSpecEqual_eq: "gradientSpecEqual a b \<longleftrightarrow> a = b"
  by (cases a; cases b) (auto simp: gradientSpecEqual_def at_def list_all_iff intro!: nth_equalityI GradientSpec.equality)

lemma decode_encode_exact:
  assumes "length (g_stops s) \<in> {2, 3}" and "\<forall>h \<in> set (g_stops s). plain_colour h"
    and "0 \<le> g_angle s" and "g_angle s < 360"
  shows "decodeGradient (encodeGradient (Some s)) = Some s"
  using assms decode_encode[of s] map_idI[of "g_stops s" normalizeHex] by (auto simp: normalizeHex_colour)


end
