(* ===== verification/Spaces.thy ===== *)
theory Spaces
  imports Gradient
begin

text \<open>
  The two kinds of spaces: \<open>client/src/channels/groups.ts\<close> (groups whose state the relay keeps),
  \<open>client/src/channels/channels.ts\<close> (channels signed by their owner) and
  \<open>client/src/channels/promote.ts\<close>.

  The builders take the clock, the sealing of a body for a private space (\<open>encryptForSpace\<close>,
  NIP-44 of a third-party package) and the random identifier of a new channel as arguments; an
  unset flag of \<open>GroupMeta\<close> is false, an unset list of reactions or admins is empty.
  \<open>localeCompare\<close> depends on the device's language and is the comparator \<open>lc\<close>.  The memo of
  \<open>groupSummariesForIds\<close> is explicit state.
\<close>

section \<open>Definitions\<close>

subsection \<open>Kinds and sealed bodies\<close>

datatype GroupKind = GChat | GThread | GReply | GAddUser | GRemoveUser | GEditMetadata | GCreate | GDelete
  | GJoinRequest | GLeaveRequest | GInviteGrant | GMetadata | GAdmins | GMembers | GRoles | GPending

fun gk :: "GroupKind \<Rightarrow> nat" where
  "gk GChat = 9" | "gk GThread = 11" | "gk GReply = 12" | "gk GAddUser = 9000" | "gk GRemoveUser = 9001"
| "gk GEditMetadata = 9002" | "gk GCreate = 9007" | "gk GDelete = 9008" | "gk GJoinRequest = 9021"
| "gk GLeaveRequest = 9022" | "gk GInviteGrant = 9010" | "gk GMetadata = 39000" | "gk GAdmins = 39001"
| "gk GMembers = 39002" | "gk GRoles = 39003" | "gk GPending = 39004"

definition ROLE_ADMIN :: string where "ROLE_ADMIN = ''admin''"
definition ROLE_OWNER :: string where "ROLE_OWNER = ''owner''"
definition KIND_LIVE_ACTIVITY :: nat where "KIND_LIVE_ACTIVITY = 30311"
definition KIND_LIVE_CHAT :: nat where "KIND_LIVE_CHAT = 1311"

datatype space_error = MessageEmpty

record SpaceKey =
  sk_key :: "u8 list"
  sk_epoch :: int

type_synonym sealer = "string \<Rightarrow> u8 list \<Rightarrow> string" \<comment> \<open>\<open>encryptForSpace\<close>\<close>

definition sealBody :: "sealer \<Rightarrow> string \<Rightarrow> SpaceKey option \<Rightarrow> string \<times> string list list" where
  "sealBody encrypt c enc = (case enc of
       None \<Rightarrow> (c, [])
     | Some k \<Rightarrow> (encrypt c (sk_key k), [[''encrypted'', ''nip44''], [''ke'', js_int (sk_epoch k)]]))"

definition messageEpoch :: "(string \<Rightarrow> int option) \<Rightarrow> event \<Rightarrow> int option" where
  \<comment> \<open>over \<open>Number\<close>, \<^const>\<open>None\<close> for what is no integer\<close>
  "messageEpoch number e =
     (if \<not> list_ex (\<lambda>t. at t 0 = Some ''encrypted'' \<and> at t 1 = Some ''nip44'') (tags e) then None
      else case Option.bind (find (\<lambda>t. at t 0 = Some ''ke'' \<and> at t 1 \<noteq> None) (tags e)) (\<lambda>t. at t 1) of
        None \<Rightarrow> None
      | Some ke \<Rightarrow> (case number ke of Some n \<Rightarrow> if n \<ge> 0 then Some n else None | None \<Rightarrow> None))"

subsection \<open>promote.ts\<close>

definition PROMOTED_TAG :: string where "PROMOTED_TAG = ''promoted''"

definition promotedFeedId :: "event \<Rightarrow> string option" where
  "promotedFeedId e = tag_value PROMOTED_TAG (tags e)"

definition isPromoted :: "event \<Rightarrow> bool" where
  "isPromoted e = (promotedFeedId e \<noteq> None)"

definition withPromotedTag :: "unsigned_event \<Rightarrow> string \<Rightarrow> unsigned_event" where
  "withPromotedTag template feedEventId = template\<lparr>u_tags := u_tags template @ [[PROMOTED_TAG, feedEventId]]\<rparr>"

definition promotedTagFrom :: "event \<Rightarrow> string list list" where
  "promotedTagFrom edit = (case promotedFeedId edit of
       Some i \<Rightarrow> if i \<noteq> '''' then [[PROMOTED_TAG, i]] else [] | None \<Rightarrow> [])"

subsection \<open>groups.ts: builders\<close>

record GroupMeta =
  gm_name :: "string option"
  gm_about :: "string option"
  gm_picture :: "string option"
  gm_closed :: bool
  gm_private :: bool
  gm_gradient :: "GradientSpec option"
  gm_broadcast :: bool
  gm_reactions :: "string list"

record GroupState =
  gs_id :: string
  gs_name :: string
  gs_about :: "string option"
  gs_picture :: "string option"
  gs_owner :: "string option"
  gs_closed :: bool
  gs_private :: bool
  gs_gradient :: "GradientSpec option"
  gs_broadcast :: bool
  gs_reactions :: "string list option"
  gs_metaAt :: int

record GroupSummary =
  su_id :: string
  su_name :: string
  su_memberCount :: nat
  su_isAdmin :: bool

definition opt_tag :: "string \<Rightarrow> string option \<Rightarrow> string list list" where
  \<comment> \<open>\<open>if (v) tags.push([name, v])\<close>\<close>
  "opt_tag name v = (if truthy v then [[name, the v]] else [])"

definition reaction_tag :: "string list \<Rightarrow> string list list" where
  "reaction_tag reactions =
     (let rs = filter (\<lambda>e. e \<noteq> '''') (map js_trim reactions) in if rs \<noteq> [] then [''reactions'' # rs] else [])"

definition gradient_tag :: "GradientSpec option \<Rightarrow> string list list" where
  "gradient_tag g = (case g of None \<Rightarrow> []
     | Some s \<Rightarrow> let encoded = encodeGradient (Some s) in if encoded \<noteq> '''' then [[''gradient'', encoded]] else [])"

definition metaTags :: "GroupMeta \<Rightarrow> string list list" where
  "metaTags m = opt_tag ''name'' (gm_name m) @ opt_tag ''about'' (gm_about m) @ opt_tag ''picture'' (gm_picture m)
     @ [[if gm_closed m then ''closed'' else ''open''], [if gm_private m then ''private'' else ''public'']]
     @ gradient_tag (gm_gradient m)
     @ (if gm_broadcast m then [[''broadcast'']] else [])
     @ reaction_tag (gm_reactions m)"

definition space_event :: "nat \<Rightarrow> int \<Rightarrow> string list list \<Rightarrow> string \<Rightarrow> unsigned_event" where
  "space_event k now tgs c = \<lparr>u_kind = k, u_created_at = Some now, u_tags = tgs, u_content = c\<rparr>"

definition buildGroupCreate :: "int \<Rightarrow> string \<Rightarrow> GroupMeta \<Rightarrow> unsigned_event" where
  "buildGroupCreate now groupId m = space_event (gk GCreate) now ([''h'', groupId] # metaTags m) ''''"

definition buildOptimisticGroupState :: "int \<Rightarrow> string \<Rightarrow> GroupMeta \<Rightarrow> string \<Rightarrow> unsigned_event list" where
  "buildOptimisticGroupState now groupId m owner =
     [space_event (gk GMetadata) now ([''d'', groupId] # metaTags m @ [[''owner'', owner], [''optimistic'']]) '''',
      space_event (gk GAdmins) now [[''d'', groupId], [''p'', owner, ROLE_ADMIN], [''optimistic'']] '''',
      space_event (gk GMembers) now [[''d'', groupId], [''p'', owner], [''optimistic'']] '''']"

definition buildGroupEditMetadata :: "int \<Rightarrow> string \<Rightarrow> GroupMeta \<Rightarrow> unsigned_event" where
  "buildGroupEditMetadata now groupId m = space_event (gk GEditMetadata) now ([''h'', groupId] # metaTags m) ''''"

definition buildGroupJoinRequest :: "int \<Rightarrow> string \<Rightarrow> string \<Rightarrow> bool \<Rightarrow> string option \<Rightarrow> unsigned_event" where
  "buildGroupJoinRequest now groupId c invited inviteGrant =
     space_event (gk GJoinRequest) now
       ([[''h'', groupId]] @ (if invited then [[''invite'']] else []) @ opt_tag ''invite_grant'' inviteGrant) c"

definition buildInviteGrant :: "int \<Rightarrow> string \<Rightarrow> string \<Rightarrow> int \<Rightarrow> unsigned_event" where
  "buildInviteGrant now groupId invitedPubkey expiresAt =
     space_event (gk GInviteGrant) now [[''h'', groupId], [''p'', invitedPubkey], [''exp'', js_int expiresAt]] ''''"

definition buildGroupLeaveRequest :: "int \<Rightarrow> string \<Rightarrow> unsigned_event" where
  "buildGroupLeaveRequest now groupId = space_event (gk GLeaveRequest) now [[''h'', groupId]] ''''"

definition buildGroupAddUser :: "int \<Rightarrow> string \<Rightarrow> string \<Rightarrow> bool \<Rightarrow> unsigned_event" where
  "buildGroupAddUser now groupId pk asAdmin = space_event (gk GAddUser) now
     [[''h'', groupId], if asAdmin then [''p'', pk, ROLE_ADMIN] else [''p'', pk]] ''''"

definition buildGroupRemoveUser :: "int \<Rightarrow> string \<Rightarrow> string \<Rightarrow> unsigned_event" where
  "buildGroupRemoveUser now groupId pk = space_event (gk GRemoveUser) now [[''h'', groupId], [''p'', pk]] ''''"

definition buildGroupDelete :: "int \<Rightarrow> string \<Rightarrow> unsigned_event" where
  "buildGroupDelete now groupId = space_event (gk GDelete) now [[''h'', groupId]] ''''"

definition buildGroupTransferOwner :: "int \<Rightarrow> string \<Rightarrow> string \<Rightarrow> unsigned_event" where
  "buildGroupTransferOwner now groupId pk =
     space_event (gk GAddUser) now [[''h'', groupId], [''p'', pk, ROLE_OWNER]] ''''"

definition space_message ::
  "sealer \<Rightarrow> nat \<Rightarrow> int \<Rightarrow> string list list \<Rightarrow> string \<Rightarrow> SpaceKey option \<Rightarrow> space_error + unsigned_event" where
  \<comment> \<open>the common body of the message builders\<close>
  "space_message encrypt k now tgs c enc =
     (let trimmed = js_trim c in
      if trimmed = '''' then Inl MessageEmpty
      else let (body, sealed_tags) = sealBody encrypt trimmed enc
           in Inr (space_event k now (tgs @ sealed_tags) body))"

definition buildGroupChat ::
  "sealer \<Rightarrow> int \<Rightarrow> string \<Rightarrow> string \<Rightarrow> string option \<Rightarrow> SpaceKey option \<Rightarrow> space_error + unsigned_event" where
  "buildGroupChat encrypt now groupId c replyTo enc =
     space_message encrypt (gk GChat) now
       ([[''h'', groupId]] @ (if truthy replyTo then [[''e'', the replyTo, '''', ''reply'']] else [])) c enc"

definition buildGroupChatEdit ::
  "sealer \<Rightarrow> int \<Rightarrow> string \<Rightarrow> string \<Rightarrow> string \<Rightarrow> SpaceKey option \<Rightarrow> space_error + unsigned_event" where
  "buildGroupChatEdit encrypt now groupId originalId c enc =
     space_message encrypt (gk GChat) now [[''h'', groupId], [''e'', originalId, '''', ''edit'']] c enc"

definition buildGroupReply ::
  "sealer \<Rightarrow> int \<Rightarrow> string \<Rightarrow> string \<Rightarrow> string \<Rightarrow> SpaceKey option \<Rightarrow> space_error + unsigned_event" where
  "buildGroupReply encrypt now groupId parentId c enc =
     space_message encrypt (gk GReply) now [[''h'', groupId], [''e'', parentId, '''', ''reply'']] c enc"

subsection \<open>groups.ts: readers\<close>

definition marked_e :: "string \<Rightarrow> event \<Rightarrow> string option" where
  \<comment> \<open>\<open>tags.find(t => t[0] === 'e' && t[3] === marker)?.[1] ?? null\<close>\<close>
  "marked_e marker e = Option.bind (find (\<lambda>t. at t 0 = Some ''e'' \<and> at t 3 = Some marker) (tags e)) (\<lambda>t. at t 1)"

definition groupReplyParentId :: "event \<Rightarrow> string option" where
  "groupReplyParentId e = (if kind e \<noteq> gk GChat then None else marked_e ''reply'' e)"

definition groupEditTargetId :: "event \<Rightarrow> string option" where
  "groupEditTargetId e = (if kind e \<noteq> gk GChat then None else marked_e ''edit'' e)"

definition tagValue :: "event \<Rightarrow> string \<Rightarrow> string option" where
  "tagValue e name = tag_value name (tags e)"

definition hasFlag :: "event \<Rightarrow> string \<Rightarrow> bool" where
  "hasFlag e name = list_ex (\<lambda>t. at t 0 = Some name) (tags e)"

definition stateGroupId :: "event \<Rightarrow> string option" where
  "stateGroupId e = tagValue e ''d''"

definition eventGroupId :: "event \<Rightarrow> string option" where
  "eventGroupId e = tagValue e ''h''"

definition reactions_of :: "event \<Rightarrow> string list option" where
  "reactions_of e = (case find (\<lambda>t. at t 0 = Some ''reactions'') (tags e) of
       None \<Rightarrow> None
     | Some t \<Rightarrow> let rs = filter (\<lambda>r. r \<noteq> '''') (drop 1 t) in if rs \<noteq> [] then Some rs else None)"

definition or_default :: "string option \<Rightarrow> string \<Rightarrow> string" where
  \<comment> \<open>\<open>v ?? d\<close>\<close>
  "or_default v d = (case v of None \<Rightarrow> d | Some x \<Rightarrow> x)"

definition parseGroupMetadata :: "event \<Rightarrow> GroupState option" where
  "parseGroupMetadata e =
     (if kind e \<noteq> gk GMetadata then None
      else case stateGroupId e of
        None \<Rightarrow> None
      | Some i \<Rightarrow> if i = '''' then None
          else Some \<lparr>gs_id = i, gs_name = or_default (tagValue e ''name'') ''group'', gs_about = tagValue e ''about'',
            gs_picture = tagValue e ''picture'', gs_owner = tagValue e ''owner'', gs_closed = hasFlag e ''closed'',
            gs_private = hasFlag e ''private'', gs_gradient = decodeGradient (or_default (tagValue e ''gradient'') ''''),
            gs_broadcast = hasFlag e ''broadcast'', gs_reactions = reactions_of e, gs_metaAt = created_at e\<rparr>)"

definition parseGroupPubkeys :: "event \<Rightarrow> string list" where
  "parseGroupPubkeys e = map (\<lambda>t. the (at t 1)) (filter (\<lambda>t. at t 0 = Some ''p'' \<and> truthy (at t 1)) (tags e))"

definition isOptimistic :: "event \<Rightarrow> bool" where
  "isOptimistic e = hasFlag e ''optimistic''"

definition betterState :: "event option \<Rightarrow> event \<Rightarrow> event" where
  "betterState prev e = (case prev of
       None \<Rightarrow> e
     | Some p \<Rightarrow>
         if isOptimistic p \<noteq> isOptimistic e then (if isOptimistic p then e else p)
         else if created_at e > created_at p then e else p)"

definition by_kind :: "mstore \<Rightarrow> nat \<Rightarrow> event list" where
  \<comment> \<open>\<open>store.query({kinds: [k]})\<close>\<close>
  "by_kind st k = query st (kinds_query [k])"

definition latestStateByGroup :: "mstore \<Rightarrow> GroupKind \<Rightarrow> string \<Rightarrow> event option" where
  "latestStateByGroup st k groupId =
     foldl (\<lambda>best e. if stateGroupId e = Some groupId then Some (betterState best e) else best) None (by_kind st (gk k))"

definition groupState :: "mstore \<Rightarrow> string \<Rightarrow> GroupState option" where
  "groupState st groupId = Option.bind (latestStateByGroup st GMetadata groupId) parseGroupMetadata"

definition group_pubkeys :: "GroupKind \<Rightarrow> mstore \<Rightarrow> string \<Rightarrow> string list" where
  "group_pubkeys k st groupId = (case latestStateByGroup st k groupId of Some e \<Rightarrow> parseGroupPubkeys e | None \<Rightarrow> [])"

definition groupMembers :: "mstore \<Rightarrow> string \<Rightarrow> string list" where
  "groupMembers = group_pubkeys GMembers"

definition groupAdmins :: "mstore \<Rightarrow> string \<Rightarrow> string list" where
  "groupAdmins = group_pubkeys GAdmins"

definition groupPending :: "mstore \<Rightarrow> string \<Rightarrow> string list" where
  "groupPending = group_pubkeys GPending"

definition isGroupMember :: "mstore \<Rightarrow> string \<Rightarrow> string \<Rightarrow> bool" where
  "isGroupMember st groupId pk = (pk \<in> set (groupMembers st groupId))"

definition isGroupAdmin :: "mstore \<Rightarrow> string \<Rightarrow> string \<Rightarrow> bool" where
  "isGroupAdmin st groupId pk = (pk \<in> set (groupAdmins st groupId))"

definition isGroupOwner :: "mstore \<Rightarrow> string \<Rightarrow> string \<Rightarrow> bool" where
  "isGroupOwner st groupId pk = (Option.bind (groupState st groupId) gs_owner = Some pk)"

subsection \<open>Messages with their edits folded in\<close>

definition edit_key :: "string \<Rightarrow> string \<Rightarrow> string" where
  "edit_key target pk = target @ CHR '' '' # pk"

definition edited :: "event \<Rightarrow> event \<Rightarrow> event" where
  \<comment> \<open>\<open>{...m, content: edit.content, tags: [...]}\<close>\<close>
  "edited m e = m\<lparr>content := content e, tags := tags m @ [[''edited'', js_int (created_at e)]] @ promotedTagFrom e\<rparr>"

definition edits_by_key :: "(event \<Rightarrow> string option) \<Rightarrow> event list \<Rightarrow> (string \<times> event) list" where
  "edits_by_key target evs = foldl (\<lambda>m e. if truthy (target e)
       then keep_best (>) created_at (edit_key (the (target e)) (pubkey e)) e m else m) [] evs"

definition fold_edits :: "(event \<Rightarrow> string option) \<Rightarrow> event list \<Rightarrow> event list" where
  \<comment> \<open>the loops of \<open>groupChatMessages\<close> and \<open>channelMessages\<close>\<close>
  "fold_edits target evs =
     (let editsByKey = edits_by_key target evs
      in js_sort oldest_first (map (\<lambda>m. case map_of editsByKey (edit_key (eid m) (pubkey m)) of
              Some e \<Rightarrow> edited m e | None \<Rightarrow> m)
            (filter (\<lambda>m. \<not> truthy (target m)) evs)))"

definition fold_own_edit :: "(event \<Rightarrow> string option) \<Rightarrow> event list \<Rightarrow> event \<Rightarrow> event option" where
  \<comment> \<open>the loop of \<open>foldGroupChatEdit\<close> and \<open>foldChannelEdit\<close>\<close>
  "fold_own_edit target evs m =
     map_option (edited m) (newest_of (filter (\<lambda>e. target e = Some (eid m) \<and> pubkey e = pubkey m) evs))"

definition groupChatMessages :: "mstore \<Rightarrow> string \<Rightarrow> event list" where
  "groupChatMessages st groupId =
     fold_edits groupEditTargetId (filter (\<lambda>e. eventGroupId e = Some groupId) (by_kind st (gk GChat)))"

definition foldGroupChatEdit :: "mstore \<Rightarrow> event \<Rightarrow> event option" where
  "foldGroupChatEdit st original =
     (if kind original \<noteq> gk GChat \<or> truthy (groupEditTargetId original) then None
      else fold_own_edit groupEditTargetId (by_kind st (gk GChat)) original)"

definition replyParentId :: "event \<Rightarrow> string option" where
  "replyParentId e = tag_value ''e'' (tags e)"

definition push_reply :: "(string \<times> event list) list \<Rightarrow> event \<Rightarrow> (string \<times> event list) list" where
  "push_reply byParent r = (case replyParentId r of
       Some parent \<Rightarrow> if parent = '''' then byParent
         else AList.update parent ((case map_of byParent parent of Some l \<Rightarrow> l | None \<Rightarrow> []) @ [r]) byParent
     | None \<Rightarrow> byParent)"

definition groupRepliesByParent :: "mstore \<Rightarrow> string \<Rightarrow> (string \<times> event list) list" where
  "groupRepliesByParent st groupId = foldl push_reply []
     (js_sort oldest_first (filter (\<lambda>e. eventGroupId e = Some groupId) (by_kind st (gk GReply))))"

subsection \<open>Summaries\<close>

definition by_name :: "(string \<Rightarrow> string \<Rightarrow> int) \<Rightarrow> GroupSummary \<Rightarrow> GroupSummary \<Rightarrow> int" where
  "by_name lc a b = lc (su_name a) (su_name b)"

definition myGroupSummaries :: "(string \<Rightarrow> string \<Rightarrow> int) \<Rightarrow> mstore \<Rightarrow> string option \<Rightarrow> GroupSummary list" where
  "myGroupSummaries lc st myPubkey =
     (if \<not> truthy myPubkey then []
      else let me = the myPubkey;
               latest = foldl (\<lambda>m e. case stateGroupId e of
                   None \<Rightarrow> m | Some i \<Rightarrow> if i = '''' then m else keep_best (>) created_at i e m) [] (by_kind st (gk GMembers))
           in js_sort (by_name lc) (map (\<lambda>(i, e). \<lparr>su_id = i,
                su_name = (case groupState st i of Some g \<Rightarrow> gs_name g | None \<Rightarrow> ''group''),
                su_memberCount = length (parseGroupPubkeys e), su_isAdmin = isGroupAdmin st i me\<rparr>)
              (filter (\<lambda>(i, e). me \<in> set (parseGroupPubkeys e)) latest)))"

definition index_state :: "mstore \<Rightarrow> GroupKind \<Rightarrow> (string \<times> event) list" where
  \<comment> \<open>one of the three loops at the head of \<open>_buildSummaries\<close>\<close>
  "index_state st k = foldl (\<lambda>m e. case stateGroupId e of
       None \<Rightarrow> m | Some i \<Rightarrow> if i = '''' then m else AList.update i (betterState (map_of m i) e) m) [] (by_kind st (gk k))"

definition buildSummaries ::
  "(string \<Rightarrow> string \<Rightarrow> int) \<Rightarrow> mstore \<Rightarrow> string list \<Rightarrow> string option \<Rightarrow> GroupSummary list" where
  "buildSummaries lc st idList myPubkey =
     (let latestMeta = index_state st GMetadata; latestMembers = index_state st GMembers;
          latestAdmins = index_state st GAdmins
      in js_sort (by_name lc) (map (\<lambda>i.
           let meta = Option.bind (map_of latestMeta i) parseGroupMetadata;
               memberCount = (case map_of latestMembers i of Some e \<Rightarrow> length (parseGroupPubkeys e) | None \<Rightarrow> 0);
               isAdmin = (truthy myPubkey \<and> (case map_of latestAdmins i of
                   Some e \<Rightarrow> the myPubkey \<in> set (parseGroupPubkeys e) | None \<Rightarrow> False))
           in \<lparr>su_id = i, su_name = (case meta of Some g \<Rightarrow> gs_name g | None \<Rightarrow> ''group''),
               su_memberCount = memberCount, su_isAdmin = isAdmin\<rparr>) idList))"

definition GROUP_STATE_KINDS :: "nat list" where
  "GROUP_STATE_KINDS = [gk GMetadata, gk GMembers, gk GAdmins]"

record SummaryCache =
  sc_version :: nat
  sc_myPubkey :: "string option"
  sc_idsKey :: string
  sc_result :: "GroupSummary list"

definition groupSummariesForIds ::
  "(string \<Rightarrow> string \<Rightarrow> int) \<Rightarrow> SummaryCache option \<Rightarrow> mstore \<Rightarrow> string list \<Rightarrow> string option \<Rightarrow>
   GroupSummary list \<times> SummaryCache option" where
  \<comment> \<open>over the memo kept for this store\<close>
  "groupSummariesForIds lc cache st idList myPubkey =
     (let idsKey = join_on (CHR 0x00) idList; currentVersion = versionOf st GROUP_STATE_KINDS;
          fresh = (let result = buildSummaries lc st idList myPubkey
                   in (result, Some \<lparr>sc_version = currentVersion, sc_myPubkey = myPubkey, sc_idsKey = idsKey,
                                     sc_result = result\<rparr>))
      in case cache of
           None \<Rightarrow> fresh
         | Some c \<Rightarrow> if sc_version c = currentVersion \<and> sc_myPubkey c = myPubkey \<and> sc_idsKey c = idsKey
                     then (sc_result c, cache) else fresh)"

subsection \<open>channels.ts\<close>

record ChannelMetadata =
  cm_name :: string
  cm_about :: "string option"
  cm_picture :: "string option"
  cm_gradient :: "GradientSpec option"
  cm_reactions :: "string list"
  cm_pinnedMessageId :: "string option"
  cm_admins :: "string list"
  cm_openCommunity :: bool

record Channel =
  ch_id :: string
  ch_owner :: string
  ch_name :: string
  ch_about :: "string option"
  ch_picture :: "string option"
  ch_gradient :: "GradientSpec option"
  ch_reactions :: "string list option"
  ch_pinnedMessageId :: "string option"
  ch_admins :: "string list option"
  ch_openCommunity :: bool
  ch_metaAt :: int

definition channelCoord :: "string \<Rightarrow> string \<Rightarrow> string" where
  "channelCoord pk d = ''30311:'' @ pk @ '':'' @ d"

definition buildChannelTags :: "string \<Rightarrow> ChannelMetadata \<Rightarrow> string list list" where
  "buildChannelTags d m =
     [[''d'', d], [''title'', cm_name m], [''status'', ''live'']]
     @ opt_tag ''summary'' (cm_about m) @ opt_tag ''image'' (cm_picture m)
     @ gradient_tag (cm_gradient m) @ reaction_tag (cm_reactions m) @ opt_tag ''pinned'' (cm_pinnedMessageId m)
     @ (if cm_openCommunity m then [[''mode'', ''open'']] else [])
     @ map (\<lambda>pk. [''p'', pk, ''admin'']) (filter (\<lambda>a. a \<noteq> '''') (map js_trim (cm_admins m)))"

definition buildChannelEdit :: "int \<Rightarrow> string \<Rightarrow> ChannelMetadata \<Rightarrow> unsigned_event" where
  "buildChannelEdit now d m = space_event KIND_LIVE_ACTIVITY now (buildChannelTags d m) ''''"

definition buildChannelCreate :: "int \<Rightarrow> string \<Rightarrow> ChannelMetadata \<Rightarrow> unsigned_event" where
  \<comment> \<open>over the fresh \<open>newChannelD()\<close>\<close>
  "buildChannelCreate now newChannelD m = space_event KIND_LIVE_ACTIVITY now (buildChannelTags newChannelD m) ''''"

definition buildChannelMessage ::
  "sealer \<Rightarrow> int \<Rightarrow> string \<Rightarrow> string \<Rightarrow> SpaceKey option \<Rightarrow> space_error + unsigned_event" where
  "buildChannelMessage encrypt now channelCoordinate c enc =
     space_message encrypt KIND_LIVE_CHAT now [[''a'', channelCoordinate, '''', ''root'']] c enc"

definition buildChannelMessageEdit ::
  "sealer \<Rightarrow> int \<Rightarrow> string \<Rightarrow> string \<Rightarrow> string \<Rightarrow> SpaceKey option \<Rightarrow> space_error + unsigned_event" where
  "buildChannelMessageEdit encrypt now channelCoordinate originalId c enc =
     space_message encrypt KIND_LIVE_CHAT now
       [[''a'', channelCoordinate, '''', ''root''], [''e'', originalId, '''', ''edit'']] c enc"

definition editTargetId :: "event \<Rightarrow> string option" where
  "editTargetId e = (if kind e \<noteq> KIND_LIVE_CHAT then None else marked_e ''edit'' e)"

definition parseChannel :: "event \<Rightarrow> Channel option" where
  "parseChannel e =
     (if kind e \<noteq> KIND_LIVE_ACTIVITY then None
      else case tagValue e ''d'' of
        None \<Rightarrow> None
      | Some d \<Rightarrow> if d = '''' then None
          else let admins = map (\<lambda>t. the (at t 1))
                     (filter (\<lambda>t. at t 0 = Some ''p'' \<and> at t 2 = Some ''admin'' \<and> truthy (at t 1)) (tags e))
               in Some \<lparr>ch_id = channelCoord (pubkey e) d, ch_owner = pubkey e,
                 ch_name = or_default (tagValue e ''title'') ''channel'', ch_about = tagValue e ''summary'',
                 ch_picture = tagValue e ''image'', ch_gradient = decodeGradient (or_default (tagValue e ''gradient'') ''''),
                 ch_reactions = reactions_of e, ch_pinnedMessageId = tagValue e ''pinned'',
                 ch_admins = (if admins \<noteq> [] then Some admins else None),
                 ch_openCommunity = (tagValue e ''mode'' = Some ''open''), ch_metaAt = created_at e\<rparr>)"

definition isChannelAdmin :: "Channel \<Rightarrow> string \<Rightarrow> bool" where
  "isChannelAdmin c pk \<longleftrightarrow> ch_owner c = pk \<or> (case ch_admins c of Some as \<Rightarrow> pk \<in> set as | None \<Rightarrow> False)"

definition messageChannelId :: "event \<Rightarrow> string option" where
  "messageChannelId e = (if kind e \<noteq> KIND_LIVE_CHAT then None
     else Option.bind (find (\<lambda>t. at t 0 = Some ''a'' \<and> truthy (at t 1)) (tags e)) (\<lambda>t. at t 1))"

definition getChannel :: "mstore \<Rightarrow> string \<Rightarrow> Channel option" where
  "getChannel st channelCoordinate =
     (case js_sort newest_first (filter (\<lambda>e. map_option ch_id (parseChannel e) = Some channelCoordinate)
            (by_kind st KIND_LIVE_ACTIVITY)) of
        [] \<Rightarrow> None | e # _ \<Rightarrow> parseChannel e)"

definition channelMessages :: "mstore \<Rightarrow> string \<Rightarrow> event list" where
  "channelMessages st channelCoordinate =
     fold_edits editTargetId (filter (\<lambda>e. messageChannelId e = Some channelCoordinate) (by_kind st KIND_LIVE_CHAT))"

definition foldChannelEdit :: "mstore \<Rightarrow> event \<Rightarrow> event option" where
  "foldChannelEdit st original =
     (if kind original \<noteq> KIND_LIVE_CHAT \<or> truthy (editTargetId original) then None
      else fold_own_edit editTargetId (by_kind st KIND_LIVE_CHAT) original)"

section \<open>Reading tags back\<close>

lemma tag_value_Nil [simp]: "tag_value n [] = None"
  by (simp add: tag_value_def)

lemma tag_value_Cons: "tag_value n (t # ts) = (if at t 0 = Some n \<and> truthy (at t 1) then at t 1 else tag_value n ts)"
  by (simp add: tag_value_def)

lemma tag_value_append: "tag_value n (ts @ us) = (case tag_value n ts of None \<Rightarrow> tag_value n us | Some v \<Rightarrow> Some v)"
  by (induction ts) (auto simp: tag_value_Cons split: option.splits elim: truthyE)

lemma tag_value_truthy: "tag_value n ts = Some v \<Longrightarrow> v \<noteq> ''''"
  by (induction ts) (auto simp: tag_value_Cons split: if_splits)

lemma truthy_tag_value [simp]: "truthy (tag_value n ts) \<longleftrightarrow> tag_value n ts \<noteq> None"
  using tag_value_truthy by (cases "tag_value n ts") auto

named_theorems tag_reads

lemma tag_value_opt [tag_reads]: "tag_value n (opt_tag m v) = (if n = m \<and> truthy v then v else None)"
  by (auto simp: opt_tag_def tag_value_Cons elim: truthyE)

lemma tag_value_reaction [tag_reads]: "n \<noteq> ''reactions'' \<Longrightarrow> tag_value n (reaction_tag rs) = None"
  by (simp add: reaction_tag_def tag_value_Cons Let_def)

lemma tag_value_gradient [tag_reads]:
  "tag_value n (gradient_tag g) = (if n = ''gradient'' \<and> encodeGradient g \<noteq> '''' then Some (encodeGradient g) else None)"
  by (auto simp: gradient_tag_def tag_value_Cons encodeGradient_def Let_def split: option.splits)

lemma flag_opt [tag_reads]: "n \<noteq> m \<Longrightarrow> \<not> list_ex (\<lambda>t. at t 0 = Some n) (opt_tag m v)"
  by (simp add: opt_tag_def)

lemma flag_reaction [tag_reads]: "n \<noteq> ''reactions'' \<Longrightarrow> \<not> list_ex (\<lambda>t. at t 0 = Some n) (reaction_tag rs)"
  by (simp add: reaction_tag_def Let_def)

lemma flag_gradient [tag_reads]: "n \<noteq> ''gradient'' \<Longrightarrow> \<not> list_ex (\<lambda>t. at t 0 = Some n) (gradient_tag g)"
  by (simp add: gradient_tag_def Let_def split: option.splits)

lemma find_tag_append: "find P (xs @ ys) = (case find P xs of None \<Rightarrow> find P ys | Some x \<Rightarrow> Some x)"
  by (induction xs) auto

lemma find_tag_absent [tag_reads]:
  "n \<noteq> m \<Longrightarrow> find (\<lambda>t. at t 0 = Some n) (opt_tag m v) = None"
  "n \<noteq> ''gradient'' \<Longrightarrow> find (\<lambda>t. at t 0 = Some n) (gradient_tag g) = None"
  by (auto simp: opt_tag_def gradient_tag_def Let_def split: option.splits)

lemma find_reaction [tag_reads]:
  "find (\<lambda>t. at t 0 = Some ''reactions'') (reaction_tag rs) =
     (let rs = filter (\<lambda>e. e \<noteq> '''') (map js_trim rs) in if rs = [] then None else Some (''reactions'' # rs))"
  by (simp add: reaction_tag_def Let_def)

definition signed_event :: "string \<Rightarrow> string \<Rightarrow> unsigned_event \<Rightarrow> event" where
  \<comment> \<open>the event that signing gives: an identifier and the signer's key are added\<close>
  "signed_event i pk u = \<lparr>eid = i, pubkey = pk, created_at = the (u_created_at u), kind = u_kind u, tags = u_tags u,
     content = u_content u\<rparr>"

definition crafted_gradient :: "GradientSpec option \<Rightarrow> bool" where
  \<comment> \<open>no gradient, or two or three colours \<open>#rrggbb\<close> and an angle below a full turn\<close>
  "crafted_gradient g = (case g of None \<Rightarrow> True
     | Some s \<Rightarrow> length (g_stops s) \<in> {2, 3} \<and> list_all plain_colour (g_stops s) \<and> 0 \<le> g_angle s \<and> g_angle s < 360)"

definition shown_reactions :: "string list \<Rightarrow> string list option" where
  "shown_reactions rs = (let rs = filter (\<lambda>e. e \<noteq> '''') (map js_trim rs) in if rs = [] then None else Some rs)"

definition shown_text :: "string option \<Rightarrow> string option" where
  "shown_text v = (if truthy v then v else None)"

definition created_state :: "int \<Rightarrow> string \<Rightarrow> GroupMeta \<Rightarrow> string \<Rightarrow> GroupState" where
  \<comment> \<open>the group that its creator asked for\<close>
  "created_state now groupId m owner = \<lparr>gs_id = groupId, gs_name = or_default (shown_text (gm_name m)) ''group'',
     gs_about = shown_text (gm_about m), gs_picture = shown_text (gm_picture m), gs_owner = Some owner,
     gs_closed = gm_closed m, gs_private = gm_private m, gs_gradient = gm_gradient m,
     gs_broadcast = gm_broadcast m, gs_reactions = shown_reactions (gm_reactions m), gs_metaAt = now\<rparr>"

lemma decode_empty [simp]: "decodeGradient '''' = None"
  by (simp add: decodeGradient_def)

lemma parse_created:
  assumes "kind e = gk GMetadata" and "tags e = [''d'', groupId] # metaTags m @ [[''owner'', owner], [''optimistic'']]"
    and "groupId \<noteq> ''''" and "owner \<noteq> ''''" and "crafted_gradient (gm_gradient m)"
  shows "parseGroupMetadata e = Some (created_state (created_at e) groupId m owner)"
proof -
  have reads: "tagValue e ''d'' = Some groupId" "tagValue e ''name'' = shown_text (gm_name m)"
    "tagValue e ''about'' = shown_text (gm_about m)" "tagValue e ''picture'' = shown_text (gm_picture m)"
    "tagValue e ''owner'' = Some owner"
    "tagValue e ''gradient'' = (if encodeGradient (gm_gradient m) = '''' then None else Some (encodeGradient (gm_gradient m)))"
    using assms(3,4)
    by (simp_all add: tagValue_def assms(2) metaTags_def tag_value_append tag_value_Cons tag_reads shown_text_def
        split: option.splits)
  have flags: "hasFlag e ''closed'' = gm_closed m" "hasFlag e ''private'' = gm_private m"
    "hasFlag e ''broadcast'' = gm_broadcast m"
    by (auto simp: hasFlag_def assms(2) metaTags_def list_ex_append tag_reads)
  have reactions: "reactions_of e = shown_reactions (gm_reactions m)"
    by (simp add: reactions_of_def assms(2) metaTags_def find_tag_append tag_reads shown_reactions_def Let_def
        split: option.splits)
  have "decodeGradient (encodeGradient (gm_gradient m)) = gm_gradient m"
    using assms(5) decode_encode_exact
    by (auto simp: crafted_gradient_def list_all_iff encodeGradient_def[of None] split: option.splits)
  then show ?thesis
    using assms(1,3) reads flags reactions
    by (auto simp: parseGroupMetadata_def stateGroupId_def created_state_def or_default_def split: if_splits)
qed

section \<open>State kept by the relay\<close>

definition authority :: "event list \<Rightarrow> event list" where
  \<comment> \<open>the events that may win: the relay's copies, and seeds only where there is no copy\<close>
  "authority evs = (if \<forall>e \<in> set evs. isOptimistic e then evs else filter (\<lambda>e. \<not> isOptimistic e) evs)"

lemma better_state_fold: "foldl (\<lambda>b e. Some (betterState b e)) None evs = newest_of (authority evs)"
proof (induction evs rule: rev_induct)
  case (snoc x xs)
  have mem: "p \<in> set (authority xs)" if "newest_of (authority xs) = Some p" for p
    by (rule best_of_mem[OF that])
  show ?case
  proof (cases "\<forall>e \<in> set xs. isOptimistic e")
    case True
    then have a: "authority xs = xs" by (simp add: authority_def)
    have f: "filter (\<lambda>e. \<not> isOptimistic e) xs = []" using True by (simp add: filter_empty_conv)
    from True have "authority (xs @ [x]) = (if isOptimistic x then xs @ [x] else [x])"
      using f by (simp add: authority_def)
    with snoc a mem True show ?thesis
      by (auto simp: betterState_def best_of_snoc split: option.splits)
         (auto simp: best_of_def)
  next
    case False
    then have a: "authority xs = filter (\<lambda>e. \<not> isOptimistic e) xs" by (auto simp: authority_def)
    from False have "authority (xs @ [x]) = (if isOptimistic x then authority xs else authority xs @ [x])"
      unfolding a by (auto simp: authority_def)
    moreover have "\<not> isOptimistic p" if "newest_of (authority xs) = Some p" for p
      using mem[OF that] unfolding a by simp
    moreover have "newest_of (authority xs) \<noteq> None"
      using False unfolding a by (auto simp: filter_empty_conv)
    ultimately show ?thesis using snoc
      by (auto simp: betterState_def best_of_snoc split: option.splits)
  qed
qed (simp add: authority_def)

definition state_events :: "mstore \<Rightarrow> GroupKind \<Rightarrow> string \<Rightarrow> event list" where
  "state_events st k g = filter (\<lambda>e. stateGroupId e = Some g) (by_kind st (gk k))"

lemma latestState_newest: "latestStateByGroup st k g = newest_of (authority (state_events st k g))"
proof -
  have "foldl (\<lambda>b e. if P e then Some (betterState b e) else b) z evs
      = foldl (\<lambda>b e. Some (betterState b e)) z (filter P evs)" for P z evs
    by (induction evs arbitrary: z) auto
  from this[where P = "\<lambda>e. stateGroupId e = Some g"] show ?thesis
    unfolding latestStateByGroup_def state_events_def better_state_fold[symmetric] .
qed

lemma set_by_kind: "set (by_kind (run ops) k) = {e \<in> set (cached (run ops)). kind e = k}"
  by (auto simp: by_kind_def kinds_query_def query_eq_spec[OF store_ok_run] query_spec_def)

lemma set_state_events:
  "e \<in> set (state_events (run ops) k g) \<longleftrightarrow> e \<in> set (cached (run ops)) \<and> kind e = gk k \<and> stateGroupId e = Some g"
  by (auto simp: state_events_def set_by_kind)

lemma authority_best:
  assumes "newest_of (authority evs) = Some s"
  shows "s \<in> set evs" "e \<in> set evs \<Longrightarrow> isOptimistic s \<Longrightarrow> isOptimistic e \<and> created_at e \<le> created_at s"
    "e \<in> set evs \<Longrightarrow> \<not> isOptimistic s \<Longrightarrow> \<not> isOptimistic e \<Longrightarrow> created_at e \<le> created_at s"
  using best_of_mem[OF assms] newest_of_max[OF assms, of e] by (auto simp: authority_def split: if_splits)

lemma authority_Nil: "newest_of (authority evs) = None \<longleftrightarrow> evs = []"
  by (auto simp: authority_def filter_empty_conv)

text \<open>
  The state of a group that every selector reads (metadata, admins, members, pending requests) is
  the newest of the relay's copies in the cache; a locally written seed is used only while there is
  no copy at all, whatever the clocks say; nothing is read exactly when nothing is cached.
\<close>

theorem group_state_authoritative:
  "case latestStateByGroup (run ops) k g of
     None \<Rightarrow> \<forall>e \<in> set (cached (run ops)). kind e = gk k \<longrightarrow> stateGroupId e \<noteq> Some g
   | Some s \<Rightarrow> s \<in> set (cached (run ops)) \<and> kind s = gk k \<and> stateGroupId s = Some g
       \<and> (\<forall>e \<in> set (cached (run ops)). kind e = gk k \<and> stateGroupId e = Some g \<longrightarrow>
            (isOptimistic s \<longrightarrow> isOptimistic e) \<and> (isOptimistic e = isOptimistic s \<longrightarrow> created_at e \<le> created_at s))"
proof (cases "latestStateByGroup (run ops) k g")
  case None
  then have "state_events (run ops) k g = []" by (simp add: latestState_newest authority_Nil del: best_of_None)
  with set_state_events[of _ ops k g] None show ?thesis by auto
next
  case (Some s)
  then have s: "newest_of (authority (state_events (run ops) k g)) = Some s" by (simp add: latestState_newest)
  from authority_best(1)[OF s] authority_best(2,3)[OF s] Some show ?thesis
    by (fastforce simp: set_state_events)
qed

lemma index_state_map: "map_of (index_state st k) i = latestStateByGroup st k i"
proof -
  have "map_of (foldl (\<lambda>m e. case stateGroupId e of None \<Rightarrow> m
       | Some i \<Rightarrow> if i = '''' then m else AList.update i (betterState (map_of m i) e) m) m evs) i
     = foldl (\<lambda>best e. if stateGroupId e = Some i then Some (betterState best e) else best) (map_of m i) evs" for m evs
  proof (induction evs arbitrary: m)
    case (Cons e evs)
    have "stateGroupId e \<noteq> Some ''''"
      using tag_value_truthy by (fastforce simp: stateGroupId_def tagValue_def)
    with Cons show ?case by (auto simp: js_map_simps split: option.splits)
  qed simp
  from this[of "[]"] show ?thesis by (simp add: index_state_def latestStateByGroup_def)
qed

lemma run_save: "run (ops @ [Save e]) = fst (save e (run ops))"
  by (simp add: run_def)

lemma has_cached: "has (run ops) i \<longleftrightarrow> i \<in> eid ` set (cached (run ops))"
proof -
  have "\<forall>(j, e) \<in> set (byId (run ops)). eid e = j" using store_ok_run[of ops] by (simp add: store_ok_def)
  then show ?thesis by (force simp: has_def cached_def map_of_eq_None_iff)
qed

lemma cached_save_new: "\<not> has (run ops) (eid e) \<Longrightarrow> set (cached (run (ops @ [Save e]))) = insert e (set (cached (run ops)))"
  by (simp add: run_save cached_def save_byId(1)[OF store_ok_run])

lemma cached_saves:
  assumes "distinct (map eid es)" and "\<forall>e \<in> set es. \<not> has (run ops) (eid e)"
  shows "set (cached (run (ops @ map Save es))) = set (cached (run ops)) \<union> set es"
  using assms
proof (induction es rule: rev_induct)
  case (snoc e es)
  then have IH: "set (cached (run (ops @ map Save es))) = set (cached (run ops)) \<union> set es" by auto
  have "\<not> has (run (ops @ map Save es)) (eid e)"
    using snoc.prems by (auto simp: has_cached IH)
  from cached_save_new[OF this] show ?case by (auto simp: IH)
qed simp

lemma state_in_cache:
  "latestStateByGroup (run ops) k g = Some s \<Longrightarrow> s \<in> set (cached (run ops)) \<and> kind s = gk k \<and> stateGroupId s = Some g"
  using authority_best(1) by (simp add: latestState_newest set_state_events[symmetric])

lemma state_absent:
  "latestStateByGroup (run ops) k g = None \<longleftrightarrow> (\<forall>e \<in> set (cached (run ops)). kind e = gk k \<longrightarrow> stateGroupId e \<noteq> Some g)"
  using set_state_events[of _ ops k g]
  by (auto simp: latestState_newest authority_Nil filter_empty_conv set_eq_iff simp del: best_of_None
      simp flip: set_empty)

lemma sole_state:
  assumes "\<And>e. e \<in> set (cached (run ops)) \<Longrightarrow> kind e = gk k \<Longrightarrow> stateGroupId e = Some g \<Longrightarrow> e = s"
    and "s \<in> set (cached (run ops))" and "kind s = gk k" and "stateGroupId s = Some g"
  shows "latestStateByGroup (run ops) k g = Some s"
proof (cases "latestStateByGroup (run ops) k g")
  case None
  then show ?thesis using assms(2-4) state_absent by blast
next
  case (Some e)
  then show ?thesis using assms(1) state_in_cache[OF Some] by blast
qed

lemma relay_copy_wins:
  assumes "\<And>e. e \<in> set (cached (run ops)) \<Longrightarrow> kind e = gk k \<Longrightarrow> stateGroupId e = Some g \<Longrightarrow> isOptimistic e"
    and "\<not> has (run ops) (eid r)" and "kind r = gk k" and "stateGroupId r = Some g" and "\<not> isOptimistic r"
  shows "latestStateByGroup (fst (save r (run ops))) k g = Some r"
proof -
  have c: "set (cached (run (ops @ [Save r]))) = insert r (set (cached (run ops)))" by (rule cached_save_new[OF assms(2)])
  have mem: "r \<in> set (state_events (run (ops @ [Save r])) k g)" using assms(3,4) by (simp add: set_state_events c)
  then obtain s where s: "newest_of (authority (state_events (run (ops @ [Save r])) k g)) = Some s"
    by (cases "newest_of (authority (state_events (run (ops @ [Save r])) k g))") (auto simp: authority_Nil simp del: best_of_None)
  have "\<not> isOptimistic s" using authority_best(2)[OF s mem] assms(5) by blast
  moreover have "s \<in> insert r (set (cached (run ops)))" "kind s = gk k" "stateGroupId s = Some g"
    using authority_best(1)[OF s] by (auto simp: set_state_events c)
  ultimately have "s = r" using assms(1) by blast
  with s show ?thesis by (simp add: latestState_newest run_save)
qed

definition created_space :: "int \<Rightarrow> string \<Rightarrow> GroupMeta \<Rightarrow> string \<Rightarrow> string \<times> string \<times> string \<Rightarrow> st_op list \<Rightarrow> mstore" where
  \<comment> \<open>the store once the creator has signed and saved the three seeds\<close>
  "created_space now g m owner = (\<lambda>(i, j, k) ops. run (ops @ map Save
     (map2 (\<lambda>i u. signed_event i owner u) [i, j, k] (buildOptimisticGroupState now g m owner))))"

lemma seed_reads:
  assumes "u \<in> set (buildOptimisticGroupState now g m owner)" and "g \<noteq> ''''"
  shows "stateGroupId (signed_event i owner u) = Some g" "isOptimistic (signed_event i owner u)"
  using assms
  by (auto simp: buildOptimisticGroupState_def space_event_def stateGroupId_def tagValue_def tag_value_Cons signed_event_def
      isOptimistic_def hasFlag_def list_ex_append)

lemma created_cached:
  assumes "distinct [i, j, k]" and "\<forall>x \<in> {i, j, k}. \<not> has (run ops) x"
  shows "set (cached (created_space now g m owner (i, j, k) ops)) = set (cached (run ops)) \<union>
    set (map2 (\<lambda>i u. signed_event i owner u) [i, j, k] (buildOptimisticGroupState now g m owner))"
  unfolding created_space_def prod.case
  by (rule cached_saves) (use assms in \<open>auto simp: buildOptimisticGroupState_def signed_event_def\<close>)

text \<open>
  C17. A freshly created group is complete before the relay has answered: with the three signed seeds
  in the cache its metadata, gradient included, read back as the creator entered them, and the creator
  is its owner, its administrator and its only member.  The relay's first metadata, list of
  administrators or list of members replaces its seed, whatever the timestamps, for every selector of
  a single group; \<open>myGroupSummaries\<close>, which goes by timestamps alone, is not one of them.
\<close>

theorem created_space_lifecycle:
  fixes now :: int and m :: GroupMeta
  assumes fresh: "\<forall>e \<in> set (cached (run ops)). stateGroupId e \<noteq> Some g"
    and new: "distinct [i, j, k]" "\<forall>x \<in> {i, j, k}. \<not> has (run ops) x"
    and names: "g \<noteq> ''''" "owner \<noteq> ''''"
    and gradient: "crafted_gradient (gm_gradient m)"
  defines "st \<equiv> created_space now g m owner (i, j, k) ops"
  shows "groupState st g = Some (created_state now g m owner) \<and> groupMembers st g = [owner]
    \<and> isGroupOwner st g owner \<and> groupAdmins st g = [owner]
    \<and> (\<forall>r. stateGroupId r = Some g \<and> \<not> isOptimistic r \<and> \<not> has st (eid r) \<longrightarrow>
         (kind r = gk GMetadata \<longrightarrow> groupState (fst (save r st)) g = parseGroupMetadata r)
       \<and> (kind r = gk GAdmins \<longrightarrow> groupAdmins (fst (save r st)) g = parseGroupPubkeys r)
       \<and> (kind r = gk GMembers \<longrightarrow> groupMembers (fst (save r st)) g = parseGroupPubkeys r))"
proof -
  let ?us = "buildOptimisticGroupState now g m owner"
  define seed where "seed n = signed_event ([i, j, k] ! n) owner (?us ! n)" for n
  have us: "length ?us = 3" by (simp add: buildOptimisticGroupState_def)
  have seeds: "map2 (\<lambda>i u. signed_event i owner u) [i, j, k] ?us = map seed [0, 1, 2]"
    by (rule nth_equalityI) (auto simp: us seed_def less_Suc_eq numeral_3_eq_3 numeral_2_eq_2)
  have c: "set (cached st) = set (cached (run ops)) \<union> {seed 0, seed 1, seed 2}"
    unfolding st_def created_cached[OF new] seeds by simp
  have reads: "stateGroupId (seed n) = Some g \<and> isOptimistic (seed n)" if "n < 3" for n
  proof -
    have "?us ! n \<in> set ?us" using that us by simp
    then show ?thesis using seed_reads[OF _ names(1)] unfolding seed_def by blast
  qed
  have kinds: "kind (seed 0) = gk GMetadata" "kind (seed 1) = gk GAdmins" "kind (seed 2) = gk GMembers"
    and t: "created_at (seed 0) = now"
    by (simp_all add: seed_def signed_event_def buildOptimisticGroupState_def space_event_def)
  obtain ops' where run: "st = run ops'" by (simp add: st_def created_space_def)
  have mine: "e \<in> {seed 0, seed 1, seed 2}" if "e \<in> set (cached st)" "stateGroupId e = Some g" for e
    using that c fresh by auto
  have latest: "latestStateByGroup st GMetadata g = Some (seed 0)" "latestStateByGroup st GAdmins g = Some (seed 1)"
    "latestStateByGroup st GMembers g = Some (seed 2)"
    unfolding run
    by (rule sole_state; use mine c reads kinds in \<open>force simp: run\<close>)+
  have "parseGroupMetadata (seed 0) = Some (created_state now g m owner)"
    using parse_created[of "seed 0" g m owner] kinds(1) t names gradient
    by (simp add: seed_def signed_event_def buildOptimisticGroupState_def space_event_def)
  then have meta: "groupState st g = Some (created_state now g m owner)" by (simp add: groupState_def latest)
  have "parseGroupPubkeys (seed 2) = [owner]" "parseGroupPubkeys (seed 1) = [owner]"
    using names(2) by (simp_all add: parseGroupPubkeys_def seed_def signed_event_def buildOptimisticGroupState_def space_event_def)
  then have lists: "groupMembers st g = [owner]" "groupAdmins st g = [owner]"
    by (simp_all add: groupMembers_def groupAdmins_def group_pubkeys_def latest)
  have seeded: "isOptimistic e" if "e \<in> set (cached (run ops'))" "stateGroupId e = Some g" for e
    using mine[of e] that reads[of 0] reads[of 1] reads[of 2] unfolding run by auto
  have "latestStateByGroup (fst (save r st)) x g = Some r"
    if "kind r = gk x" "stateGroupId r = Some g" "\<not> isOptimistic r" "\<not> has st (eid r)" for r x
    using relay_copy_wins[of ops' x g r] that seeded unfolding run by blast
  with meta lists show ?thesis
    by (simp add: isGroupOwner_def created_state_def groupState_def groupAdmins_def groupMembers_def group_pubkeys_def)
qed

lemma plain_colour_code: "plain_colour h \<longleftrightarrow> length h = 7 \<and> hd h = CHR ''#'' \<and> list_all (\<lambda>c. c \<in> set ''0123456789abcdef'') (tl h)"
proof -
  have "(\<exists>d < 16. c = hex_digit d) \<longleftrightarrow> c \<in> hex_digit ` set [0..<16]" for c by auto
  moreover have "hex_digit ` set [0..<16] = set ''0123456789abcdef''" by (simp add: hex_digit_def upt_rec)
  ultimately show ?thesis by (simp add: plain_colour_def list_all_iff)
qed

theorem created_space_lifecycle_witness:
  "let m = \<lparr>gm_name = Some ''Choir'', gm_about = None, gm_picture = None, gm_closed = True, gm_private = True,
         gm_gradient = Some \<lparr>g_type = Linear, g_angle = 45, g_stops = [''#ff0000'', ''#0000ff'']\<rparr>,
         gm_broadcast = False, gm_reactions = [''+'']\<rparr>;
       st = created_space 5 ''g'' m ''pk'' (''1'', ''2'', ''3'') []
   in groupState st ''g'' = Some (created_state 5 ''g'' m ''pk'') \<and> groupMembers st ''g'' = [''pk'']"
  using created_space_lifecycle[where ops = "[]" and g = "''g''" and i = "''1''" and j = "''2''" and k = "''3''"
      and owner = "''pk''" and now = 5 and m = "\<lparr>gm_name = Some ''Choir'', gm_about = None, gm_picture = None,
         gm_closed = True, gm_private = True,
         gm_gradient = Some \<lparr>g_type = Linear, g_angle = 45, g_stops = [''#ff0000'', ''#0000ff'']\<rparr>,
         gm_broadcast = False, gm_reactions = [''+'']\<rparr>"]
  by (simp add: Let_def run_def empty_store_def cached_def has_def crafted_gradient_def plain_colour_code)

section \<open>Summaries\<close>

definition summary_of :: "mstore \<Rightarrow> string option \<Rightarrow> string \<Rightarrow> GroupSummary" where
  \<comment> \<open>one entry of the list, by the selectors\<close>
  "summary_of st myPubkey g = \<lparr>su_id = g, su_name = (case groupState st g of Some s \<Rightarrow> gs_name s | None \<Rightarrow> ''group''),
     su_memberCount = length (groupMembers st g),
     su_isAdmin = (case myPubkey of None \<Rightarrow> False | Some pk \<Rightarrow> pk \<noteq> '''' \<and> isGroupAdmin st g pk)\<rparr>"

lemma buildSummaries_selectors:
  "buildSummaries lc st idList me = js_sort (by_name lc) (map (summary_of st me) idList)"
proof -
  have entry: "(let meta = Option.bind (map_of (index_state st GMetadata) i) parseGroupMetadata;
      memberCount = (case map_of (index_state st GMembers) i of Some e \<Rightarrow> length (parseGroupPubkeys e) | None \<Rightarrow> 0);
      isAdmin = (truthy me \<and> (case map_of (index_state st GAdmins) i of
          Some e \<Rightarrow> the me \<in> set (parseGroupPubkeys e) | None \<Rightarrow> False))
    in \<lparr>su_id = i, su_name = (case meta of Some g \<Rightarrow> gs_name g | None \<Rightarrow> ''group''),
        su_memberCount = memberCount, su_isAdmin = isAdmin\<rparr>) = summary_of st me i" for i
    unfolding index_state_map
    by (cases me) (auto simp: summary_of_def groupState_def groupMembers_def isGroupAdmin_def groupAdmins_def
        group_pubkeys_def Let_def split: option.splits)
  show ?thesis unfolding buildSummaries_def Let_def entry[unfolded Let_def] ..
qed

text \<open>Calls of \<open>groupSummariesForIds\<close> between the calls of a store.\<close>

datatype summary_op = Store st_op | Ask "string list" "string option"

fun summary_step :: "(string \<Rightarrow> string \<Rightarrow> int) \<Rightarrow> mstore \<times> SummaryCache option \<Rightarrow> summary_op \<Rightarrow> mstore \<times> SummaryCache option" where
  "summary_step lc (st, cache) (Store op) = (st_apply st op, cache)"
| "summary_step lc (st, cache) (Ask idList me) = (st, snd (groupSummariesForIds lc cache st idList me))"

definition summary_run :: "(string \<Rightarrow> string \<Rightarrow> int) \<Rightarrow> summary_op list \<Rightarrow> mstore \<times> SummaryCache option" where
  "summary_run lc ops = foldl (summary_step lc) (empty_store, None) ops"

definition plain_id :: "string \<Rightarrow> bool" where
  \<comment> \<open>a group identifier: not empty and without the separator of the memo's key\<close>
  "plain_id g \<longleftrightarrow> g \<noteq> '''' \<and> CHR 0x00 \<notin> set g"

fun regular :: "summary_op \<Rightarrow> bool" where
  "regular (Store op) = (op \<noteq> Clear)"
| "regular (Ask idList me) = list_all plain_id idList"

definition same_state_buckets :: "mstore \<Rightarrow> mstore \<Rightarrow> bool" where
  "same_state_buckets st st' \<longleftrightarrow> (\<forall>k \<in> set GROUP_STATE_KINDS. bucket_of st k = bucket_of st' k)"

lemma summary_of_buckets: "same_state_buckets st st' \<Longrightarrow> summary_of st me g = summary_of st' me g"
proof -
  assume same: "same_state_buckets st st'"
  have "latestStateByGroup st k g = latestStateByGroup st' k g" if "k \<in> {GMetadata, GMembers, GAdmins}" for k
  proof -
    have "bucket_of st (gk k) = bucket_of st' (gk k)"
      using same that by (auto simp: same_state_buckets_def GROUP_STATE_KINDS_def)
    then show ?thesis by (simp add: latestStateByGroup_def by_kind_def kinds_query_def query_def)
  qed
  then show ?thesis
    by (cases me)
      (simp_all add: summary_of_def groupState_def groupMembers_def isGroupAdmin_def groupAdmins_def group_pubkeys_def)
qed

definition memo_ok :: "(string \<Rightarrow> string \<Rightarrow> int) \<Rightarrow> mstore \<times> SummaryCache option \<Rightarrow> bool" where
  \<comment> \<open>what the memo holds was right for an earlier store, since when no counter has fallen\<close>
  "memo_ok lc = (\<lambda>(st, cache). case cache of None \<Rightarrow> True
     | Some c \<Rightarrow> \<exists>st0 idList. evolves st0 st \<and> sc_version c = versionOf st0 GROUP_STATE_KINDS
         \<and> list_all plain_id idList \<and> sc_idsKey c = join_on (CHR 0x00) idList
         \<and> sc_result c = js_sort (by_name lc) (map (summary_of st0 (sc_myPubkey c)) idList))"

lemma same_version:
  assumes "evolves st0 st" and "versionOf st0 GROUP_STATE_KINDS = versionOf st GROUP_STATE_KINDS"
  shows "same_state_buckets st0 st"
  using assms sum_list_eq_pointwise[of GROUP_STATE_KINDS "kindVersion st0" "kindVersion st"]
  by (auto simp: same_state_buckets_def evolves_def versionOf_sum)

lemma memo_answer:
  assumes "memo_ok lc (st, cache)" and "list_all plain_id idList"
  shows "fst (groupSummariesForIds lc cache st idList me) = js_sort (by_name lc) (map (summary_of st me) idList)
    \<and> memo_ok lc (st, snd (groupSummariesForIds lc cache st idList me))"
proof (cases cache)
  case None
  then show ?thesis
    using assms(2) evolves_refl by (force simp: groupSummariesForIds_def Let_def buildSummaries_selectors memo_ok_def)
next
  case (Some c)
  show ?thesis
  proof (cases "sc_version c = versionOf st GROUP_STATE_KINDS \<and> sc_myPubkey c = me \<and> sc_idsKey c = join_on (CHR 0x00) idList")
    case True
    from assms(1) Some obtain st0 idList0 where m: "evolves st0 st" "sc_version c = versionOf st0 GROUP_STATE_KINDS"
      "list_all plain_id idList0" "sc_idsKey c = join_on (CHR 0x00) idList0"
      "sc_result c = js_sort (by_name lc) (map (summary_of st0 (sc_myPubkey c)) idList0)"
      by (auto simp: memo_ok_def)
    have "idList0 = idList"
      using m(3,4) True assms(2) by (intro join_on_inject[of _ "CHR 0x00"]) (auto simp: list_all_iff plain_id_def)
    moreover have "summary_of st0 me = summary_of st me"
      using same_version[OF m(1)] m(2) True by (intro ext summary_of_buckets) simp
    ultimately have "sc_result c = js_sort (by_name lc) (map (summary_of st me) idList)" using m(5) True by simp
    with True Some assms(1) show ?thesis by (simp add: groupSummariesForIds_def Let_def)
  next
    case False
    then show ?thesis
      using Some assms(2) evolves_refl
      by (force simp: groupSummariesForIds_def Let_def buildSummaries_selectors memo_ok_def)
  qed
qed

lemma memo_ok_step:
  assumes "memo_ok lc s" and "regular op"
  shows "memo_ok lc (summary_step lc s op)"
proof (cases s)
  case (Pair st cache)
  show ?thesis
  proof (cases op)
    case (Store x)
    then have step: "evolves st (st_apply st x)" using assms(2) by (intro evolves_apply) simp
    show ?thesis
    proof (cases cache)
      case (Some c)
      then obtain st0 idList where m: "evolves st0 st" "sc_version c = versionOf st0 GROUP_STATE_KINDS
          \<and> list_all plain_id idList \<and> sc_idsKey c = join_on (CHR 0x00) idList
          \<and> sc_result c = js_sort (by_name lc) (map (summary_of st0 (sc_myPubkey c)) idList)"
        using assms(1) Pair by (auto simp: memo_ok_def)
      from evolves_trans[OF m(1) step] m(2) show ?thesis
        unfolding memo_ok_def Pair Store Some summary_step.simps prod.case option.case by blast
    qed (simp add: memo_ok_def Pair Store)
  next
    case (Ask idList me)
    with assms Pair memo_answer show ?thesis by simp
  qed
qed

lemma memo_ok_run: "\<forall>op \<in> set ops. regular op \<Longrightarrow> memo_ok lc (summary_run lc ops)"
  unfolding summary_run_def
  by (induction ops rule: rev_induct) (auto simp: memo_ok_step, simp add: memo_ok_def)

text \<open>
  C16. The list of spaces is right although it scans each kind once and is memoized over calls: after
  any sequence of store calls other than a clear, interleaved with any earlier requests, it is the
  sorted list of what the selectors for a single group say about each requested group now.
\<close>

theorem group_summaries_exact:
  assumes "\<forall>op \<in> set ops. regular op" and "list_all plain_id idList"
  shows "case summary_run lc ops of (st, cache) \<Rightarrow>
    fst (groupSummariesForIds lc cache st idList me) = js_sort (by_name lc) (map (summary_of st me) idList)"
  using memo_ok_run[OF assms(1), of lc] memo_answer[OF _ assms(2)] by (auto split: prod.splits)

theorem group_summaries_exact_witness:
  "case summary_run str_cmp [Ask [''g''] None, Store (Remove ''x''), Ask [''g''] None] of (st, cache) \<Rightarrow>
     fst (groupSummariesForIds str_cmp cache st [''g'', ''h''] (Some ''me''))
       = js_sort (by_name str_cmp) (map (summary_of st (Some ''me'')) [''g'', ''h''])"
  by (rule group_summaries_exact) (simp_all add: plain_id_def)

text \<open>
  Clearing the store resets the counters the memo compares, so after a clear a list computed for
  the events before it can come back.
\<close>

lemma summaries_stale_after_clear:
  "let members = (\<lambda>i ps. \<lparr>eid = i, pubkey = ''r'', created_at = 1, kind = 39002,
         tags = [''d'', ''g''] # map (\<lambda>p. [''p'', p]) ps, content = ''''\<rparr>);
       (st, cache) = summary_run str_cmp [Store (Save (members ''1'' [''a'', ''b''])), Ask [''g''] None, Store Clear,
          Store (Save (members ''2'' [''a'']))]
   in map su_memberCount (fst (groupSummariesForIds str_cmp cache st [''g''] None)) = [2]
    \<and> groupMembers st ''g'' = [''a'']"
  by (simp add: summary_run_def groupSummariesForIds_def buildSummaries_selectors summary_of_def groupState_def
      groupMembers_def group_pubkeys_def latestStateByGroup_def by_kind_def kinds_query_def query_def stateGroupId_def
      tagValue_def tag_value_Cons betterState_def parseGroupPubkeys_def js_sort_Cons save_def index_def bumpKind_def
      clear_def empty_store_def has_def kindVersion_def versionOf_def GROUP_STATE_KINDS_def bucket_of_def Let_def)

section \<open>Edited messages\<close>

definition own_edit :: "(event \<Rightarrow> string option) \<Rightarrow> event \<Rightarrow> event \<Rightarrow> bool" where
  \<comment> \<open>an edit of the message by its own author\<close>
  "own_edit target m e \<longleftrightarrow> truthy (target e) \<and> target e = Some (eid m) \<and> pubkey e = pubkey m"

definition shown_as :: "(event \<Rightarrow> string option) \<Rightarrow> event set \<Rightarrow> event \<Rightarrow> event \<Rightarrow> bool" where
  \<comment> \<open>what a reader must see of a message: its author's newest edit, or itself\<close>
  "shown_as target msgs m m' \<longleftrightarrow>
     (if \<exists>e \<in> msgs. own_edit target m e
      then \<exists>e \<in> msgs. own_edit target m e \<and> (\<forall>e' \<in> msgs. own_edit target m e' \<longrightarrow> created_at e' \<le> created_at e) \<and> m' = edited m e
      else m' = m)"

lemma edit_key_inject: "CHR '' '' \<notin> set p \<Longrightarrow> CHR '' '' \<notin> set q \<Longrightarrow> edit_key t p = edit_key u q \<longleftrightarrow> t = u \<and> p = q"
  unfolding edit_key_def by (rule sep_split_last)

lemma edits_map:
  assumes "\<forall>e \<in> set evs. CHR '' '' \<notin> set (pubkey e)" and "m \<in> set evs"
  shows "map_of (edits_by_key target evs) (edit_key (eid m) (pubkey m)) = newest_of (filter (own_edit target m) evs)"
proof -
  define g where "g e = (if truthy (target e) then Some (edit_key (the (target e)) (pubkey e), e) else None)" for e
  have step: "edits_by_key target evs
      = foldl (\<lambda>m e. case g e of None \<Rightarrow> m | Some (k, v) \<Rightarrow> keep_best (>) created_at k v m) [] evs"
    unfolding edits_by_key_def g_def by (rule foldl_cong) auto
  have pick: "List.map_filter (\<lambda>e. case g e of Some (k', v) \<Rightarrow> if k' = edit_key (eid m) (pubkey m) then Some v else None
       | None \<Rightarrow> None) es = filter (own_edit target m) es" if "set es \<subseteq> set evs" for es
    using that
  proof (induction es)
    case (Cons e es)
    then have "CHR '' '' \<notin> set (pubkey e)" "CHR '' '' \<notin> set (pubkey m)" using assms by auto
    with Cons show ?case
      by (auto simp: List.map_filter_def g_def own_edit_def edit_key_inject elim!: truthyE)
  qed (simp add: List.map_filter_def)
  show ?thesis unfolding step keep_best_fold pick[OF subset_refl] ..
qed

lemma edited_frame [simp]: "eid (edited m e) = eid m" "created_at (edited m e) = created_at m" "pubkey (edited m e) = pubkey m"
  by (simp_all add: edited_def)

lemma fold_edits_map:
  assumes "\<forall>e \<in> set evs. CHR '' '' \<notin> set (pubkey e)"
  shows "fold_edits target evs = js_sort oldest_first (map (\<lambda>m. case newest_of (filter (own_edit target m) evs) of
     Some e \<Rightarrow> edited m e | None \<Rightarrow> m) (filter (\<lambda>m. \<not> truthy (target m)) evs))"
proof -
  have "map (\<lambda>m. case map_of (edits_by_key target evs) (edit_key (eid m) (pubkey m)) of Some e \<Rightarrow> edited m e | None \<Rightarrow> m)
      (filter (\<lambda>m. \<not> truthy (target m)) evs)
    = map (\<lambda>m. case newest_of (filter (own_edit target m) evs) of Some e \<Rightarrow> edited m e | None \<Rightarrow> m)
      (filter (\<lambda>m. \<not> truthy (target m)) evs)"
    by (rule map_cong) (auto simp: edits_map[OF assms])
  then show ?thesis unfolding fold_edits_def Let_def by (rule arg_cong)
qed

lemma shown_newest:
  "shown_as target (set evs) m (case newest_of (filter (own_edit target m) evs) of Some e \<Rightarrow> edited m e | None \<Rightarrow> m)"
proof (cases "newest_of (filter (own_edit target m) evs)")
  case None
  then show ?thesis by (auto simp: shown_as_def filter_empty_conv)
next
  case (Some e)
  then show ?thesis
    using best_of_mem[OF Some] newest_of_max[OF Some] by (auto simp: shown_as_def)
qed

lemma fold_edits_exact:
  fixes target evs
  defines "out \<equiv> fold_edits target evs"
  assumes "\<forall>e \<in> set evs. CHR '' '' \<notin> set (pubkey e)" and "distinct (map eid evs)"
  shows "sorted_wrt (\<lambda>a b. created_at a \<le> created_at b) out" "distinct (map eid out)"
    "eid ` set out = eid ` {m \<in> set evs. \<not> truthy (target m)}"
    "\<forall>m' \<in> set out. \<exists>m \<in> set evs. \<not> truthy (target m) \<and> shown_as target (set evs) m m'"
proof -
  let ?f = "\<lambda>m. case newest_of (filter (own_edit target m) evs) of Some e \<Rightarrow> edited m e | None \<Rightarrow> m"
  note out = out_def[unfolded fold_edits_map[OF assms(2)]]
  have id: "eid (?f m) = eid m" for m by (auto split: option.splits)
  show "sorted_wrt (\<lambda>a b. created_at a \<le> created_at b) out"
    using age.sorted_js_sort unfolding out oldest_first_def by simp
  have "map eid (map ?f (filter (\<lambda>m. \<not> truthy (target m)) evs)) = map eid (filter (\<lambda>m. \<not> truthy (target m)) evs)"
    by (simp add: id)
  then show "distinct (map eid out)"
    unfolding out distinct_map_js_sort by (metis assms(3) distinct_map_filter)
  show "eid ` set out = eid ` {m \<in> set evs. \<not> truthy (target m)}"
    unfolding out by (auto simp: id image_image)
  show "\<forall>m' \<in> set out. \<exists>m \<in> set evs. \<not> truthy (target m) \<and> shown_as target (set evs) m m'"
    unfolding out using shown_newest by fastforce
qed

lemma by_kind_distinct: "distinct (map eid (by_kind (run ops) k))"
proof -
  have "distinct (map eid (filter (\<lambda>e. kind e = k) (cached (run ops))))"
    by (rule distinct_map_filter[OF distinct_cached[OF store_ok_run]])
  then show ?thesis
    by (simp add: by_kind_def kinds_query_def query_eq_spec[OF store_ok_run] query_spec_def distinct_map_js_sort)
qed

definition group_chat :: "mstore \<Rightarrow> string \<Rightarrow> event set" where
  "group_chat st g = {e \<in> set (cached st). kind e = gk GChat \<and> eventGroupId e = Some g}"

text \<open>
  C14. The chat of a group shows every cached message of the group that is no edit exactly once, in
  order of creation.  A message appears with the text of its author's newest edit, otherwise as it
  was sent: an edit signed by anyone else never changes or hides it.
\<close>

theorem chat_shows_own_edits:
  assumes "\<forall>e \<in> set (cached (run ops)). CHR '' '' \<notin> set (pubkey e)"
  shows "sorted_wrt (\<lambda>a b. created_at a \<le> created_at b) (groupChatMessages (run ops) g)
    \<and> distinct (map eid (groupChatMessages (run ops) g))
    \<and> eid ` set (groupChatMessages (run ops) g) = eid ` {m \<in> group_chat (run ops) g. \<not> truthy (groupEditTargetId m)}
    \<and> (\<forall>m' \<in> set (groupChatMessages (run ops) g). \<exists>m \<in> group_chat (run ops) g.
         \<not> truthy (groupEditTargetId m) \<and> shown_as groupEditTargetId (group_chat (run ops) g) m m')"
proof -
  let ?evs = "filter (\<lambda>e. eventGroupId e = Some g) (by_kind (run ops) (gk GChat))"
  have set: "set ?evs = group_chat (run ops) g" by (auto simp: group_chat_def set_by_kind)
  have "\<forall>e \<in> set ?evs. CHR '' '' \<notin> set (pubkey e)" using assms by (auto simp: set_by_kind)
  moreover have "distinct (map eid ?evs)" by (rule distinct_map_filter[OF by_kind_distinct])
  ultimately show ?thesis
    using fold_edits_exact[of ?evs groupEditTargetId] unfolding set groupChatMessages_def by blast
qed

theorem chat_shows_own_edits_witness:
  "let e = (\<lambda>i p t tg. \<lparr>eid = i, pubkey = p, created_at = t, kind = 9, tags = [''h'', ''g''] # tg, content = i\<rparr>);
       st = run [Save (e ''m'' ''ann'' 1 []), Save (e ''x'' ''ann'' 5 [[''e'', ''m'', '''', ''edit'']]),
                 Save (e ''y'' ''bob'' 9 [[''e'', ''m'', '''', ''edit'']])]
   in eid ` set (groupChatMessages st ''g'') = eid ` {m \<in> group_chat st ''g''. \<not> truthy (groupEditTargetId m)}"
  unfolding Let_def
  by (rule chat_shows_own_edits[THEN conjunct2, THEN conjunct2, THEN conjunct1])
     (simp add: run_def empty_store_def save_def has_def cached_def index_def bumpKind_def)

text \<open>
  The preview of a single message agrees with the open chat as long as its author's edits were sent
  to the same group.  An edit sent to another group reaches the preview only.
\<close>

definition preview :: "(event \<Rightarrow> event option) \<Rightarrow> event \<Rightarrow> event" where
  "preview f m = (case f m of None \<Rightarrow> m | Some m' \<Rightarrow> m')"

lemma preview_agrees:
  assumes "\<forall>e \<in> set (cached (run ops)). CHR '' '' \<notin> set (pubkey e)"
    and "m \<in> group_chat (run ops) g" and "\<not> truthy (groupEditTargetId m)" and "eid m \<noteq> ''''"
    and "\<forall>e \<in> set (cached (run ops)). own_edit groupEditTargetId m e \<longrightarrow> eventGroupId e = Some g"
  shows "preview (foldGroupChatEdit (run ops)) m \<in> set (groupChatMessages (run ops) g)"
proof -
  let ?all = "by_kind (run ops) (gk GChat)" and ?evs = "filter (\<lambda>e. eventGroupId e = Some g) (by_kind (run ops) (gk GChat))"
  have own: "filter (own_edit groupEditTargetId m) ?evs = filter (\<lambda>e. groupEditTargetId e = Some (eid m) \<and> pubkey e = pubkey m) ?all"
    unfolding filter_filter using assms(4,5) by (intro filter_cong) (auto simp: own_edit_def set_by_kind)
  have "\<forall>e \<in> set ?evs. CHR '' '' \<notin> set (pubkey e)" using assms(1) by (auto simp: set_by_kind)
  note chat = fold_edits_map[OF this, of groupEditTargetId]
  have m: "m \<in> set ?evs" "kind m = gk GChat" using assms(2) by (auto simp: group_chat_def set_by_kind)
  have "preview (foldGroupChatEdit (run ops)) m = (case newest_of (filter (own_edit groupEditTargetId m) ?evs) of
      Some e \<Rightarrow> edited m e | None \<Rightarrow> m)"
    using assms(3) m(2) unfolding own
    by (auto simp: preview_def foldGroupChatEdit_def fold_own_edit_def split: option.splits)
  then show ?thesis
    using m(1) assms(3) unfolding groupChatMessages_def chat by auto
qed

lemma preview_shows_foreign_group_edit:
  "let m = \<lparr>eid = ''m'', pubkey = ''ann'', created_at = 1, kind = 9, tags = [[''h'', ''g'']], content = ''hi''\<rparr>;
       e = \<lparr>eid = ''x'', pubkey = ''ann'', created_at = 5, kind = 9, tags = [[''h'', ''other''], [''e'', ''m'', '''', ''edit'']],
            content = ''changed''\<rparr>;
       st = run [Save m, Save e]
   in map content (groupChatMessages st ''g'') = [''hi''] \<and> content (preview (foldGroupChatEdit st) m) = ''changed''"
  by (simp add: run_def empty_store_def save_def has_def index_def bumpKind_def kindVersion_def groupChatMessages_def
      by_kind_def kinds_query_def query_def bucket_of_def js_sort_Cons newest_first_def eventGroupId_def tagValue_def
      tag_value_Cons fold_edits_def edits_by_key_def groupEditTargetId_def marked_e_def preview_def foldGroupChatEdit_def
      fold_own_edit_def best_of_def edited_def at_def Let_def)

section \<open>Channels\<close>

lemma parse_channel_fields:
  assumes "parseChannel e = Some c"
  shows "ch_owner c = pubkey e" "\<exists>d. tagValue e ''d'' = Some d \<and> d \<noteq> '''' \<and> ch_id c = channelCoord (pubkey e) d"
    "kind e = KIND_LIVE_ACTIVITY" "ch_metaAt c = created_at e"
  using assms by (auto simp: parseChannel_def Let_def split: if_splits option.splits)

lemma channelCoord_inject:
  "CHR '':'' \<notin> set p \<Longrightarrow> CHR '':'' \<notin> set q \<Longrightarrow> channelCoord p d = channelCoord q d' \<longleftrightarrow> p = q \<and> d = d'"
  by (simp add: channelCoord_def sep_split)

definition channel_events :: "mstore \<Rightarrow> string \<Rightarrow> event set" where
  "channel_events st coord = {e \<in> set (cached st). map_option ch_id (parseChannel e) = Some coord}"

lemma getChannel_newest:
  "case getChannel (run ops) coord of
     None \<Rightarrow> channel_events (run ops) coord = {}
   | Some c \<Rightarrow> \<exists>e \<in> channel_events (run ops) coord. parseChannel e = Some c
       \<and> (\<forall>e' \<in> channel_events (run ops) coord. created_at e' \<le> created_at e)"
proof -
  let ?evs = "js_sort newest_first (filter (\<lambda>e. map_option ch_id (parseChannel e) = Some coord) (by_kind (run ops) KIND_LIVE_ACTIVITY))"
  have set: "set ?evs = channel_events (run ops) coord"
    using parse_channel_fields(3) by (force simp: channel_events_def set_by_kind)
  have sorted: "sorted_wrt (\<lambda>a b. newest_first a b \<le> 0) ?evs" by (rule recency.sorted_js_sort)
  show ?thesis
  proof (cases ?evs)
    case Nil
    have "channel_events (run ops) coord = {}" unfolding set[symmetric] Nil by simp
    with Nil show ?thesis by (simp add: getChannel_def)
  next
    case (Cons e es)
    then have "e \<in> channel_events (run ops) coord" using set by auto
    moreover from this obtain c where "parseChannel e = Some c" by (auto simp: channel_events_def)
    moreover have "\<forall>e' \<in> channel_events (run ops) coord. created_at e' \<le> created_at e"
      using sorted set unfolding Cons by (auto simp: newest_first_def)
    ultimately show ?thesis using Cons by (auto simp: getChannel_def)
  qed
qed

lemma foreign_channel_event:
  assumes "CHR '':'' \<notin> set owner" and "CHR '':'' \<notin> set (pubkey e)" and "pubkey e \<noteq> owner"
  shows "map_option ch_id (parseChannel e) \<noteq> Some (channelCoord owner d)"
  using parse_channel_fields(2)[of e] assms channelCoord_inject by (cases "parseChannel e") fastforce+

text \<open>
  C15. A channel is what its owner last said it is.  Its name, its administrators and everything else
  come from the newest cached event that the owner named in its address has signed, and storing an
  event of any other key changes nothing of it, so nobody else can edit the channel or appoint an
  administrator.
\<close>

theorem channel_owner_controls:
  assumes keys: "CHR '':'' \<notin> set owner" "\<forall>e \<in> set (cached (run ops)). CHR '':'' \<notin> set (pubkey e)"
  shows "(case getChannel (run ops) (channelCoord owner d) of
       None \<Rightarrow> \<forall>e \<in> set (cached (run ops)). pubkey e = owner \<and> kind e = KIND_LIVE_ACTIVITY \<longrightarrow> tagValue e ''d'' \<noteq> Some d
     | Some c \<Rightarrow> \<exists>e \<in> set (cached (run ops)). pubkey e = owner \<and> tagValue e ''d'' = Some d \<and> parseChannel e = Some c
         \<and> (\<forall>e' \<in> set (cached (run ops)). pubkey e' = owner \<and> kind e' = KIND_LIVE_ACTIVITY \<and> tagValue e' ''d'' = Some d
              \<longrightarrow> created_at e' \<le> created_at e))
    \<and> (\<forall>x. pubkey x \<noteq> owner \<and> CHR '':'' \<notin> set (pubkey x) \<longrightarrow>
         getChannel (fst (save x (run ops))) (channelCoord owner d) = getChannel (run ops) (channelCoord owner d))"
proof
  have mine: "e \<in> channel_events (run ops) (channelCoord owner d) \<longleftrightarrow>
      e \<in> set (cached (run ops)) \<and> pubkey e = owner \<and> kind e = KIND_LIVE_ACTIVITY \<and> tagValue e ''d'' = Some d" for e
  proof (cases "e \<in> set (cached (run ops))")
    case True
    then have "CHR '':'' \<notin> set (pubkey e)" using keys(2) by blast
    moreover have "tagValue e ''d'' \<noteq> Some ''''" using tag_value_truthy by (fastforce simp: tagValue_def)
    ultimately show ?thesis
      using True keys(1) by (auto simp: channel_events_def parseChannel_def channelCoord_inject Let_def split: option.splits)
  qed (simp add: channel_events_def)
  show "case getChannel (run ops) (channelCoord owner d) of
       None \<Rightarrow> \<forall>e \<in> set (cached (run ops)). pubkey e = owner \<and> kind e = KIND_LIVE_ACTIVITY \<longrightarrow> tagValue e ''d'' \<noteq> Some d
     | Some c \<Rightarrow> \<exists>e \<in> set (cached (run ops)). pubkey e = owner \<and> tagValue e ''d'' = Some d \<and> parseChannel e = Some c
         \<and> (\<forall>e' \<in> set (cached (run ops)). pubkey e' = owner \<and> kind e' = KIND_LIVE_ACTIVITY \<and> tagValue e' ''d'' = Some d
              \<longrightarrow> created_at e' \<le> created_at e)"
    using getChannel_newest[of ops "channelCoord owner d"] mine
    by (cases "getChannel (run ops) (channelCoord owner d)") auto
  show "\<forall>x. pubkey x \<noteq> owner \<and> CHR '':'' \<notin> set (pubkey x) \<longrightarrow>
         getChannel (fst (save x (run ops))) (channelCoord owner d) = getChannel (run ops) (channelCoord owner d)"
  proof (intro allI impI)
    fix x :: event
    assume x: "pubkey x \<noteq> owner \<and> CHR '':'' \<notin> set (pubkey x)"
    let ?P = "\<lambda>e. map_option ch_id (parseChannel e) = Some (channelCoord owner d)"
    have "\<not> ?P x" using foreign_channel_event[OF keys(1)] x by blast
    moreover have "store_ok (fst (save x (run ops)))" by (rule save_byId(2)[OF store_ok_run])
    ultimately have "filter ?P (by_kind (run (ops @ [Save x])) KIND_LIVE_ACTIVITY) = filter ?P (by_kind (run ops) KIND_LIVE_ACTIVITY)"
      by (simp add: by_kind_def kinds_query_def query_eq_spec query_eq_spec[OF store_ok_run] query_spec_def recency.filter_js_sort
          cached_def save_byId(1)[OF store_ok_run] run_save conj_commute) blast
    then show "getChannel (fst (save x (run ops))) (channelCoord owner d) = getChannel (run ops) (channelCoord owner d)"
      by (simp add: getChannel_def flip: run_save)
  qed
qed

theorem channel_owner_controls_witness:
  "let x = \<lparr>eid = ''2'', pubkey = ''bob'', created_at = 9, kind = 30311, tags = [[''d'', ''c''], [''title'', ''Mine'']], content = ''''\<rparr>;
       st = run [Save \<lparr>eid = ''1'', pubkey = ''ann'', created_at = 1, kind = 30311, tags = [[''d'', ''c'']], content = ''''\<rparr>]
   in getChannel (fst (save x st)) (channelCoord ''ann'' ''c'') = getChannel st (channelCoord ''ann'' ''c'')"
  unfolding Let_def
  by (rule channel_owner_controls[THEN conjunct2, rule_format])
     (simp_all add: run_def empty_store_def save_def has_def cached_def index_def bumpKind_def)

lemma admin_needs_owner:
  assumes "getChannel (run ops) coord = Some c" and "isChannelAdmin c pk" and "pk \<noteq> ch_owner c"
  shows "\<exists>e \<in> set (cached (run ops)). pubkey e = ch_owner c \<and> kind e = KIND_LIVE_ACTIVITY
    \<and> (\<exists>t \<in> set (tags e). at t 0 = Some ''p'' \<and> at t 1 = Some pk \<and> at t 2 = Some ''admin'')"
proof -
  from getChannel_newest[of ops coord] assms(1) obtain e where e: "e \<in> set (cached (run ops))" "parseChannel e = Some c"
    by (auto simp: channel_events_def)
  have "\<exists>t \<in> set (tags e). at t 0 = Some ''p'' \<and> at t 1 = Some pk \<and> at t 2 = Some ''admin''"
    using assms(2,3) e(2)
    by (fastforce simp: parseChannel_def isChannelAdmin_def Let_def split: if_splits option.splits elim!: truthyE)
  with e parse_channel_fields(1,3)[OF e(2)] show ?thesis by auto
qed

text \<open>The messages of a channel are folded by the same loops.\<close>

lemma channel_messages_own_edits:
  fixes coord :: string
  assumes "\<forall>e \<in> set (cached (run ops)). CHR '' '' \<notin> set (pubkey e)"
  defines "msgs \<equiv> {e \<in> set (cached (run ops)). messageChannelId e = Some coord}"
  shows "sorted_wrt (\<lambda>a b. created_at a \<le> created_at b) (channelMessages (run ops) coord)
    \<and> distinct (map eid (channelMessages (run ops) coord))
    \<and> eid ` set (channelMessages (run ops) coord) = eid ` {m \<in> msgs. \<not> truthy (editTargetId m)}
    \<and> (\<forall>m' \<in> set (channelMessages (run ops) coord). \<exists>m \<in> msgs. \<not> truthy (editTargetId m) \<and> shown_as editTargetId msgs m m')"
proof -
  let ?evs = "filter (\<lambda>e. messageChannelId e = Some coord) (by_kind (run ops) KIND_LIVE_CHAT)"
  have set: "set ?evs = msgs" by (auto simp: msgs_def set_by_kind messageChannelId_def split: if_splits)
  have "\<forall>e \<in> set ?evs. CHR '' '' \<notin> set (pubkey e)" using assms(1) by (auto simp: set_by_kind)
  moreover have "distinct (map eid ?evs)" by (rule distinct_map_filter[OF by_kind_distinct])
  ultimately show ?thesis
    using fold_edits_exact[of ?evs editTargetId] unfolding set channelMessages_def by blast
qed

section \<open>What the builders write is what the readers read\<close>

lemma chat_reads_back:
  assumes "buildGroupChat encrypt now g c replyTo enc = Inr u" and "g \<noteq> ''''"
  shows "eventGroupId (signed_event i pk u) = Some g" "groupEditTargetId (signed_event i pk u) = None"
    "groupReplyParentId (signed_event i pk u) = (if truthy replyTo then replyTo else None)"
  using assms
  by (auto simp: buildGroupChat_def space_message_def sealBody_def space_event_def signed_event_def eventGroupId_def
      tagValue_def tag_value_Cons groupEditTargetId_def groupReplyParentId_def marked_e_def at_def Let_def
      split: if_splits option.splits elim!: truthyE)

lemma chat_edit_reads_back:
  assumes "buildGroupChatEdit encrypt now g original c enc = Inr u" and "g \<noteq> ''''"
  shows "eventGroupId (signed_event i pk u) = Some g" "groupEditTargetId (signed_event i pk u) = Some original"
  using assms
  by (auto simp: buildGroupChatEdit_def space_message_def sealBody_def space_event_def signed_event_def eventGroupId_def
      tagValue_def tag_value_Cons groupEditTargetId_def marked_e_def at_def Let_def split: if_splits option.splits)

lemma promoted_edit_carries:
  assumes "f \<noteq> ''''" and "promotedFeedId (signed_event i pk u) = None"
  shows "promotedFeedId (signed_event i pk (withPromotedTag u f)) = Some f"
    "promotedFeedId m = None \<Longrightarrow> promotedFeedId (edited m (signed_event i pk (withPromotedTag u f))) = Some f"
  using assms
  by (auto simp: promotedFeedId_def withPromotedTag_def signed_event_def tag_value_append tag_value_Cons edited_def
      promotedTagFrom_def PROMOTED_TAG_def)


lemma replies_bucket:
  "p \<noteq> '''' \<Longrightarrow> map_of (groupRepliesByParent st g) p =
     (let rs = filter (\<lambda>e. replyParentId e = Some p)
            (js_sort oldest_first (filter (\<lambda>e. eventGroupId e = Some g) (by_kind st (gk GReply))))
      in if rs = [] then None else Some rs)"
proof -
  have "p \<noteq> '''' \<Longrightarrow> map_of (foldl push_reply [] rs) p =
     (let l = filter (\<lambda>e. replyParentId e = Some p) rs in if l = [] then None else Some l)" for rs
    by (induction rs rule: rev_induct) (auto simp: push_reply_def js_map_simps Let_def split: option.splits)
  then show "p \<noteq> '''' \<Longrightarrow> ?thesis" by (simp add: groupRepliesByParent_def)
qed

text \<open>
  \<open>myGroupSummaries\<close> compares timestamps only, so a seed with a later clock hides the relay's list
  of members that every other selector reads.
\<close>

lemma my_groups_shadowed_by_seed:
  "let copy = \<lparr>eid = ''1'', pubkey = ''relay'', created_at = 1, kind = 39002, tags = [[''d'', ''g''], [''p'', ''ann'']], content = ''''\<rparr>;
       seed = \<lparr>eid = ''2'', pubkey = ''me'', created_at = 9, kind = 39002,
               tags = [[''d'', ''g''], [''p'', ''me''], [''optimistic'']], content = ''''\<rparr>;
       st = run [Save copy, Save seed]
   in \<not> isGroupMember st ''g'' ''me'' \<and> map su_id (myGroupSummaries str_cmp st (Some ''me'')) = [''g'']"
  by (simp add: run_def empty_store_def save_def has_def index_def bumpKind_def kindVersion_def isGroupMember_def
      groupMembers_def group_pubkeys_def latestStateByGroup_def by_kind_def kinds_query_def query_def bucket_of_def
      js_sort_Cons newest_first_def stateGroupId_def tagValue_def tag_value_Cons betterState_def isOptimistic_def
      hasFlag_def parseGroupPubkeys_def myGroupSummaries_def keep_best_def Let_def del: set_map set_filter)

end
