(* ===== verification/Membership.thy ===== *)
theory Membership
  imports Spaces
begin

text \<open>
  Membership of spaces: \<open>client/src/channels/membership.ts\<close> (join requests with a sealed note, the
  shared list of outstanding invites, requests for a space key, the requester's local records),
  \<open>groupMembership.ts\<close> and \<open>encryptedSpaces.ts\<close> (the stored sets of joined and of encrypted spaces),
  \<open>subscriptions.ts\<close> and \<open>interactions.ts\<close> of the same directory.

  \<open>AsyncStorage\<close> is the association list \<open>storage\<close> of JSON texts; each function that calls it takes
  a flag that says whether the call is rejected.  Texts that the code parses are \<open>stext\<close>, and numbers
  in them are whole, so \<open>Math.floor\<close> is the identity.  A JavaScript object used as a dictionary
  is an association list with distinct keys.  The base64url frame of an invite
  message is not modelled.
\<close>

section \<open>Definitions\<close>

subsection \<open>membership.ts: join notes and requests\<close>

definition MAX_JOIN_NOTE :: nat where "MAX_JOIN_NOTE = 500"

record JoinNotePayload =
  jn_name :: "string option"
  jn_text :: "string option"

definition clipped :: "nat \<Rightarrow> string \<Rightarrow> string option \<Rightarrow> (string \<times> jsval) list" where
  \<comment> \<open>\<open>if (v) out[key] = v.slice(0, n)\<close>\<close>
  "clipped n key v = (if truthy v then [(key, JStr (take n (the v)))] else [])"

definition encodeJoinNotePayload :: "JoinNotePayload \<Rightarrow> stext" where
  "encodeJoinNotePayload p = Json (JObj (clipped 80 ''n'' (jn_name p) @ clipped MAX_JOIN_NOTE ''t'' (jn_text p)))"

definition str_prop :: "jsval \<Rightarrow> string \<Rightarrow> string option" where
  \<comment> \<open>\<open>typeof v.k === 'string' && v.k\<close>\<close>
  "str_prop v k = (case js_prop v k of Some (JStr s) \<Rightarrow> if s = '''' then None else Some s | _ \<Rightarrow> None)"

definition is_object :: "jsval \<Rightarrow> bool" where
  \<comment> \<open>\<open>v && typeof v === 'object'\<close>, arrays included\<close>
  "is_object v = (case v of JObj _ \<Rightarrow> True | JArr _ \<Rightarrow> True | _ \<Rightarrow> False)"

definition parseJoinNotePayload :: "stext \<Rightarrow> JoinNotePayload option" where
  "parseJoinNotePayload json = (case json of
       Text _ \<Rightarrow> None
     | Json p \<Rightarrow> if \<not> is_object p then None
         else Some \<lparr>jn_name = map_option (take 80) (str_prop p ''n''),
                    jn_text = map_option (take MAX_JOIN_NOTE) (str_prop p ''t'')\<rparr>)"

definition encodeJoinNoteContent :: "(string \<times> string) list \<Rightarrow> stext" where
  "encodeJoinNoteContent seals =
     (if seals = [] then Text ''''
      else Json (JObj [(''v'', JNum 1), (''s'', JObj (map (\<lambda>(pk, ct). (pk, JStr ct)) seals))]))"

definition hex_key :: "string \<Rightarrow> bool" where
  \<comment> \<open>\<open>/^[0-9a-f]{64}$/i\<close>\<close>
  "hex_key s \<longleftrightarrow> length s = 64 \<and> list_all hex_char s"

definition parseJoinNoteContent :: "stext \<Rightarrow> (string \<times> string) list option" where
  "parseJoinNoteContent c = (case c of
       Text _ \<Rightarrow> None
     | Json wire \<Rightarrow>
         if \<not> is_object wire \<or> js_prop wire ''v'' \<noteq> Some (JNum 1) then None
         else case js_prop wire ''s'' of
           Some (JObj kvs) \<Rightarrow>
             let out = foldl (\<lambda>out (pk, ct). case ct of
                   JStr s \<Rightarrow> if hex_key pk \<and> s \<noteq> '''' then AList.update (toLowerCase pk) s out else out
                 | _ \<Rightarrow> out) [] kvs
             in if out \<noteq> [] then Some out else None
         | _ \<Rightarrow> None)"

definition latestJoinRequests :: "mstore \<Rightarrow> string \<Rightarrow> (string \<times> event) list" where
  "latestJoinRequests st groupId = foldl (\<lambda>latest e.
     if eventGroupId e \<noteq> Some groupId then latest else keep_best (>) created_at (pubkey e) e latest) []
     (by_kind st (gk GJoinRequest))"

definition isInviteAccept :: "event \<Rightarrow> bool" where
  "isInviteAccept e = hasFlag e ''invite''"

subsection \<open>membership.ts: the list of invites\<close>

definition KIND_APP_DATA :: nat where "KIND_APP_DATA = 30078"
definition SPACE_INVITES_D_PREFIX :: string where "SPACE_INVITES_D_PREFIX = ''space-invites:''"

definition spaceInvitesDTag :: "string \<Rightarrow> string" where
  "spaceInvitesDTag spaceId = SPACE_INVITES_D_PREFIX @ spaceId"

record SpaceInvite =
  si_p :: string
  si_by :: string
  si_at :: int

record SpaceRevoke =
  sr_p :: string
  sr_at :: int

record SpaceInvitesDoc =
  sd_inv :: "SpaceInvite list"
  sd_rev :: "SpaceRevoke list"

definition encodeInvitesDoc :: "SpaceInvitesDoc \<Rightarrow> stext" where
  "encodeInvitesDoc d = Json (JObj [(''v'', JNum 1),
     (''inv'', JArr (map (\<lambda>i. JObj [(''p'', JStr (si_p i)), (''by'', JStr (si_by i)), (''at'', JNum (si_at i))]) (sd_inv d))),
     (''rev'', JArr (map (\<lambda>r. JObj [(''p'', JStr (sr_p r)), (''at'', JNum (sr_at r))]) (sd_rev d)))])"

definition pk_at :: "jsval \<Rightarrow> (string \<times> int) option" where
  \<comment> \<open>the guards on \<open>p\<close> and \<open>at\<close> of an entry\<close>
  "pk_at x = (case (js_prop x ''p'', js_prop x ''at'') of
       (Some (JStr p), Some (JNum t)) \<Rightarrow> if hex_key p then Some (toLowerCase p, t) else None
     | _ \<Rightarrow> None)"

definition invite_entry :: "jsval \<Rightarrow> SpaceInvite option" where
  "invite_entry x = map_option (\<lambda>(p, t). \<lparr>si_p = p,
     si_by = (case js_prop x ''by'' of Some (JStr b) \<Rightarrow> if hex_key b then toLowerCase b else '''' | _ \<Rightarrow> ''''),
     si_at = t\<rparr>) (pk_at x)"

definition revoke_entry :: "jsval \<Rightarrow> SpaceRevoke option" where
  "revoke_entry x = map_option (\<lambda>(p, t). \<lparr>sr_p = p, sr_at = t\<rparr>) (pk_at x)"

definition arr_prop :: "jsval \<Rightarrow> string \<Rightarrow> jsval list" where
  "arr_prop v k = (case js_prop v k of Some (JArr xs) \<Rightarrow> xs | _ \<Rightarrow> [])"

definition parseInvitesDoc :: "stext \<Rightarrow> SpaceInvitesDoc option" where
  "parseInvitesDoc json = (case json of
       Text _ \<Rightarrow> None
     | Json wire \<Rightarrow>
         if \<not> is_object wire \<or> js_prop wire ''v'' \<noteq> Some (JNum 1) then None
         else Some \<lparr>sd_inv = List.map_filter invite_entry (arr_prop wire ''inv''),
                    sd_rev = List.map_filter revoke_entry (arr_prop wire ''rev'')\<rparr>)"

definition invite_of :: "string \<Rightarrow> SpaceInvite \<Rightarrow> SpaceInvite" where
  \<comment> \<open>\<open>inv.by ? inv : {...inv, by: author}\<close>\<close>
  "invite_of who i = (if si_by i \<noteq> '''' then i else i\<lparr>si_by := who\<rparr>)"

definition fold_doc :: "string list \<Rightarrow> (string \<times> SpaceInvite) list \<times> (string \<times> int) list \<Rightarrow> string \<times> SpaceInvitesDoc \<Rightarrow>
    (string \<times> SpaceInvite) list \<times> (string \<times> int) list" where
  \<comment> \<open>one pass of the first loop of \<open>foldInvites\<close>\<close>
  "fold_doc authorized = (\<lambda>(bestAdd, bestRev) (who, d).
     if who \<notin> set authorized then (bestAdd, bestRev)
     else (foldl (\<lambda>m i. keep_best (>) si_at (si_p i) (invite_of who i) m) bestAdd (sd_inv d),
           foldl (\<lambda>m r. keep_best (>) (\<lambda>t. t) (sr_p r) (sr_at r) m) bestRev (sd_rev d)))"

definition newest_invite :: "SpaceInvite \<Rightarrow> SpaceInvite \<Rightarrow> int" where
  "newest_invite a b = si_at b - si_at a"

definition foldInvites :: "(string \<times> SpaceInvitesDoc) list \<Rightarrow> string list \<Rightarrow> string list \<Rightarrow> SpaceInvite list" where
  "foldInvites docs authorized members =
     (let (bestAdd, bestRev) = foldl (fold_doc authorized) ([], []) docs
      in js_sort newest_invite (map snd (filter (\<lambda>(pk, i). pk \<notin> set members
           \<and> (case map_of bestRev pk of Some t \<Rightarrow> t < si_at i | None \<Rightarrow> True)) bestAdd)))"

subsection \<open>membership.ts: local records\<close>

definition slotted :: "string \<Rightarrow> string option \<Rightarrow> string" where
  \<comment> \<open>\<open>slotId ? prefix + '.slot.' + slotId : prefix\<close>\<close>
  "slotted prefix slotId = (if truthy slotId then prefix @ ''.slot.'' @ the slotId else prefix)"

definition joinRequestsKey :: "string option \<Rightarrow> string" where
  "joinRequestsKey slotId = slotted ''stiq.joinreqs'' slotId"

definition invitesDismissedKey :: "string option \<Rightarrow> string" where
  "invitesDismissedKey slotId = slotted ''stiq.invites.dismissed'' slotId"

definition spaceKeysDeliveredKey :: "string option \<Rightarrow> string" where
  "spaceKeysDeliveredKey slotId = slotted ''stiq.spacekeys.delivered'' slotId"

definition read_json :: "bool \<Rightarrow> storage \<Rightarrow> string \<Rightarrow> jsval option" where
  \<comment> \<open>\<open>JSON.parse(await getItem(key))\<close> where it neither is rejected nor missing nor malformed\<close>
  "read_json rejected st key = (if rejected then None
     else case getItem st key of Some (Json v) \<Rightarrow> Some v | _ \<Rightarrow> None)"

definition write_json :: "bool \<Rightarrow> string \<Rightarrow> jsval \<Rightarrow> storage \<Rightarrow> storage" where
  \<comment> \<open>\<open>try { await setItem(key, JSON.stringify(v)) } catch {}\<close>\<close>
  "write_json rejected key v st = (if rejected then st else setItem key (Json v) st)"

definition loadMyJoinRequests :: "bool \<Rightarrow> storage \<Rightarrow> string option \<Rightarrow> (string \<times> int) list" where
  "loadMyJoinRequests rejected st slotId = (case read_json rejected st (joinRequestsKey slotId) of
       Some (JObj kvs) \<Rightarrow> foldl (\<lambda>out (gid, v). case js_prop v ''sentAt'' of
           Some (JNum t) \<Rightarrow> AList.update gid t out | _ \<Rightarrow> out) [] kvs
     | _ \<Rightarrow> [])"

definition saveMyJoinRequests :: "bool \<Rightarrow> (string \<times> int) list \<Rightarrow> string option \<Rightarrow> storage \<Rightarrow> storage" where
  "saveMyJoinRequests rejected m slotId =
     write_json rejected (joinRequestsKey slotId) (JObj (map (\<lambda>(g, t). (g, JObj [(''sentAt'', JNum t)])) m))"

definition number_entries :: "(string \<times> jsval) list \<Rightarrow> (string \<times> int) list" where
  "number_entries kvs = foldl (\<lambda>out (g, v). case v of JNum t \<Rightarrow> AList.update g t out | _ \<Rightarrow> out) [] kvs"

definition loadDismissedInvites :: "bool \<Rightarrow> int \<Rightarrow> storage \<Rightarrow> string option \<Rightarrow> (string \<times> int) list" where
  "loadDismissedInvites rejected now st slotId = (case read_json rejected st (invitesDismissedKey slotId) of
       Some (JArr xs) \<Rightarrow> foldl (\<lambda>out x. case x of JStr s \<Rightarrow> AList.update s now out | _ \<Rightarrow> out) [] xs
     | Some (JObj kvs) \<Rightarrow> number_entries kvs
     | _ \<Rightarrow> [])"

definition number_object :: "(string \<times> int) list \<Rightarrow> jsval" where
  "number_object m = JObj (map (\<lambda>(g, t). (g, JNum t)) m)"

definition saveDismissedInvites :: "bool \<Rightarrow> (string \<times> int) list \<Rightarrow> string option \<Rightarrow> storage \<Rightarrow> storage" where
  "saveDismissedInvites rejected m slotId = write_json rejected (invitesDismissedKey slotId) (number_object m)"

definition loadDeliveredSpaceKeys :: "bool \<Rightarrow> storage \<Rightarrow> string option \<Rightarrow> (string \<times> int) list" where
  "loadDeliveredSpaceKeys rejected st slotId = (case read_json rejected st (spaceKeysDeliveredKey slotId) of
       Some (JObj kvs) \<Rightarrow> number_entries kvs | _ \<Rightarrow> [])"

definition saveDeliveredSpaceKeys :: "bool \<Rightarrow> (string \<times> int) list \<Rightarrow> string option \<Rightarrow> storage \<Rightarrow> storage" where
  "saveDeliveredSpaceKeys rejected m slotId = write_json rejected (spaceKeysDeliveredKey slotId) (number_object m)"

subsection \<open>membership.ts: requests for a space key\<close>

definition SPACE_KEY_REQUEST_D_PREFIX :: string where "SPACE_KEY_REQUEST_D_PREFIX = ''space-key-request:''"

definition spaceKeyRequestDTag :: "string \<Rightarrow> string" where
  "spaceKeyRequestDTag spaceId = SPACE_KEY_REQUEST_D_PREFIX @ spaceId"

definition buildSpaceKeyRequest :: "int \<Rightarrow> string \<Rightarrow> unsigned_event" where
  "buildSpaceKeyRequest now spaceId =
     space_event KIND_APP_DATA now [[''d'', spaceKeyRequestDTag spaceId], [''h'', spaceId]] ''''"

record SpaceKeyRequest =
  kr_spaceId :: string
  kr_requester :: string
  kr_at :: int

definition parseSpaceKeyRequest :: "event \<Rightarrow> SpaceKeyRequest option" where
  "parseSpaceKeyRequest e =
     (if kind e \<noteq> KIND_APP_DATA then None
      else case tag_value ''d'' (tags e) of
        None \<Rightarrow> None
      | Some d \<Rightarrow>
          if take (length SPACE_KEY_REQUEST_D_PREFIX) d \<noteq> SPACE_KEY_REQUEST_D_PREFIX then None
          else let spaceId = drop (length SPACE_KEY_REQUEST_D_PREFIX) d
               in if spaceId = '''' then None
                  else Some \<lparr>kr_spaceId = spaceId, kr_requester = pubkey e, kr_at = created_at e\<rparr>)"

subsection \<open>groupMembership.ts and encryptedSpaces.ts\<close>

definition joined_key :: "string option \<Rightarrow> string" where
  \<comment> \<open>\<open>keyFor\<close>\<close>
  "joined_key slotId = slotted ''stiq.groups.joined'' slotId"

definition string_entries :: "jsval list \<Rightarrow> string list" where
  "string_entries xs = List.map_filter (\<lambda>x. case x of JStr s \<Rightarrow> Some s | _ \<Rightarrow> None) xs"

definition loadJoinedGroups :: "bool \<Rightarrow> storage \<Rightarrow> string option \<Rightarrow> string list" where
  "loadJoinedGroups rejected st slotId = (case read_json rejected st (joined_key slotId) of
       Some (JArr xs) \<Rightarrow> string_entries xs | _ \<Rightarrow> [])"

definition js_set :: "string list \<Rightarrow> string list" where
  \<comment> \<open>\<open>new Set(xs)\<close> in insertion order\<close>
  "js_set xs = foldl (\<lambda>s x. set_add x s) [] xs"

definition saveJoinedGroups :: "bool \<Rightarrow> string list \<Rightarrow> string option \<Rightarrow> storage \<Rightarrow> storage" where
  "saveJoinedGroups rejected is slotId = write_json rejected (joined_key slotId) (JArr (map JStr (js_set is)))"

record encrypted_spaces =
  es_key :: string
  es_cache :: "string list"

definition es_repoint :: "string option \<Rightarrow> encrypted_spaces \<Rightarrow> encrypted_spaces" where
  \<comment> \<open>the part of \<open>loadEncryptedSpaces\<close> before its \<open>await\<close>\<close>
  "es_repoint slotId s = s\<lparr>es_key := slotted ''stiq.spaces.encrypted'' slotId\<rparr>"

definition es_loaded :: "jsval option \<Rightarrow> encrypted_spaces \<Rightarrow> encrypted_spaces \<times> string list" where
  \<comment> \<open>the part after it, over what the read gave\<close>
  "es_loaded raw s = (let is = (case raw of Some (JArr xs) \<Rightarrow> string_entries xs | _ \<Rightarrow> [])
     in (s\<lparr>es_cache := js_set is\<rparr>, is))"

definition loadEncryptedSpaces :: "bool \<Rightarrow> storage \<Rightarrow> string option \<Rightarrow> encrypted_spaces \<Rightarrow> encrypted_spaces \<times> string list" where
  \<comment> \<open>with no other call during the read\<close>
  "loadEncryptedSpaces rejected st slotId s =
     (let s = es_repoint slotId s in es_loaded (read_json rejected st (es_key s)) s)"

definition addEncryptedSpace :: "bool \<Rightarrow> string \<Rightarrow> encrypted_spaces \<times> storage \<Rightarrow> encrypted_spaces \<times> storage" where
  "addEncryptedSpace rejected i = (\<lambda>(s, st).
     if i \<in> set (es_cache s) then (s, st)
     else let s = s\<lparr>es_cache := set_add i (es_cache s)\<rparr>
          in (s, write_json rejected (es_key s) (JArr (map JStr (es_cache s))) st))"

definition isEncryptedSpace :: "encrypted_spaces \<Rightarrow> string \<Rightarrow> bool" where
  "isEncryptedSpace s i = (i \<in> set (es_cache s))"

subsection \<open>subscriptions.ts and interactions.ts\<close>

definition KIND_CHANNEL_SUBSCRIPTIONS :: nat where "KIND_CHANNEL_SUBSCRIPTIONS = 10009"

definition buildSubscriptionList :: "int \<Rightarrow> string list \<Rightarrow> unsigned_event" where
  "buildSubscriptionList now channelIds = space_event KIND_CHANNEL_SUBSCRIPTIONS now
     (map (\<lambda>i. [''a'', i]) (foldl (\<lambda>seen i. if i \<noteq> '''' then set_add i seen else seen) [] channelIds)) ''''"

definition parseSubscriptions :: "event \<Rightarrow> string list" where
  "parseSubscriptions e = (if kind e \<noteq> KIND_CHANNEL_SUBSCRIPTIONS then []
     else map (\<lambda>t. the (at t 1)) (filter (\<lambda>t. at t 0 = Some ''a'' \<and> truthy (at t 1)) (tags e)))"

definition authored_query :: "nat \<Rightarrow> string \<Rightarrow> feed_query" where
  "authored_query k pk = \<lparr>q_kinds = Some [k], q_authors = Some [pk], q_limit = None, q_unordered = False\<rparr>"

definition subscribedChannelIds :: "mstore \<Rightarrow> string option \<Rightarrow> string list" where
  "subscribedChannelIds st pk = (if \<not> truthy pk then []
     else case js_sort newest_first (query st (authored_query KIND_CHANNEL_SUBSCRIPTIONS (the pk))) of
       [] \<Rightarrow> [] | latest # _ \<Rightarrow> parseSubscriptions latest)"

definition channelSyncIds :: "mstore \<Rightarrow> string option \<Rightarrow> Channel list \<Rightarrow> string list" where
  "channelSyncIds st pk channels = (if \<not> truthy pk then []
     else foldl (\<lambda>s ch. if isChannelAdmin ch (the pk) then set_add (ch_id ch) s else s)
       (js_set (subscribedChannelIds st pk)) channels)"

record PostInteractions =
  pi_comments :: bool
  pi_reactions :: bool

definition CLOSED :: PostInteractions where "CLOSED = \<lparr>pi_comments = False, pi_reactions = False\<rparr>"

definition KIND_SET_INTERACTIONS :: nat where "KIND_SET_INTERACTIONS = 9009"
definition KIND_POST_STATE :: nat where "KIND_POST_STATE = 39005"

definition flag_text :: "bool \<Rightarrow> string" where
  \<comment> \<open>\<open>flag\<close>\<close>
  "flag_text on = (if on then ''1'' else ''0'')"

definition readFlags :: "event \<Rightarrow> PostInteractions" where
  "readFlags e = \<lparr>pi_comments = (tagValue e ''comments'' = Some ''1''), pi_reactions = (tagValue e ''reactions'' = Some ''1'')\<rparr>"

definition buildGroupInteractionControl :: "int \<Rightarrow> string \<Rightarrow> string \<Rightarrow> PostInteractions \<Rightarrow> unsigned_event" where
  "buildGroupInteractionControl now groupId postId perm = space_event KIND_SET_INTERACTIONS now
     [[''h'', groupId], [''e'', postId], [''comments'', flag_text (pi_comments perm)],
      [''reactions'', flag_text (pi_reactions perm)]] ''''"

definition interactions_d :: "string \<Rightarrow> string" where
  "interactions_d postId = ''stiq:interactions:'' @ postId"

definition buildChannelInteractionControl :: "int \<Rightarrow> string \<Rightarrow> PostInteractions \<Rightarrow> unsigned_event" where
  "buildChannelInteractionControl now postId perm = space_event KIND_APP_DATA now
     [[''d'', interactions_d postId], [''e'', postId], [''comments'', flag_text (pi_comments perm)],
      [''reactions'', flag_text (pi_reactions perm)]] ''''"

definition groupPostInteractions :: "mstore \<Rightarrow> string \<Rightarrow> PostInteractions \<Rightarrow> PostInteractions" where
  "groupPostInteractions st postId fallback =
     (case newest_of (filter (\<lambda>e. list_ex (\<lambda>t. at t 0 = Some ''e'' \<and> at t 1 = Some postId) (tags e))
            (by_kind st KIND_POST_STATE @ by_kind st KIND_SET_INTERACTIONS)) of
        Some e \<Rightarrow> readFlags e | None \<Rightarrow> fallback)"

definition channelPostInteractions :: "mstore \<Rightarrow> string \<Rightarrow> string \<Rightarrow> PostInteractions \<Rightarrow> PostInteractions" where
  "channelPostInteractions st ownerPubkey postId fallback =
     (case js_sort newest_first (filter (\<lambda>e. tagValue e ''d'' = Some (interactions_d postId))
            (query st (authored_query KIND_APP_DATA ownerPubkey))) of
        [] \<Rightarrow> fallback | latest # _ \<Rightarrow> readFlags latest)"

section \<open>Outstanding invites\<close>

definition authorized_adds :: "string list \<Rightarrow> (string \<times> SpaceInvitesDoc) list \<Rightarrow> SpaceInvite list" where
  "authorized_adds auth docs = concat (map (\<lambda>(who, d). map (invite_of who) (sd_inv d)) (filter (\<lambda>x. fst x \<in> set auth) docs))"

definition authorized_revokes :: "string list \<Rightarrow> (string \<times> SpaceInvitesDoc) list \<Rightarrow> SpaceRevoke list" where
  "authorized_revokes auth docs = concat (map (\<lambda>(who, d). sd_rev d) (filter (\<lambda>x. fst x \<in> set auth) docs))"

lemma invite_of_frame [simp]: "si_p (invite_of who i) = si_p i" "si_at (invite_of who i) = si_at i"
  by (simp_all add: invite_of_def)

lemma fold_doc_step:
  "fold_doc auth (A, R) (who, d) = (if who \<notin> set auth then (A, R)
     else (foldl (\<lambda>m i. keep_best (>) si_at (si_p i) i m) A (map (invite_of who) (sd_inv d)),
           foldl (\<lambda>m r. keep_best (>) (\<lambda>t. t) (sr_p r) (sr_at r) m) R (sd_rev d)))"
proof -
  have "foldl (\<lambda>m i. keep_best (>) si_at (si_p i) (invite_of who i) m) A is
      = foldl (\<lambda>m i. keep_best (>) si_at (si_p i) i m) A (map (invite_of who) is)" for A "is"
    by (induction "is" arbitrary: A) auto
  then show ?thesis by (simp add: fold_doc_def)
qed

lemma fold_docs_flat:
  "foldl (fold_doc auth) (A, R) docs =
    (foldl (\<lambda>m i. keep_best (>) si_at (si_p i) i m) A (authorized_adds auth docs),
     foldl (\<lambda>m r. keep_best (>) (\<lambda>t. t) (sr_p r) (sr_at r) m) R (authorized_revokes auth docs))"
proof (induction docs arbitrary: A R)
  case (Cons x docs)
  then show ?case
    by (cases x) (simp add: fold_doc_step authorized_adds_def authorized_revokes_def)
qed (simp add: authorized_adds_def authorized_revokes_def)

lemma keyed_fold:
  "map_of (foldl (\<lambda>m x. keep_best better ts (key x) (val x) m) [] xs) p
    = best_of better ts (map val (filter (\<lambda>x. key x = p) xs))"
  "distinct (map fst (foldl (\<lambda>m x. keep_best better ts (key x) (val x) m) [] xs))"
proof -
  have pick: "List.map_filter (\<lambda>x. case Some (key x, val x) of Some (k', v) \<Rightarrow> if k' = p then Some v else None | None \<Rightarrow> None) xs
      = map val (filter (\<lambda>x. key x = p) xs)"
    by (induction xs) (auto simp: List.map_filter_def)
  show "map_of (foldl (\<lambda>m x. keep_best better ts (key x) (val x) m) [] xs) p
    = best_of better ts (map val (filter (\<lambda>x. key x = p) xs))"
    using keep_best_fold[where g = "\<lambda>x. Some (key x, val x)" and better = better and ts = ts and es = xs and k = p] pick by simp
  show "distinct (map fst (foldl (\<lambda>m x. keep_best better ts (key x) (val x) m) [] xs))"
    using keep_best_fold_keys[where g = "\<lambda>x. Some (key x, val x)" and better = better and ts = ts and es = xs] by simp
qed

interpretation invite_age: comparator newest_invite
  by unfold_locales (auto simp: newest_invite_def)

definition stands :: "string list \<Rightarrow> (string \<times> SpaceInvitesDoc) list \<Rightarrow> string list \<Rightarrow> SpaceInvite \<Rightarrow> bool" where
  \<comment> \<open>a newest authorized add of somebody who is no member, newer than every authorized revoke\<close>
  "stands auth docs members i \<longleftrightarrow> i \<in> set (authorized_adds auth docs) \<and> si_p i \<notin> set members
     \<and> (\<forall>j \<in> set (authorized_adds auth docs). si_p j = si_p i \<longrightarrow> si_at j \<le> si_at i)
     \<and> (\<forall>r \<in> set (authorized_revokes auth docs). sr_p r = si_p i \<longrightarrow> sr_at r < si_at i)"

lemma newest_revoke:
  "(case best_of (>) (\<lambda>t. t) (map sr_at (filter (\<lambda>r. sr_p r = p) rs)) of Some t \<Rightarrow> t < (a :: int) | None \<Rightarrow> True)
    \<longleftrightarrow> (\<forall>r \<in> set rs. sr_p r = p \<longrightarrow> sr_at r < a)"
proof (cases "best_of (>) (\<lambda>t. t) (map sr_at (filter (\<lambda>r. sr_p r = p) rs))")
  case None
  then show ?thesis by (auto simp: filter_empty_conv)
next
  case (Some t)
  have "t \<in> sr_at ` {r \<in> set rs. sr_p r = p}" using best_of_mem[OF Some] by auto
  moreover have "sr_at r \<le> t" if "r \<in> set rs" "sr_p r = p" for r
    using newer.best_of_best[OF Some, of "sr_at r"] that by fastforce
  ultimately show ?thesis using Some by force
qed

text \<open>
  C18. The strip of outstanding invites, folded from everybody's documents, lists a person exactly when
  an authorized author invited them later than any authorized author revoked it and they are no
  member yet.  Each person is listed once, with their newest invite, newest first; documents of other
  authors have no effect.
\<close>

theorem outstanding_invites_exact:
  "distinct (map si_p (foldInvites docs auth members))
    \<and> sorted_wrt (\<lambda>a b. si_at b \<le> si_at a) (foldInvites docs auth members)
    \<and> (\<forall>i \<in> set (foldInvites docs auth members). stands auth docs members i)
    \<and> (\<forall>i. stands auth docs members i \<longrightarrow> (\<exists>j \<in> set (foldInvites docs auth members). si_p j = si_p i \<and> si_at j = si_at i))
    \<and> foldInvites (filter (\<lambda>x. fst x \<in> set auth) docs) auth members = foldInvites docs auth members"
proof -
  let ?adds = "authorized_adds auth docs" and ?revs = "authorized_revokes auth docs"
  define A where "A = foldl (\<lambda>m i. keep_best (>) si_at (si_p i) i m) [] ?adds"
  have A: "map_of A p = best_of (>) si_at (filter (\<lambda>i. si_p i = p) ?adds)" for p
    using keyed_fold(1)[of "(>)" si_at si_p "\<lambda>i. i" ?adds p] by (simp add: A_def)
  have dist: "distinct (map fst A)" unfolding A_def by (rule keyed_fold(2))
  define keep where "keep = (\<lambda>(pk, i :: SpaceInvite). pk \<notin> set members \<and> (\<forall>r \<in> set ?revs. sr_p r = pk \<longrightarrow> sr_at r < si_at i))"
  have out: "foldInvites docs auth members = js_sort newest_invite (map snd (filter keep A))"
    unfolding foldInvites_def fold_docs_flat A_def[symmetric] keep_def Let_def prod.case
      keyed_fold(1)[of "(>)" "\<lambda>t. t" sr_p sr_at] newest_revoke ..
  have entry: "(p, i) \<in> set A \<longleftrightarrow> best_of (>) si_at (filter (\<lambda>i. si_p i = p) ?adds) = Some i" for p i
    using A[of p] map_of_distinct_mem[OF dist, of p i] by simp
  have key: "si_p i = p" if "(p, i) \<in> set A" for p i
    using best_of_mem[OF that[unfolded entry]] by simp
  have stands: "stands auth docs members i" if i: "(p, i) \<in> set A" "keep (p, i)" for p i
  proof -
    note b = i(1)[unfolded entry]
    have "si_at j \<le> si_at i" if "j \<in> set ?adds" "si_p j = p" for j
      using newer.best_of_best[OF b, of j] that by fastforce
    with best_of_mem[OF b] i(2) show ?thesis by (auto simp: stands_def keep_def)
  qed
  have found: "\<exists>j. (si_p i, j) \<in> set A \<and> keep (si_p i, j) \<and> si_at j = si_at i" if s: "stands auth docs members i" for i
  proof -
    have "i \<in> set (filter (\<lambda>j. si_p j = si_p i) ?adds)" using s by (simp add: stands_def)
    then have "filter (\<lambda>j. si_p j = si_p i) ?adds \<noteq> []" by (metis empty_iff empty_set)
    then obtain j where j: "best_of (>) si_at (filter (\<lambda>j. si_p j = si_p i) ?adds) = Some j"
      by (metis best_of_None not_None_eq)
    have "j \<in> set ?adds" "si_p j = si_p i" using best_of_mem[OF j] by auto
    moreover have "si_at i \<le> si_at j" using newer.best_of_best[OF j \<open>i \<in> _\<close>] by fastforce
    moreover have "si_at j \<le> si_at i" using s calculation(1,2) by (auto simp: stands_def)
    ultimately have "si_at j = si_at i" by simp
    with j s entry[of "si_p i" j] show ?thesis by (auto simp: keep_def stands_def)
  qed
  have "distinct (map fst (filter keep A))" by (rule distinct_map_filter[OF dist])
  moreover have "map si_p (map snd (filter keep A)) = map fst (filter keep A)" using key by (auto simp: comp_def)
  ultimately have d: "distinct (map si_p (map snd (filter keep A)))" by metis
  have same: "authorized_adds auth (filter (\<lambda>x. fst x \<in> set auth) docs) = ?adds"
    "authorized_revokes auth (filter (\<lambda>x. fst x \<in> set auth) docs) = ?revs"
    by (simp_all add: authorized_adds_def authorized_revokes_def)
  show ?thesis
  proof (intro conjI)
    show "distinct (map si_p (foldInvites docs auth members))" unfolding out distinct_map_js_sort by (rule d)
    show "sorted_wrt (\<lambda>a b. si_at b \<le> si_at a) (foldInvites docs auth members)"
      using invite_age.sorted_js_sort unfolding out newest_invite_def by simp
    show "\<forall>i \<in> set (foldInvites docs auth members). stands auth docs members i"
      unfolding out using stands by auto
    show "\<forall>i. stands auth docs members i \<longrightarrow> (\<exists>j \<in> set (foldInvites docs auth members). si_p j = si_p i \<and> si_at j = si_at i)"
    proof (intro allI impI)
      fix i assume "stands auth docs members i"
      from found[OF this] obtain j where j: "(si_p i, j) \<in> set A" "keep (si_p i, j)" "si_at j = si_at i" by blast
      then have "j \<in> set (foldInvites docs auth members)" unfolding out by force
      with j key show "\<exists>j \<in> set (foldInvites docs auth members). si_p j = si_p i \<and> si_at j = si_at i" by blast
    qed
    show "foldInvites (filter (\<lambda>x. fst x \<in> set auth) docs) auth members = foldInvites docs auth members"
      unfolding foldInvites_def fold_docs_flat same ..
  qed
qed

theorem outstanding_invites_exact_witness:
  "let add = (\<lambda>t. \<lparr>si_p = ''bob'', si_by = ''ann'', si_at = t\<rparr>);
       docs = [(''ann'', \<lparr>sd_inv = [add 5], sd_rev = []\<rparr>), (''eve'', \<lparr>sd_inv = [], sd_rev = [\<lparr>sr_p = ''bob'', sr_at = 9\<rparr>]\<rparr>)]
   in \<exists>j \<in> set (foldInvites docs [''ann''] [''ann'']). si_p j = ''bob'' \<and> si_at j = 5"
  using outstanding_invites_exact[of "[(''ann'', \<lparr>sd_inv = [\<lparr>si_p = ''bob'', si_by = ''ann'', si_at = 5\<rparr>], sd_rev = []\<rparr>),
      (''eve'', \<lparr>sd_inv = [], sd_rev = [\<lparr>sr_p = ''bob'', sr_at = 9\<rparr>]\<rparr>)]" "[''ann'']" "[''ann'']"]
  by (auto simp: stands_def authorized_adds_def authorized_revokes_def invite_of_def)

section \<open>Documents read back\<close>

lemma hex_lower_id:
  assumes "\<forall>c \<in> set s. \<exists>d < 16. c = hex_digit d"
  shows "toLowerCase s = s" "list_all hex_char s"
proof -
  have "\<forall>d \<in> set [0..<16]. lower_char (hex_digit d) = hex_digit d"
    by (simp add: lower_char_def hex_digit_def upt_rec Let_def)
  with assms show "toLowerCase s = s" by (force simp: toLowerCase_def intro!: map_idI)
  from assms show "list_all hex_char s" using hex_char_digit by (force simp: list_all_iff)
qed

definition plain_key :: "string \<Rightarrow> bool" where
  \<comment> \<open>a public key as the application writes it: 64 lower-case digits\<close>
  "plain_key s \<longleftrightarrow> length s = 64 \<and> (\<forall>c \<in> set s. \<exists>d < 16. c = hex_digit d)"

lemma plain_key_reads [simp]: "plain_key s \<Longrightarrow> hex_key s" "plain_key s \<Longrightarrow> toLowerCase s = s"
  using hex_lower_id by (simp_all add: plain_key_def hex_key_def)

lemma hex_key_Nil [simp]: "\<not> hex_key ''''"
  by (simp add: hex_key_def)

lemma map_filter_all: "(\<And>x. x \<in> set xs \<Longrightarrow> f (g x) = Some x) \<Longrightarrow> List.map_filter f (map g xs) = xs"
  by (induction xs) (auto simp: List.map_filter_def)

lemma invites_doc_roundtrip:
  assumes "\<forall>i \<in> set (sd_inv d). plain_key (si_p i) \<and> (si_by i = '''' \<or> plain_key (si_by i))"
    and "\<forall>r \<in> set (sd_rev d). plain_key (sr_p r)"
  shows "parseInvitesDoc (encodeInvitesDoc d) = Some d"
proof -
  have "invite_entry (JObj [(''p'', JStr (si_p i)), (''by'', JStr (si_by i)), (''at'', JNum (si_at i))]) = Some i"
    if "i \<in> set (sd_inv d)" for i
    using assms(1) that by (auto simp: invite_entry_def pk_at_def js_prop_def)
  moreover have "revoke_entry (JObj [(''p'', JStr (sr_p r)), (''at'', JNum (sr_at r))]) = Some r"
    if "r \<in> set (sd_rev d)" for r
    using assms(2) that by (auto simp: revoke_entry_def pk_at_def js_prop_def)
  ultimately show ?thesis
    by (simp add: parseInvitesDoc_def encodeInvitesDoc_def is_object_def js_prop_def arr_prop_def map_filter_all)
qed

lemma updates_new:
  "distinct (map fst acc @ map fst kvs) \<Longrightarrow> foldl (\<lambda>out (k, v). AList.update k v out) acc kvs = acc @ kvs"
  by (induction kvs arbitrary: acc) (auto simp: values_update_new)

lemma join_note_roundtrip:
  assumes "seals \<noteq> []" and "distinct (map fst seals)" and "\<forall>(pk, ct) \<in> set seals. plain_key pk \<and> ct \<noteq> ''''"
  shows "parseJoinNoteContent (encodeJoinNoteContent seals) = Some seals"
proof -
  have "foldl (\<lambda>out (pk, ct). case ct of JStr s \<Rightarrow> if hex_key pk \<and> s \<noteq> '''' then AList.update (toLowerCase pk) s out else out
       | _ \<Rightarrow> out) acc (map (\<lambda>(pk, ct). (pk, JStr ct)) kvs) = foldl (\<lambda>out (k, v). AList.update k v out) acc kvs"
    if "set kvs \<subseteq> set seals" for acc kvs
    using that assms(3) by (induction kvs arbitrary: acc) auto
  then show ?thesis
    using assms(1,2) updates_new[of "[]" seals]
    by (simp add: parseJoinNoteContent_def encodeJoinNoteContent_def is_object_def js_prop_def)
qed

lemma join_payload_roundtrip:
  assumes "\<And>s. jn_name p = Some s \<Longrightarrow> s \<noteq> '''' \<and> length s \<le> 80"
    and "\<And>s. jn_text p = Some s \<Longrightarrow> s \<noteq> '''' \<and> length s \<le> MAX_JOIN_NOTE"
  shows "parseJoinNotePayload (encodeJoinNotePayload p) = Some p"
  using assms
  by (cases p; cases "jn_name p"; cases "jn_text p")
     (auto simp: parseJoinNotePayload_def encodeJoinNotePayload_def clipped_def is_object_def str_prop_def js_prop_def)

lemma space_key_request_roundtrip:
  "spaceId \<noteq> '''' \<Longrightarrow> parseSpaceKeyRequest (signed_event i pk (buildSpaceKeyRequest now spaceId))
     = Some \<lparr>kr_spaceId = spaceId, kr_requester = pk, kr_at = now\<rparr>"
  by (simp add: parseSpaceKeyRequest_def signed_event_def buildSpaceKeyRequest_def space_event_def tag_value_Cons
      spaceKeyRequestDTag_def SPACE_KEY_REQUEST_D_PREFIX_def)

text \<open>The admins' queue: the newest request of every requester to this group.\<close>

lemma latest_join_requests:
  "map_of (latestJoinRequests st g) pk
     = newest_of (filter (\<lambda>e. pubkey e = pk) (filter (\<lambda>e. eventGroupId e = Some g) (by_kind st (gk GJoinRequest))))"
proof -
  have step: "foldl (\<lambda>latest e. if eventGroupId e \<noteq> Some g then latest else keep_best (>) created_at (pubkey e) e latest) m evs
      = foldl (\<lambda>m e. keep_best (>) created_at (pubkey e) e m) m (filter (\<lambda>e. eventGroupId e = Some g) evs)" for m evs
    by (induction evs arbitrary: m) auto
  show ?thesis
    using keyed_fold(1)[of "(>)" created_at pubkey "\<lambda>e. e"] by (simp only: latestJoinRequests_def step list.map_ident)
qed

section \<open>Local records\<close>

lemma number_entries_object:
  "distinct (map fst m) \<Longrightarrow> number_entries (map (\<lambda>(g, t). (g, JNum t)) m) = m"
proof -
  have "foldl (\<lambda>out (g, v). case v of JNum t \<Rightarrow> AList.update g t out | _ \<Rightarrow> out) acc (map (\<lambda>(g, t). (g, JNum t)) m)
      = foldl (\<lambda>out (k, v). AList.update k v out) acc m" for acc
    by (induction m arbitrary: acc) auto
  then show "distinct (map fst m) \<Longrightarrow> ?thesis" using updates_new[of "[]" m] by (simp add: number_entries_def)
qed

lemma join_requests_persist:
  assumes "distinct (map fst m)"
  shows "loadMyJoinRequests False (saveMyJoinRequests False m slot st) slot = m"
proof -
  have "foldl (\<lambda>out (gid, v). case js_prop v ''sentAt'' of Some (JNum t) \<Rightarrow> AList.update gid t out | _ \<Rightarrow> out) acc
       (map (\<lambda>(g, t). (g, JObj [(''sentAt'', JNum t)])) m) = foldl (\<lambda>out (k, v). AList.update k v out) acc m" for acc
    by (induction m arbitrary: acc) (auto simp: js_prop_def)
  then show ?thesis
    using assms updates_new[of "[]" m]
    by (simp add: loadMyJoinRequests_def saveMyJoinRequests_def read_json_def write_json_def storage_simps)
qed

lemma dismissed_and_delivered_persist:
  assumes "distinct (map fst m)"
  shows "loadDismissedInvites False now (saveDismissedInvites False m slot st) slot = m"
    "loadDeliveredSpaceKeys False (saveDeliveredSpaceKeys False m slot st) slot = m"
  using assms
  by (simp_all add: loadDismissedInvites_def saveDismissedInvites_def loadDeliveredSpaceKeys_def saveDeliveredSpaceKeys_def
      read_json_def write_json_def number_object_def number_entries_object storage_simps)

lemma js_set_snoc: "js_set (xs @ [x]) = set_add x (js_set xs)"
  by (simp add: js_set_def)

lemma js_set_set [simp]: "set (js_set xs) = set xs" "distinct (js_set xs)"
  by (induction xs rule: rev_induct) (auto simp: js_set_snoc, simp_all add: js_set_def)

lemma js_set_id: "distinct xs \<Longrightarrow> js_set xs = xs"
  by (induction xs rule: rev_induct) (auto simp: js_set_snoc set_add_def, simp add: js_set_def)

lemma string_entries_strings [simp]: "string_entries (map JStr xs) = xs"
  unfolding string_entries_def by (rule map_filter_all) simp

lemma joined_groups_persist: "loadJoinedGroups False (saveJoinedGroups False is slot st) slot = js_set is"
  by (simp add: loadJoinedGroups_def saveJoinedGroups_def read_json_def write_json_def storage_simps)

section \<open>Encrypted spaces\<close>

datatype es_op = ELoad "string option" | EAdd bool string \<comment> \<open>the flag: the write is rejected\<close>

fun es_step :: "encrypted_spaces \<times> storage \<Rightarrow> es_op \<Rightarrow> encrypted_spaces \<times> storage" where
  "es_step (s, st) (ELoad slot) = (fst (loadEncryptedSpaces False st slot s), st)"
| "es_step (s, st) (EAdd rejected i) = addEncryptedSpace rejected i (s, st)"

definition es_start :: "encrypted_spaces \<times> storage" where
  "es_start = (\<lparr>es_key = slotted ''stiq.spaces.encrypted'' None, es_cache = []\<rparr>, [])"

record es_spec =
  \<comment> \<open>what is known for each account, which account is active, what is treated as encrypted now\<close>
  known :: "string option \<Rightarrow> string set"
  active :: "string option"
  now_encrypted :: "string set"

fun es_spec_step :: "es_spec \<Rightarrow> es_op \<Rightarrow> es_spec" where
  "es_spec_step a (ELoad slot) = a\<lparr>active := slot, now_encrypted := known a slot\<rparr>"
| "es_spec_step a (EAdd rejected i) = (if i \<in> now_encrypted a then a
     else let s = insert i (now_encrypted a)
          in a\<lparr>now_encrypted := s, known := (if rejected then known a else (known a)(active a := s))\<rparr>)"

definition es_spec_start :: es_spec where
  "es_spec_start = \<lparr>known = (\<lambda>_. {}), active = None, now_encrypted = {}\<rparr>"

definition stored_spaces :: "storage \<Rightarrow> string option \<Rightarrow> string list" where
  "stored_spaces st slot = (case read_json False st (slotted ''stiq.spaces.encrypted'' slot) of
     Some (JArr xs) \<Rightarrow> string_entries xs | _ \<Rightarrow> [])"

definition es_related :: "encrypted_spaces \<times> storage \<Rightarrow> es_spec \<Rightarrow> bool" where
  "es_related = (\<lambda>(s, st) a. active a \<noteq> Some '''' \<and> es_key s = slotted ''stiq.spaces.encrypted'' (active a)
     \<and> set (es_cache s) = now_encrypted a \<and> (\<forall>slot. slot \<noteq> Some '''' \<longrightarrow> set (stored_spaces st slot) = known a slot))"

lemma getItem_Nil [simp]: "getItem [] k = None"
  by (simp add: getItem_def)

lemma slotted_inject: "a \<noteq> Some '''' \<Longrightarrow> b \<noteq> Some '''' \<Longrightarrow> slotted p a = slotted p b \<longleftrightarrow> a = b"
  by (cases a; cases b) (auto simp: slotted_def)

lemma stored_write:
  "slot \<noteq> Some '''' \<Longrightarrow> slot' \<noteq> Some '''' \<Longrightarrow>
   stored_spaces (write_json rejected (slotted ''stiq.spaces.encrypted'' slot) (JArr (map JStr xs)) st) slot'
     = (if slot' = slot \<and> \<not> rejected then xs else stored_spaces st slot')"
  by (auto simp: stored_spaces_def write_json_def read_json_def storage_simps slotted_inject)

lemma es_related_step:
  assumes "es_related c a" and "op \<noteq> ELoad (Some '''')"
  shows "es_related (es_step c op) (es_spec_step a op)"
proof (cases c)
  case (Pair s st)
  note r = assms(1)[unfolded Pair es_related_def prod.case]
  show ?thesis
  proof (cases op)
    case (ELoad slot)
    have "set (es_cache (fst (loadEncryptedSpaces False st slot s))) = set (stored_spaces st slot)"
      by (simp add: loadEncryptedSpaces_def es_repoint_def es_loaded_def stored_spaces_def Let_def)
    with r assms(2) ELoad Pair show ?thesis by (simp add: es_related_def loadEncryptedSpaces_def es_repoint_def es_loaded_def Let_def)
  next
    case (EAdd rejected i)
    show ?thesis
    proof (cases "i \<in> set (es_cache s)")
      case True
      with r EAdd Pair show ?thesis by (simp add: addEncryptedSpace_def es_related_def)
    next
      case False
      have key: "es_key s = slotted ''stiq.spaces.encrypted'' (active a)" "active a \<noteq> Some ''''" using r by simp_all
      show ?thesis
        using r False EAdd Pair stored_write[OF key(2), of _ rejected "set_add i (es_cache s)" st]
        by (simp add: addEncryptedSpace_def es_related_def Let_def key(1))
    qed
  qed
qed

text \<open>
  The record of encrypted spaces is a set per account.  Over any sequence of account switches,
  restarts and additions, some of whose writes are rejected, a space counts as encrypted exactly if
  it was added under the active account, in this session or with a write that went through; a space
  just added counts at once, and one account's spaces never show under another.
\<close>

theorem encrypted_spaces_refine:
  assumes "ELoad (Some '''') \<notin> set ops"
  shows "isEncryptedSpace (fst (foldl es_step es_start ops)) i \<longleftrightarrow> i \<in> now_encrypted (foldl es_spec_step es_spec_start ops)"
proof -
  have "es_related (foldl es_step c ops) (foldl es_spec_step a ops)"
    if "es_related c a" "ELoad (Some '''') \<notin> set ops" for c a ops
    using that
  proof (induction ops arbitrary: c a)
    case (Cons op ops)
    then have "es_related (es_step c op) (es_spec_step a op)" by (intro es_related_step) auto
    with Cons show ?case by simp
  qed simp
  moreover have "es_related es_start es_spec_start"
    by (simp add: es_related_def es_start_def es_spec_start_def stored_spaces_def read_json_def getItem_def)
  ultimately have "es_related (foldl es_step es_start ops) (foldl es_spec_step es_spec_start ops)" using assms by blast
  then show ?thesis by (auto simp: es_related_def isEncryptedSpace_def split: prod.splits)
qed

theorem encrypted_spaces_refine_witness:
  "isEncryptedSpace (fst (foldl es_step es_start [ELoad (Some ''a''), EAdd False ''g'', ELoad (Some ''b''), ELoad (Some ''a'')])) ''g''"
  by (subst encrypted_spaces_refine) (simp_all add: es_spec_start_def Let_def)

text \<open>
  A rejected read is taken for an empty set, and the next addition writes that set back: the spaces
  stored before are forgotten.
\<close>

lemma rejected_load_forgets_spaces:
  "let (s, st) = foldl es_step es_start [ELoad (Some ''a''), EAdd False ''g''];
       s = fst (loadEncryptedSpaces True st (Some ''a'') s);
       (s, st) = addEncryptedSpace False ''h'' (s, st)
   in \<not> isEncryptedSpace s ''g'' \<and> \<not> isEncryptedSpace (fst (loadEncryptedSpaces False st (Some ''a'') s)) ''g''"
  by (simp add: es_start_def loadEncryptedSpaces_def es_repoint_def es_loaded_def addEncryptedSpace_def isEncryptedSpace_def read_json_def write_json_def
      slotted_def storage_simps js_set_def set_add_def string_entries_def List.map_filter_def Let_def)

text \<open>
  An addition made while a switch waits for its read is written under the new account's name with the
  old account's set: the new account's stored spaces are lost.
\<close>

lemma interrupted_switch_overwrites:
  "let (s, st) = foldl es_step es_start [ELoad (Some ''b''), EAdd False ''h'', ELoad (Some ''a''), EAdd False ''g''];
       s = es_repoint (Some ''b'') s;
       raw = read_json False st (es_key s);
       (s, st) = addEncryptedSpace False ''x'' (s, st);
       s = fst (es_loaded raw s)
   in isEncryptedSpace s ''h'' \<and> stored_spaces st (Some ''b'') = [''g'', ''x'']"
  by (simp add: es_start_def loadEncryptedSpaces_def es_repoint_def es_loaded_def addEncryptedSpace_def isEncryptedSpace_def
      read_json_def write_json_def slotted_def storage_simps js_set_def set_add_def string_entries_def stored_spaces_def
      List.map_filter_def Let_def)

section \<open>Subscriptions and interactions\<close>

lemma authored_events:
  "query (run ops) (authored_query k pk) = js_sort newest_first (filter (\<lambda>e. kind e = k \<and> pubkey e = pk) (cached (run ops)))"
  by (simp add: query_eq_spec[OF store_ok_run] query_spec_def authored_query_def conj_commute)

lemma newest_authored:
  assumes "e \<in> set (cached (run ops))" "kind e = k" "pubkey e = pk" "P e"
    and "\<And>x. x \<in> set (cached (run ops)) \<Longrightarrow> kind x = k \<Longrightarrow> pubkey x = pk \<Longrightarrow> P x \<Longrightarrow> x \<noteq> e \<Longrightarrow> created_at x < created_at e"
  shows "\<exists>es. js_sort newest_first (filter P (query (run ops) (authored_query k pk))) = e # es"
proof -
  let ?evs = "filter P (query (run ops) (authored_query k pk))"
  have set: "x \<in> set ?evs \<longleftrightarrow> x \<in> set (cached (run ops)) \<and> kind x = k \<and> pubkey x = pk \<and> P x" for x
    by (auto simp: authored_events)
  have e: "e \<in> set ?evs" using assms(1-4) by (simp only: set simp_thms)
  then have ne: "?evs \<noteq> []" by (metis empty_iff empty_set)
  have "newest_first (hd (js_sort newest_first ?evs)) e \<le> 0" by (rule recency.hd_js_sort_least[OF ne e])
  moreover have "hd (js_sort newest_first ?evs) \<in> set ?evs"
    using ne by (metis hd_in_set length_js_sort length_0_conv set_js_sort)
  ultimately have "hd (js_sort newest_first ?evs) = e"
    using assms(5) set by (fastforce simp: newest_first_def)
  moreover have "js_sort newest_first ?evs \<noteq> []" using ne by (metis length_js_sort length_0_conv)
  ultimately show ?thesis by (metis list.collapse)
qed

lemma parse_subscription_list:
  "parseSubscriptions (signed_event i pk (buildSubscriptionList now is)) = js_set (filter (\<lambda>i. i \<noteq> '''') is)"
proof -
  have "foldl (\<lambda>seen i. if i \<noteq> '''' then set_add i seen else seen) acc is
      = foldl (\<lambda>s x. set_add x s) acc (filter (\<lambda>i. i \<noteq> '''') is)" for acc
    by (induction "is" arbitrary: acc) auto
  then have l: "foldl (\<lambda>seen i. if i \<noteq> '''' then set_add i seen else seen) [] is = js_set (filter (\<lambda>i. i \<noteq> '''') is)"
    by (simp add: js_set_def)
  have "map (\<lambda>t. the (at t 1)) (filter (\<lambda>t. at t 0 = Some ''a'' \<and> truthy (at t 1)) (map (\<lambda>i. [''a'', i]) xs)) = xs"
    if "'''' \<notin> set xs" for xs
    using that by (induction xs) auto
  from this[of "js_set (filter (\<lambda>i. i \<noteq> '''') is)"] show ?thesis
    by (simp del: map_map filter_map add: parseSubscriptions_def signed_event_def buildSubscriptionList_def space_event_def l
        KIND_CHANNEL_SUBSCRIPTIONS_def)
qed

text \<open>The newest list of an author is what they follow, duplicates removed; other authors have no say.\<close>

lemma newest_subscriptions_win:
  assumes "e = signed_event i pk (buildSubscriptionList now is)" and "pk \<noteq> ''''" and "e \<in> set (cached (run ops))"
    and "\<And>x. x \<in> set (cached (run ops)) \<Longrightarrow> kind x = KIND_CHANNEL_SUBSCRIPTIONS \<Longrightarrow> pubkey x = pk \<Longrightarrow> x \<noteq> e \<Longrightarrow>
      created_at x < created_at e"
  shows "subscribedChannelIds (run ops) (Some pk) = js_set (filter (\<lambda>i. i \<noteq> '''') is)"
proof -
  have e: "kind e = KIND_CHANNEL_SUBSCRIPTIONS" "pubkey e = pk"
    by (simp_all add: assms(1) signed_event_def buildSubscriptionList_def space_event_def)
  obtain es where "js_sort newest_first (query (run ops) (authored_query KIND_CHANNEL_SUBSCRIPTIONS pk)) = e # es"
    using newest_authored[where P = "\<lambda>_. True" and e = e and k = KIND_CHANNEL_SUBSCRIPTIONS and pk = pk and ops = ops] assms(3,4) e
    by auto
  then show ?thesis
    using assms(2) parse_subscription_list[of i pk now "is"] by (simp add: subscribedChannelIds_def assms(1))
qed

lemma channel_sync_ids:
  "pk \<noteq> '''' \<Longrightarrow> set (channelSyncIds st (Some pk) channels)
     = set (subscribedChannelIds st (Some pk)) \<union> {ch_id c |c. c \<in> set channels \<and> isChannelAdmin c pk}"
proof -
  have "set (foldl (\<lambda>s ch. if isChannelAdmin ch pk then set_add (ch_id ch) s else s) acc channels)
      = set acc \<union> {ch_id c |c. c \<in> set channels \<and> isChannelAdmin c pk}" for acc
    by (induction channels arbitrary: acc) auto
  then show "pk \<noteq> '''' \<Longrightarrow> ?thesis" by (simp add: channelSyncIds_def)
qed

lemma interactions_read_back:
  "readFlags (signed_event i pk (buildGroupInteractionControl now g postId perm)) = perm"
  "readFlags (signed_event i pk (buildChannelInteractionControl now postId perm)) = perm"
  by (cases perm; simp add: readFlags_def signed_event_def buildGroupInteractionControl_def buildChannelInteractionControl_def
      space_event_def tagValue_def tag_value_Cons flag_text_def)+

text \<open>The newest control of the channel's owner decides whether a post is open; until then the default holds.\<close>

lemma owner_opens_post:
  assumes "e = signed_event i owner (buildChannelInteractionControl now postId perm)" and "e \<in> set (cached (run ops))"
    and "\<And>x. x \<in> set (cached (run ops)) \<Longrightarrow> kind x = KIND_APP_DATA \<Longrightarrow> pubkey x = owner \<Longrightarrow>
      tagValue x ''d'' = Some (interactions_d postId) \<Longrightarrow> x \<noteq> e \<Longrightarrow> created_at x < created_at e"
  shows "channelPostInteractions (run ops) owner postId fallback = perm"
proof -
  have e: "kind e = KIND_APP_DATA" "pubkey e = owner" "tagValue e ''d'' = Some (interactions_d postId)"
    by (simp_all add: assms(1) signed_event_def buildChannelInteractionControl_def space_event_def tagValue_def
        tag_value_Cons interactions_d_def)
  obtain es where "js_sort newest_first (filter (\<lambda>e. tagValue e ''d'' = Some (interactions_d postId))
      (query (run ops) (authored_query KIND_APP_DATA owner))) = e # es"
    using newest_authored[where P = "\<lambda>e. tagValue e ''d'' = Some (interactions_d postId)" and e = e and ops = ops
        and k = KIND_APP_DATA and pk = owner] assms(2,3) e by auto
  then show ?thesis by (simp add: channelPostInteractions_def interactions_read_back assms(1))
qed


end
