(* ===== verification/SpaceKeys.thy ===== *)
theory SpaceKeys
  imports Membership
begin

text \<open>
  \<open>client/src/channels/groupCrypto.ts\<close>: the keys of encrypted spaces, their delivery to members, the
  fragment of an invitation link, and their storage by account and epoch.

  NIP-44 (\<open>nostr-tools\<close>) is the record \<open>nip44\<close> of functions.  \<open>Number\<close> on a text is the argument
  \<open>number\<close>, \<^const>\<open>None\<close> for what is no integer.  The base64 codec of this file is separate from the
  one of \<open>util/base64.ts\<close>; its decoder shifts a 32-bit integer without masking it as well.  The
  secure store is an association list of texts whose calls succeed.
\<close>

section \<open>Definitions\<close>

subsection \<open>The local base64 codec\<close>

definition B64 :: string where
  "B64 = ''ABCDEFGHIJKLMNOPQRSTUVWXYZabcdefghijklmnopqrstuvwxyz0123456789+/''"

definition B64URL :: string where
  "B64URL = ''ABCDEFGHIJKLMNOPQRSTUVWXYZabcdefghijklmnopqrstuvwxyz0123456789-_''"

definition alphabet_char :: "string \<Rightarrow> i32 \<Rightarrow> char" where
  "alphabet_char alphabet w = alphabet ! unat w"

definition encode_group :: "string \<Rightarrow> bool \<Rightarrow> u8 \<Rightarrow> u8 option \<Rightarrow> u8 option \<Rightarrow> string" where
  \<comment> \<open>one pass of the loop; a missing byte counts as 0\<close>
  "encode_group alphabet pad b0 b1o b2o =
     (let b1 = (case b1o of None \<Rightarrow> 0 | Some b \<Rightarrow> b); b2 = (case b2o of None \<Rightarrow> 0 | Some b \<Rightarrow> b) in
      [alphabet_char alphabet (drop_bit 2 (ucast b0)),
       alphabet_char alphabet (push_bit 4 (ucast b0 AND 3) OR drop_bit 4 (ucast b1))]
      @ (if b1o \<noteq> None then [alphabet_char alphabet (push_bit 2 (ucast b1 AND 15) OR drop_bit 6 (ucast b2))]
         else if pad then ''='' else '''')
      @ (if b2o \<noteq> None then [alphabet_char alphabet (ucast b2 AND 63)] else if pad then ''='' else ''''))"

fun encodeWithAlphabet :: "u8 list \<Rightarrow> string \<Rightarrow> bool \<Rightarrow> string" where
  "encodeWithAlphabet [] alphabet pad = ''''"
| "encodeWithAlphabet [b0] alphabet pad = encode_group alphabet pad b0 None None"
| "encodeWithAlphabet [b0, b1] alphabet pad = encode_group alphabet pad b0 (Some b1) None"
| "encodeWithAlphabet (b0 # b1 # b2 # bs) alphabet pad =
     encode_group alphabet pad b0 (Some b1) (Some b2) @ encodeWithAlphabet bs alphabet pad"

definition base64FromBytes :: "u8 list \<Rightarrow> string" where
  "base64FromBytes bytes = encodeWithAlphabet bytes B64 True"

definition base64UrlFromBytes :: "u8 list \<Rightarrow> string" where
  "base64UrlFromBytes bytes = encodeWithAlphabet bytes B64URL False"

definition lookup_char :: "string \<Rightarrow> char \<Rightarrow> nat option" where
  \<comment> \<open>\<open>lookup.get(ch)\<close>\<close>
  "lookup_char alphabet c = map_of (zip alphabet [0..<length alphabet]) c"

fun decode_loop :: "string \<Rightarrow> i32 \<Rightarrow> nat \<Rightarrow> string \<Rightarrow> codec_error + u8 list" where
  "decode_loop alphabet buffer bits [] = Inr []"
| "decode_loop alphabet buffer bits (c # cs) = (case lookup_char alphabet c of
       None \<Rightarrow> Inl InvalidBase64
     | Some v \<Rightarrow>
         (let buffer = push_bit 6 buffer OR of_nat v; bits = bits + 6
          in if 8 \<le> bits
             then map_sum id ((#) (ucast (signed_drop_bit (bits - 8) buffer AND 255)))
                    (decode_loop alphabet buffer (bits - 8) cs)
             else decode_loop alphabet buffer bits cs))"

definition decodeWithAlphabet :: "string \<Rightarrow> string \<Rightarrow> codec_error + u8 list" where
  "decodeWithAlphabet s alphabet = decode_loop alphabet 0 0 s"

definition strip_pads :: "string \<Rightarrow> string" where
  \<comment> \<open>\<open>s.replace(/=+$/, '')\<close>\<close>
  "strip_pads s = rev (dropWhile (\<lambda>c. c = CHR ''='') (rev s))"

definition bytesFromBase64 :: "string \<Rightarrow> codec_error + u8 list" where
  "bytesFromBase64 b64 = decodeWithAlphabet (strip_pads b64) B64"

definition bytesFromBase64Url :: "string \<Rightarrow> codec_error + u8 list" where
  "bytesFromBase64Url s = decodeWithAlphabet (strip_pads s) B64URL"

subsection \<open>Delivery to a member\<close>

definition SPACE_KEY_BYTES :: nat where "SPACE_KEY_BYTES = 32"
definition KIND_SPACE_KEY_DELIVERY :: nat where "KIND_SPACE_KEY_DELIVERY = 30079"

record nip44 =
  conversationKey :: "u8 list \<Rightarrow> string \<Rightarrow> u8 list"
  n44_encrypt :: "string \<Rightarrow> u8 list \<Rightarrow> string"
  n44_decrypt :: "string \<Rightarrow> u8 list \<Rightarrow> string option" \<comment> \<open>\<^const>\<open>None\<close>: it throws\<close>

datatype key_failure = DecryptFailed | BadKeyText codec_error | WrongKeyLength

definition encryptForSpace :: "nip44 \<Rightarrow> string \<Rightarrow> u8 list \<Rightarrow> string" where
  "encryptForSpace N plaintext key = n44_encrypt N plaintext key"

definition decryptForSpace :: "nip44 \<Rightarrow> string \<Rightarrow> u8 list \<Rightarrow> string option" where
  "decryptForSpace N ciphertext key = n44_decrypt N ciphertext key"

definition wrapKeyForMember :: "nip44 \<Rightarrow> u8 list \<Rightarrow> u8 list \<Rightarrow> string \<Rightarrow> string" where
  "wrapKeyForMember N key senderSk memberPubkey =
     n44_encrypt N (base64FromBytes key) (conversationKey N senderSk memberPubkey)"

definition unwrapKeyFromSender :: "nip44 \<Rightarrow> string \<Rightarrow> u8 list \<Rightarrow> string \<Rightarrow> key_failure + u8 list" where
  "unwrapKeyFromSender N wrapped recipientSk senderPubkey =
     (case n44_decrypt N wrapped (conversationKey N recipientSk senderPubkey) of
        None \<Rightarrow> Inl DecryptFailed
      | Some b64 \<Rightarrow> (case bytesFromBase64 b64 of
          Inl e \<Rightarrow> Inl (BadKeyText e)
        | Inr key \<Rightarrow> if length key \<noteq> SPACE_KEY_BYTES then Inl WrongKeyLength else Inr key))"

definition buildKeyDelivery :: "nip44 \<Rightarrow> int \<Rightarrow> string \<Rightarrow> int \<Rightarrow> u8 list \<Rightarrow> u8 list \<Rightarrow> string \<Rightarrow> unsigned_event" where
  "buildKeyDelivery N now spaceId ep key senderSk memberPubkey =
     space_event KIND_SPACE_KEY_DELIVERY now
       [[''d'', spaceId @ '':'' @ js_int ep @ '':'' @ memberPubkey], [''p'', memberPubkey], [''h'', spaceId],
        [''ke'', js_int ep]] (wrapKeyForMember N key senderSk memberPubkey)"

record KeyDelivery =
  kd_spaceId :: string
  kd_epoch :: int
  kd_recipient :: string
  kd_blob :: string
  kd_sender :: string

definition parseKeyDelivery :: "(string \<Rightarrow> int option) \<Rightarrow> event \<Rightarrow> KeyDelivery option" where
  "parseKeyDelivery number e =
     (if kind e \<noteq> KIND_SPACE_KEY_DELIVERY then None
      else case (tag_value ''h'' (tags e), tag_value ''p'' (tags e),
                 Option.bind (find (\<lambda>t. at t 0 = Some ''ke'' \<and> at t 1 \<noteq> None) (tags e)) (\<lambda>t. at t 1)) of
        (Some spaceId, Some recipient, Some keRaw) \<Rightarrow>
          if content e = '''' then None
          else (case number keRaw of
              Some ep \<Rightarrow> if ep < 0 then None
                else Some \<lparr>kd_spaceId = spaceId, kd_epoch = ep, kd_recipient = recipient, kd_blob = content e,
                           kd_sender = pubkey e\<rparr>
            | None \<Rightarrow> None)
      | _ \<Rightarrow> None)"

subsection \<open>The fragment of an invitation link\<close>

definition encodeKeyFragment :: "u8 list \<Rightarrow> int \<Rightarrow> string" where
  "encodeKeyFragment key ep = ''k='' @ base64UrlFromBytes key @ ''&e='' @ js_int (max 0 ep)"

definition fragment_params :: "string \<Rightarrow> (string \<times> string) list" where
  \<comment> \<open>the loop that fills \<open>params\<close>\<close>
  "fragment_params frag = foldl (\<lambda>params part.
     let eq = indexOf ''='' part
     in if eq \<le> 0 then params else AList.update (take (nat eq) part) (drop (nat eq + 1) part) params) []
     (split_on (CHR ''&'') frag)"

definition parseKeyFragment :: "(string \<Rightarrow> int option) \<Rightarrow> string \<Rightarrow> (u8 list \<times> int) option" where
  "parseKeyFragment number fragment =
     (let frag = (if at fragment 0 = Some (CHR ''#'') then drop 1 fragment else fragment);
          params = fragment_params frag;
          kRaw = map_of params ''k''
      in if \<not> truthy kRaw then None
         else case bytesFromBase64Url (the kRaw) of
           Inl _ \<Rightarrow> None
         | Inr key \<Rightarrow>
             if length key \<noteq> SPACE_KEY_BYTES then None
             else (case map_of params ''e'' of
                 None \<Rightarrow> Some (key, 0)
               | Some eRaw \<Rightarrow> (case number eRaw of
                     None \<Rightarrow> None
                   | Some n \<Rightarrow> if n < 0 then None else Some (key, n))))"

subsection \<open>Storage\<close>

record space_keys =
  ks_items :: "(string \<times> string) list"
  ks_wired :: bool
  ks_namespace :: string

definition setSpaceKeyStorage :: "(string \<times> string) list option \<Rightarrow> space_keys \<Rightarrow> space_keys" where
  "setSpaceKeyStorage storage s = (case storage of
       None \<Rightarrow> s\<lparr>ks_wired := False\<rparr> | Some items \<Rightarrow> s\<lparr>ks_wired := True, ks_items := items\<rparr>)"

definition setSpaceKeyNamespace :: "string option \<Rightarrow> space_keys \<Rightarrow> space_keys" where
  "setSpaceKeyNamespace slotId s = s\<lparr>ks_namespace := (case slotId of None \<Rightarrow> '''' | Some n \<Rightarrow> n)\<rparr>"

definition nsPrefix :: "string \<Rightarrow> string" where
  "nsPrefix ns = (if ns \<noteq> '''' then ns @ '':'' else '''')"

definition rawSpaceKeyItem :: "string \<Rightarrow> string \<Rightarrow> int \<Rightarrow> string" where
  "rawSpaceKeyItem ns spaceId ep = ''spacekey:'' @ nsPrefix ns @ spaceId @ '':'' @ js_int ep"

definition rawSpaceEpochItem :: "string \<Rightarrow> string \<Rightarrow> string" where
  "rawSpaceEpochItem ns spaceId = ''spacekey:'' @ nsPrefix ns @ spaceId @ '':epoch''"

definition spaceKeyItem :: "space_keys \<Rightarrow> string \<Rightarrow> int \<Rightarrow> string" where
  "spaceKeyItem s spaceId ep = ''spacekey:'' @ nsPrefix (ks_namespace s) @ spaceId @ '':'' @ js_int ep"

definition spaceEpochItem :: "space_keys \<Rightarrow> string \<Rightarrow> string" where
  "spaceEpochItem s spaceId = ''spacekey:'' @ nsPrefix (ks_namespace s) @ spaceId @ '':epoch''"

definition readEpoch :: "(string \<Rightarrow> int option) \<Rightarrow> string \<Rightarrow> space_keys \<Rightarrow> int" where
  "readEpoch number spaceId s =
     (if \<not> ks_wired s then -1
      else case getItem (ks_items s) (spaceEpochItem s spaceId) of
        None \<Rightarrow> -1
      | Some raw \<Rightarrow> (case number raw of Some n \<Rightarrow> if n \<ge> 0 then n else -1 | None \<Rightarrow> -1))"

definition storeSpaceKey :: "(string \<Rightarrow> int option) \<Rightarrow> string \<Rightarrow> int \<Rightarrow> u8 list \<Rightarrow> space_keys \<Rightarrow> (key_failure + unit) \<times> space_keys" where
  "storeSpaceKey number spaceId ep key s =
     (if \<not> ks_wired s then (Inr (), s)
      else if length key \<noteq> SPACE_KEY_BYTES then (Inl WrongKeyLength, s)
      else let s = s\<lparr>ks_items := setItem (spaceKeyItem s spaceId ep) (bytesToHex key) (ks_items s)\<rparr>;
               prev = readEpoch number spaceId s
           in (Inr (), if ep > prev
                then s\<lparr>ks_items := setItem (spaceEpochItem s spaceId) (js_int ep) (ks_items s)\<rparr>
                else s))"

definition loadSpaceKey :: "string \<Rightarrow> int \<Rightarrow> space_keys \<Rightarrow> u8 list option" where
  "loadSpaceKey spaceId ep s =
     (if \<not> ks_wired s then None
      else case getItem (ks_items s) (spaceKeyItem s spaceId ep) of
        None \<Rightarrow> None
      | Some hex \<Rightarrow> if hex = '''' then None
          else (case hexToBytes hex of
              Inl _ \<Rightarrow> None | Inr key \<Rightarrow> if length key = SPACE_KEY_BYTES then Some key else None))"

definition currentEpoch :: "(string \<Rightarrow> int option) \<Rightarrow> string \<Rightarrow> space_keys \<Rightarrow> int" where
  "currentEpoch number spaceId s = readEpoch number spaceId s"

definition hasSpaceKey :: "(string \<Rightarrow> int option) \<Rightarrow> string \<Rightarrow> space_keys \<Rightarrow> bool" where
  "hasSpaceKey number spaceId s \<longleftrightarrow> readEpoch number spaceId s \<ge> 0"

definition top_epoch :: "(string \<Rightarrow> int option) \<Rightarrow> string option \<Rightarrow> int option" where
  \<comment> \<open>\<open>topRaw === null ? -1 : Number(topRaw)\<close> where it is an integer that is not negative\<close>
  "top_epoch number topRaw = (case topRaw of None \<Rightarrow> None
     | Some t \<Rightarrow> (case number t of Some n \<Rightarrow> if n \<ge> 0 then Some n else None | None \<Rightarrow> None))"

definition migrate_epoch :: "string \<Rightarrow> string \<Rightarrow> (string \<times> string) list \<Rightarrow> int \<Rightarrow> (string \<times> string) list" where
  "migrate_epoch slotId spaceId st e =
     (if getItem st (rawSpaceKeyItem slotId spaceId e) \<noteq> None then st
      else case getItem st (rawSpaceKeyItem '''' spaceId e) of
        Some hex \<Rightarrow> setItem (rawSpaceKeyItem slotId spaceId e) hex st | None \<Rightarrow> st)"

definition migrateSpaceKeysToSlot ::
  "(string \<Rightarrow> int option) \<Rightarrow> string \<Rightarrow> string list \<Rightarrow> (string \<times> string) list \<Rightarrow> (string \<times> string) list" where
  "migrateSpaceKeysToSlot number slotId spaceIds st = foldl (\<lambda>st spaceId.
     case top_epoch number (getItem st (rawSpaceEpochItem '''' spaceId)) of
       None \<Rightarrow> st
     | Some newest \<Rightarrow>
         let st = foldl (migrate_epoch slotId spaceId) st (map int [0..<nat newest + 1]);
             epochTo = rawSpaceEpochItem slotId spaceId
         in if getItem st epochTo = None then setItem epochTo (js_int newest) st else st) st (js_set spaceIds)"

definition clear_space :: "(string \<Rightarrow> int option) \<Rightarrow> string \<Rightarrow> (string \<times> string) list \<Rightarrow> string \<Rightarrow> (string \<times> string) list" where
  "clear_space number slotId st spaceId =
     (let st = (case top_epoch number (getItem st (rawSpaceEpochItem slotId spaceId)) of
            Some newest \<Rightarrow> foldl (\<lambda>st e. removeItem (rawSpaceKeyItem slotId spaceId e) st) st (map int [0..<nat newest + 1])
          | None \<Rightarrow> st)
      in removeItem (rawSpaceEpochItem slotId spaceId) st)"

definition clearSpaceKeysForSlot ::
  "(string \<Rightarrow> int option) \<Rightarrow> string \<Rightarrow> string list \<Rightarrow> (string \<times> string) list \<Rightarrow> (string \<times> string) list" where
  "clearSpaceKeysForSlot number slotId spaceIds st = foldl (clear_space number slotId) st (js_set spaceIds)"

section \<open>The codec\<close>

fun sextets :: "u8 list \<Rightarrow> i32 list" where
  \<comment> \<open>the indices that the encoder looks up\<close>
  "sextets [] = []"
| "sextets [b0] = [sextet 18 (triple b0 0 0), sextet 12 (triple b0 0 0)]"
| "sextets [b0, b1] = [sextet 18 (triple b0 b1 0), sextet 12 (triple b0 b1 0), sextet 6 (triple b0 b1 0)]"
| "sextets (b0 # b1 # b2 # bs) =
     sextet 18 (triple b0 b1 b2) # sextet 12 (triple b0 b1 b2) # sextet 6 (triple b0 b1 b2) # sextet 0 (triple b0 b1 b2) # sextets bs"

lemma quad_sextets:
  "(drop_bit 2 (ucast b0) :: i32) = sextet 18 (triple b0 b1 b2)"
  "(push_bit 4 (ucast b0 AND 3) OR drop_bit 4 (ucast b1) :: i32) = sextet 12 (triple b0 b1 b2)"
  "(push_bit 2 (ucast b1 AND 15) OR drop_bit 6 (ucast b2) :: i32) = sextet 6 (triple b0 b1 b2)"
  "(ucast b2 AND 63 :: i32) = sextet 0 (triple b0 b1 b2)"
proof -
  have masks: "(3 :: i32) = mask 2" "(15 :: i32) = mask 4" "(63 :: i32) = mask 6"
    by (simp_all add: mask_eq_exp_minus_1)
  show "(drop_bit 2 (ucast b0) :: i32) = sextet 18 (triple b0 b1 b2)"
    "(push_bit 4 (ucast b0 AND 3) OR drop_bit 4 (ucast b1) :: i32) = sextet 12 (triple b0 b1 b2)"
    "(push_bit 2 (ucast b1 AND 15) OR drop_bit 6 (ucast b2) :: i32) = sextet 6 (triple b0 b1 b2)"
    "(ucast b2 AND 63 :: i32) = sextet 0 (triple b0 b1 b2)"
    unfolding triple_def sextet_def masks
    by (rule bit_word_eqI; auto simp: bit_simps dest: bit_u8_lt)+
qed

lemma encode_sextets: "encodeWithAlphabet bs alphabet False = map (alphabet_char alphabet) (sextets bs)"
proof (induction bs rule: sextets.induct)
  case (2 b0)
  show ?case by (simp add: encode_group_def Let_def quad_sextets(1)[of b0 0 0] quad_sextets(2)[of b0 0 0, simplified])
next
  case (3 b0 b1)
  show ?case
    unfolding encodeWithAlphabet.simps sextets.simps encode_group_def Let_def option.case
      quad_sextets(1)[of b0 b1 0] quad_sextets(2)[of b0 b1 0] quad_sextets(3)[of b1 0 b0] by simp
next
  case (4 b0 b1 b2 bs)
  show ?case
    unfolding encodeWithAlphabet.simps sextets.simps encode_group_def Let_def option.case
      quad_sextets(1)[of b0 b1 b2] quad_sextets(2)[of b0 b1 b2] quad_sextets(3)[of b1 b2 b0]
      quad_sextets(4)[of b2 b0 b1] 4 by simp
qed simp

lemma encode_pads: "\<exists>k. encodeWithAlphabet bs alphabet True = encodeWithAlphabet bs alphabet False @ replicate k (CHR ''='')"
proof (induction bs rule: sextets.induct)
  case (2 b0)
  show ?case by (rule exI[of _ 2]) (simp add: encode_group_def Let_def numeral_2_eq_2)
next
  case (3 b0 b1)
  show ?case by (rule exI[of _ 1]) (simp add: encode_group_def Let_def)
next
  case (4 b0 b1 b2 bs)
  then show ?case by (auto simp: encode_group_def Let_def)
qed simp

lemma core_sextets: "b64_core bs = map b64_char (sextets bs)"
  by (induction bs rule: sextets.induct) (simp_all add: b64_core_simps b64_group_sextets Let_def)

lemma sextets_small: "w \<in> set (sextets bs) \<Longrightarrow> unat w < 64"
  by (induction bs rule: sextets.induct) (auto simp: unat_sextet)

definition good_alphabet :: "string \<Rightarrow> bool" where
  "good_alphabet alphabet \<longleftrightarrow> length alphabet = 64 \<and> distinct alphabet \<and> CHR ''='' \<notin> set alphabet"

lemma good_alphabets: "good_alphabet B64" "good_alphabet B64URL"
  by (simp_all add: good_alphabet_def B64_def B64URL_def)

lemma lookup_good: "good_alphabet alphabet \<Longrightarrow> i < 64 \<Longrightarrow> lookup_char alphabet (alphabet ! i) = Some i"
  unfolding lookup_char_def good_alphabet_def by (rule map_of_is_SomeI) (auto simp: in_set_zip)

lemma decode_like_core:
  assumes "good_alphabet alphabet" and "\<forall>w \<in> set ws. unat w < 64"
  shows "decode_loop alphabet buffer bits (map (alphabet_char alphabet) ws) = b64_loop buffer bits (map b64_char ws)"
  using assms(2)
  by (induction ws arbitrary: buffer bits)
     (simp_all add: alphabet_char_def b64_char_def lookup_good[OF assms(1)] REVERSE_ALPHABET Let_def)

lemma decode_encode_bytes: "good_alphabet alphabet \<Longrightarrow> decodeWithAlphabet (encodeWithAlphabet bs alphabet False) alphabet = Inr bs"
  using decode_like_core[of alphabet "sextets bs" 0 0] sextets_small b64_loop_core[of 0 bs]
  by (simp add: decodeWithAlphabet_def encode_sextets core_sextets)

lemma encode_chars: "good_alphabet alphabet \<Longrightarrow> set (encodeWithAlphabet bs alphabet False) \<subseteq> set alphabet"
  using sextets_small by (auto simp: encode_sextets alphabet_char_def good_alphabet_def)

lemma strip_pads_encoded: "good_alphabet alphabet \<Longrightarrow> strip_pads (encodeWithAlphabet bs alphabet False @ replicate k (CHR ''='')) = encodeWithAlphabet bs alphabet False"
  unfolding strip_pads_def using encode_chars[of alphabet bs]
  by (intro strip_padding) (auto simp: good_alphabet_def)

lemma base64_local_roundtrip [simp]: "bytesFromBase64 (base64FromBytes bs) = Inr bs"
proof -
  obtain k where "encodeWithAlphabet bs B64 True = encodeWithAlphabet bs B64 False @ replicate k (CHR ''='')"
    using encode_pads by blast
  then show ?thesis
    by (simp add: bytesFromBase64_def base64FromBytes_def strip_pads_encoded good_alphabets decode_encode_bytes)
qed

lemma base64url_roundtrip [simp]: "bytesFromBase64Url (base64UrlFromBytes bs) = Inr bs"
  using strip_pads_encoded[OF good_alphabets(2), of bs 0]
  by (simp add: bytesFromBase64Url_def base64UrlFromBytes_def good_alphabets decode_encode_bytes)

section \<open>Links and deliveries\<close>

lemma indexOf_absent_char: "c \<notin> set s \<Longrightarrow> indexOf [c] (s @ c # t) = int (length s)"
  by (induction s) (auto simp: Let_def)

lemma url_chars: "c \<in> set (base64UrlFromBytes bs) \<Longrightarrow> c \<noteq> CHR ''&''"
  using encode_chars[OF good_alphabets(2), of bs] by (auto simp: base64UrlFromBytes_def B64URL_def)

lemma digits_no_amp: "CHR ''&'' \<notin> set (js_dec n)"
proof
  assume "CHR ''&'' \<in> set (js_dec n)"
  then obtain d where "d < 10" "CHR ''&'' = hex_digit d" using js_dec_digit by blast
  moreover have "\<forall>d \<in> set [0..<10]. hex_digit d \<noteq> CHR ''&''" by (simp add: hex_digit_def upt_rec)
  ultimately show False by auto
qed

text \<open>
  C19. An invitation link gives the key it was made from: the fragment parses back to the same key and
  epoch, with or without the leading \<open>#\<close>.  The 32-bit buffer of the decoder overflows on the way, but
  never in the bits it extracts.
\<close>

theorem key_fragment_roundtrip:
  assumes "length key = 32" and "0 \<le> ep" and "number (js_int ep) = Some ep"
  shows "parseKeyFragment number (encodeKeyFragment key ep) = Some (key, ep)
    \<and> parseKeyFragment number (''#'' @ encodeKeyFragment key ep) = Some (key, ep)"
proof -
  let ?K = "base64UrlFromBytes key"
  have int: "js_int ep = js_dec (nat ep)" using assms(2) by (simp add: js_int_def)
  have "split_on (CHR ''&'') ((''k='' @ ?K) @ CHR ''&'' # ''e='' @ js_int ep) = [''k='' @ ?K, ''e='' @ js_int ep]"
    using url_chars digits_no_amp by (subst split_on_append; auto simp: int split_on_none)
  then have split: "split_on (CHR ''&'') (encodeKeyFragment key ep) = [''k='' @ ?K, ''e='' @ js_int ep]"
    using assms(2) by (simp add: encodeKeyFragment_def max_def)
  have params: "fragment_params (encodeKeyFragment key ep) = [(''k'', ?K), (''e'', js_int ep)]"
    unfolding fragment_params_def split by (simp add: Let_def)
  have "?K \<noteq> ''''"
    using base64url_roundtrip[of key] assms(1) by (auto simp: bytesFromBase64Url_def decodeWithAlphabet_def strip_pads_def)
  then have "parseKeyFragment number (encodeKeyFragment key ep) = Some (key, ep)"
    using assms params by (simp add: parseKeyFragment_def SPACE_KEY_BYTES_def Let_def encodeKeyFragment_def)
  moreover have "at (encodeKeyFragment key ep) 0 = Some (CHR ''k'')" by (simp add: encodeKeyFragment_def)
  ultimately show ?thesis by (simp add: parseKeyFragment_def Let_def)
qed

theorem key_fragment_roundtrip_witness:
  "parseKeyFragment parseInt10 (encodeKeyFragment (replicate 32 255) 3) = Some (replicate 32 255, 3)"
  by (rule key_fragment_roundtrip[THEN conjunct1]) (simp_all add: js_int_def parseInt10_dec)

text \<open>
  A delivered key reaches its member: what the sender wrapped for a member is unwrapped by that
  member, given that the conversation keys of both directions agree and decryption inverts
  encryption.
\<close>

lemma delivery_unwraps:
  assumes "conversationKey N senderSk recipient = conversationKey N recipientSk sender"
    and "\<And>m k. n44_decrypt N (n44_encrypt N m k) k = Some m" and "length key = 32"
  shows "unwrapKeyFromSender N (wrapKeyForMember N key senderSk recipient) recipientSk sender = Inr key"
  using assms by (simp add: unwrapKeyFromSender_def wrapKeyForMember_def SPACE_KEY_BYTES_def)

lemma delivery_parses:
  assumes "0 \<le> ep" and "number (js_int ep) = Some ep" and "spaceId \<noteq> ''''" and "m \<noteq> ''''"
    and "wrapKeyForMember N key sk m \<noteq> ''''"
  shows "parseKeyDelivery number (signed_event i pk (buildKeyDelivery N now spaceId ep key sk m))
    = Some \<lparr>kd_spaceId = spaceId, kd_epoch = ep, kd_recipient = m, kd_blob = wrapKeyForMember N key sk m, kd_sender = pk\<rparr>"
  using assms
  by (simp add: parseKeyDelivery_def buildKeyDelivery_def signed_event_def space_event_def tag_value_Cons)

section \<open>Keys by account\<close>

definition plain_part :: "string \<Rightarrow> bool" where
  \<comment> \<open>a part of a storage name\<close>
  "plain_part s \<longleftrightarrow> CHR '':'' \<notin> set s"

lemma raw_names:
  "rawSpaceKeyItem ns g e = ''spacekey:'' @ join_on (CHR '':'') ((if ns = '''' then [] else [ns]) @ [g, js_int e])"
  "rawSpaceEpochItem ns g = ''spacekey:'' @ join_on (CHR '':'') ((if ns = '''' then [] else [ns]) @ [g, ''epoch''])"
  by (simp_all add: rawSpaceKeyItem_def rawSpaceEpochItem_def nsPrefix_def)

lemma item_raw:
  "spaceKeyItem s g e = rawSpaceKeyItem (ks_namespace s) g e" "spaceEpochItem s g = rawSpaceEpochItem (ks_namespace s) g"
  by (simp_all add: spaceKeyItem_def rawSpaceKeyItem_def spaceEpochItem_def rawSpaceEpochItem_def)

lemma js_int_not_epoch: "js_int e \<noteq> ''epoch''"
proof
  assume e: "js_int e = ''epoch''"
  then have "hd (js_int e) = CHR ''e''" "js_int e \<noteq> ''''" by simp_all
  moreover have "js_dec n \<noteq> ''''" for n by (subst js_dec.simps) simp
  ultimately have "\<exists>n. hd (js_dec n) = CHR ''e'' \<and> js_dec n \<noteq> ''''" by (auto simp: js_int_def split: if_splits)
  then obtain n where "CHR ''e'' \<in> set (js_dec n)" by (metis list.set_sel(1))
  then obtain d where "d < 10" "CHR ''e'' = hex_digit d" using js_dec_digit by blast
  moreover have "\<forall>d \<in> set [0..<10]. hex_digit d \<noteq> CHR ''e''" by (simp add: hex_digit_def upt_rec)
  ultimately show False by auto
qed

lemma join_parts:
  assumes "plain_part ns" "plain_part g" "plain_part x" "plain_part ns'" "plain_part g'" "plain_part x'"
  shows "join_on (CHR '':'') ((if ns = '''' then [] else [ns]) @ [g, x]) = join_on (CHR '':'') ((if ns' = '''' then [] else [ns']) @ [g', x'])
    \<longleftrightarrow> ns = ns' \<and> g = g' \<and> x = x'"
proof
  assume eq: "join_on (CHR '':'') ((if ns = '''' then [] else [ns]) @ [g, x]) = join_on (CHR '':'') ((if ns' = '''' then [] else [ns']) @ [g', x'])"
  have "(if ns = '''' then [] else [ns]) @ [g, x] = split_on (CHR '':'') (join_on (CHR '':'') ((if ns = '''' then [] else [ns]) @ [g, x]))"
    using assms by (intro split_join[symmetric]) (auto simp: plain_part_def)
  also have "\<dots> = (if ns' = '''' then [] else [ns']) @ [g', x']"
    unfolding eq using assms by (intro split_join) (auto simp: plain_part_def)
  finally show "ns = ns' \<and> g = g' \<and> x = x'" by (auto split: if_splits)
qed simp

lemma plain_js_int [simp]: "plain_part (js_int e)" "plain_part ''epoch''"
  using js_int_no_colon by (simp_all add: plain_part_def)

lemma names_inject:
  assumes "plain_part ns" "plain_part g" "plain_part ns'" "plain_part g'"
  shows "rawSpaceKeyItem ns g e = rawSpaceKeyItem ns' g' e' \<longleftrightarrow> ns = ns' \<and> g = g' \<and> e = e'"
    "rawSpaceEpochItem ns g = rawSpaceEpochItem ns' g' \<longleftrightarrow> ns = ns' \<and> g = g'"
    "rawSpaceKeyItem ns g e \<noteq> rawSpaceEpochItem ns' g'" "rawSpaceEpochItem ns' g' \<noteq> rawSpaceKeyItem ns g e"
proof -
  note parts = join_parts[OF assms(1,2) _ assms(3,4)]
  show "rawSpaceKeyItem ns g e = rawSpaceKeyItem ns' g' e' \<longleftrightarrow> ns = ns' \<and> g = g' \<and> e = e'"
    using parts[of "js_int e" "js_int e'"] js_int_inject by (auto simp: raw_names simp del: join_on.simps)
  show "rawSpaceEpochItem ns g = rawSpaceEpochItem ns' g' \<longleftrightarrow> ns = ns' \<and> g = g'"
    using parts[of "''epoch''" "''epoch''"] by (simp add: raw_names del: join_on.simps)
  show "rawSpaceKeyItem ns g e \<noteq> rawSpaceEpochItem ns' g'" "rawSpaceEpochItem ns' g' \<noteq> rawSpaceKeyItem ns g e"
    using parts[of "js_int e" "''epoch''"] js_int_not_epoch by (auto simp: raw_names simp del: join_on.simps)
qed

datatype key_op = KStore string int "u8 list" | KSwitch "string option" | KClear string "string list"

fun key_step :: "(string \<Rightarrow> int option) \<Rightarrow> space_keys \<Rightarrow> key_op \<Rightarrow> space_keys" where
  "key_step number s (KStore g ep key) = snd (storeSpaceKey number g ep key s)"
| "key_step number s (KSwitch slot) = setSpaceKeyNamespace slot s"
| "key_step number s (KClear slot gs) = s\<lparr>ks_items := clearSpaceKeysForSlot number slot gs (ks_items s)\<rparr>"

definition key_start :: space_keys where
  "key_start = \<lparr>ks_items = [], ks_wired = True, ks_namespace = ''''\<rparr>"

record key_spec =
  \<comment> \<open>the keys of each account and space by epoch, and the active account\<close>
  keys_of :: "string \<Rightarrow> string \<Rightarrow> int \<Rightarrow> u8 list option"
  account :: string

fun key_spec_step :: "key_spec \<Rightarrow> key_op \<Rightarrow> key_spec" where
  "key_spec_step a (KStore g ep key) = (if length key \<noteq> 32 then a
     else a\<lparr>keys_of := (\<lambda>ns h e. if ns = account a \<and> h = g \<and> e = ep then Some key else keys_of a ns h e)\<rparr>)"
| "key_spec_step a (KSwitch slot) = a\<lparr>account := (case slot of None \<Rightarrow> '''' | Some n \<Rightarrow> n)\<rparr>"
| "key_spec_step a (KClear slot gs) =
     a\<lparr>keys_of := (\<lambda>ns h e. if ns = slot \<and> h \<in> set gs then None else keys_of a ns h e)\<rparr>"

definition key_spec_start :: key_spec where
  "key_spec_start = \<lparr>keys_of = (\<lambda>_ _ _. None), account = ''''\<rparr>"

fun plain_op :: "key_op \<Rightarrow> bool" where
  "plain_op (KStore g ep key) = (plain_part g \<and> 0 \<le> ep)"
| "plain_op (KSwitch slot) = (case slot of None \<Rightarrow> True | Some n \<Rightarrow> plain_part n)"
| "plain_op (KClear slot gs) = (plain_part slot \<and> list_all plain_part gs)"

definition newest_known :: "(int \<Rightarrow> u8 list option) \<Rightarrow> int \<Rightarrow> bool" where
  \<comment> \<open>the epoch is the newest one with a key, or -1\<close>
  "newest_known ks n \<longleftrightarrow> (\<forall>e. ks e \<noteq> None \<longrightarrow> e \<le> n) \<and> (if n = -1 then \<forall>e. ks e = None else ks n \<noteq> None)"

definition items_ok :: "(string \<times> string) list \<Rightarrow> (string \<Rightarrow> string \<Rightarrow> int \<Rightarrow> u8 list option) \<Rightarrow> bool" where
  "items_ok st ks \<longleftrightarrow> (\<forall>ns g. plain_part ns \<longrightarrow> plain_part g \<longrightarrow>
     (\<forall>e. getItem st (rawSpaceKeyItem ns g e) = map_option bytesToHex (ks ns g e))
     \<and> (\<forall>e k. ks ns g e = Some k \<longrightarrow> length k = 32 \<and> 0 \<le> e)
     \<and> (\<exists>n. newest_known (ks ns g) n \<and> getItem st (rawSpaceEpochItem ns g) = (if n = -1 then None else Some (js_int n))))"

lemma items_okD:
  assumes "items_ok st ks" "plain_part ns" "plain_part g"
  shows "getItem st (rawSpaceKeyItem ns g e) = map_option bytesToHex (ks ns g e)"
    "ks ns g e = Some k \<Longrightarrow> length k = 32 \<and> 0 \<le> e"
    "\<exists>n. newest_known (ks ns g) n \<and> getItem st (rawSpaceEpochItem ns g) = (if n = -1 then None else Some (js_int n))"
  using assms by (auto simp: items_ok_def)

lemma newest_nonneg: "newest_known ks n \<Longrightarrow> (\<And>e k. ks e = Some k \<Longrightarrow> 0 \<le> e) \<Longrightarrow> n = -1 \<or> 0 \<le> n"
  by (auto simp: newest_known_def split: if_splits)

lemma newest_unique: "newest_known ks n \<Longrightarrow> newest_known ks m \<Longrightarrow> n = m"
  by (auto simp: newest_known_def split: if_splits intro: antisym)

lemma read_epoch_newest:
  assumes "items_ok (ks_items s) ks" "ks_wired s" "plain_part (ks_namespace s)" "plain_part g"
    and number: "\<And>n. 0 \<le> n \<Longrightarrow> number (js_int n) = Some n"
  shows "newest_known (ks (ks_namespace s) g) (readEpoch number g s)"
proof -
  obtain n where n: "newest_known (ks (ks_namespace s) g) n"
    "getItem (ks_items s) (rawSpaceEpochItem (ks_namespace s) g) = (if n = -1 then None else Some (js_int n))"
    using items_okD(3)[OF assms(1,3,4)] by blast
  have "n = -1 \<or> 0 \<le> n" using newest_nonneg[OF n(1)] items_okD(2)[OF assms(1,3,4)] by blast
  then have "readEpoch number g s = n"
    using n(2) assms(2) number by (auto simp: readEpoch_def item_raw)
  with n(1) show ?thesis by simp
qed

lemma items_ok_store:
  assumes ok: "items_ok st ks" and p: "plain_part ns" "plain_part g" "0 \<le> ep" and len: "length key = 32"
    and n: "newest_known (ks ns g) n"
  defines "ks' \<equiv> (\<lambda>ns' g' e. if ns' = ns \<and> g' = g \<and> e = ep then Some key else ks ns' g' e)"
  defines "st1 \<equiv> setItem (rawSpaceKeyItem ns g ep) (bytesToHex key) st"
  shows "items_ok (if ep > n then setItem (rawSpaceEpochItem ns g) (js_int ep) st1 else st1) ks'"
  unfolding items_ok_def
proof (intro allI impI conjI)
  let ?st2 = "if ep > n then setItem (rawSpaceEpochItem ns g) (js_int ep) st1 else st1"
  fix ns' g' assume p': "plain_part ns'" "plain_part g'"
  note old = items_okD[OF ok p']
  note inj = names_inject[OF p' p(1,2)] names_inject[OF p(1,2) p'] names_inject[OF p(1,2) p(1,2)]
  fix e
  show "getItem ?st2 (rawSpaceKeyItem ns' g' e) = map_option bytesToHex (ks' ns' g' e)"
    using old(1)[of e] by (auto simp: st1_def ks'_def storage_simps inj)
next
  fix ns' g' e k assume p': "plain_part ns'" "plain_part g'" and "ks' ns' g' e = Some k"
  then show "length k = 32" "0 \<le> e"
    using items_okD(2)[OF ok p', of e k] len p(3) by (auto simp: ks'_def split: if_splits)
next
  let ?st2 = "if ep > n then setItem (rawSpaceEpochItem ns g) (js_int ep) st1 else st1"
  fix ns' g' assume p': "plain_part ns'" "plain_part g'"
  obtain m where m: "newest_known (ks ns' g') m" "getItem st (rawSpaceEpochItem ns' g') = (if m = -1 then None else Some (js_int m))"
    using items_okD(3)[OF ok p'] by blast
  show "\<exists>n. newest_known (ks' ns' g') n \<and> getItem ?st2 (rawSpaceEpochItem ns' g') = (if n = -1 then None else Some (js_int n))"
  proof (cases "ns' = ns \<and> g' = g")
    case True
    then have "m = n" using newest_unique[OF m(1)] n by simp
    have "newest_known (ks' ns' g') (max n ep)"
      using n p(3) True by (auto simp: newest_known_def ks'_def max_def split: if_splits)
    moreover have "getItem ?st2 (rawSpaceEpochItem ns' g') = (if max n ep = -1 then None else Some (js_int (max n ep)))"
      using m(2) \<open>m = n\<close> True p(3) names_inject(3,4)[OF p(1,2) p(1,2)] by (auto simp: st1_def storage_simps)
    ultimately show ?thesis by blast
  next
    case False
    then have "ks' ns' g' = ks ns' g'" by (auto simp: ks'_def)
    moreover have "getItem ?st2 (rawSpaceEpochItem ns' g') = getItem st (rawSpaceEpochItem ns' g')"
      using False names_inject[OF p' p(1,2)] names_inject(4)[OF p(1,2) p'] by (auto simp: st1_def storage_simps)
    ultimately show ?thesis using m by auto
  qed
qed

lemma get_removed:
  "getItem (foldl (\<lambda>st e. removeItem (f e) st) st es) k = (if k \<in> f ` set es then None else getItem st k)"
  by (induction es arbitrary: st) (auto simp: storage_simps)

lemma items_ok_clear:
  assumes ok: "items_ok st ks" and p: "plain_part ns" "plain_part g"
    and number: "\<And>n. 0 \<le> n \<Longrightarrow> number (js_int n) = Some n"
  shows "items_ok (clear_space number ns st g) (\<lambda>ns' g' e. if ns' = ns \<and> g' = g then None else ks ns' g' e)"
proof -
  obtain n where n: "newest_known (ks ns g) n" "getItem st (rawSpaceEpochItem ns g) = (if n = -1 then None else Some (js_int n))"
    using items_okD(3)[OF ok p] by blast
  have n0: "n = -1 \<or> 0 \<le> n" using newest_nonneg[OF n(1)] items_okD(2)[OF ok p] by blast
  let ?es = "map int [0..<nat (n + 1)]"
  have st': "clear_space number ns st g
      = removeItem (rawSpaceEpochItem ns g) (foldl (\<lambda>st e. removeItem (rawSpaceKeyItem ns g e) st) st ?es)"
    using n(2) n0 number by (auto simp: clear_space_def top_epoch_def nat_add_distrib)
  have covers: "e \<in> set ?es" if "ks ns g e \<noteq> None" for e
  proof -
    from that obtain k where k: "ks ns g e = Some k" by blast
    then have "e \<le> n" "0 \<le> e" using n(1) items_okD(2)[OF ok p] by (auto simp: newest_known_def)
    then show ?thesis by (auto intro!: image_eqI[of _ _ "nat e"])
  qed
  show ?thesis
    unfolding items_ok_def
  proof (intro allI impI conjI)
    fix ns' g' assume p': "plain_part ns'" "plain_part g'"
    note inj = names_inject[OF p' p] names_inject[OF p p']
    fix e
    have im: "rawSpaceKeyItem ns' g' e \<in> rawSpaceKeyItem ns g ` set ?es \<longleftrightarrow> ns' = ns \<and> g' = g \<and> e \<in> set ?es"
      by (auto simp: inj simp del: set_map)
    have "getItem st (rawSpaceKeyItem ns g e) = None" if "e \<notin> set ?es"
      using covers[of e] that items_okD(1)[OF ok p, of e] by auto
    then show "getItem (clear_space number ns st g) (rawSpaceKeyItem ns' g' e)
        = map_option bytesToHex (if ns' = ns \<and> g' = g then None else ks ns' g' e)"
      using items_okD(1)[OF ok p', of e] unfolding st' by (auto simp: storage_simps get_removed im inj(3) simp del: set_map)
  next
    fix ns' g' e k assume "plain_part ns'" "plain_part g'" "(if ns' = ns \<and> g' = g then None else ks ns' g' e) = Some k"
    then show "length k = 32" "0 \<le> e" using items_okD(2)[OF ok, of ns' g' e k] by (auto split: if_splits)
  next
    fix ns' g' assume p': "plain_part ns'" "plain_part g'"
    note inj = names_inject[OF p' p] names_inject[OF p p']
    show "\<exists>m. newest_known (\<lambda>e. if ns' = ns \<and> g' = g then None else ks ns' g' e) m
        \<and> getItem (clear_space number ns st g) (rawSpaceEpochItem ns' g') = (if m = -1 then None else Some (js_int m))"
    proof (cases "ns' = ns \<and> g' = g")
      case True
      then show ?thesis unfolding st' by (intro exI[of _ "-1"]) (simp add: newest_known_def storage_simps)
    next
      case False
      then have "getItem (clear_space number ns st g) (rawSpaceEpochItem ns' g') = getItem st (rawSpaceEpochItem ns' g')"
        unfolding st' by (auto simp: storage_simps get_removed inj)
      with items_okD(3)[OF ok p'] False show ?thesis by auto
    qed
  qed
qed

lemma items_ok_clears:
  assumes "items_ok st ks" and "plain_part ns" and "list_all plain_part gs"
    and number: "\<And>n. 0 \<le> n \<Longrightarrow> number (js_int n) = Some n"
  shows "items_ok (foldl (clear_space number ns) st gs) (\<lambda>ns' g' e. if ns' = ns \<and> g' \<in> set gs then None else ks ns' g' e)"
  using assms(1,3)
proof (induction gs arbitrary: st ks)
  case (Cons g gs)
  from Cons.IH[OF items_ok_clear[OF Cons.prems(1) assms(2) _ number, of g]] Cons.prems(2)
  have "items_ok (foldl (clear_space number ns) st (g # gs))
      (\<lambda>ns' g' e. if ns' = ns \<and> g' \<in> set gs then None else if ns' = ns \<and> g' = g then None else ks ns' g' e)" by simp
  moreover have "(\<lambda>ns' g' e. if ns' = ns \<and> g' \<in> set gs then None else if ns' = ns \<and> g' = g then None else ks ns' g' e)
      = (\<lambda>ns' g' e. if ns' = ns \<and> g' \<in> set (g # gs) then None else ks ns' g' e)" by (auto simp: fun_eq_iff)
  ultimately show ?case by simp
qed simp

definition keys_related :: "space_keys \<Rightarrow> key_spec \<Rightarrow> bool" where
  "keys_related s a \<longleftrightarrow> ks_wired s \<and> ks_namespace s = account a \<and> plain_part (account a) \<and> items_ok (ks_items s) (keys_of a)"

lemma keys_related_step:
  assumes r: "keys_related s a" and op: "plain_op op" and number: "\<And>n. 0 \<le> n \<Longrightarrow> number (js_int n) = Some n"
  shows "keys_related (key_step number s op) (key_spec_step a op)"
proof (cases op)
  case (KStore g ep key)
  show ?thesis
  proof (cases "length key = 32")
    case True
    let ?ns = "ks_namespace s"
    have p: "plain_part ?ns" "plain_part g" "0 \<le> ep" and ok: "items_ok (ks_items s) (keys_of a)" and w: "ks_wired s" "?ns = account a"
      using r op KStore by (simp_all add: keys_related_def)
    have n: "newest_known (keys_of a ?ns g) (readEpoch number g s)" by (rule read_epoch_newest[OF ok w(1) p(1,2) number])
    have same: "readEpoch number g (s\<lparr>ks_items := setItem (rawSpaceKeyItem ?ns g ep) (bytesToHex key) (ks_items s)\<rparr>) = readEpoch number g s"
      using names_inject(3,4)[OF p(1,2) p(1,2)]
      by (simp add: readEpoch_def item_raw storage_simps)
    have "snd (storeSpaceKey number g ep key s) = s\<lparr>ks_items :=
        (if ep > readEpoch number g s then setItem (rawSpaceEpochItem ?ns g) (js_int ep) (setItem (rawSpaceKeyItem ?ns g ep) (bytesToHex key) (ks_items s))
         else setItem (rawSpaceKeyItem ?ns g ep) (bytesToHex key) (ks_items s))\<rparr>"
      using w(1) True same by (simp add: storeSpaceKey_def SPACE_KEY_BYTES_def Let_def item_raw)
    then show ?thesis
      using items_ok_store[OF ok p True n] KStore r True w(2) by (simp add: keys_related_def)
  next
    case False
    with r KStore show ?thesis by (simp add: keys_related_def storeSpaceKey_def SPACE_KEY_BYTES_def)
  qed
next
  case (KSwitch slot)
  with r op show ?thesis by (auto simp: keys_related_def setSpaceKeyNamespace_def plain_part_def split: option.splits)
next
  case (KClear slot gs)
  have "list_all plain_part (js_set gs)" using op KClear by (simp add: list_all_iff)
  with items_ok_clears[OF _ _ this number, of "ks_items s" "keys_of a" slot] r op KClear
  show ?thesis by (simp add: keys_related_def clearSpaceKeysForSlot_def)
qed

text \<open>
  C13. The stored space keys behave like a table by account, space and epoch.  After any sequence of
  stores, account switches and wipes, loading answers with the key last stored for the active
  account and nothing of any other account; the current epoch is the newest stored one; and of a
  space wiped for an account no epoch and no key is left in the store.
\<close>

theorem space_keys_refine:
  assumes ops: "\<forall>op \<in> set ops. plain_op op" and number: "\<forall>n \<ge> 0. number (js_int n) = Some n" and g: "plain_part g"
  defines "s \<equiv> foldl (key_step number) key_start ops" and "a \<equiv> foldl key_spec_step key_spec_start ops"
  shows "loadSpaceKey g ep s = keys_of a (account a) g ep
    \<and> newest_known (keys_of a (account a) g) (currentEpoch number g s)
    \<and> (\<forall>slot. plain_part slot \<and> (\<forall>e. keys_of a slot g e = None) \<longrightarrow>
         getItem (ks_items s) (rawSpaceEpochItem slot g) = None \<and> (\<forall>e. getItem (ks_items s) (rawSpaceKeyItem slot g e) = None))"
proof -
  have "keys_related (foldl (key_step number) c ops) (foldl key_spec_step b ops)"
    if "keys_related c b" "\<forall>op \<in> set ops. plain_op op" for c b ops
    using that
  proof (induction ops arbitrary: c b)
    case (Cons op ops)
    have "keys_related (key_step number c op) (key_spec_step b op)"
      by (rule keys_related_step) (use Cons.prems number in auto)
    with Cons show ?case by simp
  qed simp
  moreover have "keys_related key_start key_spec_start"
    by (auto simp: keys_related_def key_start_def key_spec_start_def items_ok_def getItem_def newest_known_def plain_part_def)
  ultimately have r: "keys_related s a" using ops by (auto simp: s_def a_def)
  then have ok: "items_ok (ks_items s) (keys_of a)" and w: "ks_wired s" "ks_namespace s = account a" "plain_part (account a)"
    by (simp_all add: keys_related_def)
  have "loadSpaceKey g ep s = keys_of a (account a) g ep"
  proof (cases "keys_of a (account a) g ep")
    case None
    with items_okD(1)[OF ok w(3) g, of ep] w show ?thesis
      by (simp add: loadSpaceKey_def item_raw)
  next
    case (Some k)
    have "length k = 32" using items_okD(2)[OF ok w(3) g Some] by simp
    then have "length (bytesToHex k) = 64" by simp
    then have "bytesToHex k \<noteq> ''''" by (metis list.size(3) zero_neq_numeral)
    with Some items_okD(1)[OF ok w(3) g, of ep] w \<open>length k = 32\<close> show ?thesis
      by (simp add: loadSpaceKey_def item_raw SPACE_KEY_BYTES_def)
  qed
  moreover have "newest_known (keys_of a (account a) g) (currentEpoch number g s)"
    using read_epoch_newest[OF ok w(1) _ g, of number] w number by (simp add: currentEpoch_def)
  moreover have "getItem (ks_items s) (rawSpaceEpochItem slot g) = None \<and> (\<forall>e. getItem (ks_items s) (rawSpaceKeyItem slot g e) = None)"
    if "plain_part slot" "\<forall>e. keys_of a slot g e = None" for slot
    using items_okD(1,3)[OF ok that(1) g] that(2) by (auto simp: newest_known_def split: if_splits)
  ultimately show ?thesis by blast
qed

theorem space_keys_refine_witness:
  "let ops = [KSwitch (Some ''a''), KStore ''g'' 2 (replicate 32 7), KSwitch (Some ''b''), KSwitch (Some ''a'')]
   in loadSpaceKey ''g'' 2 (foldl (key_step parseInt10) key_start ops) = Some (replicate 32 7)"
proof -
  let ?ops = "[KSwitch (Some ''a''), KStore ''g'' 2 (replicate 32 7), KSwitch (Some ''b''), KSwitch (Some ''a'')]"
  have "loadSpaceKey ''g'' 2 (foldl (key_step parseInt10) key_start ?ops)
      = keys_of (foldl key_spec_step key_spec_start ?ops) (account (foldl key_spec_step key_spec_start ?ops)) ''g'' 2"
    by (rule space_keys_refine[THEN conjunct1]) (auto simp: plain_part_def js_int_def parseInt10_dec)
  then show ?thesis by (simp add: key_spec_start_def)
qed

text \<open>
  Migration copies the keys of newer epochs but keeps the epoch mark of the account: after it the
  newer keys are neither current nor removed by a wipe.
\<close>

lemma migration_strands_newer_keys:
  assumes number: "\<forall>n \<ge> 0. number (js_int n) = Some n"
  defines "st \<equiv> [(rawSpaceEpochItem ''a'' ''g'', js_int 0), (rawSpaceEpochItem '''' ''g'', js_int 1),
      (rawSpaceKeyItem '''' ''g'' 1, ''new'')]"
  defines "st' \<equiv> migrateSpaceKeysToSlot number ''a'' [''g''] st"
  shows "getItem st' (rawSpaceKeyItem ''a'' ''g'' 1) = Some ''new'' \<and> getItem st' (rawSpaceEpochItem ''a'' ''g'') = Some (js_int 0)
    \<and> getItem (clearSpaceKeysForSlot number ''a'' [''g''] st') (rawSpaceKeyItem ''a'' ''g'' 1) = Some ''new''"
proof -
  have plain: "plain_part ''a''" "plain_part ''g''" "plain_part ''''" by (simp_all add: plain_part_def)
  note inj = names_inject[OF plain(1,2,3,2)] names_inject[OF plain(3,2,1,2)] names_inject[OF plain(1,2,1,2)] names_inject[OF plain(3,2,3,2)]
  have n: "number (js_int 0) = Some 0" "number (js_int 1) = Some 1" using number by auto
  have st': "st' = setItem (rawSpaceKeyItem ''a'' ''g'' 1) ''new'' st"
    using n by (simp add: st'_def st_def migrateSpaceKeysToSlot_def js_set_def set_add_def getItem_def top_epoch_def
        migrate_epoch_def setItem_def inj upt_rec)
  show ?thesis
    using n unfolding st' by (simp add: st_def clearSpaceKeysForSlot_def clear_space_def js_set_def set_add_def getItem_def setItem_def removeItem_def
        top_epoch_def inj upt_rec map_of_delete)
qed

end
