(* ===== verification/DisplayName.thy ===== *)
theory DisplayName
  imports Encoding
begin

text \<open>
  The control headers of \<open>client/src/profile/displayName.ts\<close>: a body may begin with the author's name
  (\<open>n\<close>), gradient (\<open>g\<close>), a space invitation (\<open>i\<close>) and an event frame (\<open>a\<close>), each between two characters
  U+0001.  The four regular expressions have the shape \<open>header_re\<close>: since no class contains U+0001,
  a match can only end at the first U+0001.  Texts are strings of code units below 256.  The
  phonebook of learned names (\<open>DisplayNameStore\<close>) is not modelled.
\<close>

section \<open>Definitions\<close>

definition SOH :: char where "SOH = CHR 0x01"
definition MAX_DISPLAY_NAME :: nat where "MAX_DISPLAY_NAME = 40"
definition MAX_GRADIENT_WIRE :: nat where "MAX_GRADIENT_WIRE = 64"
definition MAX_INVITE_WIRE :: nat where "MAX_INVITE_WIRE = 1600"
definition MAX_EVENT_WIRE :: nat where "MAX_EVENT_WIRE = 2048"

definition header_re :: "char \<Rightarrow> (char \<Rightarrow> bool) \<Rightarrow> nat \<Rightarrow> string \<Rightarrow> (string \<times> string) option" where
  \<comment> \<open>the group of a match of \<open>^SOH tag (class{0,limit}) SOH\<close> and what follows the match\<close>
  "header_re tag cls limit rest =
     (case rest of
        a # b # r \<Rightarrow>
          let w = takeWhile cls r
          in if a = SOH \<and> b = tag \<and> length w \<le> limit \<and> at r (length w) = Some SOH
             then Some (w, drop (Suc (length w)) r) else None
      | _ \<Rightarrow> None)"

definition not_framing :: "char \<Rightarrow> bool" where "not_framing c \<longleftrightarrow> c \<noteq> SOH \<and> c \<noteq> CHR 0x0A"

definition base64url_char :: "char \<Rightarrow> bool" where
  \<comment> \<open>\<open>[A-Za-z0-9_-]\<close>\<close>
  "base64url_char c \<longleftrightarrow>
     (let n = of_char c :: nat
      in 65 \<le> n \<and> n \<le> 90 \<or> 97 \<le> n \<and> n \<le> 122 \<or> 48 \<le> n \<and> n \<le> 57 \<or> c = CHR ''_'' \<or> c = CHR ''-'')"

definition NAME_RE :: "string \<Rightarrow> (string \<times> string) option" where
  "NAME_RE = header_re (CHR ''n'') not_framing MAX_DISPLAY_NAME"
definition GRAD_RE :: "string \<Rightarrow> (string \<times> string) option" where
  "GRAD_RE = header_re (CHR ''g'') not_framing MAX_GRADIENT_WIRE"
definition INVITE_RE :: "string \<Rightarrow> (string \<times> string) option" where
  "INVITE_RE = header_re (CHR ''i'') base64url_char MAX_INVITE_WIRE"
definition EVENT_FRAME_RE :: "string \<Rightarrow> (string \<times> string) option" where
  "EVENT_FRAME_RE = header_re (CHR ''a'') base64url_char MAX_EVENT_WIRE"

definition printable :: "string \<Rightarrow> string" where
  "printable s = filter (\<lambda>c. (of_char c :: nat) \<ge> 32) s"

definition sanitizeName :: "string \<Rightarrow> string" where
  "sanitizeName nm = take MAX_DISPLAY_NAME (js_trim (printable nm))"

definition sanitizeWire :: "string \<Rightarrow> string" where
  "sanitizeWire wire = take MAX_GRADIENT_WIRE (printable wire)"

record headers =
  h_name :: "string option"
  h_gradient :: "string option"
  h_invite :: "string option"
  h_eventFrame :: "string option"
  h_text :: string

definition parse_header :: "headers \<Rightarrow> headers option" where
  \<comment> \<open>one round of the loop; \<^const>\<open>None\<close> is the \<open>break\<close>\<close>
  "parse_header h =
     (case NAME_RE (h_text h) of
        Some (w, rest) \<Rightarrow> Some (h\<lparr>h_name := Some (sanitizeName w), h_text := rest\<rparr>)
      | None \<Rightarrow> case GRAD_RE (h_text h) of
        Some (w, rest) \<Rightarrow> Some (h\<lparr>h_gradient := Some w, h_text := rest\<rparr>)
      | None \<Rightarrow> case INVITE_RE (h_text h) of
        Some (w, rest) \<Rightarrow> Some (h\<lparr>h_invite := Some w, h_text := rest\<rparr>)
      | None \<Rightarrow> case EVENT_FRAME_RE (h_text h) of
        Some (w, rest) \<Rightarrow> Some (h\<lparr>h_eventFrame := Some w, h_text := rest\<rparr>)
      | None \<Rightarrow> None)"

lemma header_re_shorter: "header_re tag cls limit s = Some (w, rest) \<Longrightarrow> length rest < length s"
  by (auto simp: header_re_def Let_def split: list.splits if_splits)

lemma parse_header_shorter: "parse_header h = Some h' \<Longrightarrow> length (h_text h') < length (h_text h)"
  by (auto simp: parse_header_def NAME_RE_def GRAD_RE_def INVITE_RE_def EVENT_FRAME_RE_def
      split: option.splits dest!: header_re_shorter)

function parse_loop :: "headers \<Rightarrow> headers" where
  "parse_loop h = (case parse_header h of None \<Rightarrow> h | Some h' \<Rightarrow> parse_loop h')"
  by pat_completeness auto

termination parse_loop
  by (relation "measure (\<lambda>h. length (h_text h))") (auto dest: parse_header_shorter)

declare parse_loop.simps [simp del]

definition parseHeaders :: "string \<Rightarrow> headers" where
  "parseHeaders body = parse_loop \<lparr>h_name = None, h_gradient = None, h_invite = None, h_eventFrame = None,
     h_text = body\<rparr>"

definition decodeNameHeader :: "string \<Rightarrow> string option \<times> string" where
  "decodeNameHeader body = (h_name (parseHeaders body), h_text (parseHeaders body))"

definition or_undefined :: "string option \<Rightarrow> string option" where
  "or_undefined s = (if truthy s then s else None)"

definition decodeGradientHeader :: "string \<Rightarrow> string option" where
  "decodeGradientHeader body = or_undefined (h_gradient (parseHeaders body))"

definition decodeInviteHeader :: "string \<Rightarrow> string option" where
  "decodeInviteHeader body = or_undefined (h_invite (parseHeaders body))"

definition decodeEventFrameHeader :: "string \<Rightarrow> string option" where
  "decodeEventFrameHeader body = or_undefined (h_eventFrame (parseHeaders body))"

definition framed :: "char \<Rightarrow> string \<Rightarrow> string \<Rightarrow> string" where
  "framed tag w s = SOH # tag # w @ SOH # s"

definition encodeNameHeader :: "string \<Rightarrow> string \<Rightarrow> string" where
  "encodeNameHeader s myName =
     (let clean = sanitizeName myName in if clean \<noteq> '''' then framed (CHR ''n'') clean s else s)"

definition encodeIdentityHeader :: "string \<Rightarrow> string \<Rightarrow> string \<Rightarrow> string" where
  "encodeIdentityHeader s myName gradientWire =
     (let wire = sanitizeWire gradientWire;
          out = (if wire \<noteq> '''' then framed (CHR ''g'') wire s else s);
          nm = sanitizeName myName
      in if nm \<noteq> '''' then framed (CHR ''n'') nm out else out)"

definition encodeInviteHeader :: "string \<Rightarrow> string \<Rightarrow> string" where
  "encodeInviteHeader s inviteWire =
     (if inviteWire = '''' \<or> length inviteWire > MAX_INVITE_WIRE \<or> \<not> list_all base64url_char inviteWire then s
      else framed (CHR ''i'') inviteWire s)"

definition encodeEventFrameHeader :: "string \<Rightarrow> string \<Rightarrow> string" where
  "encodeEventFrameHeader s frameWire =
     (if frameWire = '''' \<or> length frameWire > MAX_EVENT_WIRE \<or> \<not> list_all base64url_char frameWire then s
      else framed (CHR ''a'') frameWire s)"

section \<open>Framing\<close>

definition bare :: "string \<Rightarrow> bool" where
  \<comment> \<open>the text does not itself begin with a header\<close>
  "bare s \<longleftrightarrow> NAME_RE s = None \<and> GRAD_RE s = None \<and> INVITE_RE s = None \<and> EVENT_FRAME_RE s = None"

lemma header_re_framed:
  assumes "list_all cls w" "length w \<le> limit" "\<not> cls SOH"
  shows "header_re tag cls limit (framed tag w s) = Some (w, s)"
proof -
  have "takeWhile cls (w @ SOH # s) = w" using assms(1,3) by (simp add: list_all_iff takeWhile_append2)
  with assms(2) show ?thesis by (simp add: header_re_def framed_def at_def)
qed

lemma header_re_other: "tag \<noteq> tag' \<Longrightarrow> header_re tag cls limit (framed tag' w s) = None"
  by (simp add: header_re_def framed_def Let_def)

lemmas header_defs = NAME_RE_def GRAD_RE_def INVITE_RE_def EVENT_FRAME_RE_def

lemma parse_loop_bare: "bare (h_text h) \<Longrightarrow> parse_loop h = h"
  by (subst parse_loop.simps) (simp add: parse_header_def bare_def)

lemma parse_loop_name:
  "list_all not_framing w \<Longrightarrow> length w \<le> MAX_DISPLAY_NAME \<Longrightarrow> h_text h = framed (CHR ''n'') w s \<Longrightarrow>
   parse_loop h = parse_loop (h\<lparr>h_name := Some (sanitizeName w), h_text := s\<rparr>)"
  by (subst parse_loop.simps) (simp add: parse_header_def NAME_RE_def header_re_framed not_framing_def)

lemma parse_loop_gradient:
  "list_all not_framing w \<Longrightarrow> length w \<le> MAX_GRADIENT_WIRE \<Longrightarrow> h_text h = framed (CHR ''g'') w s \<Longrightarrow>
   parse_loop h = parse_loop (h\<lparr>h_gradient := Some w, h_text := s\<rparr>)"
  by (subst parse_loop.simps)
     (simp add: parse_header_def header_defs header_re_other header_re_framed not_framing_def)

lemma base64url_SOH [simp]: "\<not> base64url_char SOH"
  by (simp add: base64url_char_def SOH_def)

lemma parse_loop_invite:
  "list_all base64url_char w \<Longrightarrow> length w \<le> MAX_INVITE_WIRE \<Longrightarrow> h_text h = framed (CHR ''i'') w s \<Longrightarrow>
   parse_loop h = parse_loop (h\<lparr>h_invite := Some w, h_text := s\<rparr>)"
  by (subst parse_loop.simps) (simp add: parse_header_def header_defs header_re_other header_re_framed)

lemma set_js_trim: "set (js_trim s) \<subseteq> set s"
  by (auto simp: js_trim_def dest!: set_dropWhileD)

lemma printable_plain: "c \<in> set (printable s) \<Longrightarrow> not_framing c"
  by (auto simp: printable_def not_framing_def SOH_def)

lemma sanitized_plain: "list_all not_framing (sanitizeName s)" "list_all not_framing (sanitizeWire s)"
  using set_take_subset[of MAX_DISPLAY_NAME "js_trim (printable s)"] set_js_trim[of "printable s"]
    set_take_subset[of MAX_GRADIENT_WIRE "printable s"] printable_plain
  by (auto simp: sanitizeName_def sanitizeWire_def list_all_iff)

text \<open>
  What an author puts in front of a text is what a reader gets back: the wire of the gradient, the
  sanitised name (sanitised once more by the reader) and the text itself, provided the text does not
  itself begin like a header.
\<close>

theorem identity_header_roundtrip:
  assumes "bare s"
  shows "parseHeaders (encodeIdentityHeader s nm wire) =
    \<lparr>h_name = (if sanitizeName nm = '''' then None else Some (sanitizeName (sanitizeName nm))),
     h_gradient = (if sanitizeWire wire = '''' then None else Some (sanitizeWire wire)),
     h_invite = None, h_eventFrame = None, h_text = s\<rparr>"
proof -
  have len: "length (sanitizeName nm) \<le> MAX_DISPLAY_NAME" "length (sanitizeWire wire) \<le> MAX_GRADIENT_WIRE"
    by (simp_all add: sanitizeName_def sanitizeWire_def)
  note plain = sanitized_plain(1)[of nm] sanitized_plain(2)[of wire]
  have name: "parse_loop (h\<lparr>h_text := framed (CHR ''n'') (sanitizeName nm) t\<rparr>) =
      parse_loop (h\<lparr>h_name := Some (sanitizeName (sanitizeName nm)), h_text := t\<rparr>)" for h :: headers and t
    using parse_loop_name[OF plain(1) len(1), of "h\<lparr>h_text := framed (CHR ''n'') (sanitizeName nm) t\<rparr>"] by simp
  have grad: "parse_loop (h\<lparr>h_text := framed (CHR ''g'') (sanitizeWire wire) t\<rparr>) =
      parse_loop (h\<lparr>h_gradient := Some (sanitizeWire wire), h_text := t\<rparr>)" for h :: headers and t
    using parse_loop_gradient[OF plain(2) len(2), of "h\<lparr>h_text := framed (CHR ''g'') (sanitizeWire wire) t\<rparr>"] by simp
  define h0 where "h0 = \<lparr>h_name = None, h_gradient = None, h_invite = None, h_eventFrame = None, h_text = s\<rparr>"
  have start: "parseHeaders b = parse_loop (h0\<lparr>h_text := b\<rparr>)" for b by (simp add: parseHeaders_def h0_def)
  show ?thesis
    unfolding start encodeIdentityHeader_def Let_def
    using assms by (auto simp: name grad parse_loop_bare) (simp_all add: h0_def)
qed

text \<open>
  The header of a name cut in the middle of two words is shortened again by its reader: the name is
  clamped after it is trimmed, so the clamped name may end in a space.
\<close>

theorem clamped_name_read_shorter:
  "let nm = replicate 39 (CHR ''a'') @ '' b''
   in length (sanitizeName nm) = 40 \<and> h_name (parseHeaders (encodeNameHeader ''hi'' nm)) = Some (replicate 39 (CHR ''a''))"
  by code_simp

end
