(* ===== verification/BlindSigner.thy ===== *)
theory BlindSigner
  imports ContentKey DisplayName
begin

text \<open>
  \<open>client/src/blind/blindSigner.ts\<close>: the signer that turns an outgoing post into a blind one.

  It composes the modules it imports: the headers of \<open>DisplayName\<close>, the active key of \<open>Identity\<close>'s
  \<open>community\<close> and its \<open>buildAttribution\<close>, the write key of \<open>ContentKey\<close>, the wallets, and pricing and
  assembly of \<open>BlindPost\<close>.  \<open>signer\<close> is what the class is handed: the identity (its plain signer and
  its secret, absent where no key is enrolled), the media route, whether sealing is required now and
  the price step.  The wallet of the media route is the second of the two wallets; both share a store.
  NIP-44 refuses some texts (the empty one and those over 64 KiB): \<open>s_accepts\<close> says which
  bodies it encrypts.  Reads of the clock are arguments: for the probe attribution, for the real one,
  and for the event.
\<close>

section \<open>Definitions\<close>

record signer =
  s_plain :: "unsigned_event \<Rightarrow> event option" \<comment> \<open>\<open>deps.sign\<close>; \<^const>\<open>None\<close> throws\<close>
  s_secret :: "u8 list option" \<comment> \<open>what \<open>deps.useSecretKey\<close> lends; \<^const>\<open>None\<close> throws\<close>
  s_route :: "unsigned_event \<Rightarrow> string option" \<comment> \<open>the domain of the media route\<close>
  s_sealRequired :: bool
  s_accepts :: "string \<Rightarrow> bool"
  s_bytesPerToken :: int

definition PROBE_EVENT_PUBKEY_HEX :: string where
  "PROBE_EVENT_PUBKEY_HEX = replicate 64 (CHR ''0'')"

definition event_cost :: "int \<Rightarrow> unsigned_event \<Rightarrow> string \<Rightarrow> nat" where
  "event_cost bytesPerToken u attr =
     nat (tokenCost (units (u_content u)) (map (map units) (u_tags u @ [[TAG_ATTR, attr]])) bytesPerToken)"

definition sealed_body :: "sealing \<Rightarrow> signer \<Rightarrow> content_keys \<Rightarrow> unsigned_event \<Rightarrow> blind_error + unsigned_event" where
  "sealed_body P S keys u =
     (let clean = u\<lparr>u_content := snd (decodeNameHeader (u_content u))\<rparr>
      in if \<not> s_sealRequired S then Inr clean
         else case getWriteContentKey keys of
           None \<Rightarrow> Inl SealKeyUnavailable
         | Some (ep, key) \<Rightarrow>
             if \<not> s_accepts S (u_content clean) then Inl BodyRefused
             else Inr (clean\<lparr>u_content := s_encrypt P (u_content clean) key,
                             u_tags := u_tags clean @ [[TAG_ENC, ENC_NIP44], [TAG_KE, js_int ep]]\<rparr>))"

definition post_attribution :: "sealing \<Rightarrow> u8 list \<Rightarrow> u8 list \<Rightarrow> unsigned_event \<Rightarrow> int \<Rightarrow> string \<Rightarrow> string" where
  \<comment> \<open>\<open>buildAttribution\<close> with the name and gradient lifted out of the body\<close>
  "post_attribution P sk communityKey u time eventPubkey =
     buildAttribution P time sk eventPubkey communityKey
       (or_undefined (fst (decodeNameHeader (u_content u)))) (decodeGradientHeader (u_content u))"

definition finish_sign ::
  "crypto \<Rightarrow> u8 \<times> u8 \<times> u8 \<times> u8 \<Rightarrow> int \<Rightarrow> (string \<Rightarrow> string) \<Rightarrow> unsigned_event \<Rightarrow>
   codec_error + token list option \<Rightarrow> blind_error + event" where
  \<comment> \<open>the end of \<open>sign\<close>: the spent tokens sign the priced event, with the attribution rebuilt\<close>
  "finish_sign C rnd now attr priced r =
     (case r of
        Inl e \<Rightarrow> Inl (BadStoredToken e)
      | Inr None \<Rightarrow> Inl BlindTokensExhausted
      | Inr (Some ts) \<Rightarrow>
          if ts = [] then Inl NoToken
          else assembleBlindEvent C rnd now priced ts (attr (bytesToHex (tok (hd ts)))))"

definition post_sign ::
  "crypto \<Rightarrow> u8 \<times> u8 \<times> u8 \<times> u8 \<Rightarrow> int \<Rightarrow> int \<Rightarrow> string \<Rightarrow> (string \<Rightarrow> string) \<Rightarrow> unsigned_event \<Rightarrow>
   wallet \<times> wallet \<times> storage \<Rightarrow> (wallet \<times> wallet \<times> storage) \<times> (blind_error + event)" where
  \<comment> \<open>the path of the post wallet\<close>
  "post_sign C rnd now b probe attr sealed = (\<lambda>(w, mw, st).
     let ((w, st), r) = spendMany (event_cost b sealed probe) (w, st)
     in ((w, mw, st), finish_sign C rnd now attr sealed r))"

definition routed_sign ::
  "crypto \<Rightarrow> u8 \<times> u8 \<times> u8 \<times> u8 \<Rightarrow> int \<Rightarrow> int \<Rightarrow> string \<Rightarrow> (string \<Rightarrow> string) \<Rightarrow> string option \<Rightarrow> unsigned_event \<Rightarrow>
   wallet \<times> wallet \<times> storage \<Rightarrow> (wallet \<times> wallet \<times> storage) \<times> (blind_error + event)" where
  \<comment> \<open>the media wallet first where there is a route, the post wallet where it has too few tokens\<close>
  "routed_sign C rnd now b probe attr route sealed = (\<lambda>(w, mw, st).
     case route of
       None \<Rightarrow> post_sign C rnd now b probe attr sealed (w, mw, st)
     | Some domain \<Rightarrow>
         let withDom = sealed\<lparr>u_tags := u_tags sealed @ [[TAG_DOM, domain]]\<rparr>;
             ((mw, st), r) = spendMany (event_cost b withDom probe) (mw, st)
         in if r = Inr None then post_sign C rnd now b probe attr sealed (w, mw, st)
            else ((w, mw, st), finish_sign C rnd now attr withDom r))"

definition blind_sign ::
  "crypto \<Rightarrow> sealing \<Rightarrow> u8 \<times> u8 \<times> u8 \<times> u8 \<Rightarrow> int \<times> int \<times> int \<Rightarrow> signer \<Rightarrow> community \<Rightarrow> content_keys \<Rightarrow>
   unsigned_event \<Rightarrow> wallet \<times> wallet \<times> storage \<Rightarrow> (wallet \<times> wallet \<times> storage) \<times> (blind_error + event)" where
  "blind_sign C P rnd clock S com keys u ws =
     (case active_key com of
        None \<Rightarrow> (ws, case s_plain S u of None \<Rightarrow> Inl NoKeyEnrolled | Some e \<Rightarrow> Inr e)
      | Some communityKey \<Rightarrow>
          case sealed_body P S keys u of
            Inl e \<Rightarrow> (ws, Inl e)
          | Inr sealed \<Rightarrow>
              case s_secret S of
                None \<Rightarrow> (ws, Inl NoKeyEnrolled)
              | Some sk \<Rightarrow>
                  let (t_probe, t_attr, now) = clock; attr = post_attribution P sk communityKey u
                  in routed_sign C rnd now (s_bytesPerToken S) (attr t_probe PROBE_EVENT_PUBKEY_HEX) (attr t_attr)
                       (s_route S u) sealed ws)"

section \<open>The JSON text of an attestation\<close>

text \<open>
  \<open>JSON.stringify\<close> on the event that \<open>finalizeEvent\<close> returns, over texts of code units below 256.
\<close>

definition json_char :: "char \<Rightarrow> string" where
  "json_char c =
     (let n = of_char c :: nat
      in if c = CHR 0x22 \<or> c = CHR 0x5C then [CHR 0x5C, c]
         else case map_of [(8, CHR ''b''), (9, CHR ''t''), (10, CHR ''n''), (12, CHR ''f''), (13, CHR ''r'')] n of
           Some d \<Rightarrow> [CHR 0x5C, d]
         | None \<Rightarrow> if n < 32 then CHR 0x5C # ''u00'' @ padStart 2 (CHR ''0'') (toString16 n) else [c])"

definition json_string :: "string \<Rightarrow> string" where
  "json_string s = CHR 0x22 # concat (map json_char s) @ [CHR 0x22]"

definition json_array :: "string list \<Rightarrow> string" where
  "json_array xs = CHR ''['' # join_on (CHR '','') xs @ '']''"

definition json_field :: "string \<Rightarrow> string \<Rightarrow> string" where
  "json_field k v = json_string k @ CHR '':'' # v"

definition json_event :: "signed_event \<Rightarrow> string" where
  "json_event n = CHR ''{'' # join_on (CHR '','')
     [json_field ''kind'' (js_dec (kind n)), json_field ''created_at'' (js_int (created_at n)),
      json_field ''tags'' (json_array (map (\<lambda>t. json_array (map json_string t)) (tags n))),
      json_field ''content'' (json_string (content n)), json_field ''pubkey'' (json_string (pubkey n)),
      json_field ''id'' (json_string (eid n)), json_field ''sig'' (json_string (esig n))] @ ''}''"

section \<open>The width of an attribution\<close>

definition blen :: "string \<Rightarrow> nat" where
  \<comment> \<open>the bytes of a text\<close>
  "blen s = utf8ByteLength (units s)"

definition hex_text :: "nat \<Rightarrow> string \<Rightarrow> bool" where
  "hex_text n s \<longleftrightarrow> length s = n \<and> list_all (\<lambda>c. hex_val c \<noteq> None) s"

definition wire_widths :: "sealing \<Rightarrow> bool" where
  \<comment> \<open>\<open>finalizeEvent\<close> keeps time and content; an id has 64 hexadecimal digits and a signature 128\<close>
  "wire_widths P \<longleftrightarrow> (\<forall>k t tg c sk. created_at (s_finalize P k t tg c sk) = t \<and> content (s_finalize P k t tg c sk) = c
     \<and> hex_text 64 (eid (s_finalize P k t tg c sk)) \<and> hex_text 128 (esig (s_finalize P k t tg c sk)))"

definition nip44_widths :: "sealing \<Rightarrow> bool" where
  \<comment> \<open>the bytes of a NIP-44 ciphertext are determined by the bytes of its plaintext\<close>
  "nip44_widths P \<longleftrightarrow> (\<forall>m m' key. blen m = blen m' \<longrightarrow> blen (s_encrypt P m key) = blen (s_encrypt P m' key))"

definition ecma_json :: "sealing \<Rightarrow> bool" where
  "ecma_json P \<longleftrightarrow> s_stringify P = json_event"

lemma unit_range: "0 \<le> (of_char c :: int)" "(of_char c :: int) < 256"
  using nat_of_char_less_256[of c] of_nat_of_char[of c, where ?'a = int] by linarith+

lemma blen_Nil [simp]: "blen [] = 0"
  by (simp add: blen_def units_def)

lemma blen_Cons [simp]: "blen (c # s) = cp_bytes (of_char c) + blen s"
  using unit_range[of c] by (cases s) (auto simp: blen_def units_def)

lemma blen_append [simp]: "blen (a @ b) = blen a + blen b"
  by (induction a) auto

lemma hex_val_chars: "hex_val c \<noteq> None \<Longrightarrow> c \<in> set ''0123456789abcdefABCDEF''"
  by (auto simp: hex_val_def dest!: map_of_SomeD set_zip_leftD)

lemma hex_char_json: "hex_val c \<noteq> None \<Longrightarrow> json_char c = [c] \<and> cp_bytes (of_char c) = 1"
proof -
  have "\<forall>c \<in> set ''0123456789abcdefABCDEF''. json_char c = [c] \<and> cp_bytes (of_char c) = 1" by code_simp
  then show "hex_val c \<noteq> None \<Longrightarrow> json_char c = [c] \<and> cp_bytes (of_char c) = 1" using hex_val_chars by blast
qed

lemma blen_hex_json:
  assumes "hex_text n s"
  shows "blen (json_string s) = n + 2"
proof -
  have "blen (concat (map json_char s)) = length s" if "list_all (\<lambda>c. hex_val c \<noteq> None) s" for s
    using that by (induction s) (simp_all add: hex_char_json)
  with assms show ?thesis by (simp add: json_string_def hex_text_def cp_bytes_def)
qed

lemma blen_js_dec: "blen (js_dec n) = length (js_dec n)"
proof -
  have "blen s = length s" if "\<forall>c \<in> set s. \<exists>d < 10. c = hex_digit d" for s
    using that hex_char_json by (induction s) (fastforce simp: hex_val_digit)+
  then show ?thesis using js_dec_digit by blast
qed

lemma blen_js_int: "blen (js_int i) = length (js_int i)"
  by (simp add: js_int_def blen_js_dec cp_bytes_def)

lemma hex_text_bytes: "hex_text (2 * length bs) (bytesToHex bs)"
proof -
  have "unat (b :: u8) div 16 < 16" "unat b mod 16 < 16" for b using unat_u8_lt[of b] by auto
  then have "list_all (\<lambda>c. hex_val c \<noteq> None) (bytesToHex bs)"
    by (induction bs) (auto simp: bytesToHex_simps hex_val_digit)
  then show ?thesis by (simp add: hex_text_def)
qed

lemma hex_text_probe: "hex_text 64 PROBE_EVENT_PUBKEY_HEX"
  by (simp add: hex_text_def PROBE_EVENT_PUBKEY_HEX_def list_all_iff hex_val_def)

lemma blen_json_array: "blen (json_array (x # xs)) = blen x + blen (json_array ([] # xs))"
  by (cases xs) (simp_all add: json_array_def)

lemma json_event_width:
  assumes "kind n = kind n'" "content n = content n'" "pubkey n = pubkey n'"
    and "blen (js_int (created_at n)) = blen (js_int (created_at n'))"
    and "blen (json_string (eid n)) = blen (json_string (eid n'))"
    and "blen (json_string (esig n)) = blen (json_string (esig n'))"
    and "tags n = [name, v] # rest" "tags n' = [name, v'] # rest"
    and "blen (json_string v) = blen (json_string v')"
  shows "blen (json_event n) = blen (json_event n')"
proof -
  have "blen (json_array [json_string name, json_string v]) = blen (json_array [json_string name, json_string v'])"
    using assms(9) by (simp add: json_array_def)
  then have "blen (json_array (map (\<lambda>t. json_array (map json_string t)) (tags n))) =
      blen (json_array (map (\<lambda>t. json_array (map json_string t)) (tags n')))"
    using blen_json_array[of "json_array [json_string name, json_string v]"]
      blen_json_array[of "json_array [json_string name, json_string v']"] by (simp add: assms(7,8))
  with assms(1-6) show ?thesis by (simp add: json_event_def json_field_def del: js_dec.simps)
qed

lemma attestation_width:
  assumes "finalize_ok P" "wire_widths P" "ecma_json P"
    and "length (js_int t) = length (js_int t')" "hex_text 64 pk" "hex_text 64 pk'"
  shows "blen (s_stringify P (attestation P t sk pk nm grad)) = blen (s_stringify P (attestation P t' sk pk' nm grad))"
proof -
  have "blen (json_event (s_finalize P k t ([name, pk] # rest) c sk)) =
      blen (json_event (s_finalize P k t' ([name, pk'] # rest) c sk))" for k name rest c
    using assms(1,2,4-6) blen_hex_json[of 64] blen_hex_json[of 128]
    by (intro json_event_width[where name = name and v = pk and v' = pk' and rest = rest])
       (simp_all add: finalize_ok_def wire_widths_def blen_js_int)
  with assms(3) show ?thesis by (simp add: ecma_json_def attestation_def)
qed

lemma attribution_width:
  assumes "finalize_ok P" "wire_widths P" "ecma_json P" "nip44_widths P"
    and "length (js_int t) = length (js_int t')" "hex_text 64 pk" "hex_text 64 pk'"
  shows "blen (post_attribution P sk key u t pk) = blen (post_attribution P sk key u t' pk')"
  unfolding post_attribution_def buildAttribution_def
  using assms(4)[unfolded nip44_widths_def] attestation_width[OF assms(1-3,5-7)] by blast

section \<open>Tokens of 32 bytes\<close>

definition wide :: "stored_token \<Rightarrow> bool" where
  "wide s = (case unstore s of Inr t \<Rightarrow> length (tok t) = 32 | Inl _ \<Rightarrow> True)"

definition wide_items :: "storage \<Rightarrow> bool" where
  "wide_items st \<longleftrightarrow> (\<forall>k v. getItem st k = Some (Json v) \<longrightarrow> list_all wide (parsed_tokens v))"

definition wide_wallet :: "wallet \<times> storage \<Rightarrow> bool" where
  "wide_wallet = (\<lambda>(w, st). list_all wide (held w) \<and> wide_items st)"

definition wide_wallets :: "wallet \<times> wallet \<times> storage \<Rightarrow> bool" where
  \<comment> \<open>every token held or stored is a public key of 32 bytes\<close>
  "wide_wallets = (\<lambda>(w, mw, st). wide_wallet (w, st) \<and> wide_wallet (mw, st))"

lemma parsed_tokens_other [simp]: "parsed_tokens (JNum n) = []"
  by (simp add: parsed_tokens_def)

lemma wide_items_put:
  "wide_items st \<Longrightarrow> (\<And>v. x = Json v \<Longrightarrow> list_all wide (parsed_tokens v)) \<Longrightarrow> wide_items (setItem k x st)"
  "wide_items st \<Longrightarrow> wide_items (removeItem k st)"
  by (auto simp: wide_items_def storage_simps split: if_splits)

lemma wide_wallet_frame [simp]:
  "wide_wallet (w\<lparr>epoch := e\<rparr>, st) = wide_wallet (w, st)" "wide_wallet (w\<lparr>hydrated := b\<rparr>, st) = wide_wallet (w, st)"
  by (simp_all add: wide_wallet_def)

lemma wide_reconciled: "wide_wallet ws \<Longrightarrow> wide_wallet (reconciled ws)"
  by (cases ws) (auto simp: reconciled_def reconcileKey_def wide_wallet_def Let_def intro!: wide_items_put)

lemma wide_hydrate:
  assumes "wide_wallet ws"
  shows "wide_wallet (hydrate ws)"
proof -
  obtain w st where ws: "ws = (w, st)" by (cases ws)
  have loaded: "wide_wallet (w\<lparr>held := parsed_tokens v\<rparr>, st)" if "getItem st (walletKey w) = Some (Json v)" for v
    using assms that by (auto simp: ws wide_wallet_def wide_items_def)
  have fin: "wide_wallet (let (w, st) = reconciled (x, st) in (w\<lparr>hydrated := True\<rparr>, st))" if "wide_wallet (x, st)" for x
    using wide_reconciled[OF that] by (cases "reconciled (x, st)") simp
  have same: "w\<lparr>held := held w\<rparr> = w" by simp
  show ?thesis
    using assms loaded fin
    by (auto simp: ws hydrate_def Let_def same split: option.splits stext.splits simp del: fun_upd_apply)
qed

lemma wide_resync: "wide_wallet ws \<Longrightarrow> wide_wallet (resyncFromStorage ws)"
  by (cases ws) (auto simp: resyncFromStorage_def wide_wallet_def wide_items_def split: option.splits stext.splits)

lemma unstore_all_wide: "unstore_all h = Inr ts \<Longrightarrow> list_all wide h \<Longrightarrow> list_all (\<lambda>t. length (tok t) = 32) ts"
  by (induction h arbitrary: ts) (auto simp: sbind_Inr_iff wide_def)

lemma spendMany_wide:
  assumes "wide_wallet ws" "spendMany n ws = (ws', r)"
  shows "wide_wallet ws'" "r = Inr (Some ts) \<Longrightarrow> list_all (\<lambda>t. length (tok t) = 32) ts"
proof -
  obtain w st where h: "hydrate ws = (w, st)" by (cases "hydrate ws")
  obtain w1 st1 where r: "(if length (held w) < n then resyncFromStorage (w, st) else (w, st)) = (w1, st1)" by fastforce
  have w1: "wide_wallet (w1, st1)"
    using wide_hydrate[OF assms(1)] wide_resync[of "(w, st)"] h r by (auto split: if_splits)
  have parts: "list_all wide (take n (held w1))" "list_all wide (drop n (held w1))"
    using w1 by (auto simp: wide_wallet_def list_all_iff dest: in_set_takeD in_set_dropD)
  note step = spendMany_def h r Let_def
  show "wide_wallet ws'"
    using assms w1 parts(2)
    by (auto simp: step wide_wallet_def persist_def split: if_splits intro!: wide_items_put)
  show "list_all (\<lambda>t. length (tok t) = 32) ts" if "r = Inr (Some ts)"
    using assms(2) that unstore_all_wide[OF _ parts(1)] by (auto simp: step sbind_Inr_iff split: if_splits)
qed

section \<open>What the signer returns\<close>

lemma finish_sign_Inr:
  "finish_sign C rnd now attr v r = Inr e \<Longrightarrow> \<exists>ts. r = Inr (Some ts)"
  by (auto simp: finish_sign_def split: sum.splits option.splits)

lemma post_sign_cases:
  assumes "post_sign C rnd now b probe attr v (w, mw, st) = (ws', Inr e)"
  obtains ts wsy where "spendMany (event_cost b v probe) (w, st) = (wsy, Inr (Some ts))"
    "finish_sign C rnd now attr v (Inr (Some ts)) = Inr e"
proof -
  obtain wsy r where r: "spendMany (event_cost b v probe) (w, st) = (wsy, r)" by fastforce
  with assms have "finish_sign C rnd now attr v r = Inr e" by (simp add: post_sign_def case_prod_unfold Let_def)
  with r that show ?thesis using finish_sign_Inr by blast
qed

lemma routed_sign_cases:
  assumes "routed_sign C rnd now b probe attr route sealed ws = (ws', Inr e)"
  obtains v ts wsx wsy where "spendMany (event_cost b v probe) wsx = (wsy, Inr (Some ts))"
    "finish_sign C rnd now attr v (Inr (Some ts)) = Inr e" "wide_wallets ws \<Longrightarrow> wide_wallet wsx"
    "v = sealed \<or> (\<exists>d. v = sealed\<lparr>u_tags := u_tags sealed @ [[TAG_DOM, d]]\<rparr>)"
proof -
  obtain w mw st where ws: "ws = (w, mw, st)" by (cases ws)
  show ?thesis
  proof (cases route)
    case None
    with assms ws have "post_sign C rnd now b probe attr sealed (w, mw, st) = (ws', Inr e)" by (simp add: routed_sign_def)
    with ws show ?thesis by (elim post_sign_cases) (rule that, auto simp: wide_wallets_def)
  next
    case (Some d)
    define v where "v = sealed\<lparr>u_tags := u_tags sealed @ [[TAG_DOM, d]]\<rparr>"
    obtain mw' st' r where r: "spendMany (event_cost b v probe) (mw, st) = ((mw', st'), r)"
      by (metis prod.exhaust)
    show ?thesis
    proof (cases "r = Inr None")
      case True
      with assms ws Some r have "post_sign C rnd now b probe attr sealed (w, mw', st') = (ws', Inr e)"
        by (simp add: routed_sign_def Let_def flip: v_def)
      moreover have "wide_wallet (w, st')" if "wide_wallets ws"
        using that spendMany_wide(1)[OF _ r] by (simp add: ws wide_wallets_def wide_wallet_def)
      ultimately show ?thesis by (elim post_sign_cases) (rule that, auto)
    next
      case False
      with assms ws Some r have "finish_sign C rnd now attr v r = Inr e"
        by (simp add: routed_sign_def Let_def flip: v_def)
      moreover from this obtain ts where "r = Inr (Some ts)" using finish_sign_Inr by blast
      ultimately show ?thesis using r ws by (intro that[of v "(mw, st)"]) (auto simp: wide_wallets_def v_def)
    qed
  qed
qed

lemma blind_sign_routed:
  assumes "active_key com = Some key" "blind_sign C P rnd (t_probe, t_attr, now) S com keys u ws = (ws', Inr e)"
  obtains sealed sk where "sealed_body P S keys u = Inr sealed"
    "routed_sign C rnd now (s_bytesPerToken S) (post_attribution P sk key u t_probe PROBE_EVENT_PUBKEY_HEX)
       (post_attribution P sk key u t_attr) (s_route S u) sealed ws = (ws', Inr e)"
  using assms by (auto simp: blind_sign_def Let_def split: sum.splits option.splits)

lemma finish_sign_pays:
  assumes "finish_sign C rnd now attr v (Inr (Some ts)) = Inr e" "length ts = event_cost b v probe"
    and "list_all (\<lambda>t. length (tok t) = 32) ts" "plain_tags (u_tags v)"
    and "\<And>pk. hex_text 64 pk \<Longrightarrow> blen (attr pk) = blen probe"
  shows "int (length (filter (tag_is TAG_TOKEN) (tags e))) =
    tokenCost (units (content e)) (map (map units) (tags e)) b"
proof -
  obtain t0 others where ts: "ts = t0 # others" using assms(1) by (cases ts) (auto simp: finish_sign_def)
  have a: "assembleBlindEvent C rnd now v ts (attr (bytesToHex (tok t0))) = Inr e"
    using assms(1) by (simp add: finish_sign_def ts)
  have "hex_text 64 (bytesToHex (tok t0))" using hex_text_bytes[of "tok t0"] assms(3) by (simp add: ts)
  then have "utf8ByteLength (units (attr (bytesToHex (tok t0)))) = utf8ByteLength (units probe)"
    using assms(5) by (simp add: blen_def)
  note weight = assembled_weight[OF a this]
  have "0 \<le> tokenCost body tgs b" for body tgs
    using tokenCost_bounds(1)[of b body tgs] by (cases "0 < b") (auto simp: tokenCost_def)
  with assembled_count[OF a assms(4)] weight assms(2) show ?thesis
    by (simp add: event_cost_def tokenCost_def)
qed

lemma sealed_body_plain:
  "sealed_body P S keys u = Inr v \<Longrightarrow> plain_tags (u_tags u) \<Longrightarrow> plain_tags (u_tags v)"
  by (auto simp: sealed_body_def plain_tags_def tag_is_def Let_def split: if_splits option.splits)

text \<open>
  C28. In a community with a key, an event that the signer returns carries exactly as many tokens as
  the relay charges for it: the price of the finished event, over all its tags, is the number of its
  token tags.  Pricing happens before the first token, hence the event's own key, is known, with an
  attestation of a placeholder key signed at an earlier time.  What it rests on: the composer added
  no token tags of its own, held tokens are 32-byte keys, the two times have equally many digits,
  finalised events have ids and signatures of fixed width, \<open>JSON.stringify\<close>, and a NIP-44 ciphertext
  whose size is determined by the size of its plaintext.  Without a community key the plain event goes out
  and no wallet changes.
\<close>

theorem blind_sign_pays_exactly:
  assumes "finalize_ok P" "wire_widths P" "ecma_json P" "nip44_widths P"
    and "length (js_int t_probe) = length (js_int t_attr)"
    and "plain_tags (u_tags u)" "wide_wallets ws"
    and "blind_sign C P rnd (t_probe, t_attr, now) S com keys u ws = (ws', Inr e)"
  shows "if active_key com = None then s_plain S u = Some e \<and> ws' = ws
    else int (length (filter (tag_is TAG_TOKEN) (tags e))) =
      tokenCost (units (content e)) (map (map units) (tags e)) (s_bytesPerToken S)"
proof (cases "active_key com")
  case None
  with assms(8) show ?thesis by (auto simp: blind_sign_def split: option.splits)
next
  case (Some key)
  from blind_sign_routed[OF Some assms(8)] obtain sealed sk where s: "sealed_body P S keys u = Inr sealed"
    and r: "routed_sign C rnd now (s_bytesPerToken S) (post_attribution P sk key u t_probe PROBE_EVENT_PUBKEY_HEX)
      (post_attribution P sk key u t_attr) (s_route S u) sealed ws = (ws', Inr e)" .
  from routed_sign_cases[OF r] obtain v ts wsx wsy where
    v: "spendMany (event_cost (s_bytesPerToken S) v (post_attribution P sk key u t_probe PROBE_EVENT_PUBKEY_HEX)) wsx
         = (wsy, Inr (Some ts))" "wide_wallets ws \<Longrightarrow> wide_wallet wsx"
      "finish_sign C rnd now (post_attribution P sk key u t_attr) v (Inr (Some ts)) = Inr e"
      "v = sealed \<or> (\<exists>d. v = sealed\<lparr>u_tags := u_tags sealed @ [[TAG_DOM, d]]\<rparr>)" by metis
  have "plain_tags (u_tags v)"
    using v(4) sealed_body_plain[OF s assms(6)] by (auto simp: plain_tags_def tag_is_def)
  with finish_sign_pays[OF v(3) spendMany_length[OF v(1)] spendMany_wide(2)[OF v(2)[OF assms(7)] v(1) refl]]
    attribution_width[OF assms(1-4) assms(5)[symmetric] _ hex_text_probe] Some
  show ?thesis by simp
qed

lemma finish_sign_content:
  assumes "finish_sign C rnd now attr v r = Inr e"
  shows "content e = u_content v" "set (u_tags v) \<subseteq> set (tags e)"
proof -
  obtain ts a where "assembleBlindEvent C rnd now v ts a = Inr e"
    using assms by (auto simp: finish_sign_def split: sum.splits option.splits if_splits)
  then show "content e = u_content v" "set (u_tags v) \<subseteq> set (tags e)"
    by (auto dest!: assembled_tags)
qed

text \<open>
  C36. Sealing fails closed once a community key is loaded: where sealed bodies are required,
  without a key of the write epoch the signer fails before it spends a token, and with one every
  event it returns carries the body sealed under that key, the marker of sealing and the epoch.
  Without a community key the requirement is not consulted: what the identity signs goes out as it is.
\<close>

theorem sealing_fails_closed:
  assumes "s_sealRequired S"
  shows "case active_key com of
      None \<Rightarrow> blind_sign C P rnd clock S com keys u ws = (ws, case s_plain S u of None \<Rightarrow> Inl NoKeyEnrolled | Some e \<Rightarrow> Inr e)
    | Some _ \<Rightarrow> (case getWriteContentKey keys of
        None \<Rightarrow> blind_sign C P rnd clock S com keys u ws = (ws, Inl SealKeyUnavailable)
      | Some (ep, key) \<Rightarrow> (\<forall>ws' e. blind_sign C P rnd clock S com keys u ws = (ws', Inr e) \<longrightarrow>
          content e = s_encrypt P (snd (decodeNameHeader (u_content u))) key
          \<and> {[TAG_ENC, ENC_NIP44], [TAG_KE, js_int ep]} \<subseteq> set (tags e)))"
proof (cases "active_key com")
  case None
  then show ?thesis by (simp add: blind_sign_def)
next
  case act: (Some k)
  show ?thesis
  proof (cases "getWriteContentKey keys")
    case None
    with assms act show ?thesis by (simp add: blind_sign_def sealed_body_def)
  next
    case (Some w)
    obtain ep key where w: "w = (ep, key)" by (cases w)
    obtain t_probe t_attr now where clock: "clock = (t_probe, t_attr, now)" by (cases clock)
    have "content e = s_encrypt P (snd (decodeNameHeader (u_content u))) key
        \<and> {[TAG_ENC, ENC_NIP44], [TAG_KE, js_int ep]} \<subseteq> set (tags e)"
      if e: "blind_sign C P rnd clock S com keys u ws = (ws', Inr e)" for ws' e
    proof -
      from blind_sign_routed[OF act e[unfolded clock]] obtain sealed sk where
        s: "sealed_body P S keys u = Inr sealed" and r: "routed_sign C rnd now (s_bytesPerToken S)
          (post_attribution P sk k u t_probe PROBE_EVENT_PUBKEY_HEX) (post_attribution P sk k u t_attr)
          (s_route S u) sealed ws = (ws', Inr e)" .
      from routed_sign_cases[OF r] obtain v ts where
        v: "finish_sign C rnd now (post_attribution P sk k u t_attr) v (Inr (Some ts)) = Inr e"
          "v = sealed \<or> (\<exists>d. v = sealed\<lparr>u_tags := u_tags sealed @ [[TAG_DOM, d]]\<rparr>)" by metis
      have "u_content sealed = s_encrypt P (snd (decodeNameHeader (u_content u))) key"
        "{[TAG_ENC, ENC_NIP44], [TAG_KE, js_int ep]} \<subseteq> set (u_tags sealed)"
        using s assms Some w by (auto simp: sealed_body_def Let_def split: if_splits)
      with finish_sign_content[OF v(1)] v(2) show ?thesis by auto
    qed
    with act Some w show ?thesis by simp
  qed
qed

section \<open>A concrete signer\<close>

definition ex_nip :: sealing where
  "ex_nip = \<lparr>s_encrypt = (\<lambda>m k. (if k = [] then CHR ''A'' else CHR ''B'') # m), s_decrypt = (\<lambda>c k. Some (drop 1 c)),
     s_stringify = json_event, s_parse = (\<lambda>_. None),
     s_finalize = (\<lambda>k t tg c sk. \<lparr>eid = replicate 64 (CHR ''a''), pubkey = bytesToHex sk, created_at = t, kind = k,
       tags = tg, content = c, esig = replicate 128 (CHR ''7'')\<rparr>),
     s_verify = (\<lambda>_. True), s_public = bytesToHex\<rparr>"

definition ex_signer :: "bool \<Rightarrow> signer" where
  "ex_signer required = \<lparr>s_plain = (\<lambda>u. Some \<lparr>eid = '''', pubkey = ''07'', created_at = 0, kind = u_kind u,
       tags = u_tags u, content = u_content u\<rparr>), s_secret = Some [7], s_route = (\<lambda>u. if u_kind u = 4 then Some ''picture'' else None),
     s_sealRequired = required, s_accepts = (\<lambda>s. s \<noteq> ''''), s_bytesPerToken = 200\<rparr>"

definition ex_post :: unsigned_event where
  "ex_post = \<lparr>u_kind = 1, u_created_at = Some 1000, u_tags = [[''t'', ''x'']], u_content = encodeNameHeader ''hi'' ''ann''\<rparr>"

definition ex_tokens :: "token list" where
  "ex_tokens = map (\<lambda>b. \<lparr>tok = replicate 32 b, sig = [6], secret = replicate 32 b\<rparr>) [1, 2, 3, 4]"

definition ex_wallets :: "wallet \<times> wallet \<times> storage" where
  "ex_wallets = (let (w, st) = fst (add 7 ex_tokens (new_wallet '''' None POST_WALLET_ITEMS, []))
     in (w, makePoolWallet PictureWrite '''' None, st))"

definition ex_community :: community where
  "ex_community = setActiveCommunityKey (Some [1, 2]) new_community"

definition ex_keys :: content_keys where
  "ex_keys = setContentEpochKey 4 (replicate 32 9) new_keys"

definition ex_sign :: "bool \<Rightarrow> community \<Rightarrow> content_keys \<Rightarrow> (wallet \<times> wallet \<times> storage) \<times> (blind_error + event)" where
  "ex_sign required com keys =
     blind_sign ex_crypto ex_nip (0, 0, 0, 0) (998, 999, 1000) (ex_signer required) com keys ex_post ex_wallets"

definition ex_sealed :: unsigned_event where
  "ex_sealed = ex_post\<lparr>u_content := ''Bhi'', u_tags := [[''t'', ''x''], [TAG_ENC, ENC_NIP44], [TAG_KE, ''4'']]\<rparr>"

lemma ex_literals:
  "blen (json_string ''kind'') = 6" "blen (json_string ''created_at'') = 12" "blen (json_string ''tags'') = 6"
  "blen (json_string ''content'') = 9" "blen (json_string ''pubkey'') = 8" "blen (json_string ''id'') = 4"
  "blen (json_string ''sig'') = 5" "blen (json_string ''bind'') = 6" "blen (json_string ''nm'') = 4"
  "blen (json_string ''ann'') = 5" "blen (json_string '''') = 2" "blen (json_string (bytesToHex [7])) = 4"
  by code_simp+

lemma ex_probe_width: "blen (post_attribution ex_nip [7] [1, 2] ex_post 998 PROBE_EVENT_PUBKEY_HEX) = 366"
proof -
  have meta: "or_undefined (fst (decodeNameHeader (u_content ex_post))) = Some ''ann''"
    "decodeGradientHeader (u_content ex_post) = None" "js_int 998 = ''998''" by code_simp+
  have "js_dec 27555 = ''27555''" by (simp add: js_dec.simps hex_digit_def)
  then have dec: "blen (js_dec 27555) = 5" by (simp add: cp_bytes_def)
  have hex: "blen (json_string PROBE_EVENT_PUBKEY_HEX) = 66" "blen (json_string (replicate 64 (CHR ''a''))) = 66"
    "blen (json_string (replicate 128 (CHR ''7''))) = 130"
    using blen_hex_json hex_text_probe by (simp_all add: hex_text_def list_all_iff hex_val_def)
  show ?thesis
    by (simp add: post_attribution_def buildAttribution_def meta attestation_def ex_nip_def json_event_def json_field_def
        json_array_def KIND_ATTESTATION_def ATTR_BIND_def ATTR_NAME_def truthy_def ex_literals hex dec cp_bytes_def)
qed

lemma ex_cost:
  assumes "blen attr = 366"
  shows "event_cost 200 ex_sealed attr = 3"
proof -
  have "blen ''Bhi'' = 3" "blen ''t'' = 1" "blen ''x'' = 1" "blen TAG_ENC = 9" "blen ENC_NIP44 = 5" "blen TAG_KE = 2"
    "blen ''4'' = 1" "blen TAG_ATTR = 9"
    by code_simp+
  moreover have "\<not> token_tag [units ''t'', y]" "\<not> token_tag [units TAG_ENC, y]" "\<not> token_tag [units TAG_KE, y]"
    "\<not> token_tag [units TAG_ATTR, y]" for y
    by (simp_all add: token_tag_def) (simp_all add: TAG_TOKEN_def TAG_SIG_def TAG_SPEND_def)
  ultimately show ?thesis
    using assms by (simp add: event_cost_def tokenCost_def chargeableWeight_sum ex_sealed_def flip: blen_def)
qed

lemma ex_add_loop: "add_loop 7 ex_tokens [] [] = map (stored_of 7) ex_tokens"
  by (simp add: ex_tokens_def)

lemma ex_held: "held (fst ex_wallets) = map (stored_of 7) ex_tokens" "hydrated (fst ex_wallets)"
  and ex_stored: "snd (snd ex_wallets) = [(''stiq.wallet.tokens'', Json (JArr (map token_json (map (stored_of 7) ex_tokens)))),
      (''stiq.wallet.epoch'', Json (JNum 7))]"
  and ex_media: "held (fst (snd ex_wallets)) = []"
  by (simp_all add: ex_wallets_def add_def hydrate_def reconciled_def reconcileKey_def new_wallet_def getItem_def setItem_def
      persist_def ex_add_loop POST_WALLET_ITEMS_def ns_suffix_def truthy_def makePoolWallet_def)

lemma ex_spend: "\<exists>ws. spendMany 3 (fst ex_wallets, snd (snd ex_wallets)) = (ws, Inr (Some (take 3 ex_tokens)))"
proof -
  have "unstore_all (take 3 (map (stored_of 7) ex_tokens)) = Inr (take 3 ex_tokens)" by (simp add: take_map)
  moreover have "\<not> length ex_tokens < 3" by (simp add: ex_tokens_def)
  ultimately show ?thesis by (simp add: spendMany_def hydrate_def ex_held Let_def)
qed

lemma ex_spend_tags: "spend_tags ex_crypto (bytesToHex (replicate 32 1)) (tl (take 3 ex_tokens)) \<noteq> None"
  by code_simp

lemma ex_sealed_body: "sealed_body ex_nip (ex_signer True) ex_keys ex_post = Inr ex_sealed"
  by code_simp

lemma ex_sign_ok:
  obtains ws e where "ex_sign True ex_community ex_keys = (ws, Inr e)" "length (filter (tag_is TAG_TOKEN) (tags e)) = 3"
proof -
  obtain w mw st where W: "ex_wallets = (w, mw, st)" by (cases ex_wallets)
  obtain w' st' where sp: "spendMany 3 (w, st) = ((w', st'), Inr (Some (take 3 ex_tokens)))"
    using ex_spend by (auto simp: W)
  define attr where "attr = post_attribution ex_nip [7] [1, 2] ex_post 999"
  obtain r where "spend_tags ex_crypto (bytesToHex (replicate 32 1)) (tl (take 3 ex_tokens)) = Some r"
    using ex_spend_tags by blast
  then obtain e where fin: "finish_sign ex_crypto (0, 0, 0, 0) 1000 attr ex_sealed (Inr (Some (take 3 ex_tokens))) = Inr e"
    by (auto simp: finish_sign_def assembleBlindEvent_def ex_tokens_def)
  then obtain a where a: "assembleBlindEvent ex_crypto (0, 0, 0, 0) 1000 ex_sealed (take 3 ex_tokens) a = Inr e"
    by (auto simp: finish_sign_def split: if_splits)
  have "plain_tags (u_tags ex_sealed)" by code_simp
  from assembled_count[OF a this] have three: "length (filter (tag_is TAG_TOKEN) (tags e)) = 3"
    by (simp add: ex_tokens_def)
  have "active_key ex_community = Some [1, 2]" "s_secret (ex_signer True) = Some [7]"
    "s_route (ex_signer True) ex_post = None" "s_bytesPerToken (ex_signer True) = 200" by code_simp+
  with sp fin have "\<exists>ws. ex_sign True ex_community ex_keys = (ws, Inr e)"
    using ex_cost[OF ex_probe_width]
    by (simp add: ex_sign_def blind_sign_def ex_sealed_body routed_sign_def post_sign_def W flip: attr_def)
  with three that show ?thesis by blast
qed

lemma ex_widths: "finalize_ok ex_nip" "wire_widths ex_nip" "ecma_json ex_nip" "nip44_widths ex_nip"
  by (simp_all add: finalize_ok_def wire_widths_def ecma_json_def nip44_widths_def ex_nip_def hex_text_def
      list_all_iff hex_val_def cp_bytes_def)

lemma wide_stored_of [simp]: "wide (stored_of ep t) \<longleftrightarrow> length (tok t) = 32"
  by (simp add: wide_def)

lemma ex_wide: "wide_wallets ex_wallets"
proof -
  obtain w mw st where W: "ex_wallets = (w, mw, st)" by (cases ex_wallets)
  have "list_all (\<lambda>t. length (tok t) = 32) ex_tokens" by (simp add: ex_tokens_def)
  then have h: "list_all wide (map (stored_of 7) ex_tokens)" by (simp add: list_all_iff)
  then have "wide_items st"
    using ex_stored parsed_tokens_json[of "map (stored_of 7) ex_tokens"]
    by (auto simp: W wide_items_def getItem_def split: if_splits)
  with h ex_held(1) ex_media show ?thesis by (simp add: W wide_wallets_def wide_wallet_def)
qed

theorem blind_sign_pays_exactly_witness:
  "\<exists>e. snd (ex_sign True ex_community ex_keys) = Inr e
    \<and> tokenCost (units (content e)) (map (map units) (tags e)) 200 = 3"
proof -
  obtain ws e where e: "ex_sign True ex_community ex_keys = (ws, Inr e)"
    and three: "length (filter (tag_is TAG_TOKEN) (tags e)) = 3" by (rule ex_sign_ok)
  have "length (js_int 998) = length (js_int 999)" "plain_tags (u_tags ex_post)"
    "active_key ex_community \<noteq> None" "s_bytesPerToken (ex_signer True) = 200"
    by code_simp+
  with blind_sign_pays_exactly[OF ex_widths _ _ ex_wide e[unfolded ex_sign_def]] e three show ?thesis by auto
qed

theorem sealing_fails_closed_witness:
  "ex_sign True ex_community new_keys = (ex_wallets, Inl SealKeyUnavailable)
   \<and> (\<exists>e. snd (ex_sign True ex_community ex_keys) = Inr e \<and> [TAG_KE, ''4''] \<in> set (tags e) \<and> content e = ''Bhi'')"
proof -
  have req: "s_sealRequired (ex_signer True)" and act: "active_key ex_community = Some [1, 2]"
    and keys: "getWriteContentKey new_keys = None" "getWriteContentKey ex_keys = Some (4, replicate 32 9)"
    and body: "s_encrypt ex_nip (snd (decodeNameHeader (u_content ex_post))) (replicate 32 9) = ''Bhi''" "js_int 4 = ''4''"
    by code_simp+
  obtain ws e where "ex_sign True ex_community ex_keys = (ws, Inr e)" by (rule ex_sign_ok)
  then obtain w mw st where e: "ex_sign True ex_community ex_keys = ((w, mw, st), Inr e)" by (cases ws) auto
  show ?thesis
    using sealing_fails_closed[OF req, where com = ex_community and C = ex_crypto and P = ex_nip and rnd = "(0, 0, 0, 0)"
        and clock = "(998, 999, 1000)" and keys = new_keys and u = ex_post and ws = ex_wallets]
      sealing_fails_closed[OF req, where com = ex_community and C = ex_crypto and P = ex_nip and rnd = "(0, 0, 0, 0)"
        and clock = "(998, 999, 1000)" and keys = ex_keys and u = ex_post and ws = ex_wallets]
      e act keys body by (auto simp: ex_sign_def)
qed

text \<open>
  The requirement to seal is not consulted before a community key is loaded: the same post, with
  sealing required and no epoch key, leaves in plain text under the identity's own key.
\<close>

theorem sealing_skipped_without_community_key:
  "s_sealRequired (ex_signer True) \<and> getWriteContentKey new_keys = None
   \<and> (\<exists>e. ex_sign True new_community new_keys = (ex_wallets, Inr e) \<and> pubkey e = ''07''
        \<and> snd (decodeNameHeader (content e)) = ''hi'')"
proof -
  have "getWriteContentKey new_keys = None" "snd (decodeNameHeader (u_content ex_post)) = ''hi''" by code_simp+
  then show ?thesis by (simp add: ex_sign_def blind_sign_def new_community_def ex_signer_def)
qed

end
