(* ===== verification/Spec2Isabelle.thy ===== *)
theory Spec2Isabelle
  imports Reconciliation Outbox Lock AutoLock Voting Moderation Connectivity RelaySync RelayFetch RelayPublish
    SpaceKeys BlindSigner
begin

text \<open>
  Verification of the Stiq client, the TypeScript application under \<open>client/src\<close>.

  Stiq is a Nostr client for closed communities.  A member writes posts that a relay cannot link:
  each post is signed by a fresh key, paid for with blind-signed tokens, carries its author only
  in an encrypted attribution and, where the community asks for it, an encrypted body.  The
  relay stores events; every decision about who is shown what is taken by each client from the
  events it holds, so the modules below must give the same answer on every device.

  \<^bold>\<open>Parts and theories.\<close>  Paths are under \<open>client/src\<close>.

  \<^item> \<open>Prelude\<close>: JavaScript lists, maps, sets and sorting, and the secure store of
    \<open>keys/keystore.ts\<close> with its contract (locale \<open>secure_storage\<close>).
  \<^item> \<open>Encoding\<close>: \<open>util/base64.ts\<close>, \<open>util/hex.ts\<close>, \<open>util/utf8.ts\<close>.
  \<^item> \<open>EventStore\<close>: \<open>nostr/store.ts\<close> and \<open>nostr/cacheExempt.ts\<close>.  State: the two indexes and the
    version counters (\<open>mstore\<close>), the debounced encrypted persistence around it (\<open>pstore\<close>, a step
    relation \<open>p_steps\<close> over saves, timers and completed writes), the swap of communities
    (\<open>swap\<close>).  The per-kind index refines a scan over the cached events.
  \<^item> \<open>Negentropy\<close> and \<open>Reconciliation\<close>: \<open>nostr/negentropy.ts\<close>, the item storage, the message codec and
    both sides of the protocol.
  \<^item> \<open>Wallet\<close>: \<open>blind/wallet.ts\<close>, \<open>blind/tokenPool.ts\<close>, \<open>blind/drawStaging.ts\<close>, tokens in memory and in
    the secure store.
  \<^item> \<open>BlindPost\<close>: \<open>blind/tokenCost.ts\<close>, \<open>blind/holderProof.ts\<close>, \<open>blind/blindPost.ts\<close>, pricing and
    assembly of a post.  \<open>DisplayName\<close>: the headers of \<open>profile/displayName.ts\<close>.  \<open>BlindSigner\<close>:
    \<open>blind/blindSigner.ts\<close>, the signer over the wallets, the community key and attribution of
    \<open>Identity\<close> and the write key of \<open>ContentKey\<close>.
  \<^item> \<open>DoubleSpend\<close>: \<open>blind/doubleSpend.ts\<close>, \<open>blind/spendWitness.ts\<close>, the detection of tokens spent twice.
  \<^item> \<open>Identity\<close> and \<open>ContentKey\<close>: \<open>blind/attribution.ts\<close>, \<open>blind/identity.ts\<close>, \<open>blind/memberRoll.ts\<close>,
    \<open>blind/communityKey.ts\<close>, \<open>blind/contentKey.ts\<close> and the reading half of \<open>blind/blindPost.ts\<close>: who
    wrote a post and what it says.  \<open>Viewer\<close> collects what the feed modules ask of them.
  \<^item> \<open>Outbox\<close>: \<open>nostr/outbox.ts\<close>, the queue of events to send.
  \<^item> \<open>Lock\<close> and \<open>AutoLock\<close>: \<open>lock/pin.ts\<close>, \<open>lock/attemptLimiter.ts\<close>, \<open>lock/duress.ts\<close>,
    \<open>lock/autolock.ts\<close>: the vault with a standard and a duress PIN, the limiter of guesses, the wipe.
  \<^item> \<open>Thread\<close>: \<open>feed/comments.ts\<close>, \<open>feed/pinned.ts\<close>, \<open>feed/thread.ts\<close>, comments and their tree.
  \<^item> \<open>Latest\<close>: the fold that keeps the newest (or earliest) record per target, which the next three
    theories share (locale \<open>preference\<close>, interpreted for \<open>>\<close>, \<open>>=\<close> and \<open><\<close>).
  \<^item> \<open>Voting\<close>: \<open>feed/voting.ts\<close>.
  \<^item> \<open>Reports\<close>: \<open>moderation/report.ts\<close>, \<open>moderation/moderators.ts\<close>, \<open>moderation/advisory.ts\<close>,
    \<open>moderation/bans.ts\<close>, the moderators' actions.
  \<^item> \<open>Moderation\<close>: \<open>moderation/filter.ts\<close>, \<open>moderation/autoModeration.ts\<close>, \<open>feed/postRules.ts\<close> and the
    threshold of \<open>moderation/queue.ts\<close>.  The moderated feed composes the event store, the reports,
    the authors of blind posts and the double-spend detection.
  \<^item> \<open>Timeline\<close>, \<open>TorConfig\<close> and \<open>TorManager\<close>: \<open>tor/bootstrapTiming.ts\<close>, \<open>tor/bootstrapCoalescer.ts\<close>,
    \<open>tor/onionAuth.ts\<close>, \<open>tor/bridges.ts\<close>, \<open>tor/TorManager.ts\<close>.  The manager is a step function
    \<open>tm_step\<close> over calls, settled promises, daemon events and the armed deadline; \<open>tm_run\<close> folds it.
  \<^item> \<open>Connectivity\<close>: \<open>tor/ladder.ts\<close> and \<open>connectGuided\<close> of \<open>App.tsx\<close>, \<open>nostr/reconnectBackoff.ts\<close>,
    \<open>nostr/inboundBudget.ts\<close>, \<open>nostr/syncWatermark.ts\<close>, \<open>connection.ts\<close>.
  \<^item> \<open>Protocol\<close>, \<open>Backfill\<close> and \<open>RelayClient\<close>: \<open>nostr/protocol.ts\<close>, \<open>nostr/rejection.ts\<close>,
    \<open>nostr/RelayClient.ts\<close>.  The client is a step function \<open>rc_step\<close> over frames, timers, calls and the
    opening of the socket; it keeps the event store and drives \<open>Negentropy\<close>.  \<open>Backfill\<close> holds the
    state of a paged subscription and runs it against an arbitrary relay.  \<open>RelaySync\<close>, \<open>RelayFetch\<close>
    and \<open>RelayPublish\<close> hold what runs of the client reach, each over a relation or a view that the
    operations keep.
  \<^item> \<open>Gradient\<close> and \<open>Spaces\<close>: \<open>media/gradient.ts\<close> as data, \<open>channels/groups.ts\<close>, \<open>channels/channels.ts\<close>,
    \<open>channels/promote.ts\<close>: groups whose state the relay keeps and whose creator seeds it locally, channels
    signed by their owner, their messages with edits, the memoized list of spaces over the event store.
  \<^item> \<open>Membership\<close>: \<open>channels/membership.ts\<close>, \<open>channels/groupMembership.ts\<close>,
    \<open>channels/encryptedSpaces.ts\<close>, \<open>channels/subscriptions.ts\<close>, \<open>channels/interactions.ts\<close>: join requests,
    the folded list of invites, the records a device keeps of its spaces.
  \<^item> \<open>SpaceKeys\<close>: \<open>channels/groupCrypto.ts\<close>: the keys of encrypted spaces, their delivery, invitation
    links and storage by account and epoch.

  \<^bold>\<open>Conventions.\<close>  A class is a record and a method a function on it that returns the new state; a
  \<open>Map\<close> is an association list in insertion order updated with \<^const>\<open>AList.update\<close>, a \<open>Set\<close> that is
  iterated a distinct list, \<open>sort\<close> the stable \<^const>\<open>js_sort\<close>.  What throws returns a sum with an error
  datatype of its own; \<open>undefined\<close> and \<open>null\<close> are \<^const>\<open>None\<close>.  JavaScript numbers that are counters or
  times are \<^typ>\<open>int\<close> or \<^typ>\<open>nat\<close>; bytes and the 32-bit operations of the codecs and fingerprints are
  words.  Strings are character lists, and where the encoding matters lists of 16-bit units
  (\<open>units\<close>).  The clock and random bytes are arguments.

  \<^bold>\<open>Parameters.\<close>  Cryptography of third-party packages is a parameter with its documented laws as
  named hypotheses: the record \<open>crypto\<close> of hash and Schnorr functions (\<open>schnorr_ok\<close>), the key derivation of
  the vault (\<open>kdf_separates\<close>), the signing and encryption of attributions (\<open>finalize_ok\<close>, \<open>readable\<close>, and for
  their size \<open>wire_widths\<close>, \<open>nip44_widths\<close>, \<open>ecma_json\<close>),
  the fingerprint hash of the reconciliation, NIP-44 and \<open>localeCompare\<close> in the theories of spaces.  \<open>Number\<close>
  on a text is an argument \<open>number\<close> where a text from outside is read.  Witness theorems instantiate each of them.  The
  npub codec of the moderation theories is left open, and so is \<open>bodyForMeasure\<close>, which strips inline
  media from a text before it is measured; the theorems hold for every choice.

  \<^bold>\<open>What the lemmas show.\<close>  Refinement: the indexed store answers like a scan, the vault like an
  abstract vault that knows two PINs, the wallet like a queue, the stored content keys like a map from account and epoch, the space keys like
  one from account, space and epoch.
  Exactness: the double-spend losers, the comments of a thread, the votes, the moderated feed, the
  log, the automatic hides and the report threshold are characterised by conditions on the set of
  cached events, so they do not depend on the order of arrival.  Safety: with a community key loaded, a
  post that must be sealed never leaves unsealed; an attribution cannot be moved to another post; only moderators
  moderate, except that enough members together withhold a post for review.  Bounds: the rate of PIN guesses, the price of a post.  Round trips: the
  outbox, comment links, bans.  Transport: the manager hands out only the daemon's proxy, its promises
  settle, the guided ladder ends and never runs two daemons.  Relay client: only verified events
  enter the cache, the paged backfill ends and is complete, synchronisation ends and is reported
  once, the fetch queue drains, every publish is answered once and unlinkable events stay off the
  shared socket.  Spaces: the state of a group is the relay's newest copy, else the creator's seed;
  only an author's own edit changes a message; only a channel's owner defines it; the list of
  invites is exactly the standing ones.

  \<^bold>\<open>Bounds and termination.\<close>  All definitions are total.  The thread builder recurses to the depth
  \<open>MAX_COMMENT_DEPTH\<close> of the source, so comments below that depth are absent from the thread, as in the
  code.  The negentropy results are stated for sets below twice the fan-out and unlimited frames,
  where one exchange suffices; the multi-round descent is modelled and not yet proved complete.

  \<^bold>\<open>Not modelled.\<close>  The React screens and components, the native bindings, sockets and the SQLite
  store (their behaviour is that of third-party code), the runtime that wires the modules together,
  the relay and the issuer (other languages).  Of \<open>App.tsx\<close> only the guided walk is modelled.  Of
  the spaces, embedded cards, settings documents and the frame of an invite message are left out.
  Direct messages, the event calendar, notifications, mirrors, and the review queue are the next
  parts to add.
\<close>

end
